(* ===== verification/Prelude.thy ===== *)
theory Prelude
  imports Main "HOL-Library.Word" "HOL-Library.Monad_Syntax"
begin

unbundle bit_operations_syntax

text \<open>
  Shared vocabulary of the development: the names of Rust's unsigned integer types, the
  saturating and checked operations of the standard library, big-endian and little-endian
  byte encodings, and the bounds-checked slice access \<^verbatim>\<open>buf.get(a..b)\<close>. The generic
  lemmas about lists and bytes that several components need are proved here once.

  Conventions used by every component theory:
  \<^item> \<open>usize\<close> values and millisecond time stamps are natural numbers; where the source uses a
    checked or saturating operation its 64-bit bound is written out;
  \<^item> integers on which the source works bit by bit or modulo their width are words;
  \<^item> a function that can panic returns an \<^typ>\<open>'a option\<close> with \<^const>\<open>None\<close> for the panic
    (type synonym \<open>exec\<close>); a Rust function that returns an \<open>Option\<close> and can also panic
    returns an option inside an \<open>exec\<close>.
\<close>

section \<open>Integers\<close>

type_synonym u8 = "8 word"
type_synonym u16 = "16 word"
type_synonym u32 = "32 word"
type_synonym u64 = "64 word"
type_synonym bytes = "u8 list"
type_synonym 'a exec = "'a option"

named_theorems codec_simps "lengths and round trips of the byte encodings"
named_theorems inv_intros "preservation of component invariants"

definition u64_max :: nat where
  "u64_max = 18446744073709551615"

text \<open>\<^verbatim>\<open>u64::saturating_add\<close>, \<^verbatim>\<open>saturating_mul\<close>, and \<^verbatim>\<open>usize::checked_mul\<close> on the natural
  number a 64-bit value denotes; saturating subtraction is the subtraction of \<^typ>\<open>nat\<close>.\<close>

definition sat_add :: "nat \<Rightarrow> nat \<Rightarrow> nat" where
  "sat_add a b = min (a + b) u64_max"

definition sat_mul :: "nat \<Rightarrow> nat \<Rightarrow> nat" where
  "sat_mul a b = min (a * b) u64_max"

definition checked_mul :: "nat \<Rightarrow> nat \<Rightarrow> nat option" where
  "checked_mul a b = (if a * b \<le> u64_max then Some (a * b) else None)"

definition checked_add :: "nat \<Rightarrow> nat \<Rightarrow> nat option" where
  "checked_add a b = (if a + b \<le> u64_max then Some (a + b) else None)"

definition checked_sub :: "nat \<Rightarrow> nat \<Rightarrow> nat option" where
  "checked_sub a b = (if b \<le> a then Some (a - b) else None)"

definition div_ceil :: "nat \<Rightarrow> nat \<Rightarrow> nat" where
  "div_ceil a b = (a + b - 1) div b"

lemma sat_add_ge [simp]: "a \<le> u64_max \<Longrightarrow> a \<le> sat_add a b"
  by (simp add: sat_add_def)

lemma sat_add_le_max [simp]: "sat_add a b \<le> u64_max"
  by (simp add: sat_add_def)

lemma sat_add_id: "a + b \<le> u64_max \<Longrightarrow> sat_add a b = a + b"
  by (simp add: sat_add_def)

lemma checked_mul_Some [simp]: "checked_mul a b = Some c \<longleftrightarrow> c = a * b \<and> a * b \<le> u64_max"
  by (auto simp: checked_mul_def)

lemma checked_sub_Some [simp]: "checked_sub a b = Some c \<longleftrightarrow> b \<le> a \<and> c = a - b"
  by (auto simp: checked_sub_def)

lemma div_ceil_le_iff:
  assumes "0 < b"
  shows "div_ceil a b \<le> k \<longleftrightarrow> a \<le> k * b"
proof
  assume "div_ceil a b \<le> k"
  then have "a + b - 1 < Suc k * b"
    using assms by (simp add: div_ceil_def less_Suc_eq_le [symmetric] less_mult_imp_div_less
        div_less_iff_less_mult)
  then show "a \<le> k * b" by simp
next
  assume "a \<le> k * b"
  then have "a + b - 1 < Suc k * b" using assms by simp
  then show "div_ceil a b \<le> k"
    using assms by (simp add: div_ceil_def less_Suc_eq_le [symmetric] div_less_iff_less_mult)
qed

lemma div_ceil_gt_iff: "0 < b \<Longrightarrow> k < div_ceil a b \<longleftrightarrow> k * b < a"
  using div_ceil_le_iff [of b a k] by linarith

lemma div_ceil_ge: "0 < b \<Longrightarrow> a \<le> div_ceil a b * b"
  using div_ceil_le_iff by blast

lemma div_ceil_pos: "0 < b \<Longrightarrow> 0 < div_ceil a b \<longleftrightarrow> 0 < a"
  using div_ceil_gt_iff [of b 0 a] by simp

section \<open>Bytes\<close>

text \<open>\<open>be_bytes n x\<close> is the \<open>n\<close>-byte big-endian form of \<open>x\<close> (\<^verbatim>\<open>to_be_bytes\<close>), \<open>be_val\<close> reads
  one (\<^verbatim>\<open>from_be_bytes\<close>); \<open>le_bytes\<close> and \<open>le_val\<close> are their little-endian mirror images.\<close>

fun be_bytes :: "nat \<Rightarrow> nat \<Rightarrow> bytes" where
  "be_bytes 0 x = []"
| "be_bytes (Suc n) x = be_bytes n (x div 256) @ [of_nat x]"

definition be_val :: "bytes \<Rightarrow> nat" where
  "be_val bs = foldl (\<lambda>acc b. acc * 256 + unat b) 0 bs"

definition le_bytes :: "nat \<Rightarrow> nat \<Rightarrow> bytes" where
  "le_bytes n x = rev (be_bytes n x)"

definition le_val :: "bytes \<Rightarrow> nat" where
  "le_val bs = be_val (rev bs)"

definition be16 :: "u16 \<Rightarrow> bytes" where
  "be16 w = be_bytes 2 (unat w)"

definition be32 :: "u32 \<Rightarrow> bytes" where
  "be32 w = be_bytes 4 (unat w)"

definition be64 :: "u64 \<Rightarrow> bytes" where
  "be64 w = be_bytes 8 (unat w)"

definition un16 :: "bytes \<Rightarrow> u16" where
  "un16 bs = of_nat (be_val bs)"

definition un32 :: "bytes \<Rightarrow> u32" where
  "un32 bs = of_nat (be_val bs)"

definition un64 :: "bytes \<Rightarrow> u64" where
  "un64 bs = of_nat (be_val bs)"

lemma unat_u8_less: "unat (b :: u8) < 256"
  using unsigned_less [of b, where 'a = nat] by simp

lemma unat_u16_less: "unat (w :: u16) < 65536"
  using unsigned_less [of w, where 'a = nat] by simp

lemma unat_u32_less: "unat (w :: u32) < 4294967296"
  using unsigned_less [of w, where 'a = nat] by simp

lemma unat_u64_less: "unat (w :: u64) < 18446744073709551616"
  using unsigned_less [of w, where 'a = nat] by simp

lemma length_be_bytes [simp, codec_simps]: "length (be_bytes n x) = n"
  by (induction n arbitrary: x) auto

lemma be_val_Nil [simp]: "be_val [] = 0"
  by (simp add: be_val_def)

lemma be_val_snoc [simp]: "be_val (bs @ [b]) = be_val bs * 256 + unat b"
  by (simp add: be_val_def)

lemma be_val_be_bytes: "be_val (be_bytes n x) = x mod 256 ^ n"
proof (induction n arbitrary: x)
  case 0
  then show ?case by simp
next
  case (Suc n)
  have "unat (of_nat x :: u8) = x mod 256"
    by (simp add: unat_of_nat)
  then show ?case
    using Suc by (simp add: mod_mult2_eq mult.commute)
qed

lemma be_bytes_be_val: "be_bytes (length bs) (be_val bs) = bs"
proof (induction bs rule: rev_induct)
  case Nil
  then show ?case by simp
next
  case (snoc b bs)
  have "(be_val bs * 256 + unat b) div 256 = be_val bs"
    using unat_u8_less [of b] by simp
  moreover have "(of_nat (be_val bs * 256 + unat b) :: u8) = b"
  proof -
    have "(of_nat 256 :: u8) = 0" by (simp only: word_of_nat_eq_0_iff) simp
    then have "(of_nat (be_val bs * 256) :: u8) = 0" by (simp only: of_nat_mult mult_zero_right)
    then show ?thesis by (simp only: of_nat_add) simp
  qed
  ultimately show ?case using snoc by simp
qed

lemma be_val_less: "be_val bs < 256 ^ length bs"
  by (metis be_bytes_be_val be_val_be_bytes mod_less_divisor zero_less_numeral zero_less_power)

lemma be_bytes_inject:
  "x < 256 ^ n \<Longrightarrow> y < 256 ^ n \<Longrightarrow> be_bytes n x = be_bytes n y \<longleftrightarrow> x = y"
  by (metis be_val_be_bytes mod_less)

lemma length_be16 [simp, codec_simps]: "length (be16 w) = 2"
  by (simp add: be16_def)

lemma length_be32 [simp, codec_simps]: "length (be32 w) = 4"
  by (simp add: be32_def)

lemma length_be64 [simp, codec_simps]: "length (be64 w) = 8"
  by (simp add: be64_def)

lemma un16_be16 [simp, codec_simps]: "un16 (be16 w) = w"
  using unat_u16_less [of w] by (simp add: un16_def be16_def be_val_be_bytes)

lemma un32_be32 [simp, codec_simps]: "un32 (be32 w) = w"
  using unat_u32_less [of w] by (simp add: un32_def be32_def be_val_be_bytes)

lemma un64_be64 [simp, codec_simps]: "un64 (be64 w) = w"
  using unat_u64_less [of w] by (simp add: un64_def be64_def be_val_be_bytes)

lemma be16_un16 [codec_simps]: "length bs = 2 \<Longrightarrow> be16 (un16 bs) = bs"
  using be_val_less [of bs] be_bytes_be_val [of bs]
  by (simp add: un16_def be16_def unat_of_nat)

lemma be32_un32 [codec_simps]: "length bs = 4 \<Longrightarrow> be32 (un32 bs) = bs"
  using be_val_less [of bs] be_bytes_be_val [of bs]
  by (simp add: un32_def be32_def unat_of_nat)

lemma be64_un64 [codec_simps]: "length bs = 8 \<Longrightarrow> be64 (un64 bs) = bs"
  using be_val_less [of bs] be_bytes_be_val [of bs]
  by (simp add: un64_def be64_def unat_of_nat)

lemma length_le_bytes [simp, codec_simps]: "length (le_bytes n x) = n"
  by (simp add: le_bytes_def)

lemma le_val_le_bytes: "le_val (le_bytes n x) = x mod 256 ^ n"
  by (simp add: le_val_def le_bytes_def be_val_be_bytes)

section \<open>Slices\<close>

text \<open>\<^verbatim>\<open>buf.get(a..b)\<close>: the sub-slice, or \<^const>\<open>None\<close> when the range does not lie in the buffer;
  \<^verbatim>\<open>buf.get(a..)\<close> is \<open>slice_from\<close>.\<close>

definition slice :: "'a list \<Rightarrow> nat \<Rightarrow> nat \<Rightarrow> 'a list option" where
  "slice xs a b = (if a \<le> b \<and> b \<le> length xs then Some (take (b - a) (drop a xs)) else None)"

definition slice_from :: "'a list \<Rightarrow> nat \<Rightarrow> 'a list option" where
  "slice_from xs a = (if a \<le> length xs then Some (drop a xs) else None)"

definition byte_at :: "'a list \<Rightarrow> nat \<Rightarrow> 'a option" where
  "byte_at xs i = (if i < length xs then Some (xs ! i) else None)"

text \<open>\<^verbatim>\<open>dst[at..at + src.len()].copy_from_slice(src)\<close>: overwrite a range that lies in the buffer.\<close>

definition splice :: "'a list \<Rightarrow> nat \<Rightarrow> 'a list \<Rightarrow> 'a list" where
  "splice dst at src = take at dst @ src @ drop (at + length src) dst"

lemma length_splice [simp]:
  "at + length src \<le> length dst \<Longrightarrow> length (splice dst at src) = length dst"
  by (simp add: splice_def)

lemma nth_splice:
  "at + length src \<le> length dst \<Longrightarrow> i < length dst \<Longrightarrow>
   splice dst at src ! i = (if at \<le> i \<and> i < at + length src then src ! (i - at) else dst ! i)"
  by (auto simp: splice_def nth_append min_def)

lemma slice_append_left:
  "b \<le> length xs \<Longrightarrow> slice (xs @ ys) a b = slice xs a b"
  by (auto simp: slice_def)

lemma slice_append_right:
  "length xs \<le> a \<Longrightarrow> a \<le> b \<Longrightarrow> slice (xs @ ys) a b = slice ys (a - length xs) (b - length xs)"
  by (auto simp: slice_def)

lemma slice_exact: "slice (xs @ ys @ zs) (length xs) (length xs + length ys) = Some ys"
  by (simp add: slice_def)

lemma slice_SomeD: "slice xs a b = Some ys \<Longrightarrow> length ys = b - a \<and> a \<le> b \<and> b \<le> length xs"
  by (auto simp: slice_def split: if_splits)

section \<open>Lists\<close>

lemma nth_eq_iff_distinct:
  "distinct xs \<Longrightarrow> i < length xs \<Longrightarrow> j < length xs \<Longrightarrow> xs ! i = xs ! j \<longleftrightarrow> i = j"
  by (rule nth_eq_iff_index_eq)

lemma those_map_Some [simp]: "those (map (\<lambda>x. Some (f x)) xs) = Some (map f xs)"
  by (induction xs) auto

lemma those_map_cong:
  "(\<And>x. x \<in> set xs \<Longrightarrow> f x = Some (g x)) \<Longrightarrow> those (map f xs) = Some (map g xs)"
  by (induction xs) auto

lemma mod_near:
  fixes a b w :: nat
  assumes "a mod w = b mod w" "b \<le> a" "a < b + w"
  shows "a = b"
proof (rule ccontr)
  assume "a \<noteq> b"
  moreover have "w dvd a - b" using assms(1,2) by (metis mod_eq_dvd_iff_nat)
  ultimately have "w \<le> a - b" using assms(2) by (intro dvd_imp_le) simp_all
  then show False using assms by linarith
qed

section \<open>Lexicographic comparison\<close>

text \<open>The order of byte arrays.\<close>

fun lex_less :: "bytes \<Rightarrow> bytes \<Rightarrow> bool" where
  "lex_less [] ys \<longleftrightarrow> ys \<noteq> []"
| "lex_less (x # xs) [] \<longleftrightarrow> False"
| "lex_less (x # xs) (y # ys) \<longleftrightarrow> x < y \<or> x = y \<and> lex_less xs ys"

lemma lex_less_Nil [simp]: "\<not> lex_less xs []"
  by (cases xs) simp_all

lemma lex_less_asym: "lex_less x y \<Longrightarrow> \<not> lex_less y x"
  by (induction x y rule: lex_less.induct) auto

lemma lex_less_total: "length x = length y \<Longrightarrow> x \<noteq> y \<Longrightarrow> lex_less x y \<or> lex_less y x"
  by (induction x y rule: lex_less.induct) auto

end
