(* ===== verification/Gf256.thy ===== *)
theory Gf256
  imports Prelude
begin

text \<open>
  The field core \<^verbatim>\<open>crates/yip-transport/src/gf256.rs\<close>: the logarithm and antilogarithm tables
  of \<open>GF(2^8)\<close> modulo \<open>x^8 + x^4 + x^3 + x^2 + 1\<close>, built by the same loop as the source, and the
  table-driven operations on bytes. The theory shows that bytes with these operations are a
  field: the type \<open>gf\<close> wraps a byte and is an instance of the library's class \<open>field\<close>, and
  the table-driven functions compute the field operations.
\<close>

section \<open>The model\<close>

definition POLY :: u8 where
  "POLY = 0x1d"

record tables =
  exp_tab :: bytes
  log_tab :: bytes

text \<open>One doubling \<open>x *= 2\<close> of the loop body.\<close>

definition xtime :: "u8 \<Rightarrow> u8" where
  "xtime x = (let hi = x AND 0x80; y = push_bit 1 x in if hi \<noteq> 0 then y XOR POLY else y)"

definition tables_step :: "nat \<Rightarrow> bytes \<times> bytes \<times> u8 \<Rightarrow> bytes \<times> bytes \<times> u8" where
  "tables_step i s = (case s of (e, l, x) \<Rightarrow> (e[i := x], l[unat x := of_nat i], xtime x))"

definition tables :: tables where
  "tables =
     (case fold tables_step [0..<255] (replicate 512 0, replicate 256 0, 1) of
        (e, l, x) \<Rightarrow>
          \<lparr>exp_tab = fold (\<lambda>i e. e[i := e ! (i - 255)]) [255..<512] e, log_tab = l\<rparr>)"

definition add :: "u8 \<Rightarrow> u8 \<Rightarrow> u8" where
  "add a b = a XOR b"

definition mul :: "u8 \<Rightarrow> u8 \<Rightarrow> u8" where
  "mul a b =
     (if a = 0 \<or> b = 0 then 0
      else let t = tables; idx = unat (log_tab t ! unat a) + unat (log_tab t ! unat b)
           in exp_tab t ! idx)"

definition inv :: "u8 \<Rightarrow> u8 exec" where
  "inv a =
     (if a = 0 then None
      else let t = tables in Some (exp_tab t ! (255 - unat (log_tab t ! unat a))))"

text \<open>The loop over the zipped slices stops at the shorter one; the rest of \<open>dst\<close> is untouched.\<close>

fun mul_slice_loop :: "u8 \<Rightarrow> bytes \<Rightarrow> bytes \<Rightarrow> bytes" where
  "mul_slice_loop c (d # ds) (s # ss) = (d XOR mul s c) # mul_slice_loop c ds ss"
| "mul_slice_loop c ds ss = ds"

definition mul_slice_into :: "bytes \<Rightarrow> bytes \<Rightarrow> u8 \<Rightarrow> bytes" where
  "mul_slice_into dst src c = (if c = 0 then dst else mul_slice_loop c dst src)"

section \<open>Doubling is linear and has order 255\<close>

lemma and_0x80_iff: "(x :: u8) AND 0x80 \<noteq> 0 \<longleftrightarrow> bit x 7"
proof -
  have "bit (0x80 :: u8) n \<longleftrightarrow> n = 7" for n
    using bit_push_bit_iff [of 7 "1 :: u8" n] by (auto simp: bit_1_iff)
  then have *: "bit (x AND 0x80) n \<longleftrightarrow> n = 7 \<and> bit x 7" for n
    by (auto simp: bit_and_iff)
  show ?thesis
    using * by (metis bit_0_eq bot_apply bot_bool_def bit_eqI)
qed

lemma xtime_alt: "xtime x = push_bit 1 x XOR (if bit x 7 then POLY else 0)"
  by (simp add: xtime_def Let_def and_0x80_iff)

lemma xtime_xor: "xtime (a XOR b) = xtime a XOR xtime b"
proof -
  have "push_bit 1 (a XOR b) = push_bit 1 a XOR push_bit 1 b"
    by (simp add: push_bit_xor)
  then show ?thesis
    by (simp add: xtime_alt bit_xor_iff ac_simps xor.left_commute)
qed

lemma xtime_0 [simp]: "xtime 0 = 0"
  by (simp add: xtime_alt)

lemma xtime_eq_0D:
  assumes "xtime x = 0"
  shows "x = 0"
proof (rule bit_eqI)
  fix n
  assume n: "possible_bit TYPE(u8) n"
  have eq: "bit (xtime x) k = False" for k
    using assms by simp
  have b0: "bit POLY 0" by (simp add: POLY_def)
  have shift: "bit (push_bit 1 x) k \<longleftrightarrow> 1 \<le> k \<and> k < 8 \<and> bit x (k - 1)" for k
    using bit_push_bit_iff [of 1 x k] by auto
  then have "\<not> bit (push_bit 1 x) 0" by simp
  with eq [of 0] b0 have n7: "\<not> bit x 7"
    by (auto simp: xtime_alt bit_xor_iff)
  show "bit x n = bit 0 n"
  proof (cases "n = 7")
    case True
    with n7 show ?thesis by simp
  next
    case False
    from n have "n < 8" by simp
    with False have "n < 7" by simp
    with eq [of "Suc n"] n7 shift [of "Suc n"] show ?thesis
      by (simp add: xtime_alt bit_xor_iff)
  qed
qed

lemma inj_xtime: "inj xtime"
proof (rule injI)
  fix a b
  assume "xtime a = xtime b"
  then have "xtime (a XOR b) = 0" by (simp add: xtime_xor)
  then have "a XOR b = 0" by (rule xtime_eq_0D)
  then have "a XOR (a XOR b) = a" by simp
  then show "a = b" by (simp add: xor.assoc [symmetric])
qed

lemma xtime_pow_xor: "(xtime ^^ n) (a XOR b) = (xtime ^^ n) a XOR (xtime ^^ n) b"
  by (induction n) (simp_all add: xtime_xor)

lemma xtime_pow_0 [simp]: "(xtime ^^ n) 0 = 0"
  by (induction n) simp_all

lemma inj_xtime_pow: "inj (xtime ^^ n)"
  by (induction n) (auto intro: inj_compose [unfolded comp_def] inj_xtime simp: inj_def
      dest: injD [OF inj_xtime])

lemma xtime_numeral:
  "xtime (numeral n) =
     (if (numeral n :: u8) AND 0x80 \<noteq> 0 then push_bit 1 (numeral n) XOR 0x1d
      else push_bit 1 (numeral n))"
  by (simp add: xtime_def POLY_def Let_def)

lemma xtime_1: "xtime 1 = 2"
  by (simp add: xtime_def)

lemma xtime_pow_values:
  "(xtime ^^ 15) 1 = 38" "(xtime ^^ 51) 1 = 10" "(xtime ^^ 85) 1 = 214" "(xtime ^^ 255) 1 = 1"
  by (simp_all add: numeral_eq_Suc xtime_1) (simp_all add: xtime_numeral)

text \<open>\<open>gpow i\<close> is the \<open>i\<close>-th power of the primitive element, as the doubling loop computes it.\<close>

definition gpow :: "nat \<Rightarrow> u8" where
  "gpow i = (xtime ^^ i) 1"

lemma gpow_0 [simp]: "gpow 0 = 1"
  by (simp add: gpow_def)

lemma gpow_Suc: "gpow (Suc i) = xtime (gpow i)"
  by (simp add: gpow_def)

lemma xtime_pow_gpow: "(xtime ^^ i) (gpow j) = gpow (i + j)"
  by (simp add: gpow_def funpow_add)

lemma gpow_255 [simp]: "gpow 255 = 1"
  by (simp add: gpow_def xtime_pow_values)

lemma gpow_add_one: "gpow j = 1 \<Longrightarrow> gpow (i + j) = gpow i"
  using xtime_pow_gpow [of i j] by (simp add: gpow_def [of i])

lemma gpow_add_255: "gpow (i + 255) = gpow i"
  by (rule gpow_add_one) (rule gpow_255)

lemma gpow_mult_one: "gpow d = 1 \<Longrightarrow> gpow (d * k) = 1"
proof (induction k)
  case (Suc k)
  then have "gpow (d * k + d) = 1"
    by (simp add: gpow_add_one)
  then show ?case by (simp add: add.commute)
qed simp

lemma gpow_mod: "gpow (i mod 255) = gpow i"
proof -
  have "gpow (i mod 255 + 255 * (i div 255)) = gpow (i mod 255)"
    by (intro gpow_add_one gpow_mult_one gpow_255)
  then show ?thesis by simp
qed

lemma gpow_nonzero [simp]: "gpow i \<noteq> 0"
  by (induction i) (auto simp: gpow_Suc dest: xtime_eq_0D)

lemma gpow_gcd:
  assumes "gpow a = 1" "gpow b = 1" "a \<noteq> 0"
  shows "gpow (gcd a b) = 1"
proof -
  obtain x y where "a * x = b * y + gcd a b"
    using bezout_nat [OF assms(3), of b] by blast
  then have "gpow (gcd a b + b * y) = 1"
    using gpow_mult_one [OF assms(1), of x] by (simp add: add.commute)
  then show ?thesis
    using gpow_add_one [OF gpow_mult_one [OF assms(2), of y], of "gcd a b"] by simp
qed

lemma proper_divisors_255:
  assumes "g dvd (255 :: nat)" "g < 255"
  shows "g dvd 15 \<or> g dvd 51 \<or> g dvd 85"
proof -
  obtain k where gk: "255 = g * k" using assms(1) by (auto simp: dvd_def)
  have dvd_small: "d \<in> {1, 3, 5, 15}" if "d dvd 255" "d < 16" for d :: nat
  proof -
    from \<open>d < 16\<close> have "d \<in> {0, 1, 2, 3, 4, 5, 6, 7, 8, 9, 10, 11, 12, 13, 14, 15}"
      unfolding insert_iff empty_iff by presburger
    with \<open>d dvd 255\<close> show ?thesis by (elim insertE) simp_all
  qed
  have "g < 16 \<or> k < 16"
  proof (rule ccontr)
    assume "\<not> (g < 16 \<or> k < 16)"
    then have "16 * 16 \<le> g * k" by (intro mult_le_mono) auto
    with gk show False by simp
  qed
  then show ?thesis
  proof
    assume "g < 16"
    then have "g \<in> {1, 3, 5, 15}" by (rule dvd_small [OF assms(1)])
    then show ?thesis by (elim insertE) simp_all
  next
    assume "k < 16"
    have "k dvd 255" unfolding gk by (rule dvd_triv_right)
    then have "k \<in> {1, 3, 5, 15}" using \<open>k < 16\<close> by (rule dvd_small)
    then have "g \<in> {85, 51, 17}" using gk assms(2) by (elim insertE) simp_all
    then show ?thesis by (elim insertE) simp_all
  qed
qed

lemma gpow_order:
  assumes "0 < d" "d < 255"
  shows "gpow d \<noteq> 1"
proof
  assume "gpow d = 1"
  then have one: "gpow (gcd d 255) = 1"
    using assms by (simp add: gpow_gcd)
  have "gcd d 255 < 255"
    using assms gcd_le1_nat [of d 255] by linarith
  then have "gcd d 255 dvd 15 \<or> gcd d 255 dvd 51 \<or> gcd d 255 dvd 85"
    by (intro proper_divisors_255) simp_all
  moreover have "gpow n = 1" if "gcd d 255 dvd n" for n
    using that gpow_mult_one [OF one] by (auto elim!: dvdE)
  ultimately have "gpow 15 = 1 \<or> gpow 51 = 1 \<or> gpow 85 = 1" by blast
  then show False
    by (simp add: gpow_def xtime_pow_values)
qed

lemma gpow_inj:
  assumes "gpow i = gpow j" "i < 255" "j < 255"
  shows "i = j"
proof (rule ccontr)
  assume "i \<noteq> j"
  define lo hi where "lo = min i j" and "hi = max i j"
  then have lt: "lo < hi" "hi < 255" and eq: "gpow lo = gpow hi"
    using assms \<open>i \<noteq> j\<close> by (auto simp: min_def max_def)
  have "(xtime ^^ lo) (gpow (hi - lo)) = (xtime ^^ lo) (gpow 0)"
    using eq lt(1) by (simp add: xtime_pow_gpow del: gpow_0)
  then have "gpow (hi - lo) = gpow 0"
    by (rule injD [OF inj_xtime_pow])
  then show False
    using gpow_order [of "hi - lo"] lt by simp
qed

lemma card_u8: "CARD(u8) = 256"
  by (simp only: card_word) simp

lemma gpow_surj:
  assumes "a \<noteq> 0"
  obtains i where "i < 255" "gpow i = a"
proof -
  have ex: "\<exists>i < N. gpow i = a" if N: "N = (255 :: nat)" for N
  proof -
    have inj: "inj_on gpow {..<N}"
    proof (rule inj_onI)
      fix i j assume "i \<in> {..<N}" "j \<in> {..<N}" "gpow i = gpow j"
      then show "i = j" unfolding lessThan_iff N by (intro gpow_inj)
    qed
    have card1: "card (gpow ` {..<N}) = N"
      unfolding card_image [OF inj] by (rule card_lessThan)
    have card2: "card (UNIV - {0 :: u8}) = N"
      unfolding card_Diff_singleton [OF UNIV_I] card_u8 N by linarith
    have sub: "gpow ` {..<N} \<subseteq> UNIV - {0}"
      by (rule image_subsetI) (simp add: gpow_nonzero)
    have "gpow ` {..<N} = UNIV - {0}"
      by (rule card_subset_eq [OF _ sub]) (simp, simp only: card1 card2)
    with assms have "a \<in> gpow ` {..<N}" by blast
    then show ?thesis by blast
  qed
  from ex [OF refl] show thesis using that by blast
qed

section \<open>What the tables hold\<close>

lemma tables_loop:
  assumes "n \<le> 255" "fold tables_step [0..<n] (replicate 512 0, replicate 256 0, 1) = (e, l, x)"
  shows "length e = 512 \<and> length l = 256 \<and> x = gpow n
    \<and> (\<forall>i < n. e ! i = gpow i) \<and> (\<forall>i < n. l ! unat (gpow i) = of_nat i)"
  using assms
proof (induction n arbitrary: e l x)
  case 0
  then show ?case by auto
next
  case (Suc n)
  obtain e' l' x' where *: "fold tables_step [0..<n] (replicate 512 0, replicate 256 0, 1) = (e', l', x')"
    by (metis prod_cases3)
  from Suc.IH [OF _ *] Suc.prems(1)
  have IH: "length e' = 512" "length l' = 256" "x' = gpow n"
    "\<And>i. i < n \<Longrightarrow> e' ! i = gpow i" "\<And>i. i < n \<Longrightarrow> l' ! unat (gpow i) = of_nat i"
    by auto
  from Suc.prems(2) * have "tables_step n (e', l', x') = (e, l, x)" by simp
  with IH(3) have eq: "e = e'[n := gpow n]" "l = l'[unat (gpow n) := of_nat n]" "x = gpow (Suc n)"
    by (simp_all add: tables_step_def gpow_Suc)
  have "l ! unat (gpow i) = of_nat i" if "i < Suc n" for i
  proof (cases "i = n")
    case True
    with IH(2) unat_u8_less [of "gpow n"] show ?thesis by (simp add: eq)
  next
    case False
    with that have "i < n" by simp
    moreover have "gpow i \<noteq> gpow n"
      using gpow_inj [of i n] \<open>i < n\<close> Suc.prems(1) by linarith
    then have "unat (gpow i) \<noteq> unat (gpow n)" by (simp add: word_unat_eq_iff)
    ultimately show ?thesis by (simp add: eq IH(5))
  qed
  moreover have "e ! i = gpow i" if "i < Suc n" for i
    using that IH(1,4) Suc.prems(1) by (cases "i = n") (auto simp: eq)
  ultimately show ?case using IH(1,2) eq by simp
qed

lemma tables_wrap:
  assumes "length e = 512" "\<And>i. i < 255 \<Longrightarrow> e ! i = gpow i" "k \<le> 257"
  shows "length (fold (\<lambda>i e. e[i := e ! (i - 255)]) [255..<255 + k] e) = 512
    \<and> (\<forall>i < 255 + k. fold (\<lambda>i e. e[i := e ! (i - 255)]) [255..<255 + k] e ! i = gpow i)"
  using assms(3)
proof (induction k)
  case 0
  then show ?case using assms by simp
next
  case (Suc k)
  let ?e = "fold (\<lambda>i e. e[i := e ! (i - 255)]) [255..<255 + k] e"
  have IH: "length ?e = 512" "\<And>i. i < 255 + k \<Longrightarrow> ?e ! i = gpow i"
    using Suc by simp_all
  have step: "fold (\<lambda>i e. e[i := e ! (i - 255)]) [255..<255 + Suc k] e = ?e[255 + k := ?e ! k]"
    unfolding add_Suc_right upt_Suc_append [OF le_add1] by simp
  have "gpow (255 + k) = gpow k" using gpow_add_255 [of k] by (simp add: add.commute)
  then show ?case
    unfolding step using IH Suc.prems by (auto simp: nth_list_update less_Suc_eq)
qed

lemma tables_facts:
  "(\<forall>i < 512. exp_tab tables ! i = gpow i) \<and> (\<forall>j < 255. log_tab tables ! unat (gpow j) = of_nat j)"
proof -
  obtain e l x where *: "fold tables_step [0..<255] (replicate 512 0, replicate 256 0, 1) = (e, l, x)"
    by (metis prod_cases3)
  note loop = tables_loop [OF order_refl *]
  have eqs: "exp_tab tables = fold (\<lambda>i e. e[i := e ! (i - 255)]) [255..<512] e" "log_tab tables = l"
    by (simp_all only: tables_def * prod.case tables.select_convs)
  have N: "255 + 257 = (512 :: nat)" by linarith
  have "\<forall>i < 255 + 257. fold (\<lambda>i e. e[i := e ! (i - 255)]) [255..<255 + 257] e ! i = gpow i"
    using tables_wrap [of e 257] loop by blast
  with loop show ?thesis
    unfolding eqs N by blast
qed

lemma exp_tab_nth: "i < 512 \<Longrightarrow> exp_tab tables ! i = gpow i"
  and log_tab_nth: "j < 255 \<Longrightarrow> log_tab tables ! unat (gpow j) = of_nat j"
  using tables_facts by blast+

lemma unat_log: "i < 255 \<Longrightarrow> unat (log_tab tables ! unat (gpow i)) = i"
  by (simp add: log_tab_nth unat_of_nat)

lemma mul_gpow: "i < 255 \<Longrightarrow> j < 255 \<Longrightarrow> mul (gpow i) (gpow j) = gpow (i + j)"
  by (simp add: mul_def Let_def unat_log exp_tab_nth)

lemma mul_gpow_left:
  assumes "i < 255"
  shows "mul (gpow i) b = (xtime ^^ i) b"
proof (cases "b = 0")
  case True
  then show ?thesis by (simp add: mul_def)
next
  case False
  then obtain j where "j < 255" "gpow j = b" by (rule gpow_surj)
  with assms mul_gpow [of i j] show ?thesis by (auto simp: xtime_pow_gpow)
qed

lemma inv_gpow: "i < 255 \<Longrightarrow> inv (gpow i) = Some (gpow (255 - i))"
  by (simp add: inv_def Let_def unat_log exp_tab_nth)

section \<open>The field\<close>

lemma mul_0_left [simp]: "mul 0 b = 0" and mul_0_right [simp]: "mul a 0 = 0"
  by (simp_all add: mul_def)

lemma mul_commute: "mul a b = mul b a"
  by (simp add: mul_def Let_def add.commute)

lemma mul_xor_right: "mul a (b XOR c) = mul a b XOR mul a c"
proof (cases "a = 0")
  case False
  then obtain i where "i < 255" "gpow i = a" by (rule gpow_surj)
  then show ?thesis using mul_gpow_left xtime_pow_xor by metis
qed simp

lemma mul_assoc: "mul (mul a b) c = mul a (mul b c)"
proof (cases "a = 0 \<or> b = 0")
  case False
  then obtain i j where ij: "i < 255" "gpow i = a" "j < 255" "gpow j = b" by (metis gpow_surj)
  have "mul a b = gpow ((i + j) mod 255)"
    using ij mul_gpow by (metis gpow_mod)
  then have "mul (mul a b) c = (xtime ^^ ((i + j) mod 255)) c"
    using mul_gpow_left [of "(i + j) mod 255" c] by simp
  moreover have "mul a (mul b c) = (xtime ^^ (i + j)) c"
    using ij by (metis mul_gpow_left funpow_add comp_apply)
  moreover have "(xtime ^^ (n mod 255)) c = (xtime ^^ n) c" for n
  proof (cases "c = 0")
    case False
    then obtain k where "gpow k = c" by (rule gpow_surj)
    then show ?thesis
      by (metis xtime_pow_gpow gpow_mod mod_add_left_eq)
  qed simp
  ultimately show ?thesis by simp
qed auto

lemma mul_1_left [simp]: "mul 1 b = b"
  using mul_gpow_left [of 0 b] by simp

lemma inv_0: "inv 0 = None"
  by (simp add: inv_def)

lemma inv_mul:
  assumes "a \<noteq> 0"
  obtains b where "inv a = Some b" "mul b a = 1"
proof -
  from assms obtain i where i: "i < 255" "gpow i = a" by (rule gpow_surj)
  have "mul (gpow ((255 - i) mod 255)) a = gpow ((255 - i) mod 255 + i)"
    using mul_gpow [of "(255 - i) mod 255" i] i by simp
  also have "\<dots> = gpow (255 - i + i)"
    by (metis gpow_mod mod_add_left_eq)
  also have "255 - i + i = 255" using i(1) by linarith
  finally have "mul (gpow (255 - i)) a = 1" by (simp only: gpow_mod gpow_255)
  then show thesis using that inv_gpow [OF i(1)] i(2) by blast
qed

typedef gf = "UNIV :: u8 set"
  morphisms byte Gf by simp

setup_lifting type_definition_gf

instantiation gf :: field
begin

lift_definition zero_gf :: gf is 0 .

lift_definition one_gf :: gf is 1 .

lift_definition plus_gf :: "gf \<Rightarrow> gf \<Rightarrow> gf" is add .

lift_definition minus_gf :: "gf \<Rightarrow> gf \<Rightarrow> gf" is add .

lift_definition uminus_gf :: "gf \<Rightarrow> gf" is "\<lambda>a. a" .

lift_definition times_gf :: "gf \<Rightarrow> gf \<Rightarrow> gf" is mul .

lift_definition inverse_gf :: "gf \<Rightarrow> gf" is "\<lambda>a. case inv a of None \<Rightarrow> 0 | Some b \<Rightarrow> b" .

lift_definition divide_gf :: "gf \<Rightarrow> gf \<Rightarrow> gf" is "\<lambda>a b. mul a (case inv b of None \<Rightarrow> 0 | Some c \<Rightarrow> c)" .

instance
proof
  fix a b c :: gf
  show "a * b * c = a * (b * c)" by transfer (rule mul_assoc)
  show "a * b = b * a" by transfer (rule mul_commute)
  show "1 * a = a" by transfer simp
  show "a + b + c = a + (b + c)" by transfer (simp add: add_def xor.assoc)
  show "a + b = b + a" by transfer (simp add: add_def xor.commute)
  show "0 + a = a" by transfer (simp add: add_def)
  show "- a + a = 0" by transfer (simp add: add_def)
  show "a - b = a + - b" by transfer (simp add: add_def)
  show "(a + b) * c = a * c + b * c"
    by transfer (simp add: add_def mul_commute [of _ c for c] mul_xor_right)
  show "(0 :: gf) \<noteq> 1" by transfer simp
  show "a \<noteq> 0 \<Longrightarrow> inverse a * a = 1"
    by transfer (elim inv_mul, simp)
  show "a div b = a * inverse b" by transfer simp
  show "inverse (0 :: gf) = 0" by transfer (simp add: inv_0)
qed

end

lemma byte_Gf [simp]: "Gf (byte a) = a" "byte (Gf x) = x"
  by (simp_all add: byte_inverse Gf_inverse)

lemma byte_simps [simp]:
  "byte 0 = 0" "byte 1 = 1" "byte (a + b) = byte a XOR byte b" "byte (a - b) = byte a XOR byte b"
  "byte (- a) = byte a" "byte (a * b) = mul (byte a) (byte b)"
  by (simp_all add: zero_gf.rep_eq one_gf.rep_eq plus_gf.rep_eq minus_gf.rep_eq uminus_gf.rep_eq
      times_gf.rep_eq add_def)

lemma byte_eq_iff: "byte a = byte b \<longleftrightarrow> a = b"
  by (rule byte_inject)

lemma Gf_simps:
  "Gf 0 = 0" "Gf 1 = 1" "Gf (x XOR y) = Gf x + Gf y" "Gf (mul x y) = Gf x * Gf y"
  by (simp_all add: byte_eq_iff [symmetric])

lemma Gf_eq_iff [simp]: "Gf x = Gf y \<longleftrightarrow> x = y"
  by (metis byte_Gf(2))

lemma gf_minus_eq_plus: "a - b = a + (b :: gf)" and gf_uminus [simp]: "- a = (a :: gf)"
  by (simp_all add: byte_eq_iff [symmetric])

lemma inv_Some_iff: "inv a = Some b \<longleftrightarrow> a \<noteq> 0 \<and> Gf b = inverse (Gf a)"
proof (cases "a = 0")
  case False
  then obtain c where c: "inv a = Some c" "mul c a = 1" by (rule inv_mul)
  then have "Gf c * Gf a = 1" by (metis Gf_simps(2,4))
  then have "inverse (Gf a) = Gf c" by (simp only: mult.commute inverse_unique)
  with c False show ?thesis by auto
qed (simp add: inv_0)

section \<open>Multiplication bit by bit\<close>

text \<open>Shift-and-add multiplication, the reference the tables implement; it is also what a concrete
  product is evaluated with.\<close>

fun peasant :: "nat \<Rightarrow> u8 \<Rightarrow> u8 \<Rightarrow> u8" where
  "peasant 0 a b = 0"
| "peasant (Suc n) a b = (if odd a then b else 0) XOR peasant n (drop_bit 1 a) (xtime b)"

lemma mul_xtime: "mul (xtime a) b = mul a (xtime b)"
proof -
  have "mul 2 c = xtime c" for c
    using mul_gpow_left [of 1 c] gpow_Suc [of 0] by (simp add: xtime_1)
  then show ?thesis by (metis mul_assoc mul_commute)
qed

lemma xtime_small: "\<not> bit a 7 \<Longrightarrow> xtime a = push_bit 1 a"
  by (simp only: xtime_alt if_False) simp

lemma peasant_mul:
  assumes "\<And>i. n \<le> i \<Longrightarrow> \<not> bit a i" "n \<le> 8"
  shows "peasant n a b = mul a b"
  using assms
proof (induction n arbitrary: a b)
  case 0
  then have "a = 0" by (intro bit_eqI) simp
  then show ?case by simp
next
  case (Suc n)
  have "\<not> bit (drop_bit 1 a) i" if "n \<le> i" for i
    using Suc.prems(1) [of "Suc i"] that by (simp add: bit_drop_bit_eq)
  then have IH: "peasant n (drop_bit 1 a) (xtime b) = mul (drop_bit 1 a) (xtime b)"
    using Suc by simp
  have "\<not> bit (drop_bit 1 a) 7"
    using Suc.prems by (simp add: bit_drop_bit_eq)
  then have "mul (drop_bit 1 a) (xtime b) = mul (push_bit 1 (drop_bit 1 a)) b"
    using mul_xtime xtime_small by metis
  moreover have "a = (if odd a then 1 else 0) XOR push_bit 1 (drop_bit 1 a)"
  proof (rule bit_eqI)
    fix m
    have "bit (push_bit 1 (drop_bit 1 a)) m \<longleftrightarrow> 1 \<le> m \<and> bit a m"
      unfolding bit_push_bit_iff bit_drop_bit_eq
      by (auto dest: bit_imp_possible_bit)
    then show "bit a m \<longleftrightarrow> bit ((if odd a then 1 else 0) XOR push_bit 1 (drop_bit 1 a)) m"
      unfolding bit_xor_iff by (cases m) (auto simp: bit_0 bit_1_iff)
  qed
  ultimately have "mul a b = mul (if odd a then 1 else 0) b XOR mul (drop_bit 1 a) (xtime b)"
    using mul_xor_right mul_commute by metis
  then show ?case using IH by simp
qed

lemma mul_peasant: "mul a b = peasant 8 a b"
  by (rule peasant_mul [symmetric]) (auto dest: bit_imp_le_length)

lemma length_mul_slice_into [simp]: "length (mul_slice_into dst src c) = length dst"
  by (induction c dst src rule: mul_slice_loop.induct) (auto simp: mul_slice_into_def)

lemma mul_slice_into_nth:
  "length src = length dst \<Longrightarrow> i < length dst \<Longrightarrow>
   mul_slice_into dst src c ! i = dst ! i XOR mul c (src ! i)"
proof -
  have "length ss = length ds \<Longrightarrow> j < length ds \<Longrightarrow>
      mul_slice_loop c ds ss ! j = ds ! j XOR mul (ss ! j) c" for ds ss j
    by (induction c ds ss arbitrary: j rule: mul_slice_loop.induct) (auto simp: nth_Cons split: nat.splits)
  then show "length src = length dst \<Longrightarrow> i < length dst \<Longrightarrow>
      mul_slice_into dst src c ! i = dst ! i XOR mul c (src ! i)"
    by (auto simp: mul_slice_into_def mul_commute)
qed

section \<open>Property\<close>

text \<open>C31: bytes with \<open>add\<close> and \<open>mul\<close> are a field of characteristic two: multiplication through the
  logarithm tables agrees with shift-and-add multiplication modulo \<open>0x11D\<close>, is associative,
  commutative, distributes over \<open>add\<close> and has unit 1; \<open>inv\<close> panics exactly on 0 and returns the
  multiplicative inverse of every other byte.\<close>

theorem gf256_field:
  "mul a b = peasant 8 a b
   \<and> mul (mul a b) c = mul a (mul b c) \<and> mul a b = mul b a \<and> mul 1 a = a
   \<and> mul a (add b c) = add (mul a b) (mul a c) \<and> add a a = 0
   \<and> (inv a = None \<longleftrightarrow> a = 0)
   \<and> (case inv a of None \<Rightarrow> a = 0 | Some r \<Rightarrow> mul a r = 1)"
proof -
  have "(inv a = None \<longleftrightarrow> a = 0) \<and> (case inv a of None \<Rightarrow> a = 0 | Some r \<Rightarrow> mul a r = 1)"
  proof (cases "a = 0")
    case False
    then obtain r where "inv a = Some r" "mul r a = 1" by (rule inv_mul)
    with False show ?thesis by (simp add: mul_commute)
  qed (simp add: inv_0)
  then show ?thesis
    by (simp add: mul_peasant [symmetric] mul_assoc mul_xor_right add_def) (rule mul_commute)
qed

end
