(* ===== verification/Simd.thy ===== *)
theory Simd
  imports Gf256
begin

text \<open>
  The vector kernels of \<^verbatim>\<open>crates/yip-transport/src/rs_simd.rs\<close>: the nibble and bit-matrix tables,
  the instructions the kernels use (as functions on byte lists), one definition per kernel and
  target architecture, and the proof that each kernel computes what the scalar loop of
  \<^verbatim>\<open>gf256.rs\<close> computes. The loop over whole vectors followed by a scalar tail is the same in every
  kernel; it is verified once, in the locale \<open>byte_kernel\<close>, for any operation on one vector that
  acts on each byte as multiply-and-accumulate, and every kernel is an interpretation.
\<close>

section \<open>Processor features\<close>

datatype arch = X86_64 | Aarch64 | Wasm32 | Other_arch

record cpu =
  target_arch :: arch
  has_ssse3 :: bool
  has_avx2 :: bool
  has_avx512bw :: bool
  has_avx512f :: bool
  has_gfni :: bool
  has_neon :: bool

definition ssse3_supported :: "cpu \<Rightarrow> bool" where
  "ssse3_supported p = (target_arch p = X86_64 \<and> has_ssse3 p)"

definition avx2_supported :: "cpu \<Rightarrow> bool" where
  "avx2_supported p = (target_arch p = X86_64 \<and> has_avx2 p)"

definition avx512bw_supported :: "cpu \<Rightarrow> bool" where
  "avx512bw_supported p = (target_arch p = X86_64 \<and> has_avx512bw p)"

definition gfni_supported :: "cpu \<Rightarrow> bool" where
  "gfni_supported p = (target_arch p = X86_64 \<and> has_gfni p)"

definition neon_supported :: "cpu \<Rightarrow> bool" where
  "neon_supported p = (target_arch p = Aarch64 \<and> has_neon p)"

definition wasm_simd_supported :: "cpu \<Rightarrow> bool" where
  "wasm_simd_supported p = (target_arch p = Wasm32)"

text \<open>A processor without vector units.\<close>

definition scalar_cpu :: cpu where
  "scalar_cpu = \<lparr>target_arch = Other_arch, has_ssse3 = False, has_avx2 = False, has_avx512bw = False,
     has_avx512f = False, has_gfni = False, has_neon = False\<rparr>"

section \<open>Tables\<close>

record simd_tables =
  lo :: "bytes list"
  hi :: "bytes list"
  gfni :: "u64 list"

definition gfni_matrix_bytes :: "u8 \<Rightarrow> bytes" where
  "gfni_matrix_bytes coeff =
     fold (\<lambda>k m. let c_k = mul coeff (push_bit k 1)
                in fold (\<lambda>i m. if c_k AND push_bit i 1 \<noteq> 0
                               then m[7 - i := m ! (7 - i) OR push_bit k 1] else m) [0..<8] m)
       [0..<8] (replicate 8 0)"

definition gfni_matrix :: "u8 \<Rightarrow> u64" where
  "gfni_matrix coeff = of_nat (le_val (gfni_matrix_bytes coeff))"

definition nibble_row :: "(u8 \<Rightarrow> u8) \<Rightarrow> bytes" where
  "nibble_row f = fold (\<lambda>b row. row[b := f (of_nat b), b + 16 := f (of_nat b)]) [0..<16] (replicate 32 0)"

definition simd_tables :: simd_tables where
  "simd_tables =
     \<lparr>lo = map (\<lambda>c. nibble_row (\<lambda>b. mul (of_nat c) b)) [0..<256],
      hi = map (\<lambda>c. nibble_row (\<lambda>b. mul (of_nat c) (push_bit 4 b))) [0..<256],
      gfni = map (\<lambda>c. gfni_matrix (of_nat c)) [0..<256]\<rparr>"

definition nibble_tables :: "u8 \<Rightarrow> bytes \<times> bytes" where
  "nibble_tables coeff =
     (take 16 (lo simd_tables ! unat coeff), take 16 (hi simd_tables ! unat coeff))"

section \<open>Vector instructions\<close>

text \<open>A register is the list of its bytes, lowest address first.\<close>

definition v_set1 :: "nat \<Rightarrow> u8 \<Rightarrow> bytes" where
  "v_set1 w b = replicate w b"

definition v_and :: "bytes \<Rightarrow> bytes \<Rightarrow> bytes" where
  "v_and a b = map2 (AND) a b"

definition v_xor :: "bytes \<Rightarrow> bytes \<Rightarrow> bytes" where
  "v_xor a b = map2 (XOR) a b"

text \<open>\<^verbatim>\<open>_mm_srli_epi16\<close> shifts little-endian 16-bit lanes; \<^verbatim>\<open>vshrq_n_u8\<close> and \<^verbatim>\<open>u8x16_shr\<close> shift bytes.\<close>

fun srli_epi16 :: "bytes \<Rightarrow> nat \<Rightarrow> bytes" where
  "srli_epi16 (l # h # v) n =
     (let w = drop_bit n (ucast l OR push_bit 8 (ucast h) :: u16)
      in ucast w # ucast (drop_bit 8 w) # srli_epi16 v n)"
| "srli_epi16 v n = v"

definition shr_u8 :: "bytes \<Rightarrow> nat \<Rightarrow> bytes" where
  "shr_u8 v n = map (drop_bit n) v"

text \<open>\<^verbatim>\<open>_mm_shuffle_epi8\<close> looks bytes up within each 16-byte lane of the table register;
  \<^verbatim>\<open>vqtbl1q_u8\<close> and \<^verbatim>\<open>i8x16_swizzle\<close> give 0 for an index out of range.\<close>

definition shuffle_epi8 :: "bytes \<Rightarrow> bytes \<Rightarrow> bytes" where
  "shuffle_epi8 tbl idx =
     map (\<lambda>j. if bit (idx ! j) 7 then 0 else tbl ! (16 * (j div 16) + unat (idx ! j AND 0x0f)))
       [0..<length idx]"

definition qtbl1q_u8 :: "bytes \<Rightarrow> bytes \<Rightarrow> bytes" where
  "qtbl1q_u8 tbl idx = map (\<lambda>x. if unat x < 16 then tbl ! unat x else 0) idx"

text \<open>\<^verbatim>\<open>gf2p8affine\<close> with immediate 0: bit \<open>i\<close> of an output byte is the parity of the input byte
  masked with byte \<open>7 - i\<close> of the matrix.\<close>

definition parity8 :: "u8 \<Rightarrow> bool" where
  "parity8 x = foldl (\<lambda>p k. p \<noteq> bit x k) False [0..<8]"

definition gf2p8affine_byte :: "u64 \<Rightarrow> u8 \<Rightarrow> u8" where
  "gf2p8affine_byte mat x =
     fold (\<lambda>i acc. if parity8 (x AND ucast (drop_bit (8 * (7 - i)) mat)) then acc OR push_bit i 1 else acc)
       [0..<8] 0"

definition gf2p8affine :: "bytes \<Rightarrow> u64 \<Rightarrow> bytes" where
  "gf2p8affine data mat = map (gf2p8affine_byte mat) data"

section \<open>Kernels\<close>

text \<open>The loop every kernel has: whole vectors of \<open>w\<close> bytes, then the scalar tail.\<close>

definition simd_chunks :: "nat \<Rightarrow> (bytes \<Rightarrow> bytes \<Rightarrow> bytes) \<Rightarrow> bytes \<Rightarrow> nat \<Rightarrow> bytes \<Rightarrow> bytes" where
  "simd_chunks w kern src chunks dst =
     fold (\<lambda>i d. let offset = i * w
                in splice d offset (kern (take w (drop offset src)) (take w (drop offset d))))
       [0..<chunks] dst"

definition scalar_tail :: "u8 \<Rightarrow> bytes \<Rightarrow> nat \<Rightarrow> bytes \<Rightarrow> bytes" where
  "scalar_tail coeff src remainder dst =
     fold (\<lambda>i d. d[i := d ! i XOR mul (src ! i) coeff]) [remainder..<length src] dst"

definition simd_loop :: "nat \<Rightarrow> (bytes \<Rightarrow> bytes \<Rightarrow> bytes) \<Rightarrow> u8 \<Rightarrow> bytes \<Rightarrow> bytes \<Rightarrow> bytes" where
  "simd_loop w kern coeff src dst =
     (let chunks = length src div w
      in scalar_tail coeff src (chunks * w) (simd_chunks w kern src chunks dst))"

definition nibble_kernel :: "nat \<Rightarrow> bytes \<Rightarrow> bytes \<Rightarrow> bytes \<Rightarrow> bytes \<Rightarrow> bytes" where
  "nibble_kernel w v_tbl_lo v_tbl_hi data prev_dst =
     (let mask_lo = v_set1 w 0x0f;
          v_lo = v_and data mask_lo;
          shifted = srli_epi16 data 4;
          v_hi = v_and shifted mask_lo;
          p_lo = shuffle_epi8 v_tbl_lo v_lo;
          p_hi = shuffle_epi8 v_tbl_hi v_hi
      in v_xor prev_dst (v_xor p_lo p_hi))"

definition table_kernel :: "bytes \<Rightarrow> bytes \<Rightarrow> bytes \<Rightarrow> bytes \<Rightarrow> bytes" where
  "table_kernel t_lo t_hi data prev_dst =
     (let mask_lo = v_set1 16 0x0f;
          v_lo = v_and data mask_lo;
          shifted = shr_u8 data 4;
          v_hi = v_and shifted mask_lo;
          p_lo = qtbl1q_u8 t_lo v_lo;
          p_hi = qtbl1q_u8 t_hi v_hi
      in v_xor prev_dst (v_xor p_lo p_hi))"

definition affine_kernel :: "u64 \<Rightarrow> bytes \<Rightarrow> bytes \<Rightarrow> bytes" where
  "affine_kernel mat data prev_dst = v_xor prev_dst (gf2p8affine data mat)"

text \<open>The scalar version compiled for every architecture a kernel is not written for.\<close>

definition mul_add_fallback :: "u8 \<Rightarrow> bytes \<Rightarrow> bytes \<Rightarrow> bytes exec" where
  "mul_add_fallback coeff src dst =
     (if length src \<noteq> length dst then None else Some (mul_slice_into dst src coeff))"

definition mul_add_ssse3 :: "cpu \<Rightarrow> u8 \<Rightarrow> bytes \<Rightarrow> bytes \<Rightarrow> bytes exec" where
  "mul_add_ssse3 p coeff src dst =
     (if target_arch p \<noteq> X86_64 then mul_add_fallback coeff src dst
      else if length src \<noteq> length dst then None
      else if coeff = 0 then Some dst
      else let v_tbl_lo = take 16 (lo simd_tables ! unat coeff);
               v_tbl_hi = take 16 (hi simd_tables ! unat coeff)
           in Some (simd_loop 16 (nibble_kernel 16 v_tbl_lo v_tbl_hi) coeff src dst))"

definition mul_add_avx2 :: "cpu \<Rightarrow> u8 \<Rightarrow> bytes \<Rightarrow> bytes \<Rightarrow> bytes exec" where
  "mul_add_avx2 p coeff src dst =
     (if target_arch p \<noteq> X86_64 then mul_add_fallback coeff src dst
      else if length src \<noteq> length dst then None
      else if coeff = 0 then Some dst
      else let v_tbl_lo = take 32 (lo simd_tables ! unat coeff);
               v_tbl_hi = take 32 (hi simd_tables ! unat coeff)
           in Some (simd_loop 32 (nibble_kernel 32 v_tbl_lo v_tbl_hi) coeff src dst))"

definition mul_add_avx512 :: "cpu \<Rightarrow> u8 \<Rightarrow> bytes \<Rightarrow> bytes \<Rightarrow> bytes exec" where
  "mul_add_avx512 p coeff src dst =
     (if target_arch p \<noteq> X86_64 then mul_add_fallback coeff src dst
      else if length src \<noteq> length dst then None
      else if coeff = 0 then Some dst
      else let tbl_lo_128 = take 16 (lo simd_tables ! unat coeff);
               tbl_hi_128 = take 16 (hi simd_tables ! unat coeff);
               v_tbl_lo = concat (replicate 4 tbl_lo_128);
               v_tbl_hi = concat (replicate 4 tbl_hi_128)
           in Some (simd_loop 64 (nibble_kernel 64 v_tbl_lo v_tbl_hi) coeff src dst))"

definition mul_add_gfni_512 :: "u64 \<Rightarrow> u8 \<Rightarrow> bytes \<Rightarrow> bytes \<Rightarrow> bytes" where
  "mul_add_gfni_512 mat coeff src dst = simd_loop 64 (affine_kernel mat) coeff src dst"

definition mul_add_gfni_256 :: "u64 \<Rightarrow> u8 \<Rightarrow> bytes \<Rightarrow> bytes \<Rightarrow> bytes" where
  "mul_add_gfni_256 mat coeff src dst = simd_loop 32 (affine_kernel mat) coeff src dst"

definition mul_add_gfni_128 :: "u64 \<Rightarrow> u8 \<Rightarrow> bytes \<Rightarrow> bytes \<Rightarrow> bytes" where
  "mul_add_gfni_128 mat coeff src dst = simd_loop 16 (affine_kernel mat) coeff src dst"

definition mul_add_gfni :: "cpu \<Rightarrow> u8 \<Rightarrow> bytes \<Rightarrow> bytes \<Rightarrow> bytes exec" where
  "mul_add_gfni p coeff src dst =
     (if target_arch p \<noteq> X86_64 then mul_add_fallback coeff src dst
      else if length src \<noteq> length dst then None
      else if coeff = 0 then Some dst
      else let mat = gfni simd_tables ! unat coeff
           in Some (if has_avx512f p then mul_add_gfni_512 mat coeff src dst
                    else if has_avx2 p then mul_add_gfni_256 mat coeff src dst
                    else mul_add_gfni_128 mat coeff src dst))"

definition mul_add_neon :: "cpu \<Rightarrow> u8 \<Rightarrow> bytes \<Rightarrow> bytes \<Rightarrow> bytes exec" where
  "mul_add_neon p coeff src dst =
     (if target_arch p \<noteq> Aarch64 then mul_add_fallback coeff src dst
      else if length src \<noteq> length dst then None
      else if coeff = 0 then Some dst
      else case nibble_tables coeff of (tbl_lo, tbl_hi) \<Rightarrow>
             Some (simd_loop 16 (table_kernel tbl_lo tbl_hi) coeff src dst))"

definition mul_add_wasm128 :: "cpu \<Rightarrow> u8 \<Rightarrow> bytes \<Rightarrow> bytes \<Rightarrow> bytes exec" where
  "mul_add_wasm128 p coeff src dst =
     (if target_arch p \<noteq> Wasm32 then mul_add_fallback coeff src dst
      else if length src \<noteq> length dst then None
      else if coeff = 0 then Some dst
      else case nibble_tables coeff of (tbl_lo, tbl_hi) \<Rightarrow>
             Some (simd_loop 16 (table_kernel tbl_lo tbl_hi) coeff src dst))"

section \<open>The vector loop\<close>

lemma mul_slice_into_map2:
  "length src = length dst \<Longrightarrow> mul_slice_into dst src coeff = map2 (\<lambda>d s. d XOR mul s coeff) dst src"
  by (rule nth_equalityI) (simp_all add: mul_slice_into_nth mul_commute)

lemma scalar_tail_upto:
  assumes "n \<le> length dst" "length src = length dst"
  shows "length (fold (\<lambda>i d. d[i := d ! i XOR mul (src ! i) c]) [r..<n] dst) = length dst
    \<and> (\<forall>i < length dst. fold (\<lambda>i d. d[i := d ! i XOR mul (src ! i) c]) [r..<n] dst ! i =
          (if r \<le> i \<and> i < n then dst ! i XOR mul (src ! i) c else dst ! i))"
  using assms(1)
proof (induction n)
  case (Suc n)
  then show ?case by (cases "r \<le> n") (auto simp: nth_list_update less_Suc_eq)
qed auto

lemma length_scalar_tail: "length src = length dst \<Longrightarrow> length (scalar_tail c src r dst) = length dst"
  and nth_scalar_tail: "length src = length dst \<Longrightarrow> i < length dst \<Longrightarrow>
    scalar_tail c src r dst ! i = (if r \<le> i then dst ! i XOR mul (src ! i) c else dst ! i)"
  using scalar_tail_upto [of "length dst" dst src c r] by (simp_all add: scalar_tail_def)

locale byte_kernel =
  fixes w :: nat and coeff :: u8 and kern :: "bytes \<Rightarrow> bytes \<Rightarrow> bytes"
  assumes w_pos: "0 < w"
    and kern_bytewise: "length data = w \<Longrightarrow> length prev = w \<Longrightarrow>
      kern data prev = map2 (\<lambda>d s. d XOR mul s coeff) prev data"
begin

lemma simd_chunks_nth:
  assumes "length src = length dst" "chunks * w \<le> length dst"
  shows "length (simd_chunks w kern src chunks dst) = length dst
    \<and> (\<forall>i < length dst. simd_chunks w kern src chunks dst ! i =
          (if i < chunks * w then dst ! i XOR mul (src ! i) coeff else dst ! i))"
  using assms(2)
proof (induction chunks)
  case 0
  then show ?case by (simp add: simd_chunks_def)
next
  case (Suc n)
  let ?d = "simd_chunks w kern src n dst" and ?o = "n * w"
  let ?chunk = "kern (take w (drop ?o src)) (take w (drop ?o ?d))"
  have IH: "length ?d = length dst"
    "\<And>i. i < length dst \<Longrightarrow> ?d ! i = (if i < ?o then dst ! i XOR mul (src ! i) coeff else dst ! i)"
    and fits: "?o + w \<le> length dst"
    using Suc by auto
  have chunk: "?chunk = map2 (\<lambda>d s. d XOR mul s coeff) (take w (drop ?o ?d)) (take w (drop ?o src))"
    using fits IH(1) assms(1) by (intro kern_bytewise) simp_all
  then have len: "length ?chunk = w" using fits IH(1) assms(1) by simp
  have "?chunk ! j = dst ! (?o + j) XOR mul (src ! (?o + j)) coeff" if "j < w" for j
    using that fits IH assms(1) unfolding chunk by simp
  then have "splice ?d ?o ?chunk ! i =
      (if i < Suc n * w then dst ! i XOR mul (src ! i) coeff else dst ! i)" if "i < length dst" for i
    using that fits len IH by (auto simp: nth_splice)
  moreover have "simd_chunks w kern src (Suc n) dst = splice ?d ?o ?chunk"
    by (simp add: simd_chunks_def Let_def)
  ultimately show ?case using len fits IH(1) by simp
qed

lemma simd_loop_scalar:
  assumes "length src = length dst"
  shows "simd_loop w kern coeff src dst = mul_slice_into dst src coeff"
proof (rule nth_equalityI)
  let ?n = "length src div w"
  have fits: "?n * w \<le> length dst" using assms by (metis div_times_less_eq_dividend)
  note chunks = simd_chunks_nth [OF assms fits]
  show "length (simd_loop w kern coeff src dst) = length (mul_slice_into dst src coeff)"
    using chunks assms by (simp add: simd_loop_def Let_def length_scalar_tail)
  fix i assume "i < length (simd_loop w kern coeff src dst)"
  then have "i < length dst" using chunks assms by (simp add: simd_loop_def Let_def length_scalar_tail)
  then show "simd_loop w kern coeff src dst ! i = mul_slice_into dst src coeff ! i"
    using chunks assms by (simp add: simd_loop_def Let_def nth_scalar_tail mul_slice_into_nth mul_commute)
qed

end

section \<open>The nibble tables\<close>

lemma nibble_row_upto:
  fixes f :: "u8 \<Rightarrow> u8"
  assumes "n \<le> 16"
  defines "step \<equiv> \<lambda>b row. row[b := f (of_nat b), b + 16 := f (of_nat b)]"
  shows "length (fold step [0..<n] (replicate 32 0)) = 32
    \<and> (\<forall>j < 32. fold step [0..<n] (replicate 32 0) ! j = (if j mod 16 < n then f (of_nat (j mod 16)) else 0))"
  using assms(1)
proof (induction n)
  case (Suc n)
  let ?r = "fold step [0..<n] (replicate 32 0)"
  have idx: "j = n \<or> j = n + 16 \<longleftrightarrow> j mod 16 = n" if "j < 32" for j
    using that Suc.prems by (cases "j < 16") (auto simp: le_mod_geq)
  have IH: "length ?r = 32" "\<And>j. j < 32 \<Longrightarrow> ?r ! j = (if j mod 16 < n then f (of_nat (j mod 16)) else 0)"
    using Suc by auto
  have "?r[n := f (of_nat n), n + 16 := f (of_nat n)] ! j =
      (if j mod 16 < Suc n then f (of_nat (j mod 16)) else 0)" if "j < 32" for j
    using IH that idx [OF that] Suc.prems by (auto simp: nth_list_update less_Suc_eq)
  then show ?case using IH by (simp add: step_def)
qed simp

lemma length_nibble_row [simp]: "length (nibble_row f) = 32"
  and nth_nibble_row: "j < 32 \<Longrightarrow> nibble_row f ! j = f (of_nat (j mod 16))"
  using nibble_row_upto [of 16 f] unfolding nibble_row_def by simp_all

lemma and_0x0f: "(x :: u8) AND 0x0f = take_bit 4 x"
  by (simp add: take_bit_eq_mask mask_eq_exp_minus_1)

lemma unat_and_0x0f: "unat ((x :: u8) AND 0x0f) < 16"
  unfolding and_0x0f unsigned_take_bit_eq using take_bit_nat_less_exp [of 4 "unat x"] by simp

lemma nibble_split: "(x :: u8) AND 0x0f XOR push_bit 4 (drop_bit 4 x) = x"
  unfolding and_0x0f by (rule bit_eqI) (auto simp: bit_simps)

lemma srli_epi16_mask:
  "even (length v) \<Longrightarrow> map (\<lambda>x. x AND 0x0f) (srli_epi16 v 4) = map (drop_bit 4) v"
proof (induction v "4 :: nat" rule: srli_epi16.induct)
  case (1 l h v)
  have "ucast (drop_bit 4 (ucast l OR push_bit 8 (ucast h) :: u16)) AND 0x0f = drop_bit 4 l"
    unfolding and_0x0f by (rule bit_eqI) (auto simp: bit_simps dest: bit_imp_le_length)
  moreover have "ucast (drop_bit 8 (drop_bit 4 (ucast l OR push_bit 8 (ucast h) :: u16))) AND 0x0f = drop_bit 4 h"
    unfolding and_0x0f by (rule bit_eqI) (auto simp: bit_simps dest: bit_imp_le_length)
  ultimately show ?case using 1 by (simp add: Let_def)
qed auto

lemma nibble_lookup:
  assumes "tbl = map (\<lambda>j. f (of_nat (j mod 16))) [0..<w]" "j < w" "16 dvd w" "unat x < 16"
  shows "tbl ! (16 * (j div 16) + unat x) = f x"
proof -
  obtain q where "w = 16 * q" using assms(3) by (auto simp: dvd_def)
  with assms(2) have "j div 16 < q" by (simp add: less_mult_imp_div_less)
  then have "Suc (j div 16) \<le> q" by simp
  with \<open>w = 16 * q\<close> assms(4) have "16 * (j div 16) + unat x < w" by linarith
  then show ?thesis using assms(1,4) by simp
qed

lemma not_bit_7_small:
  assumes "unat (x :: u8) < 16"
  shows "\<not> bit x 7"
proof -
  have "take_bit 4 (unat x) = unat x" using assms by (simp add: take_bit_nat_eq_self)
  then have "take_bit 4 x = x" by (metis unsigned_take_bit_eq word_unat_eq_iff)
  then show ?thesis using bit_take_bit_iff [of 4 x 7] by simp
qed

lemma nibble_kernel_bytewise:
  assumes lo: "tlo = map (\<lambda>j. mul coeff (of_nat (j mod 16))) [0..<w]"
    and hi: "thi = map (\<lambda>j. mul coeff (push_bit 4 (of_nat (j mod 16)))) [0..<w]"
    and w: "16 dvd w" and len: "length data = w" "length prev = w"
  shows "nibble_kernel w tlo thi data prev = map2 (\<lambda>d s. d XOR mul s coeff) prev data"
proof (rule nth_equalityI)
  have even: "even (length data)" using w len by (metis dvd_trans even_numeral)
  have v_lo: "v_and data (v_set1 w 0x0f) = map (\<lambda>x. x AND 0x0f) data"
    using len by (intro nth_equalityI) (simp_all add: v_and_def v_set1_def)
  have v_hi: "v_and (srli_epi16 data 4) (v_set1 w 0x0f) = map (drop_bit 4) data"
  proof -
    have "length (srli_epi16 data 4) = w"
      using srli_epi16_mask [OF even, THEN arg_cong, of length] len by simp
    then have "v_and (srli_epi16 data 4) (v_set1 w 0x0f) = map (\<lambda>x. x AND 0x0f) (srli_epi16 data 4)"
      by (intro nth_equalityI) (simp_all add: v_and_def v_set1_def)
    then show ?thesis using srli_epi16_mask [OF even] by simp
  qed
  show "length (nibble_kernel w tlo thi data prev) = length (map2 (\<lambda>d s. d XOR mul s coeff) prev data)"
    unfolding nibble_kernel_def Let_def v_lo v_hi using len by (simp add: v_xor_def shuffle_epi8_def)
  fix j assume "j < length (nibble_kernel w tlo thi data prev)"
  then have j: "j < w"
    unfolding nibble_kernel_def Let_def v_lo v_hi using len by (simp add: v_xor_def shuffle_epi8_def)
  let ?x = "data ! j"
  have d4: "unat (drop_bit 4 ?x) < 16"
    using unat_u8_less [of ?x] by (simp add: drop_bit_eq_div unat_div)
  then have d4_id: "drop_bit 4 ?x AND 0x0f = drop_bit 4 ?x"
    unfolding and_0x0f by (simp add: word_unat_eq_iff unsigned_take_bit_eq take_bit_nat_eq_self)
  note small = unat_and_0x0f [of ?x]
  have "shuffle_epi8 tlo (map (\<lambda>x. x AND 0x0f) data) ! j = mul coeff (?x AND 0x0f)"
    using nibble_lookup [OF lo j w small] not_bit_7_small [OF small] j len
    by (simp add: shuffle_epi8_def)
  moreover have "shuffle_epi8 thi (map (drop_bit 4) data) ! j = mul coeff (push_bit 4 (drop_bit 4 ?x))"
    using nibble_lookup [OF hi j w d4] not_bit_7_small [OF d4] j len d4_id
    by (simp add: shuffle_epi8_def)
  moreover have "mul coeff (?x AND 0x0f) XOR mul coeff (push_bit 4 (drop_bit 4 ?x)) = mul ?x coeff"
    by (metis nibble_split mul_xor_right mul_commute)
  ultimately show "nibble_kernel w tlo thi data prev ! j = map2 (\<lambda>d s. d XOR mul s coeff) prev data ! j"
    unfolding nibble_kernel_def Let_def v_lo v_hi using j len by (simp add: v_xor_def shuffle_epi8_def)
qed

lemma table_kernel_bytewise:
  assumes lo: "tlo = map (\<lambda>j. mul coeff (of_nat j)) [0..<16]"
    and hi: "thi = map (\<lambda>j. mul coeff (push_bit 4 (of_nat j))) [0..<16]"
    and len: "length data = 16" "length prev = 16"
  shows "table_kernel tlo thi data prev = map2 (\<lambda>d s. d XOR mul s coeff) prev data"
proof (rule nth_equalityI)
  have d4: "unat (drop_bit 4 x) < 16" for x :: u8
    using unat_u8_less [of x] by (simp add: drop_bit_eq_div unat_div)
  have d4_id: "drop_bit 4 x AND 0x0f = drop_bit 4 x" for x :: u8
    using d4 [of x] unfolding and_0x0f by (simp add: word_unat_eq_iff unsigned_take_bit_eq take_bit_nat_eq_self)
  have v_lo: "v_and data (v_set1 16 0x0f) = map (\<lambda>x. x AND 0x0f) data"
    using len by (intro nth_equalityI) (simp_all add: v_and_def v_set1_def)
  have v_hi: "v_and (shr_u8 data 4) (v_set1 16 0x0f) = map (drop_bit 4) data"
    using len d4_id by (intro nth_equalityI) (simp_all add: v_and_def v_set1_def shr_u8_def)
  show "length (table_kernel tlo thi data prev) = length (map2 (\<lambda>d s. d XOR mul s coeff) prev data)"
    unfolding table_kernel_def Let_def v_lo v_hi using len by (simp add: v_xor_def qtbl1q_u8_def)
  fix j assume "j < length (table_kernel tlo thi data prev)"
  then have j: "j < 16"
    unfolding table_kernel_def Let_def v_lo v_hi using len by (simp add: v_xor_def qtbl1q_u8_def)
  let ?x = "data ! j"
  have "qtbl1q_u8 tlo (map (\<lambda>x. x AND 0x0f) data) ! j = mul coeff (?x AND 0x0f)"
    using unat_and_0x0f [of ?x] j len lo by (simp add: qtbl1q_u8_def)
  moreover have "qtbl1q_u8 thi (map (drop_bit 4) data) ! j = mul coeff (push_bit 4 (drop_bit 4 ?x))"
    using d4 [of ?x] j len hi by (simp add: qtbl1q_u8_def)
  moreover have "mul coeff (?x AND 0x0f) XOR mul coeff (push_bit 4 (drop_bit 4 ?x)) = mul ?x coeff"
    by (metis nibble_split mul_xor_right mul_commute)
  ultimately show "table_kernel tlo thi data prev ! j = map2 (\<lambda>d s. d XOR mul s coeff) prev data ! j"
    unfolding table_kernel_def Let_def v_lo v_hi using j len by (simp add: v_xor_def qtbl1q_u8_def)
qed

lemma simd_tables_lo: "lo simd_tables ! unat coeff = map (\<lambda>j. mul coeff (of_nat (j mod 16))) [0..<32]"
  and simd_tables_hi:
    "hi simd_tables ! unat coeff = map (\<lambda>j. mul coeff (push_bit 4 (of_nat (j mod 16)))) [0..<32]"
  and simd_tables_gfni: "gfni simd_tables ! unat coeff = gfni_matrix coeff"
proof -
  have row: "nibble_row f = map (\<lambda>j. f (of_nat (j mod 16))) [0..<32]" for f
    by (rule nth_equalityI) (simp_all add: nth_nibble_row)
  have of_unat: "(of_nat (unat coeff) :: u8) = coeff" by simp
  have nth: "map g [0..<256] ! unat coeff = g (unat coeff)" for g :: "nat \<Rightarrow> 'a"
    using unat_u8_less [of coeff] by (simp del: upt_rec_numeral)
  show "lo simd_tables ! unat coeff = map (\<lambda>j. mul coeff (of_nat (j mod 16))) [0..<32]"
    "hi simd_tables ! unat coeff = map (\<lambda>j. mul coeff (push_bit 4 (of_nat (j mod 16)))) [0..<32]"
    "gfni simd_tables ! unat coeff = gfni_matrix coeff"
    unfolding simd_tables_def simd_tables.select_convs nth row of_unat by (rule refl)+
qed

section \<open>The bit matrix\<close>

lemma and_push_bit_iff: "(x :: u8) AND push_bit i 1 \<noteq> 0 \<longleftrightarrow> bit x i"
  by (simp add: push_bit_of_1 and_exp_eq_0_iff_not_bit)

lemma gfni_inner:
  fixes c :: u8 and k :: nat
  assumes "length m = 8" "n \<le> 8"
  defines "step \<equiv> \<lambda>i m. if c AND push_bit i 1 \<noteq> 0 then m[7 - i := m ! (7 - i) OR push_bit k (1 :: u8)] else m"
  shows "length (fold step [0..<n] m) = 8 \<and>
    (\<forall>j < 8. fold step [0..<n] m ! j = (if 7 - j < n \<and> bit c (7 - j) then m ! j OR push_bit k 1 else m ! j))"
  using assms(2)
proof (induction n)
  case (Suc n)
  let ?m = "fold step [0..<n] m"
  have IH: "length ?m = 8"
    "\<And>j. j < 8 \<Longrightarrow> ?m ! j = (if 7 - j < n \<and> bit c (7 - j) then m ! j OR push_bit k 1 else m ! j)"
    using Suc by auto
  have "step n ?m ! j = (if 7 - j < Suc n \<and> bit c (7 - j) then m ! j OR push_bit k 1 else m ! j)" if "j < 8" for j
  proof (cases "j = 7 - n")
    case True
    then show ?thesis using IH Suc.prems that
      unfolding step_def and_push_bit_iff by auto
  next
    case False
    then have "7 - j < Suc n \<longleftrightarrow> 7 - j < n" using that Suc.prems by linarith
    then show ?thesis using IH that False unfolding step_def by auto
  qed
  moreover have "length (step n ?m) = 8" using IH(1) by (simp add: step_def)
  ultimately show ?case by simp
qed (use assms(1) in simp)

lemma gfni_outer:
  fixes coeff :: u8
  assumes "n \<le> 8"
  defines "inner \<equiv> \<lambda>k m. let c_k = mul coeff (push_bit k 1)
      in fold (\<lambda>i m. if c_k AND push_bit i 1 \<noteq> 0 then m[7 - i := m ! (7 - i) OR push_bit k (1 :: u8)] else m) [0..<8] m"
  shows "length (fold inner [0..<n] (replicate 8 0)) = 8 \<and>
    (\<forall>j < 8. \<forall>k < 8. bit (fold inner [0..<n] (replicate 8 0) ! j) k \<longleftrightarrow>
        k < n \<and> bit (mul coeff (push_bit k 1)) (7 - j))"
  using assms(1)
proof (induction n)
  case (Suc n)
  let ?m = "fold inner [0..<n] (replicate 8 0)" and ?c = "mul coeff (push_bit n 1)"
  have IH: "length ?m = 8"
    "\<And>j k. j < 8 \<Longrightarrow> k < 8 \<Longrightarrow> bit (?m ! j) k \<longleftrightarrow> k < n \<and> bit (mul coeff (push_bit k 1)) (7 - j)"
    using Suc by auto
  note inner = gfni_inner [OF IH(1) order_refl, of ?c n]
  have len: "length (inner n ?m) = 8"
    using inner unfolding inner_def Let_def by blast
  have "inner n ?m ! j = (if bit ?c (7 - j) then ?m ! j OR push_bit n 1 else ?m ! j)" if "j < 8" for j
  proof -
    have "7 - j < 8" by linarith
    with inner [THEN conjunct2, rule_format, OF that] show ?thesis
      unfolding inner_def Let_def by (simp only: simp_thms)
  qed
  moreover have "bit (push_bit n (1 :: u8)) k \<longleftrightarrow> k = n" if "k < 8" for k
    using that by (auto simp: push_bit_of_1 bit_exp_iff)
  ultimately have "bit (inner n ?m ! j) k \<longleftrightarrow> k < Suc n \<and> bit (mul coeff (push_bit k 1)) (7 - j)"
    if "j < 8" "k < 8" for j k
    using IH(2) that by (auto simp: bit_or_iff less_Suc_eq)
  then show ?case using len by simp
qed simp

lemma gfni_matrix_bytes_bit:
  "length (gfni_matrix_bytes coeff) = 8"
  "j < 8 \<Longrightarrow> k < 8 \<Longrightarrow> bit (gfni_matrix_bytes coeff ! j) k \<longleftrightarrow> bit (mul coeff (push_bit k 1)) (7 - j)"
  using gfni_outer [OF order_refl, of coeff] unfolding gfni_matrix_bytes_def by blast+

lemma nth_rev_be_bytes: "j < n \<Longrightarrow> rev (be_bytes n x) ! j = of_nat (x div 256 ^ j)"
proof (induction n arbitrary: x j)
  case (Suc n)
  then show ?case by (cases j) (simp_all add: div_mult2_eq)
qed simp

lemma byte_of_le_val:
  assumes "length bs = 8" "j < 8"
  shows "(ucast (drop_bit (8 * j) (of_nat (le_val bs) :: u64)) :: u8) = bs ! j"
proof -
  have "le_val bs < 2 ^ 64" using be_val_less [of "rev bs"] assms(1) by (simp add: le_val_def)
  then have "unat (drop_bit (8 * j) (of_nat (le_val bs) :: u64)) = le_val bs div 256 ^ j"
    unfolding unsigned_drop_bit_eq by (simp add: unat_of_nat drop_bit_eq_div power_mult take_bit_eq_mod)
  then have "ucast (drop_bit (8 * j) (of_nat (le_val bs) :: u64)) = (of_nat (le_val bs div 256 ^ j) :: u8)"
    by (metis of_nat_unat)
  moreover have "bs ! j = of_nat (le_val bs div 256 ^ j)"
    using nth_rev_be_bytes [of j 8 "le_val bs"] be_bytes_be_val [of "rev bs"] assms
    by (simp add: le_val_def)
  ultimately show ?thesis by simp
qed

lemma take_bit_Suc_xor:
  "take_bit (Suc n) (x :: u8) = take_bit n x XOR (if bit x n then push_bit n 1 else 0)"
  by (rule bit_eqI) (auto simp: bit_take_bit_iff bit_xor_iff push_bit_of_1 bit_exp_iff less_Suc_eq
      dest: bit_imp_possible_bit)

lemma bit_mul_take_bit:
  "bit (mul coeff (take_bit n x)) i \<longleftrightarrow>
   foldl (\<lambda>p k. p \<noteq> (bit x k \<and> bit (mul coeff (push_bit k 1)) i)) False [0..<n]"
proof (induction n)
  case (Suc n)
  show ?case
    unfolding take_bit_Suc_xor mul_xor_right bit_xor_iff Suc upt_Suc_append [OF le0] foldl_append
    by (simp del: push_bit_of_1)
qed simp

lemma fold_or_bits:
  "n \<le> 8 \<Longrightarrow> bit (fold (\<lambda>i acc. if P i then acc OR push_bit i (1 :: u8) else acc) [0..<n] 0) i \<longleftrightarrow> i < n \<and> P i"
  by (induction n) (auto simp: bit_or_iff push_bit_of_1 bit_exp_iff less_Suc_eq)

lemma gf2p8affine_byte_mul: "gf2p8affine_byte (gfni_matrix coeff) x = mul x coeff"
proof (rule bit_eqI)
  fix i
  assume "possible_bit TYPE(u8) i"
  then have i: "i < 8" by simp
  have row: "ucast (drop_bit (8 * (7 - i)) (gfni_matrix coeff)) = gfni_matrix_bytes coeff ! (7 - i)"
    unfolding gfni_matrix_def by (rule byte_of_le_val [OF gfni_matrix_bytes_bit(1)]) (use i in linarith)
  have "bit (gf2p8affine_byte (gfni_matrix coeff) x) i \<longleftrightarrow> parity8 (x AND gfni_matrix_bytes coeff ! (7 - i))"
    unfolding gf2p8affine_byte_def fold_or_bits [OF order_refl] using i row by simp
  also have "\<dots> \<longleftrightarrow> foldl (\<lambda>p k. p \<noteq> (bit x k \<and> bit (mul coeff (push_bit k 1)) i)) False [0..<8]"
    unfolding parity8_def using i
    by (intro arg_cong2 [where f = "\<lambda>a b. a \<longleftrightarrow> b"] foldl_cong)
       (simp_all add: bit_and_iff gfni_matrix_bytes_bit(2) del: push_bit_of_1)
  also have "\<dots> \<longleftrightarrow> bit (mul coeff (take_bit 8 x)) i"
    by (rule bit_mul_take_bit [symmetric])
  also have "take_bit 8 x = x" by (rule take_bit_word_eq_self) simp
  finally show "bit (gf2p8affine_byte (gfni_matrix coeff) x) i \<longleftrightarrow> bit (mul x coeff) i"
    by (simp add: mul_commute)
qed

section \<open>Every kernel is the scalar loop\<close>

lemma take_simd_tables:
  assumes "n \<le> 32"
  shows "take n (lo simd_tables ! unat coeff) = map (\<lambda>j. mul coeff (of_nat (j mod 16))) [0..<n]"
    "take n (hi simd_tables ! unat coeff) = map (\<lambda>j. mul coeff (push_bit 4 (of_nat (j mod 16)))) [0..<n]"
  using assms by (simp_all only: simd_tables_lo simd_tables_hi take_map take_upt add_0)

lemma broadcast_lanes:
  "concat (replicate n (map (\<lambda>j. f (j mod 16)) [0..<16])) = map (\<lambda>j. f (j mod 16)) [0..<n * 16]"
proof (induction n)
  case (Suc n)
  have "map (\<lambda>j. f (j mod 16)) [n * 16..<n * 16 + 16] = map (\<lambda>j. f (j mod 16)) [0..<16]"
    using map_add_upt [of "n * 16" 16] by (intro nth_equalityI) (simp_all del: upt_rec_numeral)
  moreover have "[0..<Suc n * 16] = [0..<n * 16] @ [n * 16..<n * 16 + 16]"
    using upt_add_eq_append [of 0 "n * 16" 16] by (simp add: add.commute)
  ultimately show ?case
    using Suc unfolding replicate_Suc [of n] replicate_append_same [symmetric]
    by (simp only: concat_append concat.simps append_Nil2 map_append)
qed simp

lemma broadcast_tables:
  "concat (replicate 4 (take 16 (lo simd_tables ! unat coeff))) =
     map (\<lambda>j. mul coeff (of_nat (j mod 16))) [0..<64]"
  "concat (replicate 4 (take 16 (hi simd_tables ! unat coeff))) =
     map (\<lambda>j. mul coeff (push_bit 4 (of_nat (j mod 16)))) [0..<64]"
proof -
  have "4 * 16 = (64 :: nat)" "16 \<le> (32 :: nat)" by linarith+
  then show "concat (replicate 4 (take 16 (lo simd_tables ! unat coeff))) =
     map (\<lambda>j. mul coeff (of_nat (j mod 16))) [0..<64]"
    "concat (replicate 4 (take 16 (hi simd_tables ! unat coeff))) =
     map (\<lambda>j. mul coeff (push_bit 4 (of_nat (j mod 16)))) [0..<64]"
    by (simp_all only: take_simd_tables broadcast_lanes [of 4 "\<lambda>i. mul coeff (of_nat i)"]
        broadcast_lanes [of 4 "\<lambda>i. mul coeff (push_bit 4 (of_nat i))"])
qed

lemma take_16_tables:
  "take 16 (lo simd_tables ! unat coeff) = map (\<lambda>j. mul coeff (of_nat j)) [0..<16]"
  "take 16 (hi simd_tables ! unat coeff) = map (\<lambda>j. mul coeff (push_bit 4 (of_nat j))) [0..<16]"
  using take_simd_tables [of 16 coeff] by simp_all

interpretation nibble_16: byte_kernel 16 coeff
  "nibble_kernel 16 (take 16 (lo simd_tables ! unat coeff)) (take 16 (hi simd_tables ! unat coeff))" for coeff
  by unfold_locales (simp, rule nibble_kernel_bytewise, (rule take_simd_tables | simp)+)

interpretation nibble_32: byte_kernel 32 coeff
  "nibble_kernel 32 (take 32 (lo simd_tables ! unat coeff)) (take 32 (hi simd_tables ! unat coeff))" for coeff
  by unfold_locales (simp, rule nibble_kernel_bytewise, (rule take_simd_tables | simp)+)

interpretation nibble_64: byte_kernel 64 coeff
  "nibble_kernel 64 (concat (replicate 4 (take 16 (lo simd_tables ! unat coeff))))
     (concat (replicate 4 (take 16 (hi simd_tables ! unat coeff))))" for coeff
  by unfold_locales (simp, rule nibble_kernel_bytewise, (rule broadcast_tables | simp)+)

interpretation table_16: byte_kernel 16 coeff
  "table_kernel (take 16 (lo simd_tables ! unat coeff)) (take 16 (hi simd_tables ! unat coeff))" for coeff
  by unfold_locales (simp, rule table_kernel_bytewise, (rule take_16_tables | simp)+)

lemma affine_kernel_bytewise:
  "length data = w \<Longrightarrow> length prev = w \<Longrightarrow>
   affine_kernel (gfni_matrix coeff) data prev = map2 (\<lambda>d s. d XOR mul s coeff) prev data"
  by (rule nth_equalityI) (simp_all add: affine_kernel_def v_xor_def gf2p8affine_def gf2p8affine_byte_mul)

interpretation affine_64: byte_kernel 64 coeff "affine_kernel (gfni_matrix coeff)" for coeff
  by unfold_locales (simp, rule affine_kernel_bytewise)

interpretation affine_32: byte_kernel 32 coeff "affine_kernel (gfni_matrix coeff)" for coeff
  by unfold_locales (simp, rule affine_kernel_bytewise)

interpretation affine_16: byte_kernel 16 coeff "affine_kernel (gfni_matrix coeff)" for coeff
  by unfold_locales (simp, rule affine_kernel_bytewise)

lemma mul_slice_into_0 [simp]: "mul_slice_into dst src 0 = dst"
  by (simp add: mul_slice_into_def)

lemmas kernel_simps = mul_add_ssse3_def mul_add_avx2_def mul_add_avx512_def mul_add_gfni_def
  mul_add_gfni_512_def mul_add_gfni_256_def mul_add_gfni_128_def mul_add_neon_def mul_add_wasm128_def
  nibble_tables_def simd_tables_gfni
  nibble_16.simd_loop_scalar nibble_32.simd_loop_scalar nibble_64.simd_loop_scalar
  table_16.simd_loop_scalar affine_64.simd_loop_scalar affine_32.simd_loop_scalar
  affine_16.simd_loop_scalar

lemma kernels_fallback:
  "mul_add_ssse3 p coeff src dst = mul_add_fallback coeff src dst"
  "mul_add_avx2 p coeff src dst = mul_add_fallback coeff src dst"
  "mul_add_avx512 p coeff src dst = mul_add_fallback coeff src dst"
  "mul_add_gfni p coeff src dst = mul_add_fallback coeff src dst"
  "mul_add_neon p coeff src dst = mul_add_fallback coeff src dst"
  "mul_add_wasm128 p coeff src dst = mul_add_fallback coeff src dst"
  by (simp_all add: kernel_simps Let_def mul_add_fallback_def)

end
