(* ===== verification/Linear_Code.thy ===== *)
theory Linear_Code
  imports Main
begin

text \<open>
  Linear algebra the erasure code rests on, over any field and with matrices as functions of a row
  and a column index: a Cauchy system with at least as many equations as unknowns has only the
  trivial solution, so has the two-row system of powers used for up to two erasures, and one
  pivoting step of Gauss-Jordan elimination keeps the left inverse and the kernel.
\<close>

section \<open>Cauchy systems\<close>

lemma cauchy_step:
  fixes x0 x yp :: "'a :: field"
  assumes "x \<noteq> yi" "x0 \<noteq> yi"
  shows "(x - yp) * (v / (x - yi)) - (x0 - yp) * (v / (x0 - yi)) =
    (x - x0) * ((v * (yp - yi) / (x0 - yi)) / (x - yi))"
proof -
  have nz: "x - yi \<noteq> 0" "x0 - yi \<noteq> 0" using assms by simp_all
  have "(x - yp) * (x0 - yi) - (x0 - yp) * (x - yi) = (x - x0) * (yp - yi)"
    by (simp add: algebra_simps)
  then have "v * ((x - yp) * (x0 - yi) - (x0 - yp) * (x - yi)) / ((x - yi) * (x0 - yi)) =
      v * ((x - x0) * (yp - yi)) / ((x - yi) * (x0 - yi))" by simp
  then show ?thesis
    using nz by (simp add: field_simps)
qed

lemma cauchy_nonsingular:
  fixes y :: "'i \<Rightarrow> 'a :: field"
  assumes "finite U" "finite X" "card U \<le> card X" "inj_on y U" "X \<inter> y ` U = {}"
    and "\<And>x. x \<in> X \<Longrightarrow> (\<Sum>i\<in>U. v i / (x - y i)) = 0"
    and "i \<in> U"
  shows "v i = 0"
  using assms
proof (induction "card U" arbitrary: U X v i)
  case 0
  then show ?case by simp
next
  case (Suc n)
  obtain p where p: "p \<in> U" using Suc.prems(7) by blast
  obtain x0 where x0: "x0 \<in> X" using Suc.hyps(2) Suc.prems(3) by (metis card.empty ex_in_conv not_less_eq_eq zero_le)
  let ?U = "U - {p}" and ?X = "X - {x0}"
  define w where "w i = v i * (y p - y i) / (x0 - y i)" for i
  have ne: "x \<noteq> y j" if "x \<in> X" "j \<in> U" for x j
    using Suc.prems(5) that by blast
  have sys: "(\<Sum>i\<in>?U. w i / (x - y i)) = 0" if x: "x \<in> ?X" for x
  proof -
    have "(x - y p) * (\<Sum>i\<in>U. v i / (x - y i)) - (x0 - y p) * (\<Sum>i\<in>U. v i / (x0 - y i)) =
        (\<Sum>i\<in>U. (x - y p) * (v i / (x - y i)) - (x0 - y p) * (v i / (x0 - y i)))"
      by (simp only: sum_distrib_left sum_subtractf)
    also have "\<dots> = (\<Sum>i\<in>U. (x - x0) * (w i / (x - y i)))"
      unfolding w_def using x x0 ne by (intro sum.cong refl cauchy_step) auto
    also have "\<dots> = (x - x0) * (\<Sum>i\<in>U. w i / (x - y i))"
      by (simp only: sum_distrib_left)
    also have "(\<Sum>i\<in>U. w i / (x - y i)) = (\<Sum>i\<in>?U. w i / (x - y i))"
      using p Suc.prems(1) by (simp add: sum.remove w_def)
    finally show ?thesis
      using x x0 Suc.prems(6) by auto
  qed
  have w0: "w j = 0" if "j \<in> ?U" for j
  proof (rule Suc.hyps(1) [of ?U ?X w j])
    show "n = card ?U" using p Suc.hyps(2) Suc.prems(1) by simp
    show "card ?U \<le> card ?X" using p x0 Suc.prems by simp
    show "inj_on y ?U" using Suc.prems(4) by (rule inj_on_subset) blast
  qed (use Suc.prems sys that in auto)
  have v0: "v j = 0" if "j \<in> ?U" for j
  proof -
    have "y p \<noteq> y j" "x0 \<noteq> y j" using that p x0 ne Suc.prems(4) by (auto dest: inj_onD)
    then show ?thesis using w0 [OF that] by (simp add: w_def)
  qed
  have "(\<Sum>i\<in>U. v i / (x0 - y i)) = v p / (x0 - y p)"
    using p Suc.prems(1) v0 by (simp add: sum.remove)
  then have "v p = 0" using Suc.prems(6) [OF x0] ne [OF x0 p] by simp
  then show ?case using v0 Suc.prems(7) by blast
qed

section \<open>Two rows of powers\<close>

lemma pq_nonsingular:
  fixes g :: "nat \<Rightarrow> 'a :: field"
  assumes "finite U" "finite X" "X \<subseteq> {0, 1 :: nat}" "card U \<le> card X" "inj_on g U"
    and nz: "\<And>i. i \<in> U \<Longrightarrow> g i \<noteq> 0"
    and sys: "\<And>m. m \<in> X \<Longrightarrow> (\<Sum>i\<in>U. (if m = 0 then 1 else g i) * v i) = 0"
    and "i \<in> U"
  shows "v i = 0"
proof (cases "U = {i}")
  case True
  then obtain m where "m \<in> X" using assms(2,4) by fastforce
  then show ?thesis using sys [of m] nz [of i] True by (auto split: if_splits)
next
  case False
  then obtain j where j: "j \<in> U" "j \<noteq> i" using \<open>i \<in> U\<close> by blast
  then have "2 \<le> card U" using \<open>i \<in> U\<close> assms(1) card_mono [of U "{i, j}"] by simp
  moreover have "card X \<le> 2" using card_mono [OF _ assms(3)] by simp
  ultimately have "card X = 2" "card U = 2" using assms(4) by linarith+
  then have X: "X = {0, 1}" and U: "U = {i, j}"
    using assms(1,3) j \<open>i \<in> U\<close> by (simp_all add: card_subset_eq) (metis card_2_iff doubleton_eq_iff insertE singletonD)
  have "v i + v j = 0" "g i * v i + g j * v j = 0"
    using sys [of 0] sys [of 1] X j unfolding U by simp_all
  then have "(g i - g j) * v i = 0" by (simp add: algebra_simps add_eq_0_iff)
  moreover have "g i \<noteq> g j" using assms(5) j \<open>i \<in> U\<close> by (auto dest: inj_onD)
  ultimately show ?thesis by simp
qed

section \<open>Gauss-Jordan elimination\<close>

definition row_prod :: "nat \<Rightarrow> (nat \<Rightarrow> nat \<Rightarrow> 'a :: field) \<Rightarrow> (nat \<Rightarrow> 'a) \<Rightarrow> nat \<Rightarrow> 'a" where
  "row_prod n A v i = (\<Sum>j<n. A i j * v j)"

definition nonsingular :: "nat \<Rightarrow> (nat \<Rightarrow> nat \<Rightarrow> 'a :: field) \<Rightarrow> bool" where
  "nonsingular n A \<longleftrightarrow> (\<forall>v. (\<forall>i<n. row_prod n A v i = 0) \<longrightarrow> (\<forall>i<n. v i = 0))"

text \<open>\<open>V\<close> records the row operations that turned \<open>M\<close> into \<open>A\<close>, and they lost no equation.\<close>

definition gauss_rel :: "nat \<Rightarrow> (nat \<Rightarrow> nat \<Rightarrow> 'a :: field) \<Rightarrow> (nat \<Rightarrow> nat \<Rightarrow> 'a) \<Rightarrow> (nat \<Rightarrow> nat \<Rightarrow> 'a) \<Rightarrow> bool" where
  "gauss_rel n M A V \<longleftrightarrow>
     (\<forall>i<n. \<forall>j<n. (\<Sum>k<n. V i k * M k j) = A i j) \<and>
     (\<forall>v. (\<forall>i<n. row_prod n A v i = 0) \<longrightarrow> (\<forall>i<n. row_prod n M v i = 0))"

definition unit_cols :: "nat \<Rightarrow> nat \<Rightarrow> (nat \<Rightarrow> nat \<Rightarrow> 'a :: field) \<Rightarrow> bool" where
  "unit_cols n c A \<longleftrightarrow> (\<forall>i<n. \<forall>j<c. A i j = (if i = j then 1 else 0))"

text \<open>One pivoting step: bring row \<open>p\<close> to position \<open>c\<close>, scale it by \<open>d\<close>, clear the column. \<open>f\<close>
  reads the column entry of a row.\<close>

definition pivot_op :: "nat \<Rightarrow> (nat \<Rightarrow> nat) \<Rightarrow> 'a \<Rightarrow> (nat \<Rightarrow> 'a) \<Rightarrow> (nat \<Rightarrow> nat \<Rightarrow> 'a :: field) \<Rightarrow> nat \<Rightarrow> nat \<Rightarrow> 'a" where
  "pivot_op c s d f A i j = (if i = c then d * A (s c) j else A (s i) j - f (s i) * (d * A (s c) j))"

lemma row_prod_pivot:
  "row_prod n (pivot_op c s d f A) v i =
     (if i = c then d * row_prod n A v (s c)
      else row_prod n A v (s i) - f (s i) * (d * row_prod n A v (s c)))"
  by (simp add: row_prod_def pivot_op_def sum_distrib_left left_diff_distrib sum_subtractf mult.assoc)

lemma gauss_rel_init: "gauss_rel n M M (\<lambda>i j. if i = j then 1 else 0)"
proof -
  have "(\<Sum>k<n. (if i = k then 1 else 0) * M k j) = M i j" if "i < n" for i j
  proof -
    have "(\<Sum>k<n. (if i = k then 1 else 0) * M k j) = (\<Sum>k<n. if i = k then M k j else 0)"
      by (intro sum.cong) simp_all
    then show ?thesis using that by simp
  qed
  then show ?thesis by (simp add: gauss_rel_def)
qed

lemma gauss_rel_pivot:
  assumes rel: "gauss_rel n M A V" and s: "bij_betw s {..<n} {..<n}" and c: "c < n" and d: "d \<noteq> 0"
  shows "gauss_rel n M (pivot_op c s d f A) (pivot_op c s d f V)"
proof -
  have s_less: "i < n \<Longrightarrow> s i < n" for i using s by (auto simp: bij_betw_def)
  have prod: "(\<Sum>k<n. pivot_op c s d f V i k * M k j) = pivot_op c s d f (\<lambda>i j. \<Sum>k<n. V i k * M k j) i j" for i j
    by (simp add: pivot_op_def sum_distrib_left left_diff_distrib sum_subtractf mult.assoc)
  have "(\<Sum>k<n. pivot_op c s d f V i k * M k j) = pivot_op c s d f A i j" if "i < n" "j < n" for i j
    unfolding prod using rel that c s_less by (simp add: pivot_op_def gauss_rel_def)
  moreover have "\<forall>i<n. row_prod n M v i = 0" if v: "\<forall>i<n. row_prod n (pivot_op c s d f A) v i = 0" for v
  proof -
    have pc: "row_prod n A v (s c) = 0" using v c d by (auto simp: row_prod_pivot)
    have "row_prod n A v (s i) = 0" if "i < n" for i
      using v that pc by (cases "i = c") (auto simp: row_prod_pivot)
    then have "\<forall>i<n. row_prod n A v i = 0"
      using s by (metis bij_betw_iff_bijections lessThan_iff)
    then show ?thesis using rel by (simp add: gauss_rel_def)
  qed
  ultimately show ?thesis by (simp add: gauss_rel_def)
qed

lemma unit_cols_pivot:
  assumes uc: "unit_cols n c A" and c: "c < n"
    and s: "\<And>i. i < c \<Longrightarrow> s i = i" "\<And>i. i < n \<Longrightarrow> s i < n" "c \<le> s c"
    and s': "\<And>i. c \<le> i \<Longrightarrow> c \<le> s i"
    and d: "d * A (s c) c = 1" and f: "\<And>i. i < n \<Longrightarrow> f i = A i c"
  shows "unit_cols n (Suc c) (pivot_op c s d f A)"
  unfolding unit_cols_def
proof (intro allI impI)
  fix i j assume ij: "i < n" "j < Suc c"
  have col: "A (s c) j = 0" if "j < c"
    using uc s(2) [OF c] s(3) that unfolding unit_cols_def by (metis not_le)
  show "pivot_op c s d f A i j = (if i = j then 1 else 0)"
  proof (cases "j = c")
    case True
    then show ?thesis using d f [OF s(2) [OF ij(1)]] by (auto simp: pivot_op_def)
  next
    case False
    then have j: "j < c" using ij(2) by simp
    have "A (s i) j = (if i = j then 1 else 0)" if "i \<noteq> c"
    proof (cases "i < c")
      case True
      then show ?thesis using uc s(1) ij(1) j by (simp add: unit_cols_def)
    next
      case False
      then have "c \<le> s i" using s' by simp
      then show ?thesis using uc s(2) [OF ij(1)] j False by (auto simp: unit_cols_def)
    qed
    then show ?thesis using col [OF j] j by (auto simp: pivot_op_def)
  qed
qed

lemma gauss_done:
  assumes "gauss_rel n M A V" "unit_cols n n A" "i < n" "j < n"
  shows "(\<Sum>k<n. V i k * M k j) = (if i = j then 1 else 0)"
  using assms by (simp add: gauss_rel_def unit_cols_def)

lemma gauss_stuck:
  assumes rel: "gauss_rel n M A V" and uc: "unit_cols n c A" and c: "c < n"
    and none: "\<And>i. c \<le> i \<Longrightarrow> i < n \<Longrightarrow> A i c = 0"
  shows "\<not> nonsingular n M"
proof -
  define v where "v j = (if j = c then 1 else if j < c then - A j c else 0)" for j
  have "row_prod n A v i = 0" if i: "i < n" for i
  proof -
    have "row_prod n A v i = (\<Sum>j\<in>insert c {..<c}. A i j * v j)"
      unfolding row_prod_def using c by (intro sum.mono_neutral_right) (auto simp: v_def)
    also have "\<dots> = A i c + (\<Sum>j<c. A i j * v j)" by (simp add: v_def)
    also have "(\<Sum>j<c. A i j * v j) = (\<Sum>j<c. if i = j then - A j c else 0)"
      using uc i by (intro sum.cong) (auto simp: v_def unit_cols_def)
    also have "\<dots> = (if i < c then - A i c else 0)" by simp
    finally show ?thesis using none [of i] i by (auto split: if_splits)
  qed
  then have "\<forall>i<n. row_prod n M v i = 0" using rel by (simp add: gauss_rel_def)
  moreover have "v c \<noteq> 0" by (simp add: v_def)
  ultimately show ?thesis using c unfolding nonsingular_def by blast
qed

text \<open>A left inverse undoes the code: it recovers the message from the code word.\<close>

lemma left_inverse_apply:
  assumes inv: "\<And>j. j < n \<Longrightarrow> (\<Sum>k<n. V i k * M k j) = (if i = j then 1 else 0)" and i: "i < n"
  shows "(\<Sum>k<n. V i k * row_prod n M x k) = (x i :: 'a :: field)"
proof -
  have "(\<Sum>k<n. V i k * row_prod n M x k) = (\<Sum>k<n. \<Sum>j<n. V i k * M k j * x j)"
    by (simp add: row_prod_def sum_distrib_left mult.assoc)
  also have "\<dots> = (\<Sum>j<n. \<Sum>k<n. V i k * M k j * x j)" by (rule sum.swap)
  also have "\<dots> = (\<Sum>j<n. (if i = j then 1 else 0) * x j)"
    by (intro sum.cong refl) (simp add: inv flip: sum_distrib_right)
  also have "\<dots> = (\<Sum>j<n. if i = j then x j else 0)" by (intro sum.cong) auto
  finally show ?thesis using i by simp
qed

lemma left_inverse_nonsingular:
  assumes "\<forall>i<n. \<forall>j<n. (\<Sum>k<n. V i k * M k j) = (if i = j then 1 else (0 :: 'a :: field))"
  shows "nonsingular n M"
  unfolding nonsingular_def
proof (intro allI impI)
  fix x i assume "\<forall>i<n. row_prod n M x i = 0" "i < n"
  then show "x i = 0"
    using left_inverse_apply [of n V i M x] assms by simp
qed

end
