(* ===== verification/Gauss.thy ===== *)
theory Gauss
  imports Gf256 Linear_Code
begin

text \<open>
  The matrix inversion \<open>invert\<close> of \<^verbatim>\<open>crates/yip-transport/src/rs.rs\<close>: Gauss-Jordan elimination on
  byte matrices. The theory shows that it never panics on a square matrix, returns nothing exactly
  on the singular ones and otherwise returns the inverse.
\<close>

section \<open>The model\<close>

definition swap :: "'a list \<Rightarrow> nat \<Rightarrow> nat \<Rightarrow> 'a list" where
  "swap xs i j = xs[i := xs ! j, j := xs ! i]"

definition eliminate_row :: "nat \<Rightarrow> nat \<Rightarrow> bytes list \<times> bytes list \<Rightarrow> bytes list \<times> bytes list" where
  "eliminate_row col r s =
     (case s of (a, v) \<Rightarrow>
        if r = col then (a, v)
        else let f = a ! r ! col
             in if f = 0 then (a, v)
                else (a[r := map2 (\<lambda>x y. x XOR mul f y) (a ! r) (a ! col)],
                      v[r := map2 (\<lambda>x y. x XOR mul f y) (v ! r) (v ! col)]))"

definition gauss_step :: "nat \<Rightarrow> nat \<Rightarrow> bytes list \<times> bytes list \<Rightarrow> (bytes list \<times> bytes list) option exec" where
  "gauss_step n col s =
     (case s of (a0, v0) \<Rightarrow>
        case find (\<lambda>r. a0 ! r ! col \<noteq> 0) [col..<n] of
          None \<Rightarrow> Some None
        | Some piv \<Rightarrow>
            let a = swap a0 col piv; v = swap v0 col piv
            in case inv (a ! col ! col) of
                 None \<Rightarrow> None
               | Some d \<Rightarrow>
                   let a' = a[col := map (\<lambda>x. mul x d) (a ! col)];
                       v' = v[col := map (\<lambda>x. mul x d) (v ! col)]
                   in Some (Some (fold (eliminate_row col) [0..<n] (a', v'))))"

fun gauss_loop :: "nat \<Rightarrow> nat list \<Rightarrow> bytes list \<times> bytes list \<Rightarrow> (bytes list \<times> bytes list) option exec" where
  "gauss_loop n [] s = Some (Some s)"
| "gauss_loop n (col # cols) s =
     (case gauss_step n col s of
        None \<Rightarrow> None
      | Some None \<Rightarrow> Some None
      | Some (Some s') \<Rightarrow> gauss_loop n cols s')"

text \<open>Both callers pass a square matrix.\<close>

definition invert :: "bytes list \<Rightarrow> bytes list option exec" where
  "invert a =
     (let n = length a; v = map (\<lambda>i. map (\<lambda>j. if i = j then 1 else 0) [0..<n]) [0..<n]
      in map_option (map_option snd) (gauss_loop n [0..<n] (a, v)))"

section \<open>Correctness\<close>

definition mat :: "bytes list \<Rightarrow> nat \<Rightarrow> nat \<Rightarrow> gf" where
  "mat a i j = Gf (a ! i ! j)"

definition square :: "nat \<Rightarrow> bytes list \<Rightarrow> bool" where
  "square n a \<longleftrightarrow> length a = n \<and> (\<forall>i<n. length (a ! i) = n)"

lemma squareD: "square n a \<Longrightarrow> length a = n" "square n a \<Longrightarrow> i < n \<Longrightarrow> length (a ! i) = n"
  by (simp_all add: square_def)

lemma square_update: "square n a \<Longrightarrow> length row = n \<Longrightarrow> square n (a[i := row])"
  by (cases "i < n") (auto simp: square_def nth_list_update list_update_beyond)

lemma square_swap: "square n a \<Longrightarrow> i < n \<Longrightarrow> j < n \<Longrightarrow> square n (swap a i j)"
  by (simp add: swap_def square_update squareD)

definition transposition :: "nat \<Rightarrow> nat \<Rightarrow> nat \<Rightarrow> nat" where
  "transposition c p i = (if i = c then p else if i = p then c else i)"

lemma mat_swap:
  "square n a \<Longrightarrow> c < n \<Longrightarrow> p < n \<Longrightarrow> i < n \<Longrightarrow> mat (swap a c p) i j = mat a (transposition c p i) j"
  by (auto simp: mat_def swap_def transposition_def squareD nth_list_update)

lemma transposition_bij: "c < n \<Longrightarrow> p < n \<Longrightarrow> bij_betw (transposition c p) {..<n} {..<n}"
  by (rule bij_betw_byWitness [where f' = "transposition c p"]) (auto simp: transposition_def)

lemma eliminate_fold:
  assumes "square n a" "square n v" "col < n" "m \<le> n"
  shows "case fold (eliminate_row col) [0..<m] (a, v) of (a', v') \<Rightarrow>
    square n a' \<and> square n v' \<and>
    (\<forall>i<n. \<forall>j<n.
      mat a' i j = (if i < m \<and> i \<noteq> col then mat a i j - mat a i col * mat a col j else mat a i j) \<and>
      mat v' i j = (if i < m \<and> i \<noteq> col then mat v i j - mat a i col * mat v col j else mat v i j))"
  using assms(4)
proof (induction m)
  case (Suc m)
  obtain a' v' where s: "fold (eliminate_row col) [0..<m] (a, v) = (a', v')" by force
  have m: "m < n" using Suc.prems by simp
  from Suc s have sq: "square n a'" "square n v'"
    and a': "\<And>i j. i < n \<Longrightarrow> j < n \<Longrightarrow>
      mat a' i j = (if i < m \<and> i \<noteq> col then mat a i j - mat a i col * mat a col j else mat a i j)"
    and v': "\<And>i j. i < n \<Longrightarrow> j < n \<Longrightarrow>
      mat v' i j = (if i < m \<and> i \<noteq> col then mat v i j - mat a i col * mat v col j else mat v i j)"
    by auto
  let ?f = "a' ! m ! col"
  let ?row = "\<lambda>b. map2 (\<lambda>x y. x XOR mul ?f y) (b ! m) (b ! col)"
  have f: "Gf ?f = mat a m col" using a' [OF m assms(3)] by (simp add: mat_def)
  show ?case
  proof (cases "m = col \<or> ?f = 0")
    case True
    then have "fold (eliminate_row col) [0..<Suc m] (a, v) = (a', v')"
      using s by (auto simp: eliminate_row_def Let_def)
    moreover have "m = col \<or> mat a m col = 0" using True f by (auto simp: Gf_simps)
    ultimately show ?thesis using sq a' v' by (auto simp: less_Suc_eq)
  next
    case False
    then have step: "fold (eliminate_row col) [0..<Suc m] (a, v) = (a'[m := ?row a'], v'[m := ?row v'])"
      using s by (simp add: eliminate_row_def Let_def)
    have new: "mat (b[m := ?row b]) i j = (if i = m then mat b m j - mat a m col * mat b col j else mat b i j)"
      if "square n b" "i < n" "j < n" for b i j
      using that m assms(3) f by (simp add: mat_def squareD Gf_simps gf_minus_eq_plus nth_list_update)
    have "square n (b[m := ?row b])" if "square n b" for b
      using that m assms(3) by (intro square_update) (simp_all add: squareD)
    then show ?thesis
      unfolding step using sq a' v' new m assms(3) False by (auto simp: less_Suc_eq)
  qed
qed (use assms in simp)

lemma gauss_step_cases:
  assumes sq: "square n a" "square n v" and col: "col < n"
    and rel: "gauss_rel n M (mat a) (mat v)" and uc: "unit_cols n col (mat a)"
  shows "(gauss_step n col (a, v) = Some None \<and> \<not> nonsingular n M) \<or>
    (\<exists>a' v'. gauss_step n col (a, v) = Some (Some (a', v')) \<and> square n a' \<and> square n v' \<and>
       gauss_rel n M (mat a') (mat v') \<and> unit_cols n (Suc col) (mat a'))"
proof (cases "find (\<lambda>r. a ! r ! col \<noteq> 0) [col..<n]")
  case None
  then have "\<And>i. col \<le> i \<Longrightarrow> i < n \<Longrightarrow> mat a i col = 0"
    by (auto simp: find_None_iff mat_def Gf_simps)
  then have "\<not> nonsingular n M" using gauss_stuck rel uc col by blast
  then show ?thesis using None by (simp add: gauss_step_def)
next
  case (Some piv)
  then obtain i where "i < length [col..<n]" "a ! ([col..<n] ! i) ! col \<noteq> 0" "piv = [col..<n] ! i"
    by (auto simp: find_Some_iff)
  then have p: "col \<le> piv" "piv < n" "a ! piv ! col \<noteq> 0" by simp_all
  let ?s = "transposition col piv" and ?a = "swap a col piv" and ?v = "swap v col piv"
  have sq': "square n ?a" "square n ?v" using sq col p by (simp_all add: square_swap)
  have pivot: "?a ! col ! col = a ! piv ! col"
    using sq(1) col p by (auto simp: swap_def squareD nth_list_update)
  then obtain d where d: "inv (?a ! col ! col) = Some d" "Gf d = inverse (mat a piv col)"
    using p(3) by (metis inv_mul inv_Some_iff mat_def)
  define b where "b x = x[col := map (\<lambda>y. mul y d) (x ! col)]" for x :: "bytes list"
  have sqb: "square n (b x)" if "square n x" for x
    unfolding b_def using that col by (intro square_update) (simp_all add: squareD)
  have matb: "mat (b x) i j = (if i = col then Gf d * mat x col j else mat x i j)"
    if "square n x" "i < n" "j < n" for x i j
    using that col by (auto simp: b_def mat_def squareD Gf_simps nth_list_update mult.commute)
  obtain a' v' where res: "fold (eliminate_row col) [0..<n] (b ?a, b ?v) = (a', v')" by force
  have step: "gauss_step n col (a, v) = Some (Some (a', v'))"
    using Some d(1) res by (simp add: gauss_step_def Let_def b_def)
  note el = eliminate_fold [OF sqb [OF sq'(1)] sqb [OF sq'(2)] col order_refl, unfolded res prod.case]
  let ?op = "pivot_op col ?s (Gf d) (\<lambda>i. mat a i col)"
  have sw: "mat (swap x col piv) i j = mat x (?s i) j" if "square n x" "i < n" for x i j
    using mat_swap that col p by blast
  have ops: "mat a' i j = ?op (mat a) i j" "mat v' i j = ?op (mat v) i j" if "i < n" "j < n" for i j
    using el that col sq sq' by (simp_all add: matb sw pivot_op_def)
  have cong: "gauss_rel n M (mat a') (mat v')" "unit_cols n (Suc col) (mat a')"
    if "gauss_rel n M (?op (mat a)) (?op (mat v))" "unit_cols n (Suc col) (?op (mat a))"
    using that ops col by (simp_all add: gauss_rel_def unit_cols_def row_prod_def less_Suc_eq_le)
  have nz: "mat a piv col \<noteq> 0" using p(3) by (metis Gf_eq_iff Gf_simps(1) mat_def)
  have "gauss_rel n M (?op (mat a)) (?op (mat v))"
    using rel transposition_bij [OF col p(2)] col d(2) nz by (intro gauss_rel_pivot) auto
  moreover have "unit_cols n (Suc col) (?op (mat a))"
    using uc col p d(2) nz by (intro unit_cols_pivot) (auto simp: transposition_def)
  ultimately show ?thesis using step el cong by auto
qed

lemma gauss_loop_cases:
  assumes "square n a" "square n v" "gauss_rel n M (mat a) (mat v)" "unit_cols n col (mat a)" "col + m = n"
  shows "(gauss_loop n [col..<n] (a, v) = Some None \<and> \<not> nonsingular n M) \<or>
    (\<exists>a' v'. gauss_loop n [col..<n] (a, v) = Some (Some (a', v')) \<and> square n v' \<and>
       gauss_rel n M (mat a') (mat v') \<and> unit_cols n n (mat a'))"
  using assms
proof (induction m arbitrary: col a v)
  case (Suc m)
  then have "col < n" by simp
  then have upt: "[col..<n] = col # [Suc col..<n]" by (rule upt_conv_Cons)
  from gauss_step_cases [OF Suc.prems(1,2) \<open>col < n\<close> Suc.prems(3,4)] show ?case
  proof (elim disjE exE conjE)
    fix a' v'
    assume step: "gauss_step n col (a, v) = Some (Some (a', v'))" and "square n a'" "square n v'"
      "gauss_rel n M (mat a') (mat v')" "unit_cols n (Suc col) (mat a')"
    with Suc.IH [of a' v' "Suc col"] Suc.prems(5) show ?thesis by (simp add: upt)
  qed (simp add: upt)
qed auto

text \<open>On a square matrix \<open>invert\<close> never panics; it returns the left inverse of a nonsingular matrix
  and nothing for a singular one.\<close>

lemma invert_cases:
  assumes "square n a"
  shows "(invert a = Some None \<and> \<not> nonsingular n (mat a)) \<or>
    (\<exists>v. invert a = Some (Some v) \<and> square n v \<and> nonsingular n (mat a) \<and>
       (\<forall>i<n. \<forall>j<n. (\<Sum>k<n. mat v i k * mat a k j) = (if i = j then 1 else 0)))"
proof -
  let ?v = "map (\<lambda>i. map (\<lambda>j. if i = j then 1 else 0) [0..<n]) [0..<n]"
  have n: "length a = n" using assms by (rule squareD)
  have "mat ?v i j = (if i = j then 1 else 0)" if "i < n" "j < n" for i j
    using that by (simp add: mat_def Gf_simps)
  then have rel: "gauss_rel n (mat a) (mat a) (mat ?v)"
    using gauss_rel_init [of n "mat a"] by (simp add: gauss_rel_def)
  have sqv: "square n ?v" by (simp add: square_def)
  have "unit_cols n 0 (mat a)" by (simp add: unit_cols_def)
  from gauss_loop_cases [OF assms sqv rel this add_0] show ?thesis
  proof (elim disjE exE conjE)
    fix a' v' assume "square n v'" and loop: "gauss_loop n [0..<n] (a, ?v) = Some (Some (a', v'))"
      and final: "gauss_rel n (mat a) (mat a') (mat v')" "unit_cols n n (mat a')"
    have inv: "\<forall>i<n. \<forall>j<n. (\<Sum>k<n. mat v' i k * mat a k j) = (if i = j then 1 else 0)"
      using gauss_done [OF final] by blast
    then have "nonsingular n (mat a)" by (rule left_inverse_nonsingular)
    moreover have "invert a = Some (Some v')" using loop by (simp add: invert_def n Let_def)
    ultimately show ?thesis using inv \<open>square n v'\<close> by blast
  qed (simp_all add: invert_def n Let_def)
qed

section \<open>Property\<close>

text \<open>C32: on a square matrix the Gauss-Jordan inversion never panics; it returns nothing exactly when
  the matrix is singular, and otherwise the matrix it returns is the inverse.\<close>

theorem invert_correct:
  assumes "\<forall>row \<in> set a. length row = length a"
  shows "\<exists>res. invert a = Some res \<and>
    (case res of
       None \<Rightarrow> \<not> nonsingular (length a) (mat a)
     | Some v \<Rightarrow> length v = length a \<and> (\<forall>row \<in> set v. length row = length a) \<and>
         (\<forall>i < length a. \<forall>j < length a.
            (\<Sum>k < length a. mat v i k * mat a k j) = (if i = j then 1 else 0)))"
proof -
  have "square (length a) a" using assms by (simp add: square_def)
  from invert_cases [OF this] show ?thesis
    by (auto simp: square_def in_set_conv_nth)
qed

theorem invert_correct_witness:
  "\<exists>res. invert [[1, 1], [1, 2]] = Some res \<and>
    (case res of
       None \<Rightarrow> \<not> nonsingular 2 (mat [[1, 1], [1, 2]])
     | Some v \<Rightarrow> length v = 2 \<and> (\<forall>i < 2. \<forall>j < 2.
            (\<Sum>k < 2. mat v i k * mat [[1, 1], [1, 2]] k j) = (if i = j then 1 else 0)))"
  using invert_correct [of "[[1, 1], [1, 2]]"] by (auto simp: numeral_2_eq_2 split: option.splits)

end
