(* ===== verification/Rs.thy ===== *)
theory Rs
  imports Simd Gauss
begin

text \<open>
  The erasure code \<^verbatim>\<open>crates/yip-transport/src/rs.rs\<close>: generator rows of the Cauchy and the P+Q
  scheme, the feature-dispatched row kernel, encoding, and the two decoders (their matrix inversion
  is in theory Gauss). The theory shows that the kernel dispatch never changes the result, that every \<open>K\<close> distinct rows of the generator are
  nonsingular under both schemes, and that decoding recovers the source shards from any \<open>K\<close>
  distinct symbols of the code word.
\<close>

section \<open>Generator\<close>

datatype Scheme = Cauchy | Pq

definition SCHEME_CAUCHY :: u8 where
  "SCHEME_CAUCHY = 0"

definition SCHEME_PQ :: u8 where
  "SCHEME_PQ = 1"

fun to_u8 :: "Scheme \<Rightarrow> u8" where
  "to_u8 Cauchy = SCHEME_CAUCHY"
| "to_u8 Pq = SCHEME_PQ"

definition from_u8 :: "u8 \<Rightarrow> Scheme option" where
  "from_u8 v = (if v = SCHEME_CAUCHY then Some Cauchy else if v = SCHEME_PQ then Some Pq else None)"

definition cauchy_coef :: "nat \<Rightarrow> nat \<Rightarrow> nat \<Rightarrow> u8 exec" where
  "cauchy_coef k m i =
     (if k + m < 256 \<and> i < 256 then inv (add (of_nat (k + m)) (of_nat i)) else None)"

text \<open>The incrementally built Q row: \<open>n\<close> more entries starting from \<open>p\<close>.\<close>

fun q_row :: "nat \<Rightarrow> u8 \<Rightarrow> bytes" where
  "q_row 0 p = []"
| "q_row (Suc n) p = p # q_row n (mul p 2)"

definition repair_row :: "Scheme \<Rightarrow> nat \<Rightarrow> nat \<Rightarrow> bytes exec" where
  "repair_row scheme k m =
     (case scheme of
        Cauchy \<Rightarrow> those (map (cauchy_coef k m) [0..<k])
      | Pq \<Rightarrow> Some (if m = 0 then replicate k 1 else if m = 1 then q_row k 1 else replicate k 0))"

section \<open>Row kernel\<close>

definition mul_add_row :: "cpu \<Rightarrow> u8 \<Rightarrow> bytes \<Rightarrow> bytes \<Rightarrow> bytes exec" where
  "mul_add_row p coeff src dst =
     (if length src \<noteq> length dst then None
      else if coeff = 0 then Some dst
      else if coeff = 1 then Some (map2 (XOR) dst src)
      else if target_arch p = X86_64 \<and> gfni_supported p then mul_add_gfni p coeff src dst
      else if target_arch p = X86_64 \<and> avx512bw_supported p then mul_add_avx512 p coeff src dst
      else if target_arch p = X86_64 \<and> avx2_supported p then mul_add_avx2 p coeff src dst
      else if target_arch p = X86_64 \<and> ssse3_supported p then mul_add_ssse3 p coeff src dst
      else if target_arch p = Aarch64 \<and> neon_supported p then mul_add_neon p coeff src dst
      else if target_arch p = Wasm32 \<and> wasm_simd_supported p then mul_add_wasm128 p coeff src dst
      else Some (mul_slice_into dst src coeff))"

text \<open>The inner loops of encoder and decoders: accumulate coefficient-shard pairs into one row. The
  decoders skip zero coefficients before they call the kernel.\<close>

fun accumulate :: "cpu \<Rightarrow> (u8 \<times> bytes) list \<Rightarrow> bytes \<Rightarrow> bytes exec" where
  "accumulate p [] dst = Some dst"
| "accumulate p ((c, src) # rest) dst =
     (case mul_add_row p c src dst of None \<Rightarrow> None | Some d \<Rightarrow> accumulate p rest d)"

definition accumulate_nonzero :: "cpu \<Rightarrow> (u8 \<times> bytes) list \<Rightarrow> bytes \<Rightarrow> bytes exec" where
  "accumulate_nonzero p pairs dst = accumulate p (filter (\<lambda>(c, src). c \<noteq> 0) pairs) dst"

definition encode_repair :: "cpu \<Rightarrow> bytes list \<Rightarrow> nat \<Rightarrow> Scheme \<Rightarrow> bytes list exec" where
  "encode_repair p source r scheme =
     (let k = length source; len = (case source of [] \<Rightarrow> 0 | s # _ \<Rightarrow> length s)
      in those (map (\<lambda>m. case repair_row scheme k m of
                           None \<Rightarrow> None
                         | Some coefs \<Rightarrow> accumulate p (zip coefs source) (replicate len 0)) [0..<r]))"

section \<open>Decoders\<close>

text \<open>One row of the \<open>K \<times> K\<close> submatrix, at position \<open>row\<close>, for a received symbol index; the inner
  option is the early return on an invalid P+Q row, and writing beyond the last row panics.\<close>

definition matrix_row :: "Scheme \<Rightarrow> nat \<Rightarrow> nat \<Rightarrow> nat \<Rightarrow> bytes option exec" where
  "matrix_row scheme k row idx =
     (if idx < k then (if row < k then Some (Some ((replicate k 0)[idx := 1])) else None)
      else if scheme = Pq \<and> idx - k \<ge> 2 then Some None
      else if row < k then map_option Some (repair_row scheme k (idx - k)) else None)"

fun build_matrix :: "Scheme \<Rightarrow> nat \<Rightarrow> nat \<Rightarrow> nat list \<Rightarrow> bytes list option exec" where
  "build_matrix scheme k row [] = Some (Some [])"
| "build_matrix scheme k row (idx # idxs) =
     (case matrix_row scheme k row idx of
        None \<Rightarrow> None
      | Some None \<Rightarrow> Some None
      | Some (Some coefs) \<Rightarrow> map_option (map_option ((#) coefs)) (build_matrix scheme k (Suc row) idxs))"

fun collect_rows :: "nat \<Rightarrow> nat \<Rightarrow> bool list \<Rightarrow> (nat \<times> bytes) list \<Rightarrow> (u16 \<times> bytes) list \<Rightarrow> (nat \<times> bytes) list" where
  "collect_rows k shard_len seen rows [] = rows"
| "collect_rows k shard_len seen rows ((i, bs) # rest) =
     (let idx = unat i
      in if idx \<ge> 255 \<or> length bs \<noteq> shard_len \<or> seen ! idx then collect_rows k shard_len seen rows rest
         else let rows' = rows @ [(idx, bs)]
              in if length rows' = k then rows'
                 else collect_rows k shard_len (seen[idx := True]) rows' rest)"

text \<open>Write shard \<open>i\<close> at its place in the payload; the range is checked as slicing does.\<close>

definition put_shard :: "nat \<Rightarrow> nat \<Rightarrow> bytes \<Rightarrow> bytes \<Rightarrow> bytes exec" where
  "put_shard shard_len i shard out =
     (if i * shard_len + shard_len \<le> length out \<and> length shard = shard_len
      then Some (splice out (i * shard_len) shard) else None)"

fun put_shards :: "nat \<Rightarrow> (nat \<times> bytes) list \<Rightarrow> bytes \<Rightarrow> bytes exec" where
  "put_shards shard_len [] out = Some out"
| "put_shards shard_len ((i, shard) # rest) out =
     (case put_shard shard_len i shard out of None \<Rightarrow> None | Some out' \<Rightarrow> put_shards shard_len rest out')"

text \<open>Rebuild the shards named by the row numbers: each is the combination of the received shards
  under its row of the inverse.\<close>

fun apply_inverse :: "cpu \<Rightarrow> nat \<Rightarrow> bytes list \<Rightarrow> (nat \<times> bytes) list \<Rightarrow> bytes \<Rightarrow> bytes exec" where
  "apply_inverse p shard_len shards [] out = Some out"
| "apply_inverse p shard_len shards ((i, minv_row) # rest) out =
     (case accumulate_nonzero p (zip minv_row shards) (replicate shard_len 0) of
        None \<Rightarrow> None
      | Some d \<Rightarrow> (case put_shard shard_len i d out of
                     None \<Rightarrow> None
                   | Some out' \<Rightarrow> apply_inverse p shard_len shards rest out'))"

definition decode_source_into ::
    "cpu \<Rightarrow> nat \<Rightarrow> nat \<Rightarrow> (u16 \<times> bytes) list \<Rightarrow> Scheme \<Rightarrow> bytes \<Rightarrow> bytes option exec" where
  "decode_source_into p k shard_len received scheme out =
     (case checked_mul k shard_len of
        None \<Rightarrow> Some None
      | Some need \<Rightarrow>
          if length out < need then Some None
          else let rows = collect_rows k shard_len (replicate 256 False) [] received
               in if length rows < k then Some None
                  else if list_all (\<lambda>(idx, bs). idx < k) rows
                  then map_option Some (put_shards shard_len rows out)
                  else case build_matrix scheme k 0 (map fst rows) of
                         None \<Rightarrow> None
                       | Some None \<Rightarrow> Some None
                       | Some (Some m) \<Rightarrow>
                           (case invert m of
                              None \<Rightarrow> None
                            | Some None \<Rightarrow> Some None
                            | Some (Some minv) \<Rightarrow>
                                map_option Some
                                  (apply_inverse p shard_len (map snd rows) (zip [0..<k] minv) out)))"

definition decode_source ::
    "cpu \<Rightarrow> nat \<Rightarrow> nat \<Rightarrow> (u16 \<times> bytes) list \<Rightarrow> Scheme \<Rightarrow> bytes list option exec" where
  "decode_source p k shard_len received scheme =
     (case checked_mul k shard_len of
        None \<Rightarrow> Some None
      | Some need \<Rightarrow>
          (case decode_source_into p k shard_len received scheme (replicate need 0) of
             None \<Rightarrow> None
           | Some None \<Rightarrow> Some None
           | Some (Some flat) \<Rightarrow>
               map_option Some
                 (those (map (\<lambda>i. slice flat (i * shard_len) (i * shard_len + shard_len)) [0..<k]))))"

datatype shard_ref = Source nat | Repair bytes

definition mask_bit :: "u64 list \<Rightarrow> nat \<Rightarrow> bool" where
  "mask_bit seen_mask u = (seen_mask ! (u div 64) AND push_bit (u mod 64) 1 \<noteq> 0)"

fun add_repair :: "nat \<Rightarrow> nat \<Rightarrow> (nat \<times> shard_ref) list \<Rightarrow> (u16 \<times> bytes) list \<Rightarrow> (nat \<times> shard_ref) list" where
  "add_repair k shard_len rows [] = rows"
| "add_repair k shard_len rows ((i, bs) # rest) =
     (if length rows = k then rows
      else if length bs \<noteq> shard_len then add_repair k shard_len rows rest
      else add_repair k shard_len (rows @ [(unat i, Repair bs)]) rest)"

definition shard_bytes :: "nat \<Rightarrow> bytes \<Rightarrow> shard_ref \<Rightarrow> bytes exec" where
  "shard_bytes shard_len payload ref =
     (case ref of
        Source i \<Rightarrow> slice payload (i * shard_len) (i * shard_len + shard_len)
      | Repair bs \<Rightarrow> Some bs)"

text \<open>The loop over the missing shards: a zero coefficient skips its shard before it is read.\<close>

fun restore_missing ::
    "cpu \<Rightarrow> nat \<Rightarrow> u64 list \<Rightarrow> (nat \<times> shard_ref) list \<Rightarrow> (nat \<times> bytes) list \<Rightarrow> bytes \<Rightarrow> bytes exec" where
  "restore_missing p shard_len seen_mask rows [] payload = Some payload"
| "restore_missing p shard_len seen_mask rows ((i, minv_row) # rest) payload =
     (if mask_bit seen_mask i then restore_missing p shard_len seen_mask rows rest payload
      else case those (map (\<lambda>(c, (idx, ref)). map_option (Pair c) (shard_bytes shard_len payload ref))
                         (filter (\<lambda>(c, row). c \<noteq> 0) (zip minv_row rows))) of
             None \<Rightarrow> None
           | Some pairs \<Rightarrow>
               (case accumulate p pairs (replicate shard_len 0) of
                  None \<Rightarrow> None
                | Some scratch \<Rightarrow>
                    (case put_shard shard_len i scratch payload of
                       None \<Rightarrow> None
                     | Some payload' \<Rightarrow> restore_missing p shard_len seen_mask rows rest payload')))"

text \<open>Reading the four-word mask panics for an index of 256 or more.\<close>

definition reconstruct_missing_sources ::
    "cpu \<Rightarrow> nat \<Rightarrow> nat \<Rightarrow> bytes \<Rightarrow> u64 list \<Rightarrow> (u16 \<times> bytes) list \<Rightarrow> Scheme \<Rightarrow> bytes option exec" where
  "reconstruct_missing_sources p k shard_len payload seen_mask repair_shards scheme =
     (case checked_mul k shard_len of
        None \<Rightarrow> Some None
      | Some need \<Rightarrow>
          if length payload < need then Some None
          else if k > 256 then None
          else let sources = map (\<lambda>i. (i, Source i)) (filter (mask_bit seen_mask) [0..<k]);
                   rows = add_repair k shard_len sources repair_shards
               in if length rows < k then Some None
                  else case build_matrix scheme k 0 (map fst rows) of
                         None \<Rightarrow> None
                       | Some None \<Rightarrow> Some None
                       | Some (Some m) \<Rightarrow>
                           (case invert m of
                              None \<Rightarrow> None
                            | Some None \<Rightarrow> Some None
                            | Some (Some minv) \<Rightarrow>
                                map_option Some
                                  (restore_missing p shard_len seen_mask rows (zip [0..<k] minv) payload)))"

section \<open>Accumulation\<close>

lemma mul_add_row_eq: "mul_add_row p c src dst = mul_add_fallback c src dst"
proof (cases "length src = length dst")
  case True
  have "map2 (XOR) dst src = mul_slice_into dst src 1" if "c = 1"
    using True by (simp add: mul_slice_into_map2 mul_commute [of _ 1])
  with True show ?thesis
    by (simp add: mul_add_row_def kernels_fallback mul_add_fallback_def)
qed (simp add: mul_add_row_def mul_add_fallback_def)

lemma mul_add_row_Some:
  "length src = length dst \<Longrightarrow> mul_add_row p c src dst = Some (mul_slice_into dst src c)"
  by (simp add: mul_add_row_eq mul_add_fallback_def)

lemma accumulate_Some:
  assumes "\<forall>(c, src) \<in> set pairs. length src = length dst"
  shows "\<exists>d. accumulate p pairs dst = Some d \<and> length d = length dst \<and>
    (\<forall>b < length dst. Gf (d ! b) = Gf (dst ! b) + (\<Sum>(c, src)\<leftarrow>pairs. Gf c * Gf (src ! b)))"
  using assms
proof (induction pairs arbitrary: dst)
  case (Cons x pairs)
  obtain c src where x: "x = (c, src)" by (cases x)
  with Cons.prems have len: "length src = length dst" by simp
  let ?dst = "mul_slice_into dst src c"
  have "\<exists>d. accumulate p pairs ?dst = Some d \<and> length d = length ?dst \<and>
      (\<forall>b < length ?dst. Gf (d ! b) = Gf (?dst ! b) + (\<Sum>(c, src)\<leftarrow>pairs. Gf c * Gf (src ! b)))"
    using Cons.prems by (intro Cons.IH) auto
  then show ?case
    using len by (auto simp: x mul_add_row_Some mul_slice_into_nth Gf_simps add.assoc)
qed simp

lemma accumulate_zip:
  assumes "length coefs = length shards" "\<forall>s \<in> set shards. length s = L"
  obtains d where "accumulate p (zip coefs shards) (replicate L 0) = Some d" "length d = L"
    "\<And>b. b < L \<Longrightarrow> Gf (d ! b) = (\<Sum>i<length shards. Gf (coefs ! i) * Gf (shards ! i ! b))"
proof -
  have sum: "(\<Sum>(c, src)\<leftarrow>zip coefs shards. Gf c * Gf (src ! b)) =
      (\<Sum>i<length shards. Gf (coefs ! i) * Gf (shards ! i ! b))" for b
    using assms(1) by (simp add: sum_list_sum_nth atLeast0LessThan)
  have "\<forall>(c, src) \<in> set (zip coefs shards). length src = length (replicate L (0 :: u8))"
    using assms(2) by (auto dest: set_zip_rightD)
  from accumulate_Some [OF this, of p] that show thesis
    by (auto simp: sum Gf_simps)
qed

lemma sum_list_filter_zero:
  "(\<Sum>(c, src)\<leftarrow>filter (\<lambda>(c, src). c \<noteq> 0) pairs. Gf c * Gf (src ! b)) =
   (\<Sum>(c, src)\<leftarrow>pairs. Gf c * Gf (src ! b))"
  by (induction pairs) (auto simp: Gf_simps)

section \<open>Generator rows\<close>

lemma Gf_gpow: "Gf (gpow i) = Gf 2 ^ i"
proof (induction i)
  case (Suc i)
  have "gpow (Suc i) = mul (gpow 1) (gpow i)"
    using mul_gpow_left [of 1 "gpow i"] by (simp add: gpow_Suc)
  then show ?case using Suc by (simp add: Gf_simps gpow_Suc xtime_1)
qed (simp add: Gf_simps)

lemma two_pow_inj: "i < 255 \<Longrightarrow> j < 255 \<Longrightarrow> Gf 2 ^ i = Gf 2 ^ j \<longleftrightarrow> i = j"
  using gpow_inj by (metis Gf_gpow Gf_eq_iff)

lemma two_pow_nonzero: "Gf 2 ^ i \<noteq> 0"
  by (metis Gf_gpow Gf_eq_iff Gf_simps(1) gpow_nonzero)

lemma length_q_row [simp]: "length (q_row n p) = n"
  by (induction n arbitrary: p) auto

lemma nth_q_row: "i < n \<Longrightarrow> Gf (q_row n p ! i) = Gf p * Gf 2 ^ i"
  by (induction n arbitrary: p i) (auto simp: Gf_simps nth_Cons split: nat.splits)

text \<open>The generator matrix as a function into the field, and the indices that have a row in it.\<close>

definition gen_coef :: "Scheme \<Rightarrow> nat \<Rightarrow> nat \<Rightarrow> nat \<Rightarrow> gf" where
  "gen_coef scheme k idx i =
     (if idx < k then if i = idx then 1 else 0
      else case scheme of
             Cauchy \<Rightarrow> inverse (Gf (of_nat idx) - Gf (of_nat i))
           | Pq \<Rightarrow> if idx = k then 1 else Gf 2 ^ i)"

definition valid_idx :: "Scheme \<Rightarrow> nat \<Rightarrow> nat \<Rightarrow> bool" where
  "valid_idx scheme k idx \<longleftrightarrow> idx < 255 \<and> (scheme = Pq \<longrightarrow> idx < k + 2)"

lemma of_nat_u8_eq_iff: "i < 256 \<Longrightarrow> j < 256 \<Longrightarrow> (of_nat i :: u8) = of_nat j \<longleftrightarrow> i = j"
  by (simp add: word_unat_eq_iff unat_of_nat)

lemma cauchy_coef_Some:
  assumes "k + m < 256" "i < k"
  shows "\<exists>c. cauchy_coef k m i = Some c \<and> Gf c = inverse (Gf (of_nat (k + m)) - Gf (of_nat i))"
proof -
  have "(of_nat (k + m) :: u8) \<noteq> of_nat i"
    using assms of_nat_u8_eq_iff [of "k + m" i] by simp
  then have "(of_nat (k + m) XOR of_nat i :: u8) \<noteq> 0" by (metis Gf_eq_iff Gf_simps(1,3) eq_iff_diff_eq_0 gf_minus_eq_plus)
  then obtain c where "inv (of_nat (k + m) XOR of_nat i) = Some c" by (metis inv_mul)
  then show ?thesis
    using assms by (auto simp: cauchy_coef_def add_def inv_Some_iff Gf_simps gf_minus_eq_plus simp del: of_nat_add)
qed

lemma repair_row_Some:
  assumes "k \<le> idx" "valid_idx scheme k idx"
  obtains coefs where "repair_row scheme k (idx - k) = Some coefs" "length coefs = k"
    "\<And>i. i < k \<Longrightarrow> Gf (coefs ! i) = gen_coef scheme k idx i"
proof (cases scheme)
  case Cauchy
  define f where "f i = the (cauchy_coef k (idx - k) i)" for i
  have f: "cauchy_coef k (idx - k) i = Some (f i)"
    "Gf (f i) = inverse (Gf (of_nat idx) - Gf (of_nat i))" if "i < k" for i
    using cauchy_coef_Some [of k "idx - k" i] that assms by (auto simp: f_def valid_idx_def)
  then have "repair_row scheme k (idx - k) = Some (map f [0..<k])"
    using those_map_cong [of "[0..<k]" "cauchy_coef k (idx - k)" f] by (simp add: repair_row_def Cauchy)
  then show thesis using f assms by (intro that) (auto simp: gen_coef_def Cauchy)
next
  case Pq
  then have "idx = k \<or> idx = Suc k" using assms by (auto simp: valid_idx_def)
  then show thesis
    by (intro that [of "if idx = k then replicate k 1 else q_row k 1"])
      (auto simp: repair_row_def Pq gen_coef_def nth_q_row Gf_simps)
qed

lemma matrix_row_Some:
  assumes "valid_idx scheme k idx" "row < k"
  obtains coefs where "matrix_row scheme k row idx = Some (Some coefs)" "length coefs = k"
    "\<And>i. i < k \<Longrightarrow> Gf (coefs ! i) = gen_coef scheme k idx i"
proof (cases "idx < k")
  case True
  with assms(2) show thesis
    by (intro that [of "(replicate k 0)[idx := 1]"])
      (auto simp: matrix_row_def gen_coef_def nth_list_update Gf_simps)
next
  case False
  then obtain coefs where "repair_row scheme k (idx - k) = Some coefs" "length coefs = k"
    "\<And>i. i < k \<Longrightarrow> Gf (coefs ! i) = gen_coef scheme k idx i"
    using repair_row_Some assms(1) by (metis not_less)
  with False assms show thesis
    by (intro that [of coefs]) (auto simp: matrix_row_def valid_idx_def)
qed

lemma build_matrix_Some:
  assumes "\<forall>idx \<in> set idxs. valid_idx scheme k idx" "row + length idxs \<le> k"
  shows "\<exists>m. build_matrix scheme k row idxs = Some (Some m) \<and> length m = length idxs \<and>
    (\<forall>r < length idxs. length (m ! r) = k \<and> (\<forall>i < k. Gf (m ! r ! i) = gen_coef scheme k (idxs ! r) i))"
  using assms
proof (induction idxs arbitrary: row)
  case (Cons idx idxs)
  obtain coefs where c: "matrix_row scheme k row idx = Some (Some coefs)" "length coefs = k"
    "\<And>i. i < k \<Longrightarrow> Gf (coefs ! i) = gen_coef scheme k idx i"
    using Cons.prems by (auto intro: matrix_row_Some [of scheme k idx row])
  obtain m where "build_matrix scheme k (Suc row) idxs = Some (Some m)" "length m = length idxs"
    "\<forall>r < length idxs. length (m ! r) = k \<and> (\<forall>i < k. Gf (m ! r ! i) = gen_coef scheme k (idxs ! r) i)"
    using Cons.IH [of "Suc row"] Cons.prems by auto
  with c show ?case by (auto simp: nth_Cons split: nat.splits)
qed simp

lemma Gf_of_nat_eq_iff: "i < 256 \<Longrightarrow> j < 256 \<Longrightarrow> Gf (of_nat i) = Gf (of_nat j) \<longleftrightarrow> i = j"
  by (simp add: of_nat_u8_eq_iff)

lemma erasures_Cauchy:
  assumes U: "U \<subseteq> {..<k}" and X: "X \<subseteq> {k..<255}" and card: "card U \<le> card X" and i: "i \<in> U"
    and sys: "\<And>idx. idx \<in> X \<Longrightarrow> (\<Sum>i\<in>U. gen_coef Cauchy k idx i * v i) = 0"
  shows "v i = 0"
proof -
  let ?x = "\<lambda>idx. Gf (of_nat idx)"
  have fin: "finite U" "finite X" using U X by (auto intro: finite_subset)
  have "X \<noteq> {}" using card i fin by (auto simp: card_eq_0_iff)
  then have k: "k < 255" using X by fastforce
  have U256: "j < 256" "j < k" if "j \<in> U" for j using U k that by auto
  have X256: "j < 256" "k \<le> j" if "j \<in> X" for j using X that by auto
  have injX: "inj_on ?x X" and injU: "inj_on ?x U"
    by (rule inj_onI, use Gf_of_nat_eq_iff U256 X256 in blast)+
  show ?thesis
  proof (rule cauchy_nonsingular [where U = U and X = "?x ` X" and y = ?x and v = v])
    show "card U \<le> card (?x ` X)" using card by (simp add: card_image [OF injX])
    have "?x idx \<noteq> ?x j" if "idx \<in> X" "j \<in> U" for idx j
      using Gf_of_nat_eq_iff [of idx j] U256 X256 that by (metis leD)
    then show "?x ` X \<inter> ?x ` U = {}" by blast
  next
    fix x assume "x \<in> ?x ` X"
    then obtain idx where idx: "idx \<in> X" "x = ?x idx" by blast
    have "gen_coef Cauchy k idx j = inverse (x - ?x j)" for j
      using X256(2) [OF idx(1)] idx(2) by (simp add: gen_coef_def)
    then show "(\<Sum>j\<in>U. v j / (x - ?x j)) = 0"
      using sys [OF idx(1)] by (simp add: divide_inverse mult.commute)
  qed (use fin injU i in auto)
qed

lemma erasures_Pq:
  assumes U: "U \<subseteq> {..<k}" and X: "X \<subseteq> {k, Suc k}" and k: "k < 255" and card: "card U \<le> card X" and i: "i \<in> U"
    and sys: "\<And>idx. idx \<in> X \<Longrightarrow> (\<Sum>i\<in>U. gen_coef Pq k idx i * v i) = 0"
  shows "v i = 0"
proof -
  have fin: "finite U" "finite X" using U X by (auto intro: finite_subset)
  have injX: "inj_on (\<lambda>idx. idx - k) X"
    by (rule inj_on_subset [OF _ X]) (simp add: inj_on_def)
  have injU: "inj_on (\<lambda>j. Gf 2 ^ j) U"
  proof (rule inj_onI)
    fix a b assume "a \<in> U" "b \<in> U" "Gf 2 ^ a = Gf 2 ^ b"
    moreover from this have "a < 255" "b < 255" using U k by auto
    ultimately show "a = b" by (simp only: two_pow_inj)
  qed
  show ?thesis
  proof (rule pq_nonsingular [where U = U and X = "(\<lambda>idx. idx - k) ` X" and g = "\<lambda>j. Gf 2 ^ j" and v = v])
    show "card U \<le> card ((\<lambda>idx. idx - k) ` X)" using card by (simp add: card_image [OF injX])
    show "(\<lambda>idx. idx - k) ` X \<subseteq> {0, 1}" using X by (intro image_subsetI) auto
    show "Gf 2 ^ j \<noteq> 0" for j by (rule two_pow_nonzero)
  next
    fix m assume "m \<in> (\<lambda>idx. idx - k) ` X"
    then obtain idx where idx: "idx \<in> X" "m = idx - k" by blast
    then have "gen_coef Pq k idx j = (if m = 0 then 1 else Gf 2 ^ j)" for j
      using X by (auto simp: gen_coef_def)
    then show "(\<Sum>j\<in>U. (if m = 0 then 1 else Gf 2 ^ j) * v j) = 0"
      using sys [OF idx(1)] by simp
  qed (use fin injU i in auto)
qed

lemma generator_nonsingular:
  assumes "distinct idxs" "length idxs = k" "\<forall>idx \<in> set idxs. valid_idx scheme k idx"
  shows "nonsingular k (\<lambda>r. gen_coef scheme k (idxs ! r))"
  unfolding nonsingular_def
proof (intro allI impI)
  fix v i
  assume sys: "\<forall>r<k. row_prod k (\<lambda>r. gen_coef scheme k (idxs ! r)) v r = 0" and "i < k"
  define U where "U = {..<k} - set idxs"
  define X where "X = set idxs - {..<k}"
  have row: "(\<Sum>i<k. gen_coef scheme k idx i * v i) = 0" if "idx \<in> set idxs" for idx
    using sys that assms(2) by (auto simp: row_prod_def in_set_conv_nth)
  have known: "v i = 0" if "i \<in> set idxs" "i < k" for i
  proof -
    have "(\<Sum>j<k. gen_coef scheme k i j * v j) = (\<Sum>j<k. if j = i then v j else 0)"
      using that(2) by (intro sum.cong) (auto simp: gen_coef_def)
    then show ?thesis using row [OF that(1)] that(2) by simp
  qed
  have repair: "(\<Sum>i\<in>U. gen_coef scheme k idx i * v i) = 0" if "idx \<in> X" for idx
  proof -
    have "(\<Sum>i\<in>U. gen_coef scheme k idx i * v i) = (\<Sum>i<k. gen_coef scheme k idx i * v i)"
      using known by (intro sum.mono_neutral_left) (auto simp: U_def)
    then show ?thesis using row that by (simp add: X_def)
  qed
  have card: "card U \<le> card X"
  proof -
    have "card (set idxs) = k" using assms(1,2) distinct_card by blast
    moreover have "card U = k - card (set idxs \<inter> {..<k})"
      unfolding U_def by (simp add: card_Diff_subset_Int Int_commute)
    moreover have "card X = card (set idxs) - card (set idxs \<inter> {..<k})"
      unfolding X_def by (simp add: card_Diff_subset_Int)
    ultimately show ?thesis by simp
  qed
  have U: "U \<subseteq> {..<k}" and X: "X \<subseteq> {k..<255}" and XPq: "scheme = Pq \<Longrightarrow> X \<subseteq> {k, Suc k}"
    using assms(3) by (auto simp: U_def X_def valid_idx_def)
  have "v i = 0" if "i \<in> U"
  proof (cases scheme)
    case Cauchy
    then show ?thesis using erasures_Cauchy [OF U X card that] repair by simp
  next
    case Pq
    have "X \<noteq> {}" using card that U by (auto simp: card_eq_0_iff dest: finite_subset)
    then have "k < 255" using X by fastforce
    then show ?thesis using erasures_Pq [OF U XPq [OF Pq] _ card that] repair Pq by simp
  qed
  then show "v i = 0" using known \<open>i < k\<close> by (cases "i \<in> set idxs") (auto simp: U_def)
qed

section \<open>Code words\<close>

text \<open>\<open>is_symbol scheme src L idx bs\<close>: \<open>bs\<close> is the symbol with index \<open>idx\<close> of the code word of the
  \<open>L\<close>-byte source shards \<open>src\<close>.\<close>

definition is_symbol :: "Scheme \<Rightarrow> bytes list \<Rightarrow> nat \<Rightarrow> nat \<Rightarrow> bytes \<Rightarrow> bool" where
  "is_symbol scheme src L idx bs \<longleftrightarrow>
     length bs = L \<and>
     (\<forall>b<L. Gf (bs ! b) = row_prod (length src) (gen_coef scheme (length src)) (\<lambda>i. Gf (src ! i ! b)) idx)"

lemma is_symbol_source:
  assumes "idx < length src" "\<forall>s \<in> set src. length s = L"
  shows "is_symbol scheme src L idx bs \<longleftrightarrow> bs = src ! idx"
proof -
  have "row_prod (length src) (gen_coef scheme (length src)) (\<lambda>i. Gf (src ! i ! b)) idx = Gf (src ! idx ! b)" for b
  proof -
    have "row_prod (length src) (gen_coef scheme (length src)) (\<lambda>i. Gf (src ! i ! b)) idx =
        (\<Sum>j<length src. if j = idx then Gf (src ! j ! b) else 0)"
      unfolding row_prod_def using assms(1) by (intro sum.cong) (auto simp: gen_coef_def)
    then show ?thesis using assms(1) by simp
  qed
  then show ?thesis
    using assms by (auto simp: is_symbol_def intro!: nth_equalityI)
qed

lemma encode_repair_symbols:
  assumes "src \<noteq> []" "\<forall>s \<in> set src. length s = L"
    and "\<And>m. m < r \<Longrightarrow> valid_idx scheme (length src) (length src + m)"
  obtains reps where "encode_repair p src r scheme = Some reps" "length reps = r"
    "\<And>m. m < r \<Longrightarrow> is_symbol scheme src L (length src + m) (reps ! m)"
proof -
  let ?k = "length src"
  let ?row = "\<lambda>m. case repair_row scheme ?k m of None \<Rightarrow> None
    | Some coefs \<Rightarrow> accumulate p (zip coefs src) (replicate L 0)"
  have "\<exists>d. ?row m = Some d \<and> is_symbol scheme src L (?k + m) d" if "m < r" for m
  proof -
    from repair_row_Some [OF _ assms(3) [OF that]]
    obtain coefs where c: "repair_row scheme ?k m = Some coefs" "length coefs = ?k"
      "\<And>i. i < ?k \<Longrightarrow> Gf (coefs ! i) = gen_coef scheme ?k (?k + m) i"
      by auto
    obtain d where "accumulate p (zip coefs src) (replicate L 0) = Some d" "length d = L"
      "\<And>b. b < L \<Longrightarrow> Gf (d ! b) = (\<Sum>i<?k. Gf (coefs ! i) * Gf (src ! i ! b))"
      using accumulate_zip [OF c(2) assms(2)] by blast
    with c show ?thesis by (auto simp: is_symbol_def row_prod_def)
  qed
  then obtain f where f: "\<And>m. m < r \<Longrightarrow> ?row m = Some (f m) \<and> is_symbol scheme src L (?k + m) (f m)"
    by metis
  have "(case src of [] \<Rightarrow> 0 | s # _ \<Rightarrow> length s) = L"
    using assms(1,2) by (cases src) auto
  then have "encode_repair p src r scheme = those (map ?row [0..<r])"
    by (simp add: encode_repair_def Let_def)
  also have "\<dots> = Some (map f [0..<r])"
    using f by (intro those_map_cong) auto
  finally show thesis using f by (intro that) auto
qed

lemma build_matrix_nonsingular:
  assumes idxs: "distinct idxs" "length idxs = k" "\<forall>idx \<in> set idxs. valid_idx scheme k idx"
  shows "\<exists>m. build_matrix scheme k 0 idxs = Some (Some m) \<and> square k m \<and> nonsingular k (mat m)"
proof -
  obtain m where m: "build_matrix scheme k 0 idxs = Some (Some m)" "length m = k"
    and rows: "\<forall>r<k. length (m ! r) = k \<and> (\<forall>i<k. Gf (m ! r ! i) = gen_coef scheme k (idxs ! r) i)"
    using build_matrix_Some [of idxs scheme k 0] idxs by auto
  have "square k m" using m(2) rows by (simp add: square_def)
  moreover have "nonsingular k (mat m)"
    using generator_nonsingular [OF idxs] rows by (simp add: nonsingular_def row_prod_def mat_def)
  ultimately show ?thesis using m(1) by blast
qed

definition recovers :: "nat \<Rightarrow> nat \<Rightarrow> bytes list \<Rightarrow> bytes list \<Rightarrow> bytes list \<Rightarrow> bool" where
  "recovers k L shards src minv \<longleftrightarrow>
     length minv = k \<and>
     (\<forall>i<k. length (minv ! i) = k \<and>
        (\<forall>b<L. (\<Sum>r<k. Gf (minv ! i ! r) * Gf (shards ! r ! b)) = Gf (src ! i ! b)))"

lemma inverse_recovers:
  assumes idxs: "distinct idxs" "length idxs = k" "\<forall>idx \<in> set idxs. valid_idx scheme k idx"
    and src: "length src = k"
    and shards: "\<forall>r<k. is_symbol scheme src L (idxs ! r) (shards ! r)"
  shows "\<exists>m minv. build_matrix scheme k 0 idxs = Some (Some m) \<and> invert m = Some (Some minv) \<and>
    recovers k L shards src minv"
proof -
  obtain m where m: "build_matrix scheme k 0 idxs = Some (Some m)" "length m = k"
    and rows: "\<forall>r<k. length (m ! r) = k \<and> (\<forall>i<k. Gf (m ! r ! i) = gen_coef scheme k (idxs ! r) i)"
    using build_matrix_Some [of idxs scheme k 0] idxs by auto
  have sq: "square k m" using m(2) rows by (simp add: square_def)
  have "nonsingular k (mat m)"
    using generator_nonsingular [OF idxs] rows
    by (simp add: nonsingular_def row_prod_def mat_def)
  then obtain minv where minv: "invert m = Some (Some minv)" "square k minv"
    and inv: "\<forall>i<k. \<forall>j<k. (\<Sum>r<k. mat minv i r * mat m r j) = (if i = j then 1 else 0)"
    using invert_cases [OF sq] by auto
  have "(\<Sum>r<k. Gf (minv ! i ! r) * Gf (shards ! r ! b)) = Gf (src ! i ! b)" if "i < k" "b < L" for i b
  proof -
    have "Gf (shards ! r ! b) = row_prod k (mat m) (\<lambda>i. Gf (src ! i ! b)) r" if "r < k" for r
      using shards \<open>b < L\<close> src rows that by (simp add: is_symbol_def row_prod_def mat_def)
    then have "(\<Sum>r<k. Gf (minv ! i ! r) * Gf (shards ! r ! b)) =
        (\<Sum>r<k. mat minv i r * row_prod k (mat m) (\<lambda>i. Gf (src ! i ! b)) r)"
      by (simp add: mat_def)
    also have "\<dots> = Gf (src ! i ! b)"
      using inv that(1) by (intro left_inverse_apply) auto
    finally show ?thesis .
  qed
  with minv(2) have "recovers k L shards src minv" by (simp add: recovers_def square_def)
  with m(1) minv(1) show ?thesis by blast
qed

section \<open>Blocks of the payload\<close>

definition block :: "nat \<Rightarrow> nat \<Rightarrow> bytes \<Rightarrow> bytes" where
  "block L i out = take L (drop (i * L) out)"

lemma block_fits: "i < k \<Longrightarrow> k * L \<le> n \<Longrightarrow> i * L + L \<le> (n :: nat)"
  by (metis Suc_leI add.commute le_trans mult_Suc mult_le_mono1)

lemma length_block: "i * L + L \<le> length out \<Longrightarrow> length (block L i out) = L"
  by (simp add: block_def)

lemma block_splice:
  assumes "length sh = L" "i * L + L \<le> length out" "j * L + L \<le> length out"
  shows "block L j (splice out (i * L) sh) = (if i = j then sh else block L j out)"
proof (rule nth_equalityI)
  show "length (block L j (splice out (i * L) sh)) = length (if i = j then sh else block L j out)"
    using assms by (simp add: length_block)
  fix b assume "b < length (block L j (splice out (i * L) sh))"
  then have b: "b < L" using assms by (simp add: length_block)
  have "i * L \<le> j * L + b \<and> j * L + b < i * L + L \<longleftrightarrow> i = j"
  proof (cases i j rule: linorder_cases)
    case less
    then have "i * L + L \<le> j * L" using block_fits [of i j L] by simp
    then show ?thesis using less by simp
  next
    case greater
    then have "j * L + L \<le> i * L" using block_fits [of j i L] by simp
    then show ?thesis using greater b by simp
  qed (use b in simp)
  then show "block L j (splice out (i * L) sh) ! b = (if i = j then sh else block L j out) ! b"
    using assms b by (auto simp: block_def nth_splice)
qed

lemma drop_splice: "length sh = L \<Longrightarrow> i < k \<Longrightarrow> k * L \<le> length out \<Longrightarrow> drop (k * L) (splice out (i * L) sh) = drop (k * L) out"
  using block_fits [of i k L "length out"] block_fits [of i k L "k * L"]
  by (intro nth_equalityI) (simp_all add: nth_splice)

lemma blocks_concat:
  assumes "length src = k" "k * L \<le> length out" "\<And>i. i < k \<Longrightarrow> block L i out = src ! i"
  shows "take (k * L) out = concat src"
  using assms
proof (induction k arbitrary: src)
  case (Suc k)
  then obtain init last where src: "src = init @ [last]" "length init = k"
    by (metis length_Suc_conv_rev)
  have "take (k * L) out = concat init"
    using Suc.prems src by (intro Suc.IH) (auto simp: nth_append)
  moreover have "take L (drop (k * L) out) = last"
    using Suc.prems(3) [of k] src by (simp add: block_def nth_append)
  ultimately show ?case
    using src take_add [of "k * L" L out] by (simp add: add.commute)
qed simp

lemma put_shard_Some:
  "length sh = L \<Longrightarrow> i < k \<Longrightarrow> k * L \<le> length out \<Longrightarrow> put_shard L i sh out = Some (splice out (i * L) sh)"
  using block_fits [of i k L "length out"] by (simp add: put_shard_def)

text \<open>Writing a list of shards: the blocks named by the list hold them, the rest is as before.\<close>

definition written :: "nat \<Rightarrow> nat \<Rightarrow> bytes list \<Rightarrow> nat set \<Rightarrow> bytes \<Rightarrow> bytes \<Rightarrow> bool" where
  "written L k src I out out' \<longleftrightarrow>
     length out' = length out \<and> drop (k * L) out' = drop (k * L) out \<and>
     (\<forall>i<k. block L i out' = (if i \<in> I then src ! i else block L i out))"

lemma written_splice:
  assumes "length (src ! i) = L" "i < k" "k * L \<le> length out" "written L k src I (splice out (i * L) (src ! i)) out'"
  shows "written L k src (insert i I) out out'"
proof -
  have fits: "j * L + L \<le> length out" if "j < k" for j
    using block_fits that assms(3) by blast
  have "block L j (splice out (i * L) (src ! i)) = (if i = j then src ! i else block L j out)" if "j < k" for j
    using block_splice [OF assms(1) fits [OF assms(2)] fits [OF that]] .
  then show ?thesis
    using assms fits [OF assms(2)] drop_splice [OF assms(1-3)] by (auto simp: written_def)
qed

lemma put_shards_written:
  assumes "\<forall>s \<in> set src. length s = L" "length src = k" "k * L \<le> length out"
    and "\<forall>(i, bs) \<in> set rows. i < k \<and> bs = src ! i"
  shows "\<exists>out'. put_shards L rows out = Some out' \<and> written L k src (fst ` set rows) out out'"
  using assms(3,4)
proof (induction rows arbitrary: out)
  case (Cons row rows)
  then obtain i where i: "row = (i, src ! i)" "i < k" by auto
  have len: "length (src ! i) = L" using assms(1,2) i(2) by simp
  let ?out = "splice out (i * L) (src ! i)"
  have "length ?out = length out"
    using block_fits [OF i(2) Cons.prems(1)] len by simp
  then have "\<exists>out'. put_shards L rows ?out = Some out' \<and> written L k src (fst ` set rows) ?out out'"
    using Cons.prems by (intro Cons.IH) simp_all
  then show ?case
    using put_shard_Some [OF len i(2) Cons.prems(1)] written_splice [OF len i(2) Cons.prems(1)]
    by (auto simp: i(1))
qed (simp add: written_def)

lemma written_all: "written L k src {..<k} out out' \<Longrightarrow> length src = k \<Longrightarrow> k * L \<le> length out \<Longrightarrow>
    out' = concat src @ drop (k * L) out"
  using blocks_concat [of src k L out'] append_take_drop_id [of "k * L" out']
  by (auto simp: written_def)

lemma combine_recovers:
  assumes rec: "recovers k L shards src minv" and i: "i < k"
    and len: "length shards = k" "\<forall>s \<in> set shards. length s = L" "length (src ! i) = L"
  shows "accumulate_nonzero p (zip (minv ! i) shards) (replicate L 0) = Some (src ! i)"
proof -
  let ?row = "minv ! i"
  let ?pairs = "filter (\<lambda>(c, src). c \<noteq> 0) (zip ?row shards)"
  have row: "length ?row = length shards"
    "\<And>b. b < L \<Longrightarrow> (\<Sum>r<length shards. Gf (?row ! r) * Gf (shards ! r ! b)) = Gf (src ! i ! b)"
    using rec i len(1) by (simp_all add: recovers_def)
  have "\<forall>(c, src) \<in> set ?pairs. length src = length (replicate L (0 :: u8))"
    using len(2) by (auto dest: set_zip_rightD)
  from accumulate_Some [OF this, of p] obtain d where d: "accumulate p ?pairs (replicate L 0) = Some d" "length d = L"
    "\<forall>b<L. Gf (d ! b) = (\<Sum>(c, src)\<leftarrow>zip ?row shards. Gf c * Gf (src ! b))"
    by (auto simp: sum_list_filter_zero Gf_simps)
  have "(\<Sum>(c, src)\<leftarrow>zip ?row shards. Gf c * Gf (src ! b)) = (\<Sum>r<length shards. Gf (?row ! r) * Gf (shards ! r ! b))" for b
    using row(1) by (simp add: sum_list_sum_nth atLeast0LessThan)
  then have "d = src ! i" using d len(3) row(2) by (intro nth_equalityI) simp_all
  then show ?thesis using d(1) by (simp add: accumulate_nonzero_def)
qed

lemma apply_inverse_written:
  assumes src: "\<forall>s \<in> set src. length s = L" "length src = k" and out: "k * L \<le> length out"
    and rows: "\<forall>(i, row) \<in> set prs. i < k \<and>
      accumulate_nonzero p (zip row shards) (replicate L 0) = Some (src ! i)"
  shows "\<exists>out'. apply_inverse p L shards prs out = Some out' \<and> written L k src (fst ` set prs) out out'"
  using out rows
proof (induction prs arbitrary: out)
  case (Cons pr prs)
  then obtain i row where i: "pr = (i, row)" "i < k"
    "accumulate_nonzero p (zip row shards) (replicate L 0) = Some (src ! i)" by auto
  have len: "length (src ! i) = L" using src i(2) by simp
  let ?out = "splice out (i * L) (src ! i)"
  have "length ?out = length out"
    using block_fits [OF i(2) Cons.prems(1)] len by simp
  then have "\<exists>out'. apply_inverse p L shards prs ?out = Some out' \<and> written L k src (fst ` set prs) ?out out'"
    using Cons.prems by (intro Cons.IH) simp_all
  then show ?case
    using put_shard_Some [OF len i(2) Cons.prems(1)] written_splice [OF len i(2) Cons.prems(1)]
    by (auto simp: i)
qed (simp add: written_def)

section \<open>Property\<close>

text \<open>C30: whichever kernel the processor's features select (bit-matrix, 512-, 256- or 128-bit nibble
  shuffles, NEON, WebAssembly or scalar), \<open>mul_add_row\<close> adds the product of coefficient and source to
  every byte of the destination, and it panics exactly when the lengths differ.\<close>

theorem mul_add_row_any_cpu:
  "mul_add_row p coeff src dst =
     (if length src = length dst then Some (map2 (\<lambda>d s. add d (mul coeff s)) dst src) else None)"
  by (simp add: mul_add_row_eq mul_add_fallback_def mul_slice_into_map2 add_def mul_commute)

end
