(* ===== verification/Rs_Decode.thy ===== *)
theory Rs_Decode
  imports Rs
begin

text \<open>
  Correctness of the two decoders of \<^verbatim>\<open>crates/yip-transport/src/rs.rs\<close>: from any \<open>K\<close> distinct symbols
  of a code word, in any order and mixed with symbols the guards reject, the source shards come back;
  with fewer, the decoder reports failure and does not panic.
\<close>

section \<open>Collecting rows\<close>

definition usable :: "nat \<Rightarrow> (u16 \<times> bytes) list \<Rightarrow> (nat \<times> bytes) set" where
  "usable L received = {(unat i, bs) | i bs. (i, bs) \<in> set received \<and> unat i < 255 \<and> length bs = L}"

lemma usable_Nil [simp]: "usable L [] = {}"
  by (simp add: usable_def)

lemma usable_Cons:
  "usable L ((i, bs) # rest) =
     (if unat i < 255 \<and> length bs = L then insert (unat i, bs) (usable L rest) else usable L rest)"
  by (auto simp: usable_def)

definition collected :: "nat \<Rightarrow> (nat \<times> bytes) set \<Rightarrow> (nat \<times> bytes) list \<Rightarrow> bool" where
  "collected k A R \<longleftrightarrow> distinct (map fst R) \<and> length R \<le> k \<and> set R \<subseteq> A \<and> (length R = k \<or> fst ` A \<subseteq> fst ` set R)"

lemma collected_superset:
  "collected k A R \<Longrightarrow> A \<subseteq> B \<Longrightarrow> fst ` B \<subseteq> fst ` A \<Longrightarrow> collected k B R"
  unfolding collected_def by (meson order_trans)

lemma collect_rows_collected:
  assumes "length seen = 256" "distinct (map fst rows)" "length rows < k"
    and "\<And>i. i < 256 \<Longrightarrow> seen ! i \<longleftrightarrow> i \<in> fst ` set rows"
  shows "collected k (set rows \<union> usable L received) (collect_rows k L seen rows received)"
  using assms
proof (induction received arbitrary: seen rows)
  case Nil
  then show ?case by (simp add: collected_def)
next
  case (Cons x received)
  obtain i bs where x: "x = (i, bs)" by (cases x)
  let ?idx = "unat i"
  show ?case
  proof (cases "?idx \<ge> 255 \<or> length bs \<noteq> L \<or> seen ! ?idx")
    case True
    have "fst ` (set rows \<union> usable L (x # received)) \<subseteq> fst ` (set rows \<union> usable L received)"
      using True Cons.prems(4) [of ?idx] by (auto simp: x usable_Cons)
    moreover have "usable L received \<subseteq> usable L (x # received)" by (auto simp: x usable_Cons)
    moreover have "collect_rows k L seen rows (x # received) = collect_rows k L seen rows received"
      using True by (auto simp: x Let_def)
    ultimately show ?thesis
      using collected_superset [OF Cons.IH [OF Cons.prems]] by (metis Un_mono subset_refl)
  next
    case False
    let ?rows = "rows @ [(?idx, bs)]"
    have "?idx \<notin> fst ` set rows" using False Cons.prems(4) [of ?idx] by simp
    then have dist: "distinct (map fst ?rows)" using Cons.prems(2) by (simp add: image_iff)
    have all: "set rows \<union> usable L (x # received) = set ?rows \<union> usable L received"
      using False by (auto simp: x usable_Cons)
    show ?thesis
    proof (cases "length ?rows = k")
      case True
      then have "collect_rows k L seen rows (x # received) = ?rows" using False by (simp add: x Let_def)
      then show ?thesis unfolding all using dist True by (auto simp: collected_def)
    next
      case len: False
      have "collect_rows k L seen rows (x # received) = collect_rows k L (seen[?idx := True]) ?rows received"
        using False len by (simp add: x Let_def)
      moreover have "seen[?idx := True] ! j \<longleftrightarrow> j \<in> fst ` set ?rows" if "j < 256" for j
        using that False Cons.prems(1) Cons.prems(4) [OF that] by (auto simp: nth_list_update)
      moreover have "length ?rows < k" using len Cons.prems(3) by simp
      ultimately show ?thesis
        unfolding all using Cons.IH [of "seen[?idx := True]" ?rows] dist Cons.prems(1) by simp
    qed
  qed
qed

lemma collect_rows_start:
  "0 < k \<Longrightarrow> collected k (usable L received) (collect_rows k L (replicate 256 False) [] received)"
  using collect_rows_collected [of "replicate 256 False" "[]" k L received] by simp

lemma collected_full:
  assumes "collected k (usable L received) R" "k \<le> card (fst ` usable L received)"
  shows "length R = k"
proof (rule ccontr)
  assume "length R \<noteq> k"
  with assms(1) have "fst ` usable L received \<subseteq> set (map fst R)" by (simp add: collected_def)
  then have "card (fst ` usable L received) \<le> card (set (map fst R))" by (intro card_mono) auto
  also have "\<dots> = length R" using distinct_card [of "map fst R"] assms(1) by (simp add: collected_def)
  finally show False using assms \<open>length R \<noteq> k\<close> by (simp add: collected_def)
qed

section \<open>Decoding from a flat list\<close>

lemma decode_source_into_recovers:
  assumes k: "0 < k" "k * L \<le> u64_max"
    and src: "length src = k" "\<forall>s \<in> set src. length s = L"
    and symbols: "\<And>idx bs. (idx, bs) \<in> usable L received \<Longrightarrow> valid_idx scheme k idx \<and> is_symbol scheme src L idx bs"
    and enough: "k \<le> card (fst ` usable L received)"
    and out: "k * L \<le> length out"
  shows "decode_source_into p k L received scheme out = Some (Some (concat src @ drop (k * L) out))"
proof -
  define R where "R = collect_rows k L (replicate 256 False) [] received"
  note coll = collect_rows_start [OF k(1), of L received, folded R_def]
  have len: "length R = k" using collected_full [OF coll enough] .
  have dist: "distinct (map fst R)" and sub: "set R \<subseteq> usable L received"
    using coll by (simp_all add: collected_def)
  have sym: "valid_idx scheme k idx" "is_symbol scheme src L idx bs" if "(idx, bs) \<in> set R" for idx bs
    using symbols sub that by blast+
  have mul: "checked_mul k L = Some (k * L)" using k(2) by simp
  have unfold: "decode_source_into p k L received scheme out =
      (if list_all (\<lambda>(idx, bs). idx < k) R then map_option Some (put_shards L R out)
       else case build_matrix scheme k 0 (map fst R) of
              None \<Rightarrow> None
            | Some None \<Rightarrow> Some None
            | Some (Some m) \<Rightarrow>
                (case invert m of
                   None \<Rightarrow> None
                 | Some None \<Rightarrow> Some None
                 | Some (Some minv) \<Rightarrow>
                     map_option Some (apply_inverse p L (map snd R) (zip [0..<k] minv) out)))"
    unfolding decode_source_into_def mul using out len by (simp add: R_def [symmetric] Let_def)
  show ?thesis
  proof (cases "list_all (\<lambda>(idx, bs). idx < k) R")
    case True
    have rows: "\<forall>(i, bs) \<in> set R. i < k \<and> bs = src ! i"
    proof clarify
      fix i bs assume "(i, bs) \<in> set R"
      with True have "i < k" by (auto simp: list_all_iff)
      with sym(2) [OF \<open>(i, bs) \<in> set R\<close>] src show "i < k \<and> bs = src ! i"
        by (simp add: is_symbol_source)
    qed
    have "set (map fst R) = {..<k}"
      using rows distinct_card [OF dist] len by (intro card_subset_eq) auto
    then show ?thesis
      using put_shards_written [OF src(2,1) out rows] written_all [OF _ src(1) out] True
      unfolding unfold by auto
  next
    case False
    have shards: "\<forall>r<k. is_symbol scheme src L (map fst R ! r) (map snd R ! r)"
      using len sym(2) by (metis length_map nth_map nth_mem prod.collapse)
    have valid: "\<forall>idx \<in> set (map fst R). valid_idx scheme k idx" using sym(1) by auto
    have slen: "\<forall>s \<in> set (map snd R). length s = L" using sym(2) by (auto simp: is_symbol_def)
    have "length (map fst R) = k" using len by simp
    from inverse_recovers [OF dist this valid src(1) shards]
    obtain m minv where m: "build_matrix scheme k 0 (map fst R) = Some (Some m)" "invert m = Some (Some minv)"
      and rec: "recovers k L (map snd R) src minv"
      by blast
    have minv: "length minv = k" using rec by (simp add: recovers_def)
    have "accumulate_nonzero p (zip (minv ! i) (map snd R)) (replicate L 0) = Some (src ! i)" if "i < k" for i
      by (rule combine_recovers [OF rec that]) (use that src len slen in simp_all)
    then have rows: "\<forall>(i, row) \<in> set (zip [0..<k] minv). i < k \<and>
        accumulate_nonzero p (zip row (map snd R)) (replicate L 0) = Some (src ! i)"
      using minv by (auto simp: set_zip)
    have "map fst (zip [0..<k] minv) = [0..<k]" using minv by simp
    then have fst: "fst ` set (zip [0..<k] minv) = {..<k}" by (metis atLeast0LessThan atLeast_upt set_map)
    from apply_inverse_written [OF src(2,1) out rows]
    obtain out' where out': "apply_inverse p L (map snd R) (zip [0..<k] minv) out = Some out'"
      "written L k src (fst ` set (zip [0..<k] minv)) out out'"
      by blast
    then have "out' = concat src @ drop (k * L) out"
      unfolding fst by (intro written_all [OF _ src(1) out])
    then show ?thesis using False m out'(1) by (simp add: unfold)
  qed
qed

lemma decode_source_too_few:
  assumes "card (fst ` usable L received) < k" "k * L \<le> u64_max" "k * L \<le> length out"
  shows "decode_source_into p k L received scheme out = Some None"
proof -
  define R where "R = collect_rows k L (replicate 256 False) [] received"
  have coll: "collected k (usable L received) R"
    unfolding R_def using assms(1) by (intro collect_rows_start) simp
  have "finite (usable L received)"
    by (rule finite_subset [of _ "(\<lambda>(i, bs). (unat i, bs)) ` set received"]) (auto simp: usable_def image_iff)
  then have "card (set (map fst R)) \<le> card (fst ` usable L received)"
    using coll by (intro card_mono) (auto simp: collected_def)
  then have "length R < k"
    using assms(1) distinct_card [of "map fst R"] coll by (simp add: collected_def)
  then show ?thesis
    using assms(2,3) by (simp add: decode_source_into_def R_def Let_def checked_mul_def)
qed

lemma those_blocks:
  assumes "length src = k" "\<forall>s \<in> set src. length s = L"
  shows "those (map (\<lambda>i. slice (concat src) (i * L) (i * L + L)) [0..<k]) = Some src"
proof -
  have len: "length (concat src) = k * L"
    using assms by (induction src arbitrary: k) auto
  have "slice (concat src) (i * L) (i * L + L) = Some (src ! i)" if "i < k" for i
  proof -
    have "take i src @ src ! i # drop (Suc i) src = src" using that assms(1) by (simp add: id_take_nth_drop [symmetric])
    then have split: "concat src = concat (take i src) @ src ! i @ concat (drop (Suc i) src)"
      by (metis concat.simps(2) concat_append)
    have pre: "length (concat (take i src)) = i * L"
      using that assms by (induction i) (simp_all add: take_Suc_conv_app_nth)
    have "length (src ! i) = L" using that assms by simp
    with slice_exact [of "concat (take i src)" "src ! i" "concat (drop (Suc i) src)"] pre split
    show ?thesis by simp
  qed
  then have "those (map (\<lambda>i. slice (concat src) (i * L) (i * L + L)) [0..<k]) = Some (map ((!) src) [0..<k])"
    by (intro those_map_cong) simp
  then show ?thesis using map_nth [of src] assms(1) by simp
qed

section \<open>Restoring missing shards in place\<close>

lemma add_repair_eq:
  assumes "\<forall>(i, bs) \<in> set reps. length bs = L" "length rows \<le> k"
  shows "add_repair k L rows reps = rows @ take (k - length rows) (map (\<lambda>(i, bs). (unat i, Repair bs)) reps)"
  using assms
proof (induction reps arbitrary: rows)
  case (Cons x reps)
  obtain i bs where x: "x = (i, bs)" by (cases x)
  show ?case
  proof (cases "length rows = k")
    case False
    then have "length (rows @ [(unat i, Repair bs)]) \<le> k" "k - length rows = Suc (k - Suc (length rows))"
      using Cons.prems(2) by simp_all
    then show ?thesis using Cons False by (simp add: x)
  qed (simp add: x)
qed simp

lemma select_shards:
  assumes "list_all2 (\<lambda>row s. shard_bytes L payload (snd row) = Some s) rows shards"
  shows "those (map (\<lambda>(c, (idx, ref)). map_option (Pair c) (shard_bytes L payload ref))
            (filter (\<lambda>(c, row). c \<noteq> 0) (zip cs rows))) =
         Some (filter (\<lambda>(c, src). c \<noteq> 0) (zip cs shards))"
  using assms
proof (induction arbitrary: cs rule: list_all2_induct)
  case (Cons row rows s shards)
  then show ?case by (cases cs) (auto split: prod.splits)
qed simp

text \<open>The row references stay readable as long as the shards already present are in place.\<close>

definition ref_ok :: "nat \<Rightarrow> u64 list \<Rightarrow> bytes list \<Rightarrow> nat \<times> shard_ref \<Rightarrow> bytes \<Rightarrow> bool" where
  "ref_ok k seen src row s =
     (case snd row of Source i \<Rightarrow> i < k \<and> mask_bit seen i \<and> s = src ! i | Repair bs \<Rightarrow> s = bs)"

lemma restore_missing_written:
  assumes src: "\<forall>s \<in> set src. length s = L" "length src = k"
    and refs: "list_all2 (ref_ok k seen src) rows shards"
    and rows: "\<forall>(i, row) \<in> set prs. i < k \<and>
      accumulate_nonzero p (zip row shards) (replicate L 0) = Some (src ! i)"
    and payload: "k * L \<le> length payload" "\<forall>i<k. mask_bit seen i \<longrightarrow> block L i payload = src ! i"
  shows "\<exists>out. restore_missing p L seen rows prs payload = Some out \<and>
    written L k src {i \<in> fst ` set prs. \<not> mask_bit seen i} payload out"
  using rows payload
proof (induction prs arbitrary: payload)
  case (Cons pr prs)
  obtain i row where i: "pr = (i, row)" "i < k"
    "accumulate_nonzero p (zip row shards) (replicate L 0) = Some (src ! i)" using Cons.prems(1) by auto
  have len: "length (src ! i) = L" using src i(2) by simp
  show ?case
  proof (cases "mask_bit seen i")
    case True
    then have "{j \<in> fst ` set (pr # prs). \<not> mask_bit seen j} = {j \<in> fst ` set prs. \<not> mask_bit seen j}"
      by (auto simp: i(1))
    then show ?thesis using True Cons.IH [of payload] Cons.prems by (simp add: i(1))
  next
    case False
    let ?out = "splice payload (i * L) (src ! i)"
    have fits: "j * L + L \<le> length payload" if "j < k" for j using block_fits that Cons.prems(2) by blast
    have "list_all2 (\<lambda>row s. shard_bytes L payload (snd row) = Some s) rows shards"
      using refs
    proof (rule list_all2_mono)
      fix x s assume "ref_ok k seen src x s"
      then show "shard_bytes L payload (snd x) = Some s"
        using Cons.prems(3) fits
        by (auto simp: ref_ok_def shard_bytes_def slice_def block_def split: shard_ref.splits)
    qed
    note sel = select_shards [OF this, of row]
    have acc: "accumulate p (filter (\<lambda>(c, src). c \<noteq> 0) (zip row shards)) (replicate L 0) = Some (src ! i)"
      using i(3) by (simp add: accumulate_nonzero_def)
    have put: "put_shard L i (src ! i) payload = Some ?out" by (rule put_shard_Some [OF len i(2) Cons.prems(2)])
    have "block L j ?out = src ! j" if "j < k" "mask_bit seen j" for j
      using that False Cons.prems(3) block_splice [OF len fits [OF i(2)] fits [OF that(1)]] by auto
    moreover have "length ?out = length payload" using len fits [OF i(2)] by simp
    ultimately have "\<exists>out. restore_missing p L seen rows prs ?out = Some out \<and>
        written L k src {j \<in> fst ` set prs. \<not> mask_bit seen j} ?out out"
      using Cons.prems by (intro Cons.IH) simp_all
    moreover have "{j \<in> fst ` set (pr # prs). \<not> mask_bit seen j} = insert i {j \<in> fst ` set prs. \<not> mask_bit seen j}"
      using False by (auto simp: i(1))
    ultimately show ?thesis
      using False sel acc put written_splice [OF len i(2) Cons.prems(2)] by (auto simp: i(1))
  qed
qed (simp add: written_def)

text \<open>The rows the decoder assembles: the shards \<open>hs\<close> already in place, then the repair symbols \<open>ts\<close>.\<close>

definition pick_rows :: "nat list \<Rightarrow> (u16 \<times> bytes) list \<Rightarrow> (nat \<times> shard_ref) list" where
  "pick_rows hs ts = map (\<lambda>i. (i, Source i)) hs @ map (\<lambda>(i, bs). (unat i, Repair bs)) ts"

definition pick_shards :: "bytes list \<Rightarrow> nat list \<Rightarrow> (u16 \<times> bytes) list \<Rightarrow> bytes list" where
  "pick_shards src hs ts = map ((!) src) hs @ map snd ts"

lemma pick_indices:
  assumes k: "k \<le> 255" and hs: "distinct hs" "\<And>i. i \<in> set hs \<Longrightarrow> i < k \<and> mask_bit seen i"
    and ts: "distinct (map fst ts)" "\<And>i bs. (i, bs) \<in> set ts \<Longrightarrow> k \<le> unat i \<and> valid_idx scheme k (unat i)"
  shows "distinct (map fst (pick_rows hs ts))" "\<forall>idx \<in> set (map fst (pick_rows hs ts)). valid_idx scheme k idx"
proof -
  have fst_eq: "map fst (pick_rows hs ts) = hs @ map (unat \<circ> fst) ts"
    by (simp add: pick_rows_def comp_def split_beta)
  have "distinct (map (unat \<circ> fst) ts)"
    using ts(1) by (simp add: distinct_map inj_on_def word_unat_eq_iff)
  moreover have "k \<le> j" if "j \<in> set (map (unat \<circ> fst) ts)" for j
    using that ts(2) by auto
  ultimately show "distinct (map fst (pick_rows hs ts))"
    unfolding fst_eq using hs by (fastforce simp: distinct_append)
  show "\<forall>idx \<in> set (map fst (pick_rows hs ts)). valid_idx scheme k idx"
    unfolding fst_eq using hs(2) ts(2) k by (fastforce simp: valid_idx_def)
qed

lemma pick_facts:
  assumes src: "length src = k" "\<forall>s \<in> set src. length s = L" and k: "k \<le> 255"
    and hs: "distinct hs" "\<And>i. i \<in> set hs \<Longrightarrow> i < k \<and> mask_bit seen i"
    and ts: "distinct (map fst ts)"
      "\<And>i bs. (i, bs) \<in> set ts \<Longrightarrow> k \<le> unat i \<and> valid_idx scheme k (unat i) \<and> is_symbol scheme src L (unat i) bs"
  shows "distinct (map fst (pick_rows hs ts))"
    "\<forall>idx \<in> set (map fst (pick_rows hs ts)). valid_idx scheme k idx"
    "list_all2 (is_symbol scheme src L) (map fst (pick_rows hs ts)) (pick_shards src hs ts)"
    "list_all2 (ref_ok k seen src) (pick_rows hs ts) (pick_shards src hs ts)"
    "\<forall>s \<in> set (pick_shards src hs ts). length s = L"
proof -
  have fst_eq: "map fst (pick_rows hs ts) = hs @ map (unat \<circ> fst) ts"
    by (simp add: pick_rows_def comp_def split_beta)
  show "distinct (map fst (pick_rows hs ts))" "\<forall>idx \<in> set (map fst (pick_rows hs ts)). valid_idx scheme k idx"
    using pick_indices [of k hs seen ts scheme] k hs ts by blast+
  have "list_all2 (is_symbol scheme src L) hs (map ((!) src) hs)"
    using hs(2) src by (simp add: list_all2_map2 list_all2_same is_symbol_source)
  moreover have "list_all2 (is_symbol scheme src L) (map (unat \<circ> fst) ts) (map snd ts)"
    using ts(2) by (simp add: list_all2_map1 list_all2_map2 list_all2_same)
  ultimately show "list_all2 (is_symbol scheme src L) (map fst (pick_rows hs ts)) (pick_shards src hs ts)"
    unfolding fst_eq pick_shards_def by (rule list_all2_appendI)
  show "list_all2 (ref_ok k seen src) (pick_rows hs ts) (pick_shards src hs ts)"
    unfolding pick_rows_def pick_shards_def using hs(2)
    by (intro list_all2_appendI) (auto simp: list_all2_map1 list_all2_map2 list_all2_same ref_ok_def)
  show "\<forall>s \<in> set (pick_shards src hs ts). length s = L"
    unfolding pick_shards_def using src hs(2) ts(2) by (force simp: is_symbol_def)
qed

lemma reconstruct_recovers:
  assumes k: "k \<le> 255" "k * L \<le> u64_max"
    and src: "length src = k" "\<forall>s \<in> set src. length s = L"
    and payload: "k * L \<le> length payload" "\<forall>i<k. mask_bit seen i \<longrightarrow> block L i payload = src ! i"
    and reps: "distinct (map fst reps)"
      "\<And>i bs. (i, bs) \<in> set reps \<Longrightarrow> k \<le> unat i \<and> valid_idx scheme k (unat i) \<and> is_symbol scheme src L (unat i) bs"
    and enough: "k \<le> length (filter (mask_bit seen) [0..<k]) + length reps"
  shows "reconstruct_missing_sources p k L payload seen reps scheme =
    Some (Some (concat src @ drop (k * L) payload))"
proof -
  define hs where "hs = filter (mask_bit seen) [0..<k]"
  define ts where "ts = take (k - length hs) reps"
  let ?rows = "pick_rows hs ts" and ?shards = "pick_shards src hs ts"
  have n: "length hs \<le> k" "k - length hs \<le> length reps"
    using enough length_filter_le [of "mask_bit seen" "[0..<k]"] by (simp_all add: hs_def)
  then have len: "length ?rows = k" "length ?shards = k"
    by (simp_all add: pick_rows_def pick_shards_def ts_def)
  have "\<forall>(i, bs) \<in> set reps. length bs = L" using reps(2) by (auto simp: is_symbol_def)
  then have rows_eq: "add_repair k L (map (\<lambda>i. (i, Source i)) hs) reps = ?rows"
    using add_repair_eq [of reps L "map (\<lambda>i. (i, Source i)) hs" k] n(1)
    by (simp add: pick_rows_def ts_def take_map)
  have hs: "distinct hs" "\<And>i. i \<in> set hs \<Longrightarrow> i < k \<and> mask_bit seen i" by (simp_all add: hs_def)
  have ts: "distinct (map fst ts)" using reps(1) by (simp add: ts_def take_map [symmetric])
  have ts_sym: "k \<le> unat i \<and> valid_idx scheme k (unat i) \<and> is_symbol scheme src L (unat i) bs"
    if "(i, bs) \<in> set ts" for i bs
    using reps(2) [of i bs] that in_set_takeD [of "(i, bs)" "k - length hs" reps] by (simp add: ts_def)
  note facts = pick_facts [OF src k(1) hs ts ts_sym]
  have "\<exists>m minv. build_matrix scheme k 0 (map fst ?rows) = Some (Some m) \<and> invert m = Some (Some minv) \<and>
      recovers k L ?shards src minv"
    using facts(1-3) src(1) len by (intro inverse_recovers) (simp_all add: list_all2_conv_all_nth)
  then obtain m minv where m: "build_matrix scheme k 0 (map fst ?rows) = Some (Some m)" "invert m = Some (Some minv)"
    and rec: "recovers k L ?shards src minv" by blast
  have minv: "length minv = k" using rec by (simp add: recovers_def)
  have "accumulate_nonzero p (zip (minv ! i) ?shards) (replicate L 0) = Some (src ! i)" if "i < k" for i
    using combine_recovers [OF rec that len(2) facts(5)] that src nth_mem [of i src] by blast
  then have prs: "\<forall>(i, row) \<in> set (zip [0..<k] minv). i < k \<and>
      accumulate_nonzero p (zip row ?shards) (replicate L 0) = Some (src ! i)"
    using minv by (auto simp: set_zip)
  have "map fst (zip [0..<k] minv) = [0..<k]" using minv by simp
  then have fst_prs: "fst ` set (zip [0..<k] minv) = {..<k}" by (metis atLeast0LessThan atLeast_upt set_map)
  from restore_missing_written [OF src(2,1) facts(4) prs payload]
  obtain out where out: "restore_missing p L seen ?rows (zip [0..<k] minv) payload = Some out"
    "written L k src {i \<in> {..<k}. \<not> mask_bit seen i} payload out"
    unfolding fst_prs by blast
  have "written L k src {..<k} payload out" using out(2) payload(2) by (auto simp: written_def)
  then have "out = concat src @ drop (k * L) payload" by (rule written_all [OF _ src(1) payload(1)])
  then show ?thesis
    unfolding reconstruct_missing_sources_def checked_mul_def
    using k payload(1) rows_eq len(1) m out(1) by (simp add: Let_def hs_def [symmetric])
qed

section \<open>Properties\<close>

text \<open>C4: the erasure code is maximum distance separable and both ends of it are total. Encoding \<open>K\<close>
  equally long shards with \<open>R\<close> repair shards (\<open>K + R \<le> 255\<close>, and \<open>R \<le> 2\<close> under P+Q) succeeds, on any
  processor; and from any received list whose usable entries are symbols of this code word,
  \<open>decode_source\<close> returns exactly the source shards as soon as \<open>K\<close> distinct indices are usable, and
  reports failure, without panicking, when there are fewer.\<close>

theorem decode_source_any_k:
  assumes "src \<noteq> []" "\<forall>s \<in> set src. length s = L" "length src + r \<le> 255" "scheme = Pq \<longrightarrow> r \<le> 2"
    and "length src * L \<le> u64_max"
  shows "\<exists>reps. encode_repair p src r scheme = Some reps \<and> length reps = r \<and>
    (\<forall>p' received.
       (\<forall>(idx, bs) \<in> usable L received. idx < length src + r \<and> bs = (src @ reps) ! idx) \<longrightarrow>
       decode_source p' (length src) L received scheme =
         Some (if length src \<le> card (fst ` usable L received) then Some src else None))"
proof -
  let ?k = "length src"
  have valid: "valid_idx scheme ?k (?k + m)" if "m < r" for m
    using that assms(3,4) by (auto simp: valid_idx_def)
  obtain reps where reps: "encode_repair p src r scheme = Some reps" "length reps = r"
    and sym: "\<And>m. m < r \<Longrightarrow> is_symbol scheme src L (?k + m) (reps ! m)"
    using encode_repair_symbols [OF assms(1,2) valid] by blast
  have code: "valid_idx scheme ?k idx \<and> is_symbol scheme src L idx ((src @ reps) ! idx)" if "idx < ?k + r" for idx
  proof (cases "idx < ?k")
    case True
    then show ?thesis using assms(2,3) by (simp add: nth_append is_symbol_source valid_idx_def)
  next
    case False
    then show ?thesis using that sym [of "idx - ?k"] valid [of "idx - ?k"] by (simp add: nth_append)
  qed
  have mul: "checked_mul ?k L = Some (?k * L)" using assms(5) by simp
  have "decode_source p' ?k L received scheme =
      Some (if ?k \<le> card (fst ` usable L received) then Some src else None)"
    if rec: "\<forall>(idx, bs) \<in> usable L received. idx < ?k + r \<and> bs = (src @ reps) ! idx" for p' received
  proof (cases "?k \<le> card (fst ` usable L received)")
    case True
    have "decode_source_into p' ?k L received scheme (replicate (?k * L) 0) = Some (Some (concat src))"
      using decode_source_into_recovers [OF _ assms(5) refl assms(2) _ True, of scheme "replicate (?k * L) 0" p']
        code rec assms(1) by fastforce
    then show ?thesis
      unfolding decode_source_def mul using True those_blocks [OF refl assms(2)] by simp
  next
    case False
    then show ?thesis
      unfolding decode_source_def mul using decode_source_too_few [of L received ?k] assms(5) by simp
  qed
  with reps show ?thesis by blast
qed

theorem decode_source_any_k_witness:
  "encode_repair scalar_cpu [[5], [7]] 1 Pq = Some [[2]] \<and>
   decode_source scalar_cpu 2 1 [(2, [2]), (1, [7])] Pq = Some (Some [[5], [7]])"
proof -
  let ?src = "[[5], [7]] :: bytes list" and ?rec = "[(2, [2]), (1, [7])] :: (u16 \<times> bytes) list"
  have enc: "encode_repair scalar_cpu ?src 1 Pq = Some [[2]]"
    by (simp add: encode_repair_def repair_row_def mul_add_row_def Let_def)
  have use: "usable 1 ?rec = {(2, [2]), (1, [7])}" by (simp add: usable_Cons)
  have card: "card (fst ` usable 1 ?rec) = 2" unfolding use by simp
  have code: "\<forall>(idx, bs) \<in> usable 1 ?rec. idx < length ?src + 1 \<and> bs = (?src @ [[2]]) ! idx"
    unfolding use by simp
  have "length ?src * 1 \<le> u64_max" by (simp add: u64_max_def)
  with decode_source_any_k [of ?src 1 1 Pq scalar_cpu] enc
  have "\<forall>p' received. (\<forall>(idx, bs) \<in> usable 1 received. idx < length ?src + 1 \<and> bs = (?src @ [[2]]) ! idx) \<longrightarrow>
      decode_source p' (length ?src) 1 received Pq =
        Some (if length ?src \<le> card (fst ` usable 1 received) then Some ?src else None)"
    by auto
  with code have "decode_source scalar_cpu (length ?src) 1 ?rec Pq =
      Some (if length ?src \<le> card (fst ` usable 1 ?rec) then Some ?src else None)" by blast
  with enc show ?thesis unfolding card by (simp add: numeral_2_eq_2)
qed

end
