(* ===== verification/Object_Table.thy ===== *)
theory Object_Table
  imports Prelude
begin

text \<open>
  The open-addressing hash table \<open>ObjectTable\<close> of \<^verbatim>\<open>crates/yip-transport/src/fec.rs\<close>: linear probing
  from a mixed 64-bit key, and deletion by shifting later entries back instead of leaving tombstones.
  The theory shows that the table refines a finite map: under its invariant every operation returns,
  lookups read the map, insertion and removal update it at one key and keep the invariant. The
  contract is the locale \<open>keyed_store\<close>, which the table interprets.
\<close>

section \<open>The model\<close>

record 'v object_table =
  slots :: "(u64 \<times> 'v) option list"
  tlen :: nat

definition hash_key :: "u64 \<Rightarrow> nat \<Rightarrow> nat" where
  "hash_key key m =
     (let x = key;
          x = (x XOR drop_bit 30 x) * 0xbf58476d1ce4e5b9;
          x = (x XOR drop_bit 27 x) * 0x94d049bb133111eb;
          x = x XOR drop_bit 31 x
      in unat x AND m)"

fun next_power_of_two :: "nat \<Rightarrow> nat" where
  "next_power_of_two n = (if n \<le> 1 then 1 else 2 * next_power_of_two ((n + 1) div 2))"

declare next_power_of_two.simps [simp del]

definition table_new :: "nat \<Rightarrow> 'v object_table" where
  "table_new capacity =
     (let cap = max (next_power_of_two (max capacity 1 * 2)) 16
      in \<lparr>slots = replicate cap None, tlen = 0\<rparr>)"

text \<open>The probe loops visit the slots cyclically. A loop that has visited every slot without stopping
  never stops, so the number of slots is the fuel and running out of it is not returning.\<close>

fun probe :: "nat \<Rightarrow> (u64 \<times> 'v) option list \<Rightarrow> u64 \<Rightarrow> nat \<Rightarrow> nat option exec" where
  "probe 0 s key idx = None"
| "probe (Suc fuel) s key idx =
     (case s ! idx of
        Some (k, _) \<Rightarrow> if k = key then Some (Some idx) else probe fuel s key ((idx + 1) AND (length s - 1))
      | None \<Rightarrow> Some None)"

definition find_index :: "'v object_table \<Rightarrow> u64 \<Rightarrow> nat option exec" where
  "find_index t key =
     probe (length (slots t)) (slots t) key (hash_key key (length (slots t) - 1))"

definition table_get :: "'v object_table \<Rightarrow> u64 \<Rightarrow> 'v option exec" where
  "table_get t key =
     (case find_index t key of
        None \<Rightarrow> None
      | Some None \<Rightarrow> Some None
      | Some (Some idx) \<Rightarrow> Some (map_option snd (slots t ! idx)))"

definition contains_key :: "'v object_table \<Rightarrow> u64 \<Rightarrow> bool exec" where
  "contains_key t key = map_option (\<lambda>r. r \<noteq> None) (table_get t key)"

text \<open>\<open>get_mut\<close> hands out a reference; \<open>table_set\<close> is the write through it.\<close>

definition table_set :: "'v object_table \<Rightarrow> u64 \<Rightarrow> 'v \<Rightarrow> 'v object_table exec" where
  "table_set t key v =
     (case find_index t key of
        None \<Rightarrow> None
      | Some None \<Rightarrow> Some t
      | Some (Some idx) \<Rightarrow> Some (t\<lparr>slots := (slots t)[idx := Some (key, v)]\<rparr>))"

fun probe_insert :: "nat \<Rightarrow> (u64 \<times> 'v) option list \<Rightarrow> u64 \<Rightarrow> nat \<Rightarrow> nat exec" where
  "probe_insert 0 s key idx = None"
| "probe_insert (Suc fuel) s key idx =
     (case s ! idx of
        Some (k, _) \<Rightarrow> if k = key then Some idx else probe_insert fuel s key ((idx + 1) AND (length s - 1))
      | None \<Rightarrow> Some idx)"

definition table_insert :: "'v object_table \<Rightarrow> u64 \<Rightarrow> 'v \<Rightarrow> ('v option \<times> 'v object_table) exec" where
  "table_insert t key state =
     (case probe_insert (length (slots t)) (slots t) key (hash_key key (length (slots t) - 1)) of
        None \<Rightarrow> None
      | Some idx \<Rightarrow>
          (case slots t ! idx of
             Some (k, s) \<Rightarrow> Some (Some s, t\<lparr>slots := (slots t)[idx := Some (k, state)]\<rparr>)
           | None \<Rightarrow> Some (None, \<lparr>slots = (slots t)[idx := Some (key, state)], tlen = tlen t + 1\<rparr>)))"

text \<open>The backward-shift loop: \<open>idx\<close> is the hole, \<open>next_idx\<close> the entry considered for moving into it.\<close>

definition should_move :: "nat \<Rightarrow> nat \<Rightarrow> nat \<Rightarrow> bool" where
  "should_move natural_idx idx next_idx =
     (if next_idx \<ge> idx then natural_idx \<le> idx \<or> natural_idx > next_idx
      else natural_idx \<le> idx \<and> natural_idx > next_idx)"

fun shift_back :: "nat \<Rightarrow> (u64 \<times> 'v) option list \<Rightarrow> nat \<Rightarrow> nat \<Rightarrow> (u64 \<times> 'v) option list exec" where
  "shift_back 0 s idx next_idx = None"
| "shift_back (Suc fuel) s idx next_idx =
     (case s ! next_idx of
        None \<Rightarrow> Some s
      | Some (k, v) \<Rightarrow>
          let next' = (next_idx + 1) AND (length s - 1)
          in if should_move (hash_key k (length s - 1)) idx next_idx
             then shift_back fuel (s[idx := s ! next_idx, next_idx := None]) next_idx next'
             else shift_back fuel s idx next')"

definition table_remove :: "'v object_table \<Rightarrow> u64 \<Rightarrow> ('v option \<times> 'v object_table) exec" where
  "table_remove t key =
     (case find_index t key of
        None \<Rightarrow> None
      | Some None \<Rightarrow> Some (None, t)
      | Some (Some idx) \<Rightarrow>
          let removed = map_option snd (slots t ! idx); s = (slots t)[idx := None]
          in (case shift_back (length s) s idx ((idx + 1) AND (length s - 1)) of
                None \<Rightarrow> None
              | Some s' \<Rightarrow> Some (removed, \<lparr>slots = s', tlen = tlen t - 1\<rparr>)))"

section \<open>Cyclic positions\<close>

text \<open>\<open>dist n a b\<close> is the number of steps from \<open>a\<close> forward to \<open>b\<close> on a ring of \<open>n\<close> slots.\<close>

definition dist :: "nat \<Rightarrow> nat \<Rightarrow> nat \<Rightarrow> nat" where
  "dist n a b = (if a \<le> b then b - a else n + b - a)"

lemma dist_less: "a < n \<Longrightarrow> b < n \<Longrightarrow> dist n a b < n"
  by (auto simp: dist_def)

lemma dist_self [simp]: "dist n a a = 0"
  by (simp add: dist_def)

lemma dist_0_iff: "a < n \<Longrightarrow> b < n \<Longrightarrow> dist n a b = 0 \<longleftrightarrow> a = b"
  by (auto simp: dist_def)

definition step :: "nat \<Rightarrow> nat \<Rightarrow> nat" where
  "step n a = (if a + 1 = n then 0 else a + 1)"

lemma step_less: "a < n \<Longrightarrow> step n a < n"
  by (auto simp: step_def)

lemma dist_step_left: "a < n \<Longrightarrow> b < n \<Longrightarrow> a \<noteq> b \<Longrightarrow> dist n a b = Suc (dist n (step n a) b)"
  by (auto simp: dist_def step_def)

lemma dist_step_right: "a < n \<Longrightarrow> b < n \<Longrightarrow> step n b \<noteq> a \<Longrightarrow> dist n a (step n b) = Suc (dist n a b)"
  by (auto simp: dist_def step_def split: if_splits)

lemma and_mask:
  assumes "n = 2 ^ b"
  shows "a AND (n - 1) = a mod (n :: nat)"
  using assms by (simp add: take_bit_eq_mod [symmetric] take_bit_eq_mask mask_eq_exp_minus_1)

lemma mask_step: "n = 2 ^ b \<Longrightarrow> a < n \<Longrightarrow> (a + 1) AND (n - 1) = step n a"
  by (simp only: and_mask) (auto simp: step_def mod_if)

lemma hash_key_less: "n = 2 ^ b \<Longrightarrow> hash_key k (n - 1) < n"
  unfolding hash_key_def Let_def by (simp only: and_mask) simp

lemma should_move_dist:
  "h < n \<Longrightarrow> j < n \<Longrightarrow> q < n \<Longrightarrow> j \<noteq> q \<Longrightarrow> should_move h j q \<longleftrightarrow> dist n h j < dist n h q"
  by (auto simp: should_move_def dist_def)

section \<open>Invariant and abstraction\<close>

definition holds_key :: "u64 \<Rightarrow> (u64 \<times> 'v) option \<Rightarrow> bool" where
  "holds_key key x = (case x of None \<Rightarrow> False | Some (k, _) \<Rightarrow> k = key)"

text \<open>The map a slot array stands for.\<close>

definition smap :: "(u64 \<times> 'v) option list \<Rightarrow> u64 \<Rightarrow> 'v option" where
  "smap s key = (case find (holds_key key) s of Some (Some (_, v)) \<Rightarrow> Some v | _ \<Rightarrow> None)"

definition unique_keys :: "(u64 \<times> 'v) option list \<Rightarrow> bool" where
  "unique_keys s \<longleftrightarrow>
     (\<forall>i < length s. \<forall>j < length s. \<forall>k v v'. s ! i = Some (k, v) \<and> s ! j = Some (k, v') \<longrightarrow> i = j)"

text \<open>Every slot on the probe path of an entry is occupied, a slot \<open>j\<close> excepted.\<close>

definition reachable_except :: "(nat \<Rightarrow> bool) \<Rightarrow> (u64 \<times> 'v) option list \<Rightarrow> bool" where
  "reachable_except X s \<longleftrightarrow>
     (\<forall>i < length s. \<forall>k v. s ! i = Some (k, v) \<longrightarrow>
        (\<forall>p < length s. dist (length s) (hash_key k (length s - 1)) p < dist (length s) (hash_key k (length s - 1)) i \<longrightarrow>
           s ! p \<noteq> None \<or> X p))"

definition occupied :: "(u64 \<times> 'v) option list \<Rightarrow> nat set" where
  "occupied s = {i. i < length s \<and> s ! i \<noteq> None}"

definition table_inv :: "'v object_table \<Rightarrow> bool" where
  "table_inv t \<longleftrightarrow>
     (\<exists>b. length (slots t) = 2 ^ b) \<and> unique_keys (slots t) \<and>
     reachable_except (\<lambda>p. False) (slots t) \<and>
     tlen t = card (occupied (slots t)) \<and> tlen t < length (slots t)"

definition tmap :: "'v object_table \<Rightarrow> u64 \<Rightarrow> 'v option" where
  "tmap t = smap (slots t)"

lemma finite_occupied [simp]: "finite (occupied s)"
  by (simp add: occupied_def)

lemma holds_key_iff: "holds_key key x \<longleftrightarrow> (\<exists>v. x = Some (key, v))"
  by (auto simp: holds_key_def split: option.splits)

lemma unique_keysD:
  "unique_keys s \<Longrightarrow> i < length s \<Longrightarrow> j < length s \<Longrightarrow> s ! i = Some (k, v) \<Longrightarrow> s ! j = Some (k, v') \<Longrightarrow> i = j"
  by (simp add: unique_keys_def)

lemma smap_Some_iff:
  assumes "unique_keys s"
  shows "smap s key = Some v \<longleftrightarrow> (\<exists>i < length s. s ! i = Some (key, v))"
proof (cases "find (holds_key key) s")
  case None
  then have "smap s key = None" by (simp add: smap_def)
  moreover from None have "\<not> holds_key key (s ! i)" if "i < length s" for i
    using that by (simp add: find_None_iff)
  ultimately show ?thesis by (auto simp: holds_key_iff)
next
  case (Some x)
  then obtain i where i: "i < length s" "holds_key key (s ! i)" "x = s ! i"
    by (auto simp: find_Some_iff)
  then obtain w where w: "s ! i = Some (key, w)" by (auto simp: holds_key_iff)
  have "smap s key = Some w" using Some i(3) w by (simp add: smap_def)
  moreover have "v = w" if "j < length s" "s ! j = Some (key, v)" for j
    using unique_keysD [OF assms that(1) i(1) that(2) w] that w by simp
  ultimately show ?thesis using i(1) w by auto
qed

lemma smap_eqI: "(\<And>k v. m k = Some v \<longleftrightarrow> m' k = Some v) \<Longrightarrow> m = m'"
  by (rule ext) (metis not_Some_eq)

lemma ex_empty:
  assumes "card (occupied s) < length s"
  obtains e where "e < length s" "s ! e = None"
proof -
  have "occupied s \<noteq> {..<length s}" using assms by (metis card_lessThan less_irrefl)
  moreover have "occupied s \<subseteq> {..<length s}" by (auto simp: occupied_def)
  ultimately obtain e where "e \<in> {..<length s} - occupied s" using psubset_imp_ex_mem by blast
  then have "e < length s" "s ! e = None" by (simp_all add: occupied_def del: not_None_eq)
  then show thesis by (rule that)
qed

section \<open>Probing\<close>

lemma path_step:
  assumes "a < n" "i < n" "p < n" "a \<noteq> i" "dist n (step n a) p < dist n (step n a) i"
  shows "dist n a p < dist n a i"
  using assms by (auto simp: dist_def step_def split: if_splits)

lemma probe_found:
  assumes n: "length s = 2 ^ b" and u: "unique_keys s" and i: "i < length s" "s ! i = Some (key, v)"
    and path: "\<And>p. p < length s \<Longrightarrow> dist (length s) a p < dist (length s) a i \<Longrightarrow> s ! p \<noteq> None"
    and a: "a < length s" and fuel: "dist (length s) a i < fuel"
  shows "probe fuel s key a = Some (Some i) \<and> probe_insert fuel s key a = Some i"
  using path a fuel
proof (induction fuel arbitrary: a)
  case (Suc fuel)
  show ?case
  proof (cases "a = i")
    case True
    then show ?thesis using i by simp
  next
    case False
    have d: "dist (length s) a i = Suc (dist (length s) (step (length s) a) i)"
      using dist_step_left [OF Suc.prems(2) i(1) False] .
    then obtain k w where k: "s ! a = Some (k, w)"
      using Suc.prems(1) [OF Suc.prems(2)] by fastforce
    have "k \<noteq> key" using u i Suc.prems(2) k False unfolding unique_keys_def by blast
    moreover have "probe fuel s key (step (length s) a) = Some (Some i) \<and>
        probe_insert fuel s key (step (length s) a) = Some i"
    proof (rule Suc.IH)
      show "s ! p \<noteq> None" if "p < length s"
        "dist (length s) (step (length s) a) p < dist (length s) (step (length s) a) i" for p
        using Suc.prems(1) [OF that(1)] path_step [OF Suc.prems(2) i(1) that(1) False that(2)] .
    qed (use Suc.prems d step_less in auto)
    ultimately show ?thesis using k mask_step [OF n Suc.prems(2)] by simp
  qed
qed simp

lemma probe_absent:
  assumes n: "length s = 2 ^ b" and e: "e < length s" "s ! e = None"
    and absent: "\<And>i v. i < length s \<Longrightarrow> s ! i \<noteq> Some (key, v)"
    and a: "a < length s" and fuel: "dist (length s) a e < fuel"
  shows "probe fuel s key a = Some None \<and>
    (\<exists>i < length s. probe_insert fuel s key a = Some i \<and> s ! i = None \<and>
       (\<forall>p < length s. dist (length s) a p < dist (length s) a i \<longrightarrow> s ! p \<noteq> None))"
  using a fuel
proof (induction fuel arbitrary: a)
  case (Suc fuel)
  show ?case
  proof (cases "s ! a")
    case None
    then show ?thesis using Suc.prems(1) by auto
  next
    case (Some kw)
    then obtain k w where k: "s ! a = Some (k, w)" "k \<noteq> key"
      using absent [OF Suc.prems(1)] by (cases kw) auto
    have "a \<noteq> e" using k e by auto
    then have d: "dist (length s) a e = Suc (dist (length s) (step (length s) a) e)"
      using dist_step_left [OF Suc.prems(1) e(1)] by simp
    from Suc.IH [of "step (length s) a"] step_less [OF Suc.prems(1)] Suc.prems(2) d
    obtain i where i: "probe fuel s key (step (length s) a) = Some None" "i < length s"
      "probe_insert fuel s key (step (length s) a) = Some i" "s ! i = None"
      "\<And>p. p < length s \<Longrightarrow> dist (length s) (step (length s) a) p < dist (length s) (step (length s) a) i \<Longrightarrow> s ! p \<noteq> None"
      by auto
    have "s ! p \<noteq> None" if "p < length s" "dist (length s) a p < dist (length s) a i" for p
    proof (cases "p = a")
      case False
      have "a \<noteq> i" using that by auto
      then show ?thesis
        using that i(5) [of p] dist_step_left [OF Suc.prems(1) that(1)] dist_step_left [OF Suc.prems(1) i(2)] False
        by simp
    qed (use k in simp)
    then show ?thesis using k i mask_step [OF n Suc.prems(1)] by auto
  qed
qed simp

section \<open>Lookup and insertion\<close>

lemma reachableD:
  "reachable_except (\<lambda>p. False) s \<Longrightarrow> i < length s \<Longrightarrow> s ! i = Some (k, v) \<Longrightarrow> p < length s \<Longrightarrow>
   dist (length s) (hash_key k (length s - 1)) p < dist (length s) (hash_key k (length s - 1)) i \<Longrightarrow> s ! p \<noteq> None"
  unfolding reachable_except_def by blast

definition start :: "'v object_table \<Rightarrow> u64 \<Rightarrow> nat" where
  "start t key = hash_key key (length (slots t) - 1)"

lemma table_invD:
  assumes "table_inv t"
  obtains b where "length (slots t) = 2 ^ b" "unique_keys (slots t)" "reachable_except (\<lambda>p. False) (slots t)"
    "tlen t = card (occupied (slots t))" "tlen t < length (slots t)" "start t key < length (slots t)"
  using assms hash_key_less by (auto simp: table_inv_def start_def)

lemma find_present:
  assumes "table_inv t" "tmap t key = Some v"
  obtains i where "i < length (slots t)" "slots t ! i = Some (key, v)" "find_index t key = Some (Some i)"
    "probe_insert (length (slots t)) (slots t) key (start t key) = Some i"
proof -
  obtain b where n: "length (slots t) = 2 ^ b" and u: "unique_keys (slots t)"
    and r: "reachable_except (\<lambda>p. False) (slots t)" and h: "start t key < length (slots t)"
    using assms(1) by (rule table_invD)
  obtain i where i: "i < length (slots t)" "slots t ! i = Some (key, v)"
    using smap_Some_iff [OF u] assms(2) by (auto simp: tmap_def)
  have path: "slots t ! p \<noteq> None"
    if "p < length (slots t)" "dist (length (slots t)) (start t key) p < dist (length (slots t)) (start t key) i" for p
    using reachableD [OF r i that(1)] that(2) by (simp add: start_def)
  from probe_found [OF n u i path h dist_less [OF h i(1)]] show thesis
    using that i by (simp add: find_index_def start_def)
qed

lemma find_absent:
  assumes "table_inv t" "tmap t key = None"
  obtains i where "find_index t key = Some None" "i < length (slots t)" "slots t ! i = None"
    "probe_insert (length (slots t)) (slots t) key (start t key) = Some i"
    "\<And>j v. j < length (slots t) \<Longrightarrow> slots t ! j \<noteq> Some (key, v)"
    "\<And>p. p < length (slots t) \<Longrightarrow> dist (length (slots t)) (start t key) p < dist (length (slots t)) (start t key) i \<Longrightarrow>
      slots t ! p \<noteq> None"
proof -
  obtain b where n: "length (slots t) = 2 ^ b" and u: "unique_keys (slots t)"
    and c: "tlen t = card (occupied (slots t))" "tlen t < length (slots t)" and h: "start t key < length (slots t)"
    using assms(1) by (rule table_invD)
  have absent: "slots t ! i \<noteq> Some (key, v)" if "i < length (slots t)" for i v
    using that smap_Some_iff [OF u, of key v] assms(2) by (auto simp: tmap_def)
  obtain e where e: "e < length (slots t)" "slots t ! e = None"
    using ex_empty [of "slots t"] c by metis
  from probe_absent [OF n e absent h dist_less [OF h e(1)]] show thesis
    using that absent by (auto simp: find_index_def start_def)
qed

lemma table_get_tmap [simp]: "table_inv t \<Longrightarrow> table_get t key = Some (tmap t key)"
  by (cases "tmap t key") (auto simp: table_get_def elim: find_absent find_present)

lemma contains_key_tmap [simp]: "table_inv t \<Longrightarrow> contains_key t key = Some (tmap t key \<noteq> None)"
  by (simp add: contains_key_def)

lemma occupied_update: "i < length s \<Longrightarrow> occupied (s[i := Some x]) = insert i (occupied s)"
  by (auto simp: occupied_def nth_list_update)

lemma reachable_except_mono:
  assumes "reachable_except X s" "length s' = length s"
    and keys: "\<And>a k x. s' ! a = Some (k, x) \<Longrightarrow> a < length s \<Longrightarrow> \<exists>x'. s ! a = Some (k, x')"
    and occ: "\<And>p. s ! p \<noteq> None \<Longrightarrow> s' ! p \<noteq> None"
  shows "reachable_except X s'"
  unfolding reachable_except_def assms(2)
proof (intro allI impI)
  fix i k v p
  assume "i < length s" "s' ! i = Some (k, v)" "p < length s"
    and d: "dist (length s) (hash_key k (length s - 1)) p < dist (length s) (hash_key k (length s - 1)) i"
  then obtain v' where "s ! i = Some (k, v')" using keys by blast
  then have "s ! p \<noteq> None \<or> X p"
    using assms(1) \<open>i < length s\<close> \<open>p < length s\<close> d unfolding reachable_except_def by blast
  then show "s' ! p \<noteq> None \<or> X p" using occ by blast
qed

lemma smap_update:
  assumes u: "unique_keys s" and u': "unique_keys (s[i := Some (key, w)])" and i: "i < length s"
    and others: "\<And>j x. j < length s \<Longrightarrow> j \<noteq> i \<Longrightarrow> s ! j \<noteq> Some (key, x)"
    and at: "\<And>k x. s ! i = Some (k, x) \<Longrightarrow> k = key"
  shows "smap (s[i := Some (key, w)]) = (smap s)(key \<mapsto> w)"
proof (rule smap_eqI)
  fix k x
  let ?s = "s[i := Some (key, w)]"
  have nth: "?s ! j = (if j = i then Some (key, w) else s ! j)" for j
    using i by (auto simp: nth_list_update)
  show "smap ?s k = Some x \<longleftrightarrow> ((smap s)(key \<mapsto> w)) k = Some x"
  proof (cases "k = key")
    case True
    have "(\<exists>j < length s. ?s ! j = Some (key, x)) \<longleftrightarrow> w = x"
      unfolding nth using others i by (metis option.inject prod.inject)
    then show ?thesis unfolding smap_Some_iff [OF u'] True length_list_update by simp
  next
    case False
    have "(\<exists>j < length s. ?s ! j = Some (k, x)) \<longleftrightarrow> (\<exists>j < length s. s ! j = Some (k, x))"
      unfolding nth using at False by (metis option.inject prod.inject)
    then show ?thesis
      unfolding smap_Some_iff [OF u'] length_list_update using False smap_Some_iff [OF u, of k x] by simp
  qed
qed

text \<open>Replacing the value of an entry touches neither keys nor occupancy.\<close>

lemma replace_value:
  assumes u: "unique_keys s" and i: "i < length s" "s ! i = Some (key, v)"
  shows "unique_keys (s[i := Some (key, w)])" "occupied (s[i := Some (key, w)]) = occupied s"
    "reachable_except X s \<Longrightarrow> reachable_except X (s[i := Some (key, w)])"
    "smap (s[i := Some (key, w)]) = (smap s)(key \<mapsto> w)"
proof -
  let ?s = "s[i := Some (key, w)]"
  show u': "unique_keys ?s"
    unfolding unique_keys_def
  proof (intro allI impI)
    fix a c k x y
    assume a: "a < length ?s" "c < length ?s" "?s ! a = Some (k, x) \<and> ?s ! c = Some (k, y)"
    then have "\<exists>x'. s ! a = Some (k, x')" "\<exists>y'. s ! c = Some (k, y')"
      using i by (auto simp: nth_list_update split: if_splits)
    then show "a = c" using u a unfolding unique_keys_def by (metis length_list_update)
  qed
  show occ: "occupied ?s = occupied s" using i by (auto simp: occupied_update) (simp add: occupied_def)
  show "reachable_except X s \<Longrightarrow> reachable_except X ?s"
  proof (rule reachable_except_mono)
    show "\<exists>x'. s ! a = Some (k, x')" if "?s ! a = Some (k, x)" "a < length s" for a k x
      using that i by (auto simp: nth_list_update split: if_splits)
    show "?s ! p \<noteq> None" if "s ! p \<noteq> None" for p
      using that i by (auto simp: nth_list_update split: if_splits)
  qed simp_all
  have others: "s ! j \<noteq> Some (key, x)" if "j < length s" "j \<noteq> i" for j x
    using u i that unfolding unique_keys_def by blast
  have at: "k = key" if "s ! i = Some (k, x)" for k x using that i(2) by simp
  show "smap ?s = (smap s)(key \<mapsto> w)" by (rule smap_update [OF u u' i(1) others at])
qed

lemma fill_slot:
  assumes u: "unique_keys s" and i: "i < length s" "s ! i = None"
    and absent: "\<And>j v. j < length s \<Longrightarrow> s ! j \<noteq> Some (key, v)"
    and path: "\<And>p. p < length s \<Longrightarrow> dist (length s) (hash_key key (length s - 1)) p <
        dist (length s) (hash_key key (length s - 1)) i \<Longrightarrow> s ! p \<noteq> None"
    and r: "reachable_except (\<lambda>p. False) s"
  shows "unique_keys (s[i := Some (key, w)])" "card (occupied (s[i := Some (key, w)])) = Suc (card (occupied s))"
    "reachable_except (\<lambda>p. False) (s[i := Some (key, w)])"
    "smap (s[i := Some (key, w)]) = (smap s)(key \<mapsto> w)"
proof -
  let ?s = "s[i := Some (key, w)]"
  show u': "unique_keys ?s"
    using u absent i unfolding unique_keys_def by (auto simp: nth_list_update)
  have "i \<notin> occupied s" using i by (simp add: occupied_def)
  then show "card (occupied ?s) = Suc (card (occupied s))" using i(1) by (simp add: occupied_update)
  show "reachable_except (\<lambda>p. False) ?s"
    unfolding reachable_except_def length_list_update
  proof (intro allI impI disjI1)
    fix j k v p
    assume j: "j < length s" "?s ! j = Some (k, v)" and p: "p < length s"
      and d: "dist (length s) (hash_key k (length s - 1)) p < dist (length s) (hash_key k (length s - 1)) j"
    have "s ! p \<noteq> None"
    proof (cases "j = i")
      case True
      then show ?thesis using path [OF p] j i d by simp
    next
      case False
      then show ?thesis using reachableD [OF r j(1) _ p d] j by simp
    qed
    then show "?s ! p \<noteq> None" using i p by (simp add: nth_list_update)
  qed
  show "smap ?s = (smap s)(key \<mapsto> w)"
    by (rule smap_update [OF u u' i(1)]) (use i absent in auto)
qed

lemma table_insert_inv:
  assumes "table_inv t" "tmap t key = None \<Longrightarrow> tlen t + 1 < length (slots t)"
  obtains t' where "table_insert t key v = Some (tmap t key, t')" "table_inv t'"
    "tmap t' = (tmap t)(key \<mapsto> v)" "length (slots t') = length (slots t)"
    "tlen t' = (if tmap t key = None then tlen t + 1 else tlen t)"
proof -
  let ?s = "slots t"
  obtain b where inv: "length ?s = 2 ^ b" "unique_keys ?s" "reachable_except (\<lambda>p. False) ?s"
    "tlen t = card (occupied ?s)" "tlen t < length ?s"
    using assms(1) by (rule table_invD)
  show thesis
  proof (cases "tmap t key")
    case (Some w)
    from find_present [OF assms(1) this] obtain i where i: "i < length ?s" "?s ! i = Some (key, w)"
      "probe_insert (length ?s) ?s key (start t key) = Some i" by metis
    show thesis
      by (rule that [of "t\<lparr>slots := ?s[i := Some (key, v)]\<rparr>"])
        (use i inv Some replace_value [OF inv(2) i(1,2), where w = v] in
          \<open>simp_all add: table_insert_def table_inv_def tmap_def start_def\<close>)
  next
    case None
    from find_absent [OF assms(1) this] obtain i where i: "i < length ?s" "?s ! i = None"
      "probe_insert (length ?s) ?s key (start t key) = Some i"
      and absent: "\<And>j v. j < length ?s \<Longrightarrow> ?s ! j \<noteq> Some (key, v)"
      and path: "\<And>p. p < length ?s \<Longrightarrow> dist (length ?s) (start t key) p < dist (length ?s) (start t key) i \<Longrightarrow> ?s ! p \<noteq> None"
      by metis
    note fill = fill_slot [OF inv(2) i(1,2) absent path [unfolded start_def] inv(3), where w = v]
    show thesis
      by (rule that [of "\<lparr>slots = ?s[i := Some (key, v)], tlen = tlen t + 1\<rparr>"])
        (use i inv fill None assms(2) in \<open>simp_all add: table_insert_def table_inv_def tmap_def start_def\<close>)
  qed
qed

lemma table_set_inv:
  assumes "table_inv t" "tmap t key \<noteq> None"
  obtains t' where "table_set t key v = Some t'" "table_inv t'" "tmap t' = (tmap t)(key \<mapsto> v)"
    "length (slots t') = length (slots t)" "tlen t' = tlen t"
proof -
  let ?s = "slots t"
  obtain b where inv: "length ?s = 2 ^ b" "unique_keys ?s" "reachable_except (\<lambda>p. False) ?s"
    "tlen t = card (occupied ?s)" "tlen t < length ?s"
    using assms(1) by (rule table_invD)
  from assms(2) obtain w where "tmap t key = Some w" by blast
  from find_present [OF assms(1) this]
  obtain i where i: "i < length ?s" "?s ! i = Some (key, w)" "find_index t key = Some (Some i)" by metis
  show thesis
    by (rule that [of "t\<lparr>slots := ?s[i := Some (key, v)]\<rparr>"])
      (use i inv replace_value [OF inv(2) i(1,2), where w = v] in \<open>simp_all add: table_set_def table_inv_def tmap_def\<close>)
qed

section \<open>Removal\<close>

definition ahead :: "nat \<Rightarrow> nat \<Rightarrow> nat \<Rightarrow> nat" where
  "ahead n j q = (if q = j then n else dist n j q)"

text \<open>Entries whose probe path crosses the hole \<open>j\<close> have not been passed by \<open>q\<close> yet.\<close>

definition pending :: "(u64 \<times> 'v) option list \<Rightarrow> nat \<Rightarrow> nat \<Rightarrow> bool" where
  "pending s j q \<longleftrightarrow>
     (\<forall>i < length s. \<forall>k v. s ! i = Some (k, v) \<longrightarrow>
        dist (length s) (hash_key k (length s - 1)) j < dist (length s) (hash_key k (length s - 1)) i \<longrightarrow>
        ahead (length s) j q \<le> dist (length s) j i)"

lemma dist_add:
  assumes "a < n" "b < n" "c < n"
  shows "dist n a b + dist n b c = dist n a c \<or> dist n a b + dist n b c = dist n a c + n"
  using assms unfolding dist_def by (cases "a \<le> b"; cases "b \<le> c"; cases "a \<le> c"; simp add: add.commute)

lemma dist_inj:
  assumes "j < n" "q < n" "i < n"
  shows "dist n j q = dist n j i \<longleftrightarrow> q = i"
  using assms unfolding dist_def by (cases "j \<le> q"; cases "j \<le> i") auto

lemma dist_cross:
  assumes "h < n" "j < n" "q < n" "i < n" "dist n h j < dist n h i" "dist n j q \<le> dist n j i" "q \<noteq> i"
  shows "dist n h q < dist n h i"
proof -
  have "dist n j q < dist n j i" using assms(6,7) dist_inj [OF assms(2,3,4)] by simp
  moreover have "dist n j i < n" "dist n h i < n" using assms by (simp_all add: dist_less)
  ultimately show ?thesis
    using dist_add [OF assms(1,2,3)] dist_add [OF assms(1,2,4)] assms(5) by linarith
qed

lemma dist_end: "j < n \<Longrightarrow> q < n \<Longrightarrow> step n q = j \<Longrightarrow> Suc (dist n j q) = n"
  by (auto simp: dist_def step_def split: if_splits)

lemma shift_stop:
  assumes n: "length s = 2 ^ b" and jq: "j < length s" "q < length s" "s ! q = None"
    and r: "reachable_except (\<lambda>p. p = j) s" and pend: "pending s j q"
  shows "reachable_except (\<lambda>p. False) s"
  unfolding reachable_except_def
proof (intro allI impI disjI1)
  fix i k v p
  let ?d = "dist (length s)" and ?h = "hash_key k (length s - 1)"
  assume i: "i < length s" "s ! i = Some (k, v)" and p: "p < length s" "?d ?h p < ?d ?h i"
  have h: "?h < length s" using hash_key_less [OF n] .
  show "s ! p \<noteq> None"
  proof (cases "p = j")
    case False
    then show ?thesis using r i p unfolding reachable_except_def by blast
  next
    case True
    then have ahead: "ahead (length s) j q \<le> ?d j i" using pend i p unfolding pending_def by blast
    then have "q \<noteq> j" using dist_less [OF jq(1) i(1)] by (auto simp: ahead_def)
    moreover have "q \<noteq> i" using i jq(3) by auto
    ultimately have "?d ?h q < ?d ?h i"
      using dist_cross [OF h jq(1,2) i(1)] ahead p(2) True by (simp add: ahead_def)
    then have "s ! q \<noteq> None \<or> q = j" using r i jq(2) unfolding reachable_except_def by blast
    then show ?thesis using jq(3) \<open>q \<noteq> j\<close> by simp
  qed
qed

lemma shift_skip:
  assumes n: "length s = 2 ^ b" and jq: "j < length s" "q < length s" "q \<noteq> j" "s ! q = Some (k, v)"
    and no: "\<not> should_move (hash_key k (length s - 1)) j q" and pend: "pending s j q"
  shows "pending s j (step (length s) q)"
  unfolding pending_def
proof (intro allI impI)
  fix i k' v'
  let ?d = "dist (length s)"
  assume i: "i < length s" "s ! i = Some (k', v')"
    and cross: "?d (hash_key k' (length s - 1)) j < ?d (hash_key k' (length s - 1)) i"
  have "?d j q \<le> ?d j i"
    using pend [unfolded pending_def, rule_format, OF i cross] jq(3) by (simp add: ahead_def)
  moreover have "i \<noteq> q"
  proof
    assume "i = q"
    then have "k' = k" using i jq(4) by simp
    then show False
      using no cross \<open>i = q\<close> jq(3) should_move_dist [OF hash_key_less [OF n, of k] jq(1,2)] by simp
  qed
  ultimately have "?d j q < ?d j i" using dist_inj [OF jq(1,2) i(1)] by linarith
  then show "ahead (length s) j (step (length s) q) \<le> ?d j i"
    using dist_less [OF jq(1) i(1)] jq dist_end [OF jq(1,2)] dist_step_right [OF jq(1,2)]
    by (cases "step (length s) q = j") (auto simp: ahead_def)
qed

text \<open>Moving the entry at \<open>q\<close> into the hole \<open>j\<close>.\<close>

lemma move_nth:
  assumes "j < length s" "q < length s" "q \<noteq> j"
  shows "(s[j := s ! q, q := None]) ! i = (if i = q then None else if i = j then s ! q else s ! i)"
  using assms by (auto simp: nth_list_update)

lemma shift_move:
  assumes n: "length s = 2 ^ b" and u: "unique_keys s" and jq: "j < length s" "q < length s" "q \<noteq> j"
    and hole: "s ! j = None" and q: "s ! q = Some (k, v)"
    and mv: "should_move (hash_key k (length s - 1)) j q" and r: "reachable_except (\<lambda>p. p = j) s"
  defines "s' \<equiv> s[j := s ! q, q := None]"
  shows "unique_keys s'" "reachable_except (\<lambda>p. p = q) s'" "pending s' q (step (length s) q)"
    "smap s' = smap s" "card (occupied s') = card (occupied s)"
proof -
  note nth = move_nth [OF jq, folded s'_def]
  have len: "length s' = length s" by (simp add: s'_def)
  show u': "unique_keys s'"
    unfolding unique_keys_def len
  proof (intro allI impI)
    fix a c k' x y
    assume a: "a < length s" "c < length s" "s' ! a = Some (k', x) \<and> s' ! c = Some (k', y)"
    define f where "f i = (if i = j then q else i)" for i
    have "s ! f a = Some (k', x)" "s ! f c = Some (k', y)" "a \<noteq> q" "c \<noteq> q"
      using a(3) by (auto simp: nth f_def split: if_splits)
    moreover have "f a < length s" "f c < length s" using a jq by (simp_all add: f_def)
    ultimately have "f a = f c" using unique_keysD [OF u] by blast
    then show "a = c" using \<open>a \<noteq> q\<close> \<open>c \<noteq> q\<close> by (auto simp: f_def split: if_splits)
  qed
  have dmv: "dist (length s) (hash_key k (length s - 1)) j < dist (length s) (hash_key k (length s - 1)) q"
    using should_move_dist [OF hash_key_less [OF n, of k] jq(1,2)] jq(3) mv by simp
  show "reachable_except (\<lambda>p. p = q) s'"
    unfolding reachable_except_def len
  proof (intro allI impI)
    fix i k' x p
    let ?h = "hash_key k' (length s - 1)"
    assume i: "i < length s" "s' ! i = Some (k', x)" and p: "p < length s" "dist (length s) ?h p < dist (length s) ?h i"
    have "s ! p \<noteq> None \<or> p = j"
    proof (cases "i = j")
      case True
      then have "k' = k" "x = v" using i q jq(3) by (simp_all add: nth)
      then have "dist (length s) ?h p < dist (length s) ?h q" using p(2) dmv True by simp
      then show ?thesis using r jq(2) q p(1) \<open>k' = k\<close> unfolding reachable_except_def by blast
    next
      case False
      then have "s ! i = Some (k', x)" using i by (simp add: nth split: if_splits)
      then show ?thesis using r i(1) p unfolding reachable_except_def by blast
    qed
    then show "s' ! p \<noteq> None \<or> p = q" using q by (auto simp: nth)
  qed
  show "pending s' q (step (length s) q)"
    unfolding pending_def len
  proof (intro allI impI)
    fix i k' x assume i: "i < length s" "s' ! i = Some (k', x)"
    then have "i \<noteq> q" by (auto simp: nth)
    then have "0 < dist (length s) q i" using dist_0_iff [OF jq(2) i(1)] by simp
    moreover have "step (length s) q \<noteq> q" using jq by (auto simp: step_def)
    ultimately show "ahead (length s) q (step (length s) q) \<le> dist (length s) q i"
      using dist_step_right [OF jq(2) jq(2)] by (simp add: ahead_def)
  qed
  show "smap s' = smap s"
  proof (rule smap_eqI)
    fix key x
    have "(\<exists>i < length s. s' ! i = Some (key, x)) \<longleftrightarrow> (\<exists>i < length s. s ! i = Some (key, x))"
      unfolding nth using jq hole by (metis option.distinct(1))
    then show "smap s' key = Some x \<longleftrightarrow> smap s key = Some x"
      unfolding smap_Some_iff [OF u'] smap_Some_iff [OF u] len .
  qed
  have "occupied s' = insert j (occupied s - {q})"
    using jq hole q by (auto simp: occupied_def len nth)
  moreover have "q \<in> occupied s" "j \<notin> occupied s" using jq hole q by (simp_all add: occupied_def)
  ultimately show "card (occupied s') = card (occupied s)"
    by (simp add: card.insert_remove card_Diff_singleton_if) (metis Suc_pred card_gt_0_iff empty_iff finite_occupied)
qed

lemma shift_back_correct:
  assumes "length s = 2 ^ b" "unique_keys s" "j < length s" "q < length s" "s ! j = None"
    "reachable_except (\<lambda>p. p = j) s" "pending s j q"
    "e < length s" "s ! e = None" "e \<noteq> j" "dist (length s) q e < fuel"
  shows "\<exists>s'. shift_back fuel s j q = Some s' \<and> length s' = length s \<and> unique_keys s' \<and>
    reachable_except (\<lambda>p. False) s' \<and> smap s' = smap s \<and> card (occupied s') = card (occupied s)"
  using assms
proof (induction fuel arbitrary: s j q)
  case (Suc fuel)
  note n = Suc.prems(1)
  show ?case
  proof (cases "s ! q")
    case None
    then show ?thesis
      using shift_stop [OF n Suc.prems(3,4) None Suc.prems(6,7)] Suc.prems(2) by simp
  next
    case (Some kv)
    then obtain k v where q: "s ! q = Some (k, v)" by (cases kv) auto
    have ne: "q \<noteq> j" "q \<noteq> e" using q Suc.prems(5,9) by auto
    let ?q = "step (length s) q"
    have mask: "Suc q AND (length s - Suc 0) = ?q" using mask_step [OF n Suc.prems(4)] by simp
    have fuel: "dist (length s) ?q e < fuel"
      using dist_step_left [OF Suc.prems(4,8) ne(2)] Suc.prems(11) by simp
    have q': "?q < length s" using step_less [OF Suc.prems(4)] .
    show ?thesis
    proof (cases "should_move (hash_key k (length s - 1)) j q")
      case True
      let ?s = "s[j := s ! q, q := None]"
      note mv = shift_move [OF n Suc.prems(2,3,4) ne(1) Suc.prems(5) q True Suc.prems(6)]
      have "\<exists>s'. shift_back fuel ?s q ?q = Some s' \<and> length s' = length ?s \<and> unique_keys s' \<and>
          reachable_except (\<lambda>p. False) s' \<and> smap s' = smap ?s \<and> card (occupied s') = card (occupied ?s)"
        by (rule Suc.IH) (use n Suc.prems mv q' ne fuel in \<open>simp_all add: nth_list_update\<close>)
      then show ?thesis using q True mv(4,5) by (simp add: mask Let_def)
    next
      case False
      note skip = shift_skip [OF n Suc.prems(3,4) ne(1) q False Suc.prems(7)]
      have "\<exists>s'. shift_back fuel s j ?q = Some s' \<and> length s' = length s \<and> unique_keys s' \<and>
          reachable_except (\<lambda>p. False) s' \<and> smap s' = smap s \<and> card (occupied s') = card (occupied s)"
        using Suc.IH [OF n Suc.prems(2,3) q' Suc.prems(5,6) skip Suc.prems(8,9,10) fuel] .
      then show ?thesis using q False by (simp add: mask Let_def)
    qed
  qed
qed simp

lemma clear_slot:
  assumes u: "unique_keys s" and r: "reachable_except (\<lambda>p. False) s" and i: "i < length s" "s ! i = Some (key, v)"
    and e: "e < length s" "e \<noteq> i"
  defines "s' \<equiv> s[i := None]"
  shows "unique_keys s'" "reachable_except (\<lambda>p. p = i) s'" "pending s' i (step (length s) i)"
    "smap s' = (smap s)(key := None)" "card (occupied s') = card (occupied s) - 1"
proof -
  have len: "length s' = length s" and nth: "s' ! j = (if j = i then None else s ! j)" for j
    using i by (auto simp: s'_def nth_list_update)
  show u': "unique_keys s'"
    using u unfolding unique_keys_def len nth by (metis option.distinct(1))
  show "reachable_except (\<lambda>p. p = i) s'"
    using r unfolding reachable_except_def len nth by (metis option.distinct(1))
  show "pending s' i (step (length s) i)"
    unfolding pending_def len
  proof (intro allI impI)
    fix j k x assume j: "j < length s" "s' ! j = Some (k, x)"
    then have "j \<noteq> i" by (auto simp: nth)
    then have "0 < dist (length s) i j" using dist_0_iff [OF i(1) j(1)] by simp
    moreover have "step (length s) i \<noteq> i" using i e by (auto simp: step_def)
    ultimately show "ahead (length s) i (step (length s) i) \<le> dist (length s) i j"
      using dist_step_right [OF i(1) i(1)] by (simp add: ahead_def)
  qed
  show "smap s' = (smap s)(key := None)"
  proof (rule smap_eqI)
    fix k x
    have "s ! j \<noteq> Some (key, x)" if "j < length s" "j \<noteq> i" for j
      using unique_keysD [OF u that(1) i(1) _ i(2)] that(2) by blast
    then have "(\<exists>j < length s. s' ! j = Some (k, x)) \<longleftrightarrow> k \<noteq> key \<and> (\<exists>j < length s. s ! j = Some (k, x))"
      unfolding nth using i by (metis option.distinct(1) option.inject prod.inject)
    then show "smap s' k = Some x \<longleftrightarrow> ((smap s)(key := None)) k = Some x"
      using smap_Some_iff [OF u', of k x] smap_Some_iff [OF u, of k x] len by simp
  qed
  have "occupied s' = occupied s - {i}" "i \<in> occupied s"
    using i by (auto simp: occupied_def len nth)
  then show "card (occupied s') = card (occupied s) - 1" by simp
qed

lemma table_remove_inv:
  assumes "table_inv t"
  obtains t' where "table_remove t key = Some (tmap t key, t')" "table_inv t'"
    "tmap t' = (tmap t)(key := None)" "length (slots t') = length (slots t)"
    "tlen t' = (if tmap t key = None then tlen t else tlen t - 1)"
proof -
  let ?s = "slots t"
  obtain b where inv: "length ?s = 2 ^ b" "unique_keys ?s" "reachable_except (\<lambda>p. False) ?s"
    "tlen t = card (occupied ?s)" "tlen t < length ?s"
    using assms by (rule table_invD)
  show thesis
  proof (cases "tmap t key")
    case None
    from find_absent [OF assms this] have "find_index t key = Some None" by metis
    moreover have "tmap t = (tmap t)(key := None)" using None by (simp add: fun_upd_idem)
    ultimately show thesis using that [of t] None assms by (simp add: table_remove_def)
  next
    case (Some v)
    from find_present [OF assms this] obtain i where i: "i < length ?s" "?s ! i = Some (key, v)"
      "find_index t key = Some (Some i)" by metis
    obtain e where e: "e < length ?s" "?s ! e = None" using ex_empty [of ?s] inv(4,5) by metis
    have ne: "e \<noteq> i" using e i by auto
    let ?c = "?s[i := None]"
    note cl = clear_slot [OF inv(2,3) i(1,2) e(1) ne]
    have step: "step (length ?s) i < length ?s" using step_less [OF i(1)] .
    have "\<exists>s'. shift_back (length ?c) ?c i (step (length ?s) i) = Some s' \<and> length s' = length ?c \<and> unique_keys s' \<and>
        reachable_except (\<lambda>p. False) s' \<and> smap s' = smap ?c \<and> card (occupied s') = card (occupied ?c)"
      by (rule shift_back_correct [where e = e]) (use inv i e ne cl step dist_less [OF step e(1)] in simp_all)
    then obtain s' where s': "shift_back (length ?s) ?c i (step (length ?s) i) = Some s'" "length s' = length ?s"
      "unique_keys s'" "reachable_except (\<lambda>p. False) s'" "smap s' = smap ?c" "card (occupied s') = card (occupied ?c)"
      by auto
    have "Suc i AND (length ?s - Suc 0) = step (length ?s) i" using mask_step [OF inv(1) i(1)] by simp
    then have "table_remove t key = Some (Some v, \<lparr>slots = s', tlen = tlen t - 1\<rparr>)"
      using i s'(1) by (simp add: table_remove_def)
    moreover have "table_inv \<lparr>slots = s', tlen = tlen t - 1\<rparr>"
      unfolding table_inv_def object_table.select_convs s'(2,6) cl(5)
      using s'(3,4) inv(1,4,5) by simp
    moreover have "tmap \<lparr>slots = s', tlen = tlen t - 1\<rparr> = (tmap t)(key := None)"
      by (simp only: tmap_def object_table.select_convs s'(5) cl(4))
    ultimately show thesis
      using that [of "\<lparr>slots = s', tlen = tlen t - 1\<rparr>"] s'(2) Some by simp
  qed
qed

section \<open>The contract\<close>

lemma next_power_of_two_pow: "\<exists>b. next_power_of_two n = 2 ^ b"
proof (induction n rule: next_power_of_two.induct)
  case (1 n)
  show ?case
  proof (cases "n \<le> 1")
    case False
    then obtain b where "next_power_of_two ((n + 1) div 2) = 2 ^ b" using 1 by blast
    then have "next_power_of_two n = 2 ^ Suc b" using False next_power_of_two.simps [of n] by simp
    then show ?thesis ..
  qed (simp add: next_power_of_two.simps [of n] exI [of _ 0])
qed

lemma next_power_of_two_ge: "n \<le> next_power_of_two n"
proof (induction n rule: next_power_of_two.induct)
  case (1 n)
  then show ?case using next_power_of_two.simps [of n] by (cases "n \<le> 1") auto
qed

lemma find_replicate_None: "find (holds_key k) (replicate n None) = None"
  by (simp add: find_None_iff holds_key_def)

lemma table_new_inv: "table_inv (table_new c)" "tmap (table_new c) = Map.empty" "tlen (table_new c) = 0"
  "2 * max c 1 \<le> length (slots (table_new c))"
proof -
  let ?n = "max (next_power_of_two (max c 1 * 2)) 16"
  obtain b where "next_power_of_two (max c 1 * 2) = 2 ^ b" using next_power_of_two_pow by blast
  then have "?n = 2 ^ b \<or> ?n = 2 ^ 4" by (simp add: max_def)
  then have "\<exists>b. ?n = 2 ^ b" by blast
  then show "table_inv (table_new c)"
    by (auto simp: table_inv_def table_new_def Let_def unique_keys_def reachable_except_def occupied_def)
  show "tmap (table_new c) = Map.empty"
    by (rule ext) (simp add: tmap_def smap_def table_new_def Let_def find_replicate_None)
  show "tlen (table_new c) = 0" by (simp add: table_new_def Let_def)
  show "2 * max c 1 \<le> length (slots (table_new c))"
    using next_power_of_two_ge [of "max c 1 * 2"] by (simp add: table_new_def Let_def)
qed

text \<open>What a client of a bounded keyed store relies on. \<open>size\<close> counts the entries; \<open>room\<close> is the bound up
  to which a fresh key may be inserted.\<close>

locale keyed_store =
  fixes inv :: "'t \<Rightarrow> bool" and \<alpha> :: "'t \<Rightarrow> 'k \<Rightarrow> 'v option" and size :: "'t \<Rightarrow> nat" and room :: "'t \<Rightarrow> nat"
    and get :: "'t \<Rightarrow> 'k \<Rightarrow> 'v option exec"
    and put :: "'t \<Rightarrow> 'k \<Rightarrow> 'v \<Rightarrow> ('v option \<times> 't) exec"
    and del :: "'t \<Rightarrow> 'k \<Rightarrow> ('v option \<times> 't) exec"
  assumes get: "inv t \<Longrightarrow> get t k = Some (\<alpha> t k)"
    and size: "inv t \<Longrightarrow> finite (dom (\<alpha> t)) \<and> size t = card (dom (\<alpha> t))"
    and put: "inv t \<Longrightarrow> (\<alpha> t k = None \<Longrightarrow> size t < room t) \<Longrightarrow>
      \<exists>t'. put t k v = Some (\<alpha> t k, t') \<and> inv t' \<and> \<alpha> t' = (\<alpha> t)(k \<mapsto> v) \<and> room t' = room t"
    and del: "inv t \<Longrightarrow> \<exists>t'. del t k = Some (\<alpha> t k, t') \<and> inv t' \<and> \<alpha> t' = (\<alpha> t)(k := None) \<and> room t' = room t"
begin

lemma get_after_put:
  assumes "inv t" "\<alpha> t k = None \<Longrightarrow> size t < room t"
  shows "\<exists>old t'. put t k v = Some (old, t') \<and> inv t' \<and> get t' k = Some (Some v) \<and>
    (\<forall>k'. k' \<noteq> k \<longrightarrow> get t' k' = get t k')"
proof -
  obtain t' where t': "put t k v = Some (\<alpha> t k, t')" "inv t'" "\<alpha> t' = (\<alpha> t)(k \<mapsto> v)"
    using put [OF assms] by blast
  show ?thesis using t' get [OF assms(1)] get [OF t'(2)] by auto
qed

lemma get_after_del:
  assumes "inv t"
  shows "\<exists>old t'. del t k = Some (old, t') \<and> inv t' \<and> get t' k = Some None \<and>
    (\<forall>k'. k' \<noteq> k \<longrightarrow> get t' k' = get t k')"
proof -
  obtain t' where t': "del t k = Some (\<alpha> t k, t')" "inv t'" "\<alpha> t' = (\<alpha> t)(k := None)"
    using del [OF assms] by blast
  show ?thesis using t' get [OF assms] get [OF t'(2)] by auto
qed

lemma size_put:
  assumes "inv t" "\<alpha> t k = None \<Longrightarrow> size t < room t" "put t k v = Some (old, t')"
  shows "size t' = (if \<alpha> t k = None then size t + 1 else size t)"
proof -
  obtain t'' where t': "put t k v = Some (\<alpha> t k, t'')" "inv t''" "\<alpha> t'' = (\<alpha> t)(k \<mapsto> v)"
    using put [OF assms(1,2)] by blast
  then have "size t' = card (dom ((\<alpha> t)(k \<mapsto> v)))" using assms(3) size by fastforce
  then show ?thesis using size [OF assms(1)] by (auto simp: insert_absorb domIff)
qed

lemma size_del:
  assumes "inv t" "del t k = Some (old, t')"
  shows "size t' = (if \<alpha> t k = None then size t else size t - 1)"
proof -
  obtain t'' where t': "del t k = Some (\<alpha> t k, t'')" "inv t''" "\<alpha> t'' = (\<alpha> t)(k := None)"
    using del [OF assms(1)] by blast
  then have "size t' = card (dom (\<alpha> t) - {k})" using assms(2) size by fastforce
  then show ?thesis using size [OF assms(1)] by (auto simp: domIff)
qed

end

lemma tmap_dom: "table_inv t \<Longrightarrow> finite (dom (tmap t)) \<and> tlen t = card (dom (tmap t))"
proof -
  assume inv: "table_inv t"
  then obtain b where u: "unique_keys (slots t)" and c: "tlen t = card (occupied (slots t))" by (rule table_invD)
  define f where "f i = fst (the (slots t ! i))" for i
  have "inj_on f (occupied (slots t))"
    by (rule inj_onI) (auto simp: f_def occupied_def intro: unique_keysD [OF u])
  moreover have "f ` occupied (slots t) = dom (tmap t)"
    unfolding dom_def tmap_def using smap_Some_iff [OF u] by (force simp: f_def occupied_def image_iff)
  ultimately show ?thesis using c card_image finite_occupied finite_imageI by metis
qed

interpretation ot: keyed_store table_inv tmap tlen "\<lambda>t. length (slots t) - 1" table_get table_insert table_remove
proof
  show "table_inv t \<Longrightarrow> (tmap t k = None \<Longrightarrow> tlen t < length (slots t) - 1) \<Longrightarrow>
      \<exists>t'. table_insert t k v = Some (tmap t k, t') \<and> table_inv t' \<and> tmap t' = (tmap t)(k \<mapsto> v) \<and>
        length (slots t') - 1 = length (slots t) - 1" for t k and v :: 'v
    by (rule table_insert_inv [of t k v]) auto
  show "table_inv t \<Longrightarrow> \<exists>t'. table_remove t k = Some (tmap t k, t') \<and> table_inv t' \<and> tmap t' = (tmap t)(k := None) \<and>
      length (slots t') - 1 = length (slots t) - 1" for t k and v :: 'v
    by (rule table_remove_inv [of t k]) auto
qed (simp_all add: tmap_dom)

section \<open>Properties\<close>

text \<open>C20: the open-addressing table implements a finite map. Under its invariant, and as long as one slot
  stays free for a fresh key, lookup, insertion and backward-shift removal all return; lookup reads
  the map, insertion and removal change it at exactly one key and report the previous value, the
  entry count is the size of the map, and the invariant holds again.\<close>

theorem object_table_refines_map:
  assumes "table_inv t" "tmap t key = None \<longrightarrow> tlen t + 1 < length (slots t)"
  shows "table_get t key = Some (tmap t key)
    \<and> (\<exists>t'. table_insert t key v = Some (tmap t key, t') \<and> table_inv t' \<and> tmap t' = (tmap t)(key \<mapsto> v))
    \<and> (\<exists>t'. table_remove t key = Some (tmap t key, t') \<and> table_inv t' \<and> tmap t' = (tmap t)(key := None))
    \<and> tlen t = card (dom (tmap t))"
proof -
  have room: "tmap t key = None \<Longrightarrow> tlen t < length (slots t) - 1" using assms(2) by simp
  show ?thesis
    using ot.get [OF assms(1)] ot.put [OF assms(1) room] ot.del [OF assms(1)] ot.size [OF assms(1)] by blast
qed

theorem object_table_refines_map_witness:
  "table_inv (table_new 4 :: nat object_table) \<and> tmap (table_new 4 :: nat object_table) 9 = None \<and>
   (\<exists>t'. table_insert (table_new 4) 9 (5 :: nat) = Some (None, t') \<and> table_inv t' \<and> tmap t' = [9 \<mapsto> 5])"
proof -
  let ?t = "table_new 4 :: nat object_table"
  have "tlen ?t = 0" "2 * max 4 1 \<le> length (slots ?t)" by (rule table_new_inv)+
  then have "tmap ?t 9 = None \<longrightarrow> tlen ?t + 1 < length (slots ?t)" by simp
  from object_table_refines_map [OF table_new_inv(1) this, of 5] show ?thesis
    using table_new_inv(1) by (auto simp: table_new_inv(2))
qed

end
