(* ===== verification/Fec.thy ===== *)
theory Fec
  imports Rs_Decode Object_Table
begin

text \<open>
  Forward error correction of \<^verbatim>\<open>crates/yip-transport/src/fec.rs\<close>: the encoder that turns one sealed
  frame into source and repair symbols, and the reassembler that keeps several partially received
  objects in flight, with its guards, expiry sweep, capacity eviction and the two completion paths.
\<close>

section \<open>Symbols\<close>

definition MAX_OBJECT_SIZE :: u32 where
  "MAX_OBJECT_SIZE = 262144"

definition CODEC_RS_V1 :: u8 where
  "CODEC_RS_V1 = 0x01"

record Symbol =
  object_id :: u16
  object_size :: u32
  payload_id :: bytes
  sym_data :: bytes

definition shard_for_fec_symbol :: "u64 \<Rightarrow> u16 \<Rightarrow> nat \<Rightarrow> nat" where
  "shard_for_fec_symbol conn_tag oid num_shards =
     (if num_shards \<le> 1 then 0
      else let mixed = conn_tag XOR (ucast oid * 0x9e3779b97f4a7c15) in unat mixed mod num_shards)"

definition pack_payload_id :: "u16 \<Rightarrow> u8 \<Rightarrow> bytes" where
  "pack_payload_id symbol_index scheme = [CODEC_RS_V1] @ be16 symbol_index @ [scheme]"

definition parse_payload_id :: "bytes \<Rightarrow> (u16 \<times> Scheme) option" where
  "parse_payload_id pid =
     (if pid ! 0 \<noteq> CODEC_RS_V1 then None
      else map_option (Pair (un16 [pid ! 1, pid ! 2])) (from_u8 (pid ! 3)))"

definition source_count :: "u32 \<Rightarrow> u16 \<Rightarrow> nat" where
  "source_count osize symbol_size =
     (let size = unat osize; sym = unat symbol_size in if sym = 0 then 0 else div_ceil size sym)"

definition split_source :: "bytes \<Rightarrow> nat \<Rightarrow> nat \<Rightarrow> bytes list" where
  "split_source ciphertext k len =
     map (\<lambda>i. let start = i * len; stop = min (start + len) (length ciphertext)
              in if start < length ciphertext
                 then splice (replicate len 0) 0 (take (stop - start) (drop start ciphertext))
                 else replicate len 0) [0..<k]"

section \<open>Encoder\<close>

record flow_params =
  symbol_size :: u16
  deadline_ms :: nat
  arq :: bool

record FecEncoder =
  next_object_id :: u16
  stride :: u16
  symbols_encoded :: nat

definition encoder_new :: FecEncoder where
  "encoder_new = \<lparr>next_object_id = 0, stride = 1, symbols_encoded = 0\<rparr>"

definition set_shard :: "FecEncoder \<Rightarrow> u16 \<Rightarrow> u16 \<Rightarrow> FecEncoder" where
  "set_shard e shard_id num_shards =
     e\<lparr>next_object_id := shard_id, stride := (if num_shards = 0 then 1 else num_shards)\<rparr>"

definition mk_symbol :: "u16 \<Rightarrow> u32 \<Rightarrow> u8 \<Rightarrow> nat \<Rightarrow> bytes \<Rightarrow> Symbol" where
  "mk_symbol oid osize scheme idx d =
     \<lparr>object_id = oid, object_size = osize, payload_id = pack_payload_id (of_nat idx) scheme, sym_data = d\<rparr>"

definition scheme_for :: "bool \<Rightarrow> nat \<Rightarrow> Scheme" where
  "scheme_for is_arq r = (if \<not> is_arq \<and> (r = 1 \<or> r = 2) then Pq else Cauchy)"

definition build :: "cpu \<Rightarrow> bytes \<Rightarrow> flow_params \<Rightarrow> u16 \<Rightarrow> nat \<Rightarrow> Symbol list exec" where
  "build p ciphertext params oid repair =
     (if length ciphertext \<ge> 2 ^ 32 then None
      else let osize = of_nat (length ciphertext); sym = unat (symbol_size params)
      in if sym = 0 then Some []
      else let k = source_count osize (symbol_size params)
      in if k = 0 \<or> k \<ge> 255 then Some []
      else let max_repair = 255 - k; r = min repair max_repair;
               scheme = scheme_for (arq params) r; scheme_u8 = to_u8 scheme;
               source = (if k = 1 then [ciphertext] else split_source ciphertext k sym);
               last_source_len = unat (osize :: u32) - (k - 1) * sym;
               sources = (if k = 1 then [mk_symbol oid osize scheme_u8 0 ciphertext]
                          else map (\<lambda>i. mk_symbol oid osize scheme_u8 i
                                       (if i = k - 1 then take last_source_len (source ! i) else source ! i)) [0..<k])
           in if r > 0
              then case encode_repair p source r scheme of
                     None \<Rightarrow> None
                   | Some reps \<Rightarrow>
                       Some (sources @ map (\<lambda>m. mk_symbol oid osize scheme_u8 (k + m) (reps ! m)) [0..<length reps])
              else Some sources)"

definition encode :: "cpu \<Rightarrow> FecEncoder \<Rightarrow> bytes \<Rightarrow> flow_params \<Rightarrow> nat \<Rightarrow> (Symbol list \<times> FecEncoder) exec" where
  "encode p e ciphertext params repair =
     (let oid = next_object_id e; e' = e\<lparr>next_object_id := oid + stride e\<rparr>
      in case build p ciphertext params oid repair of
           None \<Rightarrow> None
         | Some syms \<Rightarrow> Some (syms, e'\<lparr>symbols_encoded := sat_add (symbols_encoded e) (length syms)\<rparr>))"

definition repair_with_id ::
    "cpu \<Rightarrow> FecEncoder \<Rightarrow> bytes \<Rightarrow> flow_params \<Rightarrow> u16 \<Rightarrow> nat \<Rightarrow> (Symbol list \<times> FecEncoder) exec" where
  "repair_with_id p e ciphertext params oid extra_repair =
     (case build p ciphertext params oid extra_repair of
        None \<Rightarrow> None
      | Some syms \<Rightarrow> Some (syms, e\<lparr>symbols_encoded := sat_add (symbols_encoded e) (length syms)\<rparr>))"

section \<open>Reassembler\<close>

record ObjState =
  payload :: bytes
  seen_mask :: "u64 list"
  src_count :: nat
  total_count :: nat
  obj_k :: nat
  shard_len :: nat
  obj_size :: u32
  obj_scheme :: Scheme
  obj_done :: bool
  expires_at_ms :: nat
  repair_shards :: "(u16 \<times> bytes) list"

definition is_seen :: "u64 list \<Rightarrow> u16 \<Rightarrow> bool" where
  "is_seen seen idx = (let u = unat idx in if u \<ge> 256 then False else mask_bit seen u)"

definition mark_seen :: "u64 list \<Rightarrow> u16 \<Rightarrow> u64 list" where
  "mark_seen seen idx =
     (let u = unat idx
      in if u < 256 then seen[u div 64 := seen ! (u div 64) OR push_bit (u mod 64) 1] else seen)"

record FecReassembler =
  re_symbol_size :: u16
  objects :: "ObjState object_table"
  order :: "u64 list"
  max_objects :: nat
  recovered_count :: nat
  unrecoverable_count :: nat

definition reassembler_new :: "u16 \<Rightarrow> nat \<Rightarrow> FecReassembler" where
  "reassembler_new ssize max_objs =
     (let max_obj = max max_objs 1
      in \<lparr>re_symbol_size = ssize, objects = table_new max_obj, order = [], max_objects = max_obj,
          recovered_count = 0, unrecoverable_count = 0\<rparr>)"

definition in_flight :: "FecReassembler \<Rightarrow> nat" where
  "in_flight r = tlen (objects r)"

definition set_symbol_size :: "FecReassembler \<Rightarrow> u16 \<Rightarrow> FecReassembler" where
  "set_symbol_size r s = r\<lparr>re_symbol_size := s\<rparr>"

text \<open>The sweep from the head of \<open>order\<close>; it stops at the incoming key and at the first live object.\<close>

fun sweep :: "u64 \<Rightarrow> nat \<Rightarrow> u64 list \<Rightarrow> ObjState object_table \<Rightarrow> nat \<Rightarrow>
    (u64 list \<times> ObjState object_table \<times> nat) exec" where
  "sweep key now [] t lost = Some ([], t, lost)"
| "sweep key now (oldest # rest) t lost =
     (if oldest = key then Some (oldest # rest, t, lost)
      else case table_get t oldest of
             None \<Rightarrow> None
           | Some None \<Rightarrow> sweep key now rest t lost
           | Some (Some st) \<Rightarrow>
               if now > expires_at_ms st \<or> obj_done st
               then case table_remove t oldest of
                      None \<Rightarrow> None
                    | Some (_, t') \<Rightarrow>
                        sweep key now rest t' (if obj_done st then lost else sat_add lost 1)
               else Some (oldest # rest, t, lost))"

definition new_object :: "nat \<Rightarrow> nat \<Rightarrow> u32 \<Rightarrow> Scheme \<Rightarrow> nat \<Rightarrow> ObjState" where
  "new_object k sym_size osize scheme expires =
     (let len = min (unat osize) sym_size
      in \<lparr>payload = replicate (case checked_mul k len of None \<Rightarrow> 0 | Some n \<Rightarrow> n) 0,
          seen_mask = [0, 0, 0, 0], src_count = 0, total_count = 0, obj_k = k, shard_len = len,
          obj_size = osize, obj_scheme = scheme, obj_done = False, expires_at_ms = expires, repair_shards = []\<rparr>)"

text \<open>Make room for and insert a new object: the block guarded by \<open>!contains_key\<close>.\<close>

definition evict_oldest :: "u64 list \<times> ObjState object_table \<times> nat \<Rightarrow> (u64 list \<times> ObjState object_table \<times> nat) exec" where
  "evict_oldest s =
     (case s of
        ([], t, lost) \<Rightarrow> Some ([], t, lost)
      | (oldest # rest, t, lost) \<Rightarrow>
          (case table_remove t oldest of
             None \<Rightarrow> None
           | Some (None, t') \<Rightarrow> Some (rest, t', lost)
           | Some (Some st, t') \<Rightarrow> Some (rest, t', if obj_done st then lost else sat_add lost 1)))"

definition admit :: "nat \<Rightarrow> u64 \<Rightarrow> ObjState \<Rightarrow> u64 list \<times> ObjState object_table \<times> nat \<Rightarrow>
    (u64 list \<times> ObjState object_table \<times> nat) exec" where
  "admit max_objs key st s =
     (case s of (ord, t, lost) \<Rightarrow>
        case contains_key t key of
          None \<Rightarrow> None
        | Some True \<Rightarrow> Some s
        | Some False \<Rightarrow>
            (case (if tlen t \<ge> max_objs then evict_oldest s else Some s) of
               None \<Rightarrow> None
             | Some (ord', t', lost') \<Rightarrow>
                 (case table_insert t' key st of
                    None \<Rightarrow> None
                  | Some (_, t'') \<Rightarrow> Some (ord' @ [key], t'', lost'))))"

text \<open>Store one symbol in its object, and complete the object when \<open>K\<close> distinct shards are there. The
  result is the decoded frame, the new object state and whether the loss path ran.\<close>

definition store_shard :: "ObjState \<Rightarrow> u16 \<Rightarrow> bytes \<Rightarrow> ObjState exec" where
  "store_shard st idx d =
     (let st = st\<lparr>seen_mask := mark_seen (seen_mask st) idx, total_count := total_count st + 1\<rparr>;
          sym_idx = unat idx
      in if sym_idx < obj_k st
         then let offset = sym_idx * shard_len st; copy_len = min (length d) (shard_len st)
              in if offset + copy_len \<le> length (payload st)
                 then Some (st\<lparr>src_count := src_count st + 1,
                              payload := splice (payload st) offset (take copy_len d)\<rparr>)
                 else None
         else Some (st\<lparr>repair_shards := repair_shards st @
                     [(idx, if length d < shard_len st then d @ replicate (shard_len st - length d) 0 else d)]\<rparr>))"

definition complete :: "cpu \<Rightarrow> ObjState \<Rightarrow> nat \<Rightarrow> (bytes option \<times> ObjState \<times> bool) exec" where
  "complete p st osize =
     (let st = st\<lparr>obj_done := True\<rparr>
      in if src_count st = obj_k st
         then Some (Some (take osize (payload st)), st\<lparr>payload := [], repair_shards := []\<rparr>, False)
         else case reconstruct_missing_sources p (obj_k st) (shard_len st) (payload st) (seen_mask st)
                     (repair_shards st) (obj_scheme st) of
                None \<Rightarrow> None
              | Some None \<Rightarrow> Some (None, st, True)
              | Some (Some object) \<Rightarrow> Some (Some (take osize object), st\<lparr>payload := [], repair_shards := []\<rparr>, True))"

definition ingest ::
    "cpu \<Rightarrow> ObjState \<Rightarrow> u16 \<Rightarrow> Scheme \<Rightarrow> Symbol \<Rightarrow> nat \<Rightarrow> (bytes option \<times> ObjState \<times> bool) exec" where
  "ingest p st idx scheme symbol now =
     (if now > expires_at_ms st
      then Some (None, st\<lparr>obj_done := True, payload := [], repair_shards := []\<rparr>, False)
      else if obj_done st then Some (None, st, False)
      else if obj_scheme st \<noteq> scheme then Some (None, st, False)
      else if is_seen (seen_mask st) idx then Some (None, st, False)
      else case store_shard st idx (sym_data symbol) of
             None \<Rightarrow> None
           | Some st' \<Rightarrow>
               if total_count st' < obj_k st' then Some (None, st', False)
               else complete p st' (unat (object_size symbol)))"

text \<open>The length a symbol must have on the wire.\<close>

definition expected_wire_len :: "nat \<Rightarrow> nat \<Rightarrow> nat \<Rightarrow> nat \<Rightarrow> nat option" where
  "expected_wire_len k sym_size osize idx =
     (if idx = k - 1
      then case checked_mul (k - 1) sym_size of None \<Rightarrow> None | Some prefix \<Rightarrow> checked_sub osize prefix
      else Some (min osize sym_size))"

text \<open>The guards before any state changes: the symbol's index and scheme and the object's geometry.\<close>

definition push_guard :: "FecReassembler \<Rightarrow> u64 \<Rightarrow> Symbol \<Rightarrow> (u16 \<times> Scheme \<times> nat \<times> nat) option exec" where
  "push_guard r key symbol =
     (if object_size symbol = 0 \<or> object_size symbol > MAX_OBJECT_SIZE \<or> re_symbol_size r = 0 then Some None
      else case parse_payload_id (payload_id symbol) of
        None \<Rightarrow> Some None
      | Some (idx, scheme) \<Rightarrow>
          if unat idx \<ge> 255 then Some None
          else case table_get (objects r) key of
            None \<Rightarrow> None
          | Some found \<Rightarrow>
              (case (case found of
                       Some existing \<Rightarrow>
                         if obj_size existing \<noteq> object_size symbol then None
                         else Some (obj_k existing, shard_len existing)
                     | None \<Rightarrow> Some (source_count (object_size symbol) (re_symbol_size r), unat (re_symbol_size r))) of
                 None \<Rightarrow> Some None
               | Some (k, sym_size) \<Rightarrow>
                   if k = 0 \<or> k \<ge> 255 then Some None
                   else case expected_wire_len k sym_size (unat (object_size symbol)) (unat idx) of
                     None \<Rightarrow> Some None
                   | Some len \<Rightarrow>
                       if length (sym_data symbol) \<noteq> len then Some None
                       else if scheme = Pq \<and> unat idx \<ge> k + 2 then Some None
                       else Some (Some (idx, scheme, k, sym_size))))"

definition push ::
    "cpu \<Rightarrow> FecReassembler \<Rightarrow> u64 \<Rightarrow> Symbol \<Rightarrow> nat \<Rightarrow> nat \<Rightarrow> (bytes option \<times> FecReassembler) exec" where
  "push p r key symbol now deadline =
     (case push_guard r key symbol of
        None \<Rightarrow> None
      | Some None \<Rightarrow> Some (None, r)
      | Some (Some (idx, scheme, k, sym_size)) \<Rightarrow>
          (case sweep key now (order r) (objects r) (unrecoverable_count r) of
             None \<Rightarrow> None
           | Some s \<Rightarrow>
               (case admit (max_objects r) key (new_object k sym_size (object_size symbol) scheme (sat_add now deadline)) s of
                  None \<Rightarrow> None
                | Some (ord, t, lost) \<Rightarrow>
                    let r' = r\<lparr>order := ord, unrecoverable_count := lost\<rparr>
                    in (case table_get t key of
                          None \<Rightarrow> None
                        | Some None \<Rightarrow> Some (None, r'\<lparr>objects := t\<rparr>)
                        | Some (Some st) \<Rightarrow>
                            (case ingest p st idx scheme symbol now of
                               None \<Rightarrow> None
                             | Some (res, st', loss_path) \<Rightarrow>
                                 (case table_set t key st' of
                                    None \<Rightarrow> None
                                  | Some t' \<Rightarrow>
                                      Some (res, r'\<lparr>objects := t',
                                        recovered_count := (if loss_path then (recovered_count r + 1) mod 2 ^ 64
                                                            else recovered_count r)\<rparr>)))))))"

end
