(* ===== verification/Fec_Correct.thy ===== *)
theory Fec_Correct
  imports Fec
begin

text \<open>
  Correctness of the forward error correction of \<^verbatim>\<open>crates/yip-transport/src/fec.rs\<close>. The reassembler's
  invariant (every object in flight is well-formed, the arrival order lists exactly the keys in the
  table, and the capacity holds) is kept by every push, and no push panics, whatever the symbol says.
  On the symbols of one encoded frame the reassembler returns that frame, as soon as \<open>K\<close> distinct
  symbols have arrived in any order, and only once.
\<close>

section \<open>The seen mask\<close>

definition seen_set :: "u64 list \<Rightarrow> nat set" where
  "seen_set m = {u. u < 256 \<and> mask_bit m u}"

lemma finite_seen_set [simp]: "finite (seen_set m)"
  by (simp add: seen_set_def)

lemma mask_bit_iff: "mask_bit m u \<longleftrightarrow> bit (m ! (u div 64)) (u mod 64)"
  by (simp add: mask_bit_def push_bit_of_1 and_exp_eq_0_iff_not_bit)

lemma is_seen_iff: "is_seen m idx \<longleftrightarrow> unat idx \<in> seen_set m"
  by (simp add: is_seen_def seen_set_def Let_def)

lemma length_mark_seen [simp]: "length (mark_seen m idx) = length m"
  by (simp add: mark_seen_def Let_def)

lemma seen_set_mark:
  assumes "length m = 4" "unat idx < 256"
  shows "seen_set (mark_seen m idx) = insert (unat idx) (seen_set m)"
proof -
  have "mask_bit (mark_seen m idx) u \<longleftrightarrow> u = unat idx \<or> mask_bit m u" if "u < 256" for u
  proof -
    let ?i = "unat idx"
    have word: "?i div 64 < length m" using assms by simp
    have bit: "bit (push_bit (?i mod 64) (1 :: u64)) (u mod 64) \<longleftrightarrow> u mod 64 = ?i mod 64"
      by (auto simp: push_bit_of_1 bit_exp_iff)
    show ?thesis
    proof (cases "u div 64 = ?i div 64")
      case True
      then have "u mod 64 = ?i mod 64 \<longleftrightarrow> u = ?i" by (metis div_mult_mod_eq)
      then show ?thesis
        using True word assms(2) bit by (auto simp: mask_bit_iff mark_seen_def Let_def bit_or_iff)
    next
      case False
      then show ?thesis using assms(2) by (auto simp: mask_bit_iff mark_seen_def Let_def)
    qed
  qed
  then show ?thesis using assms(2) by (auto simp: seen_set_def)
qed

lemma seen_set_zero [simp]: "seen_set [0, 0, 0, 0] = {}"
proof -
  have "\<not> mask_bit [0, 0, 0, 0] u" if "u < 256" for u
  proof -
    have "u div 64 < 4" using that by simp
    then have "u div 64 = 0 \<or> u div 64 = 1 \<or> u div 64 = 2 \<or> u div 64 = 3" by linarith
    then have "([0, 0, 0, 0] :: u64 list) ! (u div 64) = 0" by auto
    then show ?thesis by (simp add: mask_bit_def)
  qed
  then show ?thesis by (auto simp: seen_set_def)
qed

lemma filter_mask: "k \<le> 256 \<Longrightarrow> length (filter (mask_bit m) [0..<k]) = card (seen_set m \<inter> {..<k})"
proof -
  assume "k \<le> 256"
  have "length (filter (mask_bit m) [0..<k]) = card (set (filter (mask_bit m) [0..<k]))"
    by (intro distinct_card [symmetric]) simp
  also have "set (filter (mask_bit m) [0..<k]) = seen_set m \<inter> {..<k}"
    using \<open>k \<le> 256\<close> by (auto simp: seen_set_def)
  finally show ?thesis .
qed

section \<open>The decoder is total on well-shaped input\<close>

lemma those_all_Some:
  assumes "\<And>x. x \<in> set xs \<Longrightarrow> \<exists>y. f x = Some y \<and> P y"
  shows "\<exists>ys. those (map f xs) = Some ys \<and> (\<forall>y \<in> set ys. P y)"
proof -
  obtain g where g: "\<And>x. x \<in> set xs \<Longrightarrow> f x = Some (g x) \<and> P (g x)" using assms by metis
  then have "those (map f xs) = Some (map g xs)" by (intro those_map_cong) blast
  then show ?thesis using g by auto
qed

definition ref_shape :: "nat \<Rightarrow> nat \<Rightarrow> nat \<times> shard_ref \<Rightarrow> bool" where
  "ref_shape k L row = (case snd row of Source i \<Rightarrow> i < k | Repair bs \<Rightarrow> length bs = L)"

lemma restore_missing_total:
  assumes "\<forall>row \<in> set rows. ref_shape k L row" "\<forall>(i, row) \<in> set prs. i < k" "k * L \<le> length pl"
  shows "\<exists>out. restore_missing p L seen rows prs pl = Some out \<and> length out = length pl"
  using assms(2,3)
proof (induction prs arbitrary: pl)
  case (Cons pr prs)
  obtain i row where i: "pr = (i, row)" "i < k" using Cons.prems(1) by auto
  show ?case
  proof (cases "mask_bit seen i")
    case True
    then show ?thesis using Cons by (simp add: i)
  next
    case False
    let ?f = "\<lambda>(c, (idx, ref)). map_option (Pair c) (shard_bytes L pl ref)"
    let ?sel = "filter (\<lambda>(c, row). c \<noteq> (0 :: u8)) (zip row rows)"
    have "\<exists>y. ?f x = Some y \<and> length (snd y) = L" if x: "x \<in> set ?sel" for x
    proof -
      obtain c idx ref where e: "x = (c, (idx, ref))" by (cases x) auto
      then have "(idx, ref) \<in> set rows" using x by (auto dest: set_zip_rightD)
      then have "ref_shape k L (idx, ref)" using assms(1) by blast
      then show ?thesis
        using block_fits [of _ k L "length pl"] Cons.prems(2)
        by (auto simp: e ref_shape_def shard_bytes_def slice_def split: shard_ref.splits)
    qed
    then have "\<exists>pairs. those (map ?f ?sel) = Some pairs \<and> (\<forall>y \<in> set pairs. length (snd y) = L)"
      by (rule those_all_Some)
    then obtain pairs where pairs: "those (map ?f ?sel) = Some pairs" "\<forall>y \<in> set pairs. length (snd y) = L"
      by blast
    then have "\<forall>(c, src) \<in> set pairs. length src = length (replicate L (0 :: u8))" by auto
    from accumulate_Some [OF this, of p] obtain d where
      d: "accumulate p pairs (replicate L 0) = Some d" "length d = L" by auto
    have put: "put_shard L i d pl = Some (splice pl (i * L) d)"
      by (rule put_shard_Some [OF d(2) i(2) Cons.prems(2)])
    have "length (splice pl (i * L) d) = length pl"
      using block_fits [OF i(2) Cons.prems(2)] d(2) by simp
    then show ?thesis
      using Cons.IH [of "splice pl (i * L) d"] Cons.prems False pairs(1) d(1) put by (simp add: i)
  qed
qed simp

lemma reconstruct_total:
  assumes k: "k \<le> 255" "k * L \<le> u64_max" "k * L \<le> length pl"
    and reps: "distinct (map fst reps)" "\<And>i bs. (i, bs) \<in> set reps \<Longrightarrow> k \<le> unat i \<and> valid_idx scheme k (unat i) \<and> length bs = L"
    and enough: "k \<le> length (filter (mask_bit seen) [0..<k]) + length reps"
  shows "\<exists>out. reconstruct_missing_sources p k L pl seen reps scheme = Some (Some out) \<and> length out = length pl"
proof -
  define hs where "hs = filter (mask_bit seen) [0..<k]"
  define ts where "ts = take (k - length hs) reps"
  let ?rows = "pick_rows hs ts"
  have n: "length hs \<le> k" "k - length hs \<le> length reps"
    using enough length_filter_le [of "mask_bit seen" "[0..<k]"] by (simp_all add: hs_def)
  then have len: "length ?rows = k" by (simp add: pick_rows_def ts_def)
  have replen: "\<forall>(i, bs) \<in> set reps. length bs = L" using reps(2) by auto
  then have rows_eq: "add_repair k L (map (\<lambda>i. (i, Source i)) hs) reps = ?rows"
    using add_repair_eq [of reps L "map (\<lambda>i. (i, Source i)) hs" k] n(1)
    by (simp add: pick_rows_def ts_def take_map)
  have hs: "distinct hs" "\<And>i. i \<in> set hs \<Longrightarrow> i < k \<and> mask_bit seen i" by (simp_all add: hs_def)
  have ts: "distinct (map fst ts)" using reps(1) by (simp add: ts_def take_map [symmetric])
  have ts2: "k \<le> unat i \<and> valid_idx scheme k (unat i) \<and> length bs = L" if "(i, bs) \<in> set ts" for i bs
    using reps(2) [of i bs] that in_set_takeD [of "(i, bs)" "k - length hs" reps] by (simp add: ts_def)
  have idx: "distinct (map fst ?rows)" "\<forall>idx \<in> set (map fst ?rows). valid_idx scheme k idx"
    using pick_indices [of k hs seen ts scheme] k(1) hs ts ts2 by blast+
  have "\<exists>m. build_matrix scheme k 0 (map fst ?rows) = Some (Some m) \<and> square k m \<and> nonsingular k (mat m)"
    by (rule build_matrix_nonsingular) (use idx len in auto)
  then obtain m where m: "build_matrix scheme k 0 (map fst ?rows) = Some (Some m)" "square k m" "nonsingular k (mat m)"
    by blast
  then obtain minv where minv: "invert m = Some (Some minv)" using invert_cases [OF m(2)] by auto
  have shape: "\<forall>row \<in> set ?rows. ref_shape k L row"
    using hs(2) ts2 by (auto simp: pick_rows_def ref_shape_def)
  have "\<forall>(i, row) \<in> set (zip [0..<k] minv). i < k" by (auto dest: set_zip_leftD)
  from restore_missing_total [OF shape this k(3), of p seen] obtain out where
    "restore_missing p L seen ?rows (zip [0..<k] minv) pl = Some out" "length out = length pl" by blast
  then show ?thesis
    unfolding reconstruct_missing_sources_def checked_mul_def
    using k rows_eq len m(1) minv by (simp add: Let_def hs_def [symmetric])
qed

section \<open>Objects in flight\<close>

definition geometry :: "nat \<Rightarrow> nat \<Rightarrow> nat \<Rightarrow> bool" where
  "geometry k L sz \<longleftrightarrow> 0 < k \<and> k < 255 \<and> 0 < sz \<and> sz \<le> 262144 \<and> L \<le> sz \<and> (k - 1) * L < sz \<and> sz \<le> k * L"

definition collecting :: "ObjState \<Rightarrow> bool" where
  "collecting st \<longleftrightarrow>
     length (payload st) = obj_k st * shard_len st \<and>
     total_count st = card (seen_set (seen_mask st)) \<and>
     src_count st = card (seen_set (seen_mask st) \<inter> {..<obj_k st}) \<and>
     distinct (map fst (repair_shards st)) \<and>
     (unat \<circ> fst) ` set (repair_shards st) = seen_set (seen_mask st) - {..<obj_k st} \<and>
     (\<forall>(i, bs) \<in> set (repair_shards st). valid_idx (obj_scheme st) (obj_k st) (unat i) \<and> length bs = shard_len st)"

definition obj_wf :: "ObjState \<Rightarrow> bool" where
  "obj_wf st \<longleftrightarrow>
     length (seen_mask st) = 4 \<and> geometry (obj_k st) (shard_len st) (unat (obj_size st)) \<and>
     (obj_done st \<longrightarrow> payload st = [] \<and> repair_shards st = []) \<and>
     (\<not> obj_done st \<longrightarrow> collecting st \<and> total_count st < obj_k st)"

text \<open>The wire length of symbol \<open>idx\<close> of an object with \<open>k\<close> shards of \<open>L\<close> bytes and \<open>sz\<close> bytes in all.\<close>

definition wire_len :: "nat \<Rightarrow> nat \<Rightarrow> nat \<Rightarrow> nat \<Rightarrow> nat" where
  "wire_len k L sz idx = (if idx = k - 1 then sz - (k - 1) * L else L)"

lemma geometryD:
  assumes "geometry k L sz"
  shows "0 < k" "k < 255" "0 < L" "L \<le> sz" "sz \<le> 262144" "(k - 1) * L < sz" "sz \<le> k * L" "k * L \<le> u64_max"
proof -
  show *: "0 < k" "k < 255" "L \<le> sz" "sz \<le> 262144" "(k - 1) * L < sz" "sz \<le> k * L"
    using assms by (simp_all add: geometry_def)
  show "0 < L" using assms by (auto simp: geometry_def intro: ccontr)
  have "k * L \<le> 255 * 262144" using * by (intro mult_le_mono) auto
  then show "k * L \<le> u64_max" by (simp add: u64_max_def)
qed

lemma geometry_new:
  assumes "0 < sz" "sz \<le> 262144" "0 < sy" "div_ceil sz sy < 255"
  shows "geometry (div_ceil sz sy) (min sz sy) sz"
proof -
  let ?k = "div_ceil sz sy"
  have k: "0 < ?k" "sz \<le> ?k * sy" using assms div_ceil_pos div_ceil_ge by blast+
  have k1: "(?k - 1) * sy < sz" using k(1) div_ceil_gt_iff [OF assms(3), of "?k - 1" sz] by simp
  show ?thesis
  proof (cases "sz \<le> sy")
    case True
    then have "?k = 1" using k(1) div_ceil_le_iff [OF assms(3), of sz 1] by simp
    then show ?thesis using assms True by (simp add: geometry_def)
  next
    case False
    then show ?thesis using assms k k1 by (simp add: geometry_def)
  qed
qed

lemma wire_len_le: "geometry k L sz \<Longrightarrow> wire_len k L sz idx \<le> L"
proof -
  assume g: "geometry k L sz"
  have "k * L = (k - 1) * L + L" using geometryD(1) [OF g] by (cases k) simp_all
  then show ?thesis using geometryD(7) [OF g] by (auto simp: wire_len_def)
qed

lemma expected_wire_len_existing:
  assumes "geometry k L sz"
  shows "expected_wire_len k L sz idx = Some (wire_len k L sz idx)"
proof -
  note g = geometryD [OF assms]
  have "(k - 1) * L \<le> u64_max" using g(8) by (meson diff_le_self le_trans mult_le_mono1)
  then show ?thesis using g by (simp add: expected_wire_len_def wire_len_def checked_mul_def checked_sub_def)
qed

lemma expected_wire_len_new:
  assumes "0 < sz" "sz \<le> 262144" "0 < sy" "div_ceil sz sy < 255"
  shows "expected_wire_len (div_ceil sz sy) sy sz idx = Some (wire_len (div_ceil sz sy) (min sz sy) sz idx)"
proof (cases "sz \<le> sy")
  case True
  then have "div_ceil sz sy = 1"
    using assms div_ceil_pos [OF assms(3), of sz] div_ceil_le_iff [OF assms(3), of sz 1] by simp
  then show ?thesis using True by (simp add: expected_wire_len_def wire_len_def checked_mul_def checked_sub_def)
next
  case False
  then have "min sz sy = sy" by simp
  then show ?thesis using expected_wire_len_existing [OF geometry_new [OF assms]] by simp
qed

lemma geometry_bound: "geometry k L sz \<Longrightarrow> k * L < 524288"
proof -
  assume g: "geometry k L sz"
  have "k * L = (k - 1) * L + L" using geometryD(1) [OF g] by (cases k) simp_all
  then show "k * L < 524288" using geometryD(4-6) [OF g] by simp
qed

lemma obj_wf_bound: "obj_wf st \<Longrightarrow> obj_k st < 255 \<and> length (payload st) < 524288"
  using geometry_bound [of "obj_k st" "shard_len st"] geometryD(2)
  by (cases "obj_done st") (auto simp: obj_wf_def collecting_def)

lemma new_object_wf:
  assumes "geometry k (min (unat osize) sy) (unat osize)"
  shows "obj_wf (new_object k sy osize scheme e)"
  using assms geometryD(8) [OF assms] geometryD(1) [OF assms]
  by (simp add: obj_wf_def new_object_def Let_def collecting_def checked_mul_def)

lemma store_shard_collecting:
  assumes wf: "length (seen_mask st) = 4" "geometry (obj_k st) (shard_len st) (unat (obj_size st))" and c: "collecting st"
    and new: "unat idx \<notin> seen_set (seen_mask st)" and idx: "unat idx < 255" "obj_scheme st = Pq \<longrightarrow> unat idx < obj_k st + 2"
    and len: "length d = wire_len (obj_k st) (shard_len st) (unat (obj_size st)) (unat idx)"
  shows "\<exists>st'. store_shard st idx d = Some st' \<and> collecting st' \<and> length (seen_mask st') = 4 \<and>
    seen_set (seen_mask st') = insert (unat idx) (seen_set (seen_mask st)) \<and>
    obj_k st' = obj_k st \<and> shard_len st' = shard_len st \<and> obj_size st' = obj_size st \<and> obj_done st' = obj_done st \<and>
    obj_scheme st' = obj_scheme st \<and> expires_at_ms st' = expires_at_ms st"
proof -
  let ?k = "obj_k st" and ?L = "shard_len st" and ?S = "seen_set (seen_mask st)"
  note g = geometryD [OF wf(2)]
  have mark: "seen_set (mark_seen (seen_mask st) idx) = insert (unat idx) ?S"
    using seen_set_mark [OF wf(1)] idx by simp
  have d_le: "length d \<le> ?L" using wire_len_le [OF wf(2)] len by simp
  show ?thesis
  proof (cases "unat idx < ?k")
    case True
    have fits: "unat idx * ?L + ?L \<le> length (payload st)"
      using block_fits [OF True, of ?L "length (payload st)"] c by (simp add: collecting_def)
    have src: "insert (unat idx) ?S \<inter> {..<?k} = insert (unat idx) (?S \<inter> {..<?k})"
      "insert (unat idx) ?S - {..<?k} = ?S - {..<?k}" using True by auto
    show ?thesis
      using True fits c new d_le wf mark src by (auto simp: store_shard_def Let_def collecting_def min_def)
  next
    case False
    have "unat idx \<noteq> ?k - 1" using False g(1) by simp
    then have dL: "length d = ?L" using len by (simp add: wire_len_def)
    have src: "insert (unat idx) ?S \<inter> {..<?k} = ?S \<inter> {..<?k}"
      "insert (unat idx) ?S - {..<?k} = insert (unat idx) (?S - {..<?k})" using False by auto
    have "idx \<notin> fst ` set (repair_shards st)"
    proof
      assume "idx \<in> fst ` set (repair_shards st)"
      then have "unat idx \<in> (unat \<circ> fst) ` set (repair_shards st)" by force
      then show False using c new by (simp add: collecting_def)
    qed
    then show ?thesis
      using False c new dL wf mark src idx by (auto simp: store_shard_def Let_def collecting_def valid_idx_def)
  qed
qed

lemma collecting_enough:
  assumes c: "collecting st" and mask: "length (seen_mask st) = 4" and full: "obj_k st \<le> total_count st" "obj_k st < 256"
  shows "obj_k st \<le> length (filter (mask_bit (seen_mask st)) [0..<obj_k st]) + length (repair_shards st)"
proof -
  let ?S = "seen_set (seen_mask st)"
  have fin: "finite ?S" by (rule finite_subset [of _ "{..<256}"]) (auto simp: seen_set_def)
  have src: "length (filter (mask_bit (seen_mask st)) [0..<obj_k st]) = card (?S \<inter> {..<obj_k st})"
    using filter_mask full(2) by (simp add: mask)
  have "card ((unat \<circ> fst) ` set (repair_shards st)) \<le> length (repair_shards st)"
    by (meson card_image_le card_length finite_set le_trans)
  then have "card (?S - {..<obj_k st}) \<le> length (repair_shards st)" using c by (simp add: collecting_def)
  moreover have "card ?S = card (?S \<inter> {..<obj_k st}) + card (?S - {..<obj_k st})"
    using card_Int_Diff [OF fin] by blast
  ultimately show ?thesis using src c full by (simp add: collecting_def)
qed

lemma collecting_repairs:
  assumes c: "collecting st" and i: "(i, bs) \<in> set (repair_shards st)"
  shows "obj_k st \<le> unat i \<and> valid_idx (obj_scheme st) (obj_k st) (unat i) \<and> length bs = shard_len st"
proof -
  have "unat i \<in> (unat \<circ> fst) ` set (repair_shards st)" using i by force
  then have "unat i \<in> seen_set (seen_mask st) - {..<obj_k st}" using c by (simp add: collecting_def)
  then show ?thesis using c i by (auto simp: collecting_def)
qed

definition same_object :: "ObjState \<Rightarrow> ObjState \<Rightarrow> bool" where
  "same_object st st' \<longleftrightarrow>
     obj_k st' = obj_k st \<and> shard_len st' = shard_len st \<and> obj_size st' = obj_size st \<and>
     obj_scheme st' = obj_scheme st \<and> expires_at_ms st' = expires_at_ms st"

lemma complete_total:
  assumes "collecting st" "length (seen_mask st) = 4" "geometry (obj_k st) (shard_len st) (unat (obj_size st))"
    "obj_k st \<le> total_count st"
  shows "\<exists>out st' lp. complete p st n = Some (Some out, st', lp) \<and> obj_wf st' \<and> same_object st st' \<and> obj_done st'"
proof -
  note g = geometryD [OF assms(3)]
  have "\<exists>out. reconstruct_missing_sources p (obj_k st) (shard_len st) (payload st) (seen_mask st)
      (repair_shards st) (obj_scheme st) = Some (Some out) \<and> length out = length (payload st)"
    by (rule reconstruct_total)
      (use g assms collecting_repairs [OF assms(1)] collecting_enough [OF assms(1,2,4)] in
        \<open>auto simp: collecting_def\<close>)
  then show ?thesis
    using assms by (auto simp: complete_def Let_def obj_wf_def same_object_def)
qed

definition wire_ok :: "ObjState \<Rightarrow> u16 \<Rightarrow> Symbol \<Rightarrow> bool" where
  "wire_ok st idx symbol \<longleftrightarrow>
     unat idx < 255 \<and> length (sym_data symbol) = wire_len (obj_k st) (shard_len st) (unat (obj_size st)) (unat idx)"

lemma ingest_total:
  assumes wf: "obj_wf st" and ok: "wire_ok st idx symbol" "scheme = Pq \<longrightarrow> unat idx < obj_k st + 2"
  shows "\<exists>res st' lp. ingest p st idx scheme symbol now = Some (res, st', lp) \<and> obj_wf st' \<and> same_object st st'"
proof (cases "now > expires_at_ms st \<or> obj_done st \<or> obj_scheme st \<noteq> scheme \<or> is_seen (seen_mask st) idx")
  case True
  then show ?thesis using wf by (auto simp: ingest_def obj_wf_def same_object_def)
next
  case False
  have c: "collecting st" and m: "length (seen_mask st) = 4"
    and g: "geometry (obj_k st) (shard_len st) (unat (obj_size st))" using wf False by (simp_all add: obj_wf_def)
  have new: "unat idx \<notin> seen_set (seen_mask st)" using False is_seen_iff [of "seen_mask st"] m by simp
  obtain st' where st': "store_shard st idx (sym_data symbol) = Some st'" "collecting st'" "length (seen_mask st') = 4"
    and same: "same_object st st'" and nd: "obj_done st' = obj_done st"
    using store_shard_collecting [OF m g c new, of "sym_data symbol"] ok False
    by (auto simp: wire_ok_def same_object_def)
  have g': "geometry (obj_k st') (shard_len st') (unat (obj_size st'))" using g same by (simp add: same_object_def)
  show ?thesis
  proof (cases "total_count st' < obj_k st'")
    case True
    then show ?thesis using st' same nd False g' by (auto simp: ingest_def obj_wf_def)
  next
    case F: False
    then have "obj_k st' \<le> total_count st'" by simp
    from complete_total [OF st'(2,3) g' this, of p "unat (object_size symbol)"]
    show ?thesis using st'(1) same False F by (auto simp: ingest_def same_object_def)
  qed
qed

section \<open>The reassembler\<close>

definition reasm_inv :: "FecReassembler \<Rightarrow> bool" where
  "reasm_inv r \<longleftrightarrow>
     table_inv (objects r) \<and> distinct (order r) \<and> set (order r) = dom (tmap (objects r)) \<and>
     0 < max_objects r \<and> tlen (objects r) \<le> max_objects r \<and> 2 * max_objects r \<le> length (slots (objects r)) \<and>
     (\<forall>key st. tmap (objects r) key = Some st \<longrightarrow> obj_wf st)"

lemma reassembler_new_inv: "reasm_inv (reassembler_new ssize c)"
proof -
  let ?t = "table_new (max c 1) :: ObjState object_table"
  have "table_inv ?t" "tmap ?t = Map.empty" "tlen ?t = 0" "2 * max c 1 \<le> length (slots ?t)"
    using table_new_inv(4) [of "max c 1"] by (simp_all add: table_new_inv(1-3))
  then show ?thesis by (simp add: reasm_inv_def reassembler_new_def Let_def)
qed

text \<open>The part of the invariant the sweep and the eviction work on.\<close>

definition queue_inv :: "nat \<Rightarrow> u64 list \<times> ObjState object_table \<times> nat \<Rightarrow> bool" where
  "queue_inv slots_len s =
     (case s of (ord, t, lost) \<Rightarrow>
        table_inv t \<and> distinct ord \<and> set ord = dom (tmap t) \<and> length (slots t) = slots_len \<and>
        (\<forall>key st. tmap t key = Some st \<longrightarrow> obj_wf st))"

lemma queue_inv_remove:
  assumes "queue_inv n (oldest # rest, t, lost)"
  obtains st t' where "tmap t oldest = Some st" "table_remove t oldest = Some (Some st, t')"
    "\<And>lost'. queue_inv n (rest, t', lost')" "tlen t' = tlen t - 1" "tmap t' = (tmap t)(oldest := None)"
proof -
  have inv: "table_inv t" using assms by (simp add: queue_inv_def)
  obtain t' where t': "table_remove t oldest = Some (tmap t oldest, t')" "table_inv t'"
    "tmap t' = (tmap t)(oldest := None)" "length (slots t') = length (slots t)"
    "tlen t' = (if tmap t oldest = None then tlen t else tlen t - 1)" by (rule table_remove_inv [OF inv])
  have "oldest \<in> dom (tmap t)" using assms by (auto simp: queue_inv_def)
  then obtain st where st: "tmap t oldest = Some st" by auto
  have "queue_inv n (rest, t', lost')" for lost'
    using assms t' by (auto simp: queue_inv_def split: if_splits)
  then show thesis using that [OF st] t' st by simp
qed

lemma sweep_total:
  assumes "queue_inv n (ord, t, lost)"
  shows "\<exists>ord' t' lost'. sweep key now ord t lost = Some (ord', t', lost') \<and> queue_inv n (ord', t', lost') \<and>
    tlen t' \<le> tlen t \<and> tmap t' key = tmap t key \<and> tmap t' \<subseteq>\<^sub>m tmap t"
  using assms
proof (induction ord arbitrary: t lost)
  case (Cons oldest rest)
  obtain st t' where st: "tmap t oldest = Some st" "table_remove t oldest = Some (Some st, t')"
    "\<And>lost'. queue_inv n (rest, t', lost')" "tlen t' = tlen t - 1" "tmap t' = (tmap t)(oldest := None)"
    using queue_inv_remove [OF Cons(2)] by blast
  have inv: "table_get t oldest = Some (Some st)" using Cons(2) st(1) by (simp add: queue_inv_def)
  show ?case
  proof (cases "oldest = key \<or> \<not> (now > expires_at_ms st \<or> obj_done st)")
    case True
    then show ?thesis using Cons(2) inv by auto
  next
    case False
    let ?lost = "if obj_done st then lost else sat_add lost 1"
    from Cons(1) [OF st(3), of ?lost]
    obtain ord' t'' lost' where *: "sweep key now rest t' ?lost = Some (ord', t'', lost')" "queue_inv n (ord', t'', lost')"
      "tlen t'' \<le> tlen t'" "tmap t'' key = tmap t' key" "tmap t'' \<subseteq>\<^sub>m tmap t'" by auto
    have "tmap t' \<subseteq>\<^sub>m tmap t" using st(5) by (simp add: map_le_def)
    then have "tmap t'' \<subseteq>\<^sub>m tmap t" using *(5) map_le_trans by blast
    then show ?thesis using * False inv st(2,4,5) by auto
  qed
qed simp

lemma admit_total:
  assumes q: "queue_inv n (ord, t, lost)" and cap: "tlen t \<le> mx" "0 < mx" "2 * mx \<le> n" and st: "obj_wf st"
  shows "\<exists>ord' t' lost'. admit mx key st (ord, t, lost) = Some (ord', t', lost') \<and> queue_inv n (ord', t', lost') \<and>
    tlen t' \<le> mx \<and> tmap t' key = Some (case tmap t key of None \<Rightarrow> st | Some old \<Rightarrow> old)"
proof (cases "tmap t key")
  case (Some old)
  then show ?thesis using q cap by (auto simp: admit_def queue_inv_def)
next
  case None
  have inv: "table_inv t" and key: "key \<notin> set ord" using q None by (auto simp: queue_inv_def)
  let ?s = "if tlen t \<ge> mx then evict_oldest (ord, t, lost) else Some (ord, t, lost)"
  have "\<exists>ord' t' lost'. ?s = Some (ord', t', lost') \<and> queue_inv n (ord', t', lost') \<and> tlen t' < mx \<and> tmap t' key = None"
  proof (cases "tlen t \<ge> mx")
    case True
    then have "ord \<noteq> []" using q cap(2) tmap_dom [OF inv] by (auto simp: queue_inv_def)
    then obtain oldest rest where ord: "ord = oldest # rest" by (cases ord) auto
    obtain st t' where "tmap t oldest = Some st" "table_remove t oldest = Some (Some st, t')"
      "\<And>lost'. queue_inv n (rest, t', lost')" "tlen t' = tlen t - 1" "tmap t' = (tmap t)(oldest := None)"
      using queue_inv_remove [OF q [unfolded ord]] by blast
    then show ?thesis using True cap None by (auto simp: ord evict_oldest_def)
  next
    case False
    then show ?thesis using q None by auto
  qed
  then obtain ord' t' lost' where s: "?s = Some (ord', t', lost')" "queue_inv n (ord', t', lost')" "tlen t' < mx"
    "tmap t' key = None" by blast
  have inv': "table_inv t'" and room: "tlen t' + 1 < length (slots t')" using s cap by (auto simp: queue_inv_def)
  obtain t'' where t'': "table_insert t' key st = Some (tmap t' key, t'')" "table_inv t''"
    "tmap t'' = (tmap t')(key \<mapsto> st)" "length (slots t'') = length (slots t')"
    "tlen t'' = (if tmap t' key = None then tlen t' + 1 else tlen t')"
    by (rule table_insert_inv [OF inv' room])
  have "key \<notin> set ord'" using s by (auto simp: queue_inv_def)
  then have "queue_inv n (ord' @ [key], t'', lost')" using s t'' st by (auto simp: queue_inv_def)
  then show ?thesis using s t'' None inv by (auto simp: admit_def)
qed

text \<open>The object a symbol belongs to: the one in flight under its key, or the fresh one the guards allow.\<close>

definition target :: "FecReassembler \<Rightarrow> u64 \<Rightarrow> Symbol \<Rightarrow> nat \<Rightarrow> nat \<Rightarrow> Scheme \<Rightarrow> nat \<Rightarrow> ObjState" where
  "target r key symbol k sy scheme e =
     (case tmap (objects r) key of None \<Rightarrow> new_object k sy (object_size symbol) scheme e | Some old \<Rightarrow> old)"

lemma push_guard_cases:
  assumes inv: "reasm_inv r"
  obtains "push_guard r key symbol = Some None"
  | idx scheme k sy where "push_guard r key symbol = Some (Some (idx, scheme, k, sy))"
      "parse_payload_id (payload_id symbol) = Some (idx, scheme)"
      "\<And>e. obj_wf (target r key symbol k sy scheme e) \<and> wire_ok (target r key symbol k sy scheme e) idx symbol \<and>
        obj_size (target r key symbol k sy scheme e) = object_size symbol \<and>
        (scheme = Pq \<longrightarrow> unat idx < obj_k (target r key symbol k sy scheme e) + 2)"
proof (cases "push_guard r key symbol = Some None")
  case True
  then show thesis using that by blast
next
  case False
  let ?sz = "unat (object_size symbol)" and ?sy = "unat (re_symbol_size r)"
  have tab: "table_get (objects r) key = Some (tmap (objects r) key)" using inv by (simp add: reasm_inv_def)
  have "?sz \<noteq> 0" "\<not> object_size symbol > MAX_OBJECT_SIZE" "?sy \<noteq> 0"
    using False by (auto simp: push_guard_def unat_eq_zero split: if_splits)
  then have sz: "0 < ?sz" "?sz \<le> 262144" "0 < ?sy"
    by (simp_all add: MAX_OBJECT_SIZE_def word_less_nat_alt not_less)
  obtain idx scheme where pid: "parse_payload_id (payload_id symbol) = Some (idx, scheme)" "unat idx < 255"
    using False by (auto simp: push_guard_def split: if_splits option.splits)
  show thesis
  proof (cases "tmap (objects r) key")
    case None
    let ?k = "div_ceil ?sz ?sy"
    have k: "?k < 255" using False pid tab None sz
      by (auto simp: push_guard_def source_count_def Let_def split: if_splits)
    note g = geometry_new [OF sz k] and w = expected_wire_len_new [OF sz k, of "unat idx"]
    have "push_guard r key symbol = Some (Some (idx, scheme, ?k, ?sy)) \<and>
        length (sym_data symbol) = wire_len ?k (min ?sz ?sy) ?sz (unat idx) \<and> (scheme = Pq \<longrightarrow> unat idx < ?k + 2)"
      using False pid tab None sz w k by (auto simp: push_guard_def source_count_def Let_def not_le split: if_splits)
    then show thesis using that(2) [of idx scheme ?k ?sy] new_object_wf [OF g] pid None
      by (simp add: target_def wire_ok_def new_object_def Let_def)
  next
    case (Some old)
    have wf: "obj_wf old" using inv Some by (auto simp: reasm_inv_def)
    then have g: "geometry (obj_k old) (shard_len old) (unat (obj_size old))" by (simp add: obj_wf_def)
    note w = expected_wire_len_existing [OF g, of "unat idx"]
    have "push_guard r key symbol = Some (Some (idx, scheme, obj_k old, shard_len old)) \<and>
        obj_size old = object_size symbol \<and> (scheme = Pq \<longrightarrow> unat idx < obj_k old + 2) \<and>
        length (sym_data symbol) = wire_len (obj_k old) (shard_len old) ?sz (unat idx)"
      using False pid tab Some w geometryD(1,2) [OF g] by (auto simp: push_guard_def not_le split: if_splits)
    then show thesis using that(2) [of idx scheme "obj_k old" "shard_len old"] pid Some wf
      by (simp add: target_def wire_ok_def)
  qed
qed

lemma push_accepted:
  assumes inv: "reasm_inv r" and g: "push_guard r key symbol = Some (Some (idx, scheme, k, sy))"
    and t: "obj_wf (target r key symbol k sy scheme (sat_add now dl))"
    and i: "ingest p (target r key symbol k sy scheme (sat_add now dl)) idx scheme symbol now = Some (res, st', lp)"
    and wf: "obj_wf st'"
  shows "\<exists>r'. push p r key symbol now dl = Some (res, r') \<and> reasm_inv r' \<and> tmap (objects r') key = Some st' \<and>
    max_objects r' = max_objects r \<and> re_symbol_size r' = re_symbol_size r"
proof -
  let ?n = "length (slots (objects r))" and ?e = "sat_add now dl"
  have q: "queue_inv ?n (order r, objects r, unrecoverable_count r)" using inv by (simp add: queue_inv_def reasm_inv_def)
  have cap: "tlen (objects r) \<le> max_objects r" "0 < max_objects r" "2 * max_objects r \<le> ?n"
    using inv by (simp_all add: reasm_inv_def)
  obtain ord' t' lost' where sw: "sweep key now (order r) (objects r) (unrecoverable_count r) = Some (ord', t', lost')"
    and q': "queue_inv ?n (ord', t', lost')" and le: "tlen t' \<le> tlen (objects r)"
    and same: "tmap t' key = tmap (objects r) key"
    using sweep_total [OF q, of key now] by blast
  have le': "tlen t' \<le> max_objects r" using le cap(1) by (rule le_trans)
  let ?new = "new_object k sy (object_size symbol) scheme ?e"
  have "\<exists>ord'' t'' lost''. admit (max_objects r) key ?new (ord', t', lost') = Some (ord'', t'', lost'') \<and>
      queue_inv ?n (ord'', t'', lost'') \<and> tlen t'' \<le> max_objects r \<and> tmap t'' key = Some (target r key symbol k sy scheme ?e)"
  proof (cases "tmap (objects r) key")
    case None
    then show ?thesis using admit_total [OF q' le' cap(2,3), of ?new key] t same by (simp add: target_def)
  next
    case (Some old)
    then show ?thesis using q' le' same by (auto simp: target_def admit_def queue_inv_def)
  qed
  then obtain ord'' t'' lost'' where ad: "admit (max_objects r) key ?new (ord', t', lost') = Some (ord'', t'', lost'')"
    and q'': "queue_inv ?n (ord'', t'', lost'')" and le'': "tlen t'' \<le> max_objects r"
    and tgt: "tmap t'' key = Some (target r key symbol k sy scheme ?e)" by blast
  have inv'': "table_inv t''" using q'' by (simp add: queue_inv_def)
  obtain u where u: "table_set t'' key st' = Some u" "table_inv u" "tmap u = (tmap t'')(key \<mapsto> st')"
    "length (slots u) = length (slots t'')" "tlen u = tlen t''"
    using table_set_inv [OF inv'', of key st'] tgt by auto
  have in_ord: "set ord'' = dom (tmap t'')" "key \<in> dom (tmap t'')" using q'' tgt by (auto simp: queue_inv_def)
  show ?thesis
    using g sw ad inv'' tgt i u cap le'' q'' wf in_ord
    by (auto simp: push_def Let_def reasm_inv_def queue_inv_def)
qed

lemma push_total:
  assumes inv: "reasm_inv r"
  shows "\<exists>res r'. push p r key symbol now dl = Some (res, r') \<and> reasm_inv r' \<and>
    max_objects r' = max_objects r \<and> re_symbol_size r' = re_symbol_size r"
  using inv
proof (cases rule: push_guard_cases [of r key symbol])
  case 1
  then show ?thesis using inv by (auto simp: push_def)
next
  case (2 idx scheme k sy)
  let ?t = "target r key symbol k sy scheme (sat_add now dl)"
  have t: "obj_wf ?t" "wire_ok ?t idx symbol" "scheme = Pq \<longrightarrow> unat idx < obj_k ?t + 2" using 2(3) by blast+
  obtain res st' lp where "ingest p ?t idx scheme symbol now = Some (res, st', lp)" "obj_wf st'"
    using ingest_total [OF t] by blast
  from push_accepted [OF inv 2(1) t(1) this] show ?thesis by blast
qed

section \<open>What the encoder sends\<close>

definition padded :: "bytes \<Rightarrow> nat \<Rightarrow> nat \<Rightarrow> bytes list" where
  "padded ct k L = map (\<lambda>i. block L i (ct @ replicate (k * L - length ct) 0)) [0..<k]"

text \<open>A symbol that carries shard \<open>idx\<close> of \<open>src\<close>: a source shard up to its zero padding, or a repair shard.\<close>

definition carries :: "Scheme \<Rightarrow> bytes list \<Rightarrow> nat \<Rightarrow> nat \<Rightarrow> nat \<Rightarrow> bytes \<Rightarrow> bool" where
  "carries scheme src L sz idx d \<longleftrightarrow>
     length d = wire_len (length src) L sz idx \<and>
     (if idx < length src then splice (replicate L 0) 0 d = src ! idx else is_symbol scheme src L idx d)"

lemma padded_facts:
  assumes "geometry k L (length ct)"
  shows "length (padded ct k L) = k" "\<forall>s \<in> set (padded ct k L). length s = L"
    "concat (padded ct k L) = ct @ replicate (k * L - length ct) 0"
proof -
  note g = geometryD [OF assms]
  let ?out = "ct @ replicate (k * L - length ct) 0"
  have len: "length ?out = k * L" using g(7) by simp
  show 1: "length (padded ct k L) = k" by (simp add: padded_def)
  show "\<forall>s \<in> set (padded ct k L). length s = L"
  proof -
    have "i * L + L \<le> length ?out" if "i < k" for i using block_fits [OF that, of L] len by simp
    then show ?thesis using length_block by (auto simp: padded_def)
  qed
  have "take (k * L) ?out = concat (padded ct k L)"
    by (rule blocks_concat [OF 1]) (simp_all add: len padded_def)
  then show "concat (padded ct k L) = ?out" using len by simp
qed

lemma nth_block: "b < L \<Longrightarrow> i * L + L \<le> length out \<Longrightarrow> block L i out ! b = out ! (i * L + b)"
  by (simp add: block_def)

lemma padded_nth:
  assumes g: "geometry k L (length ct)" and i: "i < k"
  shows "padded ct k L ! i = splice (replicate L 0) 0 (take L (drop (i * L) ct))"
proof (rule nth_equalityI)
  let ?out = "ct @ replicate (k * L - length ct) 0"
  have len: "length ?out = k * L" using geometryD(7) [OF g] by simp
  have fit: "i * L + L \<le> length ?out" using block_fits [OF i, of L "length ?out"] len by simp
  show l: "length (padded ct k L ! i) = length (splice (replicate L 0) 0 (take L (drop (i * L) ct)))"
    using i length_block [OF fit] by (simp add: padded_def)
  fix b assume "b < length (padded ct k L ! i)"
  then have b: "b < L" using i length_block [OF fit] by (simp add: padded_def)
  have "padded ct k L ! i ! b = ?out ! (i * L + b)" using i nth_block [OF b fit] by (simp add: padded_def)
  also have "\<dots> = splice (replicate L 0) 0 (take L (drop (i * L) ct)) ! b"
    using b fit len by (simp add: nth_splice nth_append) linarith
  finally show "padded ct k L ! i ! b = splice (replicate L 0) 0 (take L (drop (i * L) ct)) ! b" .
qed

lemma chunk_length:
  assumes g: "geometry k L sz" and i: "i < k" and len: "length ct = sz"
  shows "length (take L (drop (i * L) ct)) = wire_len k L sz i"
proof (cases "i = k - 1")
  case True
  have "k * L = (k - 1) * L + L" using geometryD(1) [OF g] by (cases k) simp_all
  then show ?thesis using True geometryD(7) [OF g] len by (simp add: wire_len_def)
next
  case False
  then have "i * L + L \<le> (k - 1) * L" using i block_fits [of i "k - 1" L "(k - 1) * L"] by simp
  then show ?thesis using False geometryD(6) [OF g] len by (simp add: wire_len_def)
qed

lemma source_eq_padded:
  assumes "0 < length ct" "length ct \<le> 262144" "0 < sy" "div_ceil (length ct) sy < 255" "k = div_ceil (length ct) sy"
  shows "(if k = 1 then [ct] else split_source ct k sy) = padded ct k (min (length ct) sy)"
proof -
  have g: "geometry k (min (length ct) sy) (length ct)" using geometry_new [OF assms(1-4)] assms(5) by simp
  show ?thesis
  proof (cases "k = 1")
    case True
    then have "min (length ct) sy = length ct" using geometryD(4,7) [OF g] by simp
    then show ?thesis using True by (simp add: padded_def block_def)
  next
    case False
    then have ge: "1 < k" using geometryD(1) [OF g] by simp
    then have "min (length ct) sy = sy" using assms(5) div_ceil_gt_iff [OF assms(3), of 1] by simp
    note gs = g [unfolded this]
    have "split_source ct k sy ! i = padded ct k sy ! i" if "i < k" for i
    proof -
      have "i * sy < length ct"
        by (rule le_less_trans [OF mult_le_mono1 geometryD(6) [OF gs]]) (use that in simp)
      then show ?thesis
        using that padded_nth [OF gs that] by (simp add: split_source_def Let_def min_def)
    qed
    then show ?thesis
      using False \<open>min (length ct) sy = sy\<close> padded_facts(1) [OF gs]
      by (simp add: split_source_def list_eq_iff_nth_eq)
  qed
qed

lemma build_symbols:
  fixes ct :: bytes and params :: flow_params and repair :: nat
  defines "sy \<equiv> unat (symbol_size params)"
  defines "k \<equiv> div_ceil (length ct) sy"
  defines "L \<equiv> min (length ct) sy" and "r \<equiv> min repair (255 - k)"
  defines "sch \<equiv> scheme_for (arq params) r"
  assumes ct: "0 < length ct" "length ct \<le> 262144" "0 < sy" "k < 255"
  obtains d where
    "build p ct params oid repair = Some (map (\<lambda>i. mk_symbol oid (of_nat (length ct)) (to_u8 sch) i (d i)) [0..<k + r])"
    "\<And>i. i < k + r \<Longrightarrow> carries sch (padded ct k L) L (length ct) i (d i)"
proof -
  let ?src = "padded ct k L" and ?sz = "of_nat (length ct) :: u32"
  have sz: "unat ?sz = length ct" using ct(2) by (simp add: unat_of_nat)
  have g: "geometry k L (length ct)" using geometry_new [OF ct(1-3)] ct(4) by (simp add: k_def L_def)
  note pf = padded_facts [OF g]
  have src: "(if k = 1 then [ct] else split_source ct k sy) = ?src"
    unfolding L_def by (rule source_eq_padded) (use ct k_def in simp_all)
  have valid: "valid_idx sch (length ?src) (length ?src + m)" if "m < r" for m
    using that pf(1) by (auto simp: valid_idx_def sch_def scheme_for_def r_def)
  have ne: "?src \<noteq> []" using pf(1) geometryD(1) [OF g] by auto
  obtain reps where reps: "encode_repair p ?src r sch = Some reps" "length reps = r"
    "\<And>m. m < r \<Longrightarrow> is_symbol sch ?src L (length ?src + m) (reps ! m)"
    using encode_repair_symbols [OF ne pf(2) valid] by blast
  define d where "d i = (if i < k then take L (drop (i * L) ct) else reps ! (i - k))" for i
  have carries: "carries sch ?src L (length ct) i (d i)" if "i < k + r" for i
  proof (cases "i < k")
    case True
    then show ?thesis using padded_nth [OF g True] chunk_length [OF g True refl] pf(1) by (simp add: carries_def d_def)
  next
    case False
    then have "is_symbol sch ?src L i (d i)" using reps(3) [of "i - k"] that pf(1) by (simp add: d_def)
    then show ?thesis using False pf(1) geometryD(1) [OF g] by (auto simp: carries_def wire_len_def is_symbol_def)
  qed
  have L1: "L = length ct" if "k = 1" using geometryD(4,7) [OF g] that by simp
  have Lk: "L = sy" if "k \<noteq> 1"
    using that geometryD(1) [OF g] div_ceil_gt_iff [of sy 1 "length ct"] ct(3) by (simp add: L_def k_def)
  have take_src: "take (length ct - (k - 1) * sy) (?src ! (k - 1)) = d (k - 1)" if "k \<noteq> 1"
    using padded_nth [OF g, of "k - 1"] chunk_length [OF g _ refl, of "k - 1"] geometryD(1) [OF g] Lk [OF that]
    by (simp add: d_def splice_def wire_len_def)
  have full: "?src ! i = d i" if "i < k" "i \<noteq> k - 1" for i
    using padded_nth [OF g that(1)] chunk_length [OF g that(1) refl] that
    by (simp add: d_def splice_def wire_len_def)
  have sources: "(if k = 1 then [mk_symbol oid ?sz (to_u8 sch) 0 ct]
      else map (\<lambda>i. mk_symbol oid ?sz (to_u8 sch) i
        (if i = k - 1 then take (length ct - (k - 1) * sy) (?src ! i) else ?src ! i)) [0..<k]) =
      map (\<lambda>i. mk_symbol oid ?sz (to_u8 sch) i (d i)) [0..<k]"
    using L1 take_src full by (auto simp: d_def)
  have sc: "source_count ?sz (symbol_size params) = k" using ct(3) sz by (simp add: source_count_def k_def sy_def)
  have "build p ct params oid repair = Some (map (\<lambda>i. mk_symbol oid ?sz (to_u8 sch) i (d i)) [0..<k] @
      map (\<lambda>m. mk_symbol oid ?sz (to_u8 sch) (k + m) (reps ! m)) [0..<r])"
    using ct(2-4) reps(1,2) geometryD(1) [OF g]
    unfolding build_def Let_def sc sz sy_def [symmetric] r_def [symmetric] sch_def [symmetric] src sources
    by (simp split del: if_split) auto
  also have "map (\<lambda>m. mk_symbol oid ?sz (to_u8 sch) (k + m) (reps ! m)) [0..<r] =
      map (\<lambda>i. mk_symbol oid ?sz (to_u8 sch) i (d i)) [k..<k + r]"
    by (rule nth_equalityI) (simp_all add: d_def)
  also have "map (\<lambda>i. mk_symbol oid ?sz (to_u8 sch) i (d i)) [0..<k] @
      map (\<lambda>i. mk_symbol oid ?sz (to_u8 sch) i (d i)) [k..<k + r] =
      map (\<lambda>i. mk_symbol oid ?sz (to_u8 sch) i (d i)) [0..<k + r]"
    unfolding map_append [symmetric] by (simp only: upt_add_eq_append [of 0 k r, simplified])
  finally show thesis using that [of d] carries by blast
qed

end
