(* ===== verification/Fec_Roundtrip.thy ===== *)
theory Fec_Roundtrip
  imports Fec_Correct
begin

text \<open>
  The end-to-end behaviour of the forward error correction of \<^verbatim>\<open>crates/yip-transport/src/fec.rs\<close>: what
  the reassembler returns when it is fed symbols the encoder produced, in any order and with
  repetitions, against the specification that a frame is delivered when, and only when, the \<open>K\<close>-th
  distinct symbol of its object arrives.
\<close>

section \<open>Objects that hold genuine shards\<close>

definition genuine :: "Scheme \<Rightarrow> bytes list \<Rightarrow> ObjState \<Rightarrow> bool" where
  "genuine scheme src st \<longleftrightarrow>
     obj_scheme st = scheme \<and> length src = obj_k st \<and> (\<forall>s \<in> set src. length s = shard_len st) \<and>
     (\<not> obj_done st \<longrightarrow>
       (\<forall>i < obj_k st. block (shard_len st) i (payload st) =
          (if i \<in> seen_set (seen_mask st) then src ! i else replicate (shard_len st) 0)) \<and>
       (\<forall>(i, bs) \<in> set (repair_shards st). is_symbol scheme src (shard_len st) (unat i) bs))"

lemma block_splice_short:
  assumes "length d \<le> L" "i * L + L \<le> length out" "j * L + L \<le> length out"
  shows "block L j (splice out (i * L) d) = (if i = j then splice (block L i out) 0 d else block L j out)"
proof (rule nth_equalityI)
  show "length (block L j (splice out (i * L) d)) = length (if i = j then splice (block L i out) 0 d else block L j out)"
    using assms by (simp add: length_block)
  fix b assume "b < length (block L j (splice out (i * L) d))"
  then have b: "b < L" using assms by (simp add: length_block)
  have "\<not> (i * L \<le> j * L + b \<and> j * L + b < i * L + length d)" if "i \<noteq> j"
  proof (cases "i < j")
    case True
    then have "i * L + L \<le> j * L" using block_fits [of i j L] by simp
    then show ?thesis using assms(1) by simp
  next
    case False
    then have "j * L + L \<le> i * L" using block_fits [of j i L] that by simp
    then show ?thesis using b by simp
  qed
  then show "block L j (splice out (i * L) d) ! b = (if i = j then splice (block L i out) 0 d else block L j out) ! b"
    using assms b by (auto simp: nth_block nth_splice length_block)
qed

lemma store_shard_genuine:
  assumes wf: "length (seen_mask st) = 4" "geometry (obj_k st) (shard_len st) (unat (obj_size st))" and c: "collecting st"
    and gen: "genuine scheme src st" "\<not> obj_done st" and new: "unat idx \<notin> seen_set (seen_mask st)" "unat idx < 255"
    and car: "carries scheme src (shard_len st) (unat (obj_size st)) (unat idx) d"
    and st': "store_shard st idx d = Some st'"
  shows "genuine scheme src st'"
proof -
  let ?k = "obj_k st" and ?L = "shard_len st" and ?S = "seen_set (seen_mask st)"
  have k: "length src = ?k" using gen by (simp add: genuine_def)
  have mark: "seen_set (mark_seen (seen_mask st) idx) = insert (unat idx) ?S"
    using seen_set_mark [OF wf(1)] new by simp
  show ?thesis
  proof (cases "unat idx < ?k")
    case True
    have fits: "j * ?L + ?L \<le> length (payload st)" if "j < ?k" for j
      using block_fits [OF that, of ?L "length (payload st)"] c by (simp add: collecting_def)
    have d: "length d \<le> ?L" using car wire_len_le [OF wf(2)] k by (simp add: carries_def)
    have "block ?L j (splice (payload st) (unat idx * ?L) d) =
        (if j \<in> insert (unat idx) ?S then src ! j else replicate ?L 0)" if "j < ?k" for j
      using block_splice_short [OF d fits [OF True] fits [OF that]] that gen new(1) car True k
      by (auto simp: genuine_def carries_def)
    then show ?thesis
      using st' True d fits [OF True] gen mark
      by (auto simp: store_shard_def Let_def genuine_def min_def)
  next
    case False
    then have sy: "is_symbol scheme src ?L (unat idx) d" using car k by (simp add: carries_def)
    then have "length d = ?L" by (simp add: is_symbol_def)
    moreover have "j \<noteq> unat idx" if "j < ?k" for j using that False by auto
    ultimately show ?thesis
      using st' False gen mark sy by (auto simp: store_shard_def Let_def genuine_def)
  qed
qed

lemma complete_genuine:
  assumes c: "collecting st" "length (seen_mask st) = 4" "geometry (obj_k st) (shard_len st) (unat (obj_size st))"
    and full: "obj_k st \<le> total_count st" and gen: "genuine scheme src st" "\<not> obj_done st"
  shows "\<exists>st' lp. complete p st n = Some (Some (take n (concat src)), st', lp) \<and> obj_wf st' \<and> obj_done st' \<and>
    same_object st st' \<and> genuine scheme src st'"
proof -
  let ?k = "obj_k st" and ?L = "shard_len st" and ?S = "seen_set (seen_mask st)"
  note g = geometryD [OF c(3)]
  have src: "length src = ?k" "\<forall>s \<in> set src. length s = ?L" and sch: "obj_scheme st = scheme"
    using gen by (simp_all add: genuine_def)
  have blocks: "block ?L i (payload st) = src ! i" if "i < ?k" "i \<in> ?S" for i
    using gen that by (simp add: genuine_def)
  have pl: "length (payload st) = ?k * ?L" using c(1) by (simp add: collecting_def)
  have fast: "payload st = concat src" if "src_count st = ?k"
  proof -
    have "card (?S \<inter> {..<?k}) = card {..<?k}" using that c(1) by (simp add: collecting_def)
    then have "?S \<inter> {..<?k} = {..<?k}" by (intro card_subset_eq) auto
    then have "take (?k * ?L) (payload st) = concat src" using blocks pl src(1) by (intro blocks_concat) auto
    then show ?thesis using pl by simp
  qed
  have seen: "\<forall>i<?k. mask_bit (seen_mask st) i \<longrightarrow> block ?L i (payload st) = src ! i"
    using blocks g(2) c(2) by (simp add: seen_set_def mask_bit_iff)
  have reps: "distinct (map fst (repair_shards st))"
    "\<And>i bs. (i, bs) \<in> set (repair_shards st) \<Longrightarrow>
       ?k \<le> unat i \<and> valid_idx scheme ?k (unat i) \<and> is_symbol scheme src ?L (unat i) bs"
    using c(1) gen sch collecting_repairs [OF c(1)] by (auto simp: collecting_def genuine_def)
  have enough: "?k \<le> length (filter (mask_bit (seen_mask st)) [0..<?k]) + length (repair_shards st)"
    using collecting_enough [OF c(1,2) full] g(2) by simp
  have rec: "reconstruct_missing_sources p ?k ?L (payload st) (seen_mask st) (repair_shards st) scheme =
      Some (Some (concat src @ drop (?k * ?L) (payload st)))"
    by (rule reconstruct_recovers [OF _ g(8) src _ seen reps enough]) (use g(2) pl in simp_all)
  show ?thesis
    using c gen fast rec pl sch by (auto simp: complete_def Let_def obj_wf_def same_object_def genuine_def)
qed

text \<open>The object of a frame \<open>ct\<close> after the set \<open>S\<close> of its symbols has arrived.\<close>

definition tracks :: "Scheme \<Rightarrow> bytes \<Rightarrow> nat \<Rightarrow> nat \<Rightarrow> nat \<Rightarrow> nat set \<Rightarrow> ObjState \<Rightarrow> bool" where
  "tracks scheme ct k L e S st \<longleftrightarrow>
     obj_wf st \<and> genuine scheme (padded ct k L) st \<and> obj_k st = k \<and> shard_len st = L \<and>
     unat (obj_size st) = length ct \<and> expires_at_ms st = e \<and> finite S \<and>
     (obj_done st \<longleftrightarrow> k \<le> card S) \<and> (\<not> obj_done st \<longrightarrow> seen_set (seen_mask st) = S)"

lemma tracks_new:
  assumes "geometry k L (length ct)" "unat osize = length ct" "L = min (length ct) sy"
  shows "tracks scheme ct k L e {} (new_object k sy osize scheme e)"
proof -
  note g = geometryD [OF assms(1)]
  let ?st = "new_object k sy osize scheme e"
  have st: "payload ?st = replicate (k * L) 0" "seen_mask ?st = [0, 0, 0, 0]" "obj_k ?st = k" "shard_len ?st = L"
    "obj_size ?st = osize" "obj_scheme ?st = scheme" "\<not> obj_done ?st" "expires_at_ms ?st = e" "repair_shards ?st = []"
    using g(8) assms(2,3) by (simp_all add: new_object_def Let_def checked_mul_def)
  have wf: "obj_wf ?st" using new_object_wf assms by simp
  have "block L i (replicate (k * L) 0) = replicate L 0" if "i < k" for i
    using block_fits [OF that, of L "k * L"] by (simp add: block_def)
  then have "genuine scheme (padded ct k L) ?st"
    unfolding genuine_def st using padded_facts(1,2) [OF assms(1)] by simp
  then show ?thesis unfolding tracks_def using st wf g(1) assms(2) by simp
qed

lemma ingest_tracks:
  assumes t: "tracks scheme ct k L e S st" and now: "now \<le> e" and i: "unat idx < 255" "scheme = Pq \<longrightarrow> unat idx < k + 2"
    and car: "carries scheme (padded ct k L) L (length ct) (unat idx) (sym_data symbol)"
    and sz: "unat (object_size symbol) = length ct"
  shows "\<exists>st' lp. tracks scheme ct k L e (insert (unat idx) S) st' \<and>
    ingest p st idx scheme symbol now =
      Some (if unat idx \<notin> S \<and> card (insert (unat idx) S) = k then Some ct else None, st', lp)"
proof (cases "obj_done st \<or> unat idx \<in> S")
  case True
  have fin: "finite S" using t by (simp add: tracks_def)
  have "\<not> (unat idx \<notin> S \<and> card (insert (unat idx) S) = k)" using True t fin by (auto simp: tracks_def)
  moreover have "k \<le> card S \<Longrightarrow> k \<le> card (insert (unat idx) S)" using fin by (simp add: card_insert_if)
  moreover have "\<not> obj_done st \<Longrightarrow> insert (unat idx) S = S" using True by auto
  ultimately show ?thesis
    using True t now by (auto simp: ingest_def tracks_def genuine_def is_seen_iff)
next
  case False
  let ?src = "padded ct k L"
  have wf: "length (seen_mask st) = 4" "geometry (obj_k st) (shard_len st) (unat (obj_size st))" "collecting st"
    and gen: "genuine scheme ?src st" and eqs: "obj_k st = k" "shard_len st = L" "unat (obj_size st) = length ct"
    and S: "seen_set (seen_mask st) = S" "finite S" "card S < k"
    using t False by (auto simp: tracks_def obj_wf_def not_le)
  have g: "geometry k L (length ct)" using wf(2) eqs by simp
  have new: "unat idx \<notin> seen_set (seen_mask st)" using False S by simp
  have k: "length ?src = k" using padded_facts [OF g] by simp
  have len: "length (sym_data symbol) = wire_len (obj_k st) (shard_len st) (unat (obj_size st)) (unat idx)"
    using car k eqs by (simp add: carries_def)
  have sch: "obj_scheme st = scheme" using gen by (simp add: genuine_def)
  have i2: "obj_scheme st = Pq \<longrightarrow> unat idx < obj_k st + 2" using i(2) sch eqs(1) by simp
  obtain st' where st': "store_shard st idx (sym_data symbol) = Some st'" "collecting st'" "length (seen_mask st') = 4"
    "seen_set (seen_mask st') = insert (unat idx) S" "obj_k st' = k" "shard_len st' = L" "obj_size st' = obj_size st"
    "\<not> obj_done st'" "expires_at_ms st' = e"
    using store_shard_collecting [OF wf new i(1) i2 len] S eqs t False by (auto simp: tracks_def)
  have gen': "genuine scheme ?src st'"
    using store_shard_genuine [OF wf gen _ new i(1) _ st'(1)] False car eqs by simp
  have tot: "total_count st' = card (insert (unat idx) S)" using st'(2,4) by (simp add: collecting_def)
  have ing: "ingest p st idx scheme symbol now =
      (if total_count st' < k then Some (None, st', False) else complete p st' (length ct))"
    using False now t sch st'(1,5) sz S(1) by (simp add: ingest_def is_seen_iff tracks_def)
  have g': "geometry (obj_k st') (shard_len st') (unat (obj_size st'))" using g st' eqs by simp
  show ?thesis
  proof (cases "total_count st' < k")
    case True
    then have "tracks scheme ct k L e (insert (unat idx) S) st'"
      using st' gen' g' tot S eqs by (simp add: tracks_def obj_wf_def)
    then show ?thesis using True ing tot by auto
  next
    case full: False
    then have ge: "obj_k st' \<le> total_count st'" and eq: "card (insert (unat idx) S) = k"
      using st'(5) tot S False by (auto simp: card_insert_if)
    have ct: "take (length ct) (concat ?src) = ct" using padded_facts(3) [OF g] by simp
    obtain st'' lp where "complete p st' (length ct) = Some (Some ct, st'', lp)" "obj_wf st''" "obj_done st''"
      "same_object st' st''" "genuine scheme ?src st''"
      using complete_genuine [OF st'(2,3) g' ge gen' st'(8), of p "length ct"] ct by auto
    then show ?thesis using ing full eq False S st' eqs by (auto simp: tracks_def same_object_def)
  qed
qed

lemma parse_pack_payload_id: "parse_payload_id (pack_payload_id i (to_u8 s)) = Some (i, s)"
proof -
  obtain a b where ab: "be16 i = [a, b]" using length_be16 [of i] by (cases "be16 i"; cases "tl (be16 i)") auto
  then have "un16 [a, b] = i" using un16_be16 [of i] by simp
  then show ?thesis using ab by (cases s) (simp_all add: parse_payload_id_def pack_payload_id_def CODEC_RS_V1_def from_u8_def SCHEME_CAUCHY_def SCHEME_PQ_def)
qed

lemma push_guard_tracks:
  assumes inv: "reasm_inv r" and g: "geometry k L (length ct)" "k = div_ceil (length ct) sy" "L = min (length ct) sy"
    and sy: "sy = unat (re_symbol_size r)" "0 < sy"
    and car: "carries scheme (padded ct k L) L (length ct) i d" "i < 255" "scheme = Pq \<longrightarrow> i < k + 2"
    and old: "\<And>st. tmap (objects r) key = Some st \<Longrightarrow> tracks scheme ct k L e S st"
  shows "\<exists>sy'. push_guard r key (mk_symbol oid (of_nat (length ct)) (to_u8 scheme) i d) = Some (Some (of_nat i, scheme, k, sy')) \<and>
    (tmap (objects r) key = None \<longrightarrow> sy' = sy)"
proof -
  let ?s = "mk_symbol oid (of_nat (length ct)) (to_u8 scheme) i d"
  note gd = geometryD [OF g(1)]
  have sz: "unat (of_nat (length ct) :: u32) = length ct" using gd(5) by (simp add: unat_of_nat)
  have nz: "object_size ?s \<noteq> 0" "\<not> object_size ?s > MAX_OBJECT_SIZE" "re_symbol_size r \<noteq> 0"
    using sz gd(4,5) gd(3) sy by (auto simp: mk_symbol_def MAX_OBJECT_SIZE_def word_less_nat_alt unat_eq_zero)
  have pid: "parse_payload_id (payload_id ?s) = Some (of_nat i, scheme)" "unat (of_nat i :: u16) = i"
    using car(2) by (simp_all add: mk_symbol_def parse_pack_payload_id unat_of_nat)
  have tab: "table_get (objects r) key = Some (tmap (objects r) key)" using inv by (simp add: reasm_inv_def)
  have len: "length d = wire_len k L (length ct) i" using car(1) padded_facts(1) [OF g(1)] by (simp add: carries_def)
  have s: "object_size ?s = of_nat (length ct)" "sym_data ?s = d" by (simp_all add: mk_symbol_def)
  show ?thesis
  proof (cases "tmap (objects r) key")
    case None
    have "expected_wire_len k sy (length ct) i = Some (wire_len k L (length ct) i)"
      using expected_wire_len_new [of "length ct" sy i] gd sy g(2,3) by simp
    moreover have "source_count (of_nat (length ct)) (re_symbol_size r) = k"
      using sz sy g(2) by (simp add: source_count_def)
    ultimately show ?thesis
      using None nz pid tab len car(2,3) gd(1,2) sy(1) sz by (simp add: push_guard_def s not_le)
  next
    case (Some st)
    have t: "obj_k st = k" "shard_len st = L" "obj_size st = of_nat (length ct)"
      using old [OF Some] sz by (simp_all add: tracks_def word_unat_eq_iff)
    show ?thesis
      using Some nz pid tab len car(2,3) gd(1,2) expected_wire_len_existing [OF g(1), of i] t sz
      by (simp add: push_guard_def s not_le)
  qed
qed

definition tracked :: "Scheme \<Rightarrow> bytes \<Rightarrow> nat \<Rightarrow> nat \<Rightarrow> nat \<Rightarrow> nat set \<Rightarrow> u64 \<Rightarrow> FecReassembler \<Rightarrow> bool" where
  "tracked scheme ct k L e S key r \<longleftrightarrow>
     reasm_inv r \<and> (\<exists>st. tmap (objects r) key = Some st \<and> tracks scheme ct k L e S st)"

lemma push_tracked:
  assumes inv: "reasm_inv r" and g: "geometry k L (length ct)" "k = div_ceil (length ct) sy" "L = min (length ct) sy"
    and sy: "sy = unat (re_symbol_size r)" "0 < sy"
    and car: "carries scheme (padded ct k L) L (length ct) i d" "i < 255" "scheme = Pq \<longrightarrow> i < k + 2"
    and now: "now \<le> e"
    and st: "tmap (objects r) key = None \<and> S = {} \<and> e = sat_add now dl \<or> tracked scheme ct k L e S key r"
  shows "\<exists>r'. push p r key (mk_symbol oid (of_nat (length ct)) (to_u8 scheme) i d) now dl =
      Some (if i \<notin> S \<and> card (insert i S) = k then Some ct else None, r') \<and>
    tracked scheme ct k L e (insert i S) key r' \<and> re_symbol_size r' = re_symbol_size r"
proof -
  let ?s = "mk_symbol oid (of_nat (length ct)) (to_u8 scheme) i d"
  have old: "tracks scheme ct k L e S st'" if "tmap (objects r) key = Some st'" for st'
    using st that by (auto simp: tracked_def)
  obtain sy' where pg: "push_guard r key ?s = Some (Some (of_nat i, scheme, k, sy'))"
    "tmap (objects r) key = None \<Longrightarrow> sy' = sy"
    using push_guard_tracks [OF inv g sy car old] by blast
  let ?t = "target r key ?s k sy' scheme (sat_add now dl)"
  have sz: "unat (object_size ?s) = length ct" using geometryD(5) [OF g(1)] by (simp add: mk_symbol_def unat_of_nat)
  have t: "tracks scheme ct k L e S ?t"
  proof (cases "tmap (objects r) key")
    case None
    then have "S = {}" "e = sat_add now dl" using st by (auto simp: tracked_def)
    then show ?thesis using tracks_new [OF g(1) sz g(3)] pg(2) [OF None] None by (simp add: target_def)
  next
    case (Some st')
    then show ?thesis using old by (simp add: target_def)
  qed
  have i: "unat (of_nat i :: u16) = i" using car(2) by (simp add: unat_of_nat)
  obtain st' lp where st': "tracks scheme ct k L e (insert i S) st'"
    "ingest p ?t (of_nat i) scheme ?s now = Some (if i \<notin> S \<and> card (insert i S) = k then Some ct else None, st', lp)"
    using ingest_tracks [OF t now, of "of_nat i" ?s p] car sz unfolding i by (auto simp: mk_symbol_def)
  have wf: "obj_wf ?t" "obj_wf st'" using t st'(1) by (auto simp: tracks_def)
  show ?thesis using push_accepted [OF inv pg(1) wf(1) st'(2) wf(2)] st'(1) by (auto simp: tracked_def)
qed

section \<open>Feeding a reassembler\<close>

text \<open>The calls \<open>push\<close> makes of one object for a sequence of symbols and arrival times, and the specification
  of what they return: nothing, except for the arrival that makes the number of distinct symbols \<open>k\<close>.\<close>

fun feed :: "cpu \<Rightarrow> FecReassembler \<Rightarrow> u64 \<Rightarrow> nat \<Rightarrow> (Symbol \<times> nat) list \<Rightarrow> (bytes option list \<times> FecReassembler) exec" where
  "feed p r key dl [] = Some ([], r)"
| "feed p r key dl ((symbol, now) # rest) =
     (case push p r key symbol now dl of
        None \<Rightarrow> None
      | Some (res, r') \<Rightarrow> map_option (\<lambda>(out, r''). (res # out, r'')) (feed p r' key dl rest))"

fun deliveries :: "nat \<Rightarrow> bytes \<Rightarrow> nat set \<Rightarrow> nat list \<Rightarrow> bytes option list" where
  "deliveries k frame S [] = []"
| "deliveries k frame S (i # is) =
     (if i \<notin> S \<and> card (insert i S) = k then Some frame else None) # deliveries k frame (insert i S) is"

lemma feed_tracked:
  assumes "geometry k L (length ct)" "k = div_ceil (length ct) sy" "L = min (length ct) sy" "0 < sy"
    and "\<And>i. i < n \<Longrightarrow> carries scheme (padded ct k L) L (length ct) i (d i) \<and> i < 255 \<and> (scheme = Pq \<longrightarrow> i < k + 2)"
    and "\<forall>(i, now) \<in> set arr. i < n \<and> now \<le> e" "sy = unat (re_symbol_size r)" "reasm_inv r"
    and "tmap (objects r) key = None \<and> S = {} \<and> (arr \<noteq> [] \<longrightarrow> e = sat_add (snd (hd arr)) dl) \<or> tracked scheme ct k L e S key r"
  shows "\<exists>r'. feed p r key dl (map (\<lambda>(i, now). (mk_symbol oid (of_nat (length ct)) (to_u8 scheme) i (d i), now)) arr) =
      Some (deliveries k ct S (map fst arr), r') \<and> reasm_inv r'"
  using assms(6-)
proof (induction arr arbitrary: r S)
  case (Cons a arr)
  obtain i now where a: "a = (i, now)" by (cases a)
  have i: "i < n" "now \<le> e" using Cons.prems(1) a by auto
  have c: "carries scheme (padded ct k L) L (length ct) i (d i)" "i < 255" "scheme = Pq \<longrightarrow> i < k + 2"
    using assms(5) [OF i(1)] by blast+
  have st: "tmap (objects r) key = None \<and> S = {} \<and> e = sat_add now dl \<or> tracked scheme ct k L e S key r"
    using Cons.prems(4) a by simp
  obtain r' where r': "push p r key (mk_symbol oid (of_nat (length ct)) (to_u8 scheme) i (d i)) now dl =
      Some (if i \<notin> S \<and> card (insert i S) = k then Some ct else None, r')"
    "tracked scheme ct k L e (insert i S) key r'" "re_symbol_size r' = re_symbol_size r"
    using push_tracked [OF Cons.prems(3) assms(1-3) Cons.prems(2) assms(4) c i(2) st] by blast
  have inv': "reasm_inv r'" using r'(2) by (simp add: tracked_def)
  obtain r'' where "feed p r' key dl (map (\<lambda>(i, now). (mk_symbol oid (of_nat (length ct)) (to_u8 scheme) i (d i), now)) arr) =
      Some (deliveries k ct (insert i S) (map fst arr), r'')" "reasm_inv r''"
    using Cons.IH [of r' "insert i S"] Cons.prems(1,2) r'(2,3) inv' by auto
  then show ?case using r'(1) a by auto
qed simp

section \<open>Reachable reassemblers\<close>

inductive reasm_reach :: "FecReassembler \<Rightarrow> bool" where
  start: "reasm_reach (reassembler_new ssize c)"
| resize: "reasm_reach r \<Longrightarrow> reasm_reach (set_symbol_size r ssize)"
| pushed: "reasm_reach r \<Longrightarrow> push p r key symbol now dl = Some (res, r') \<Longrightarrow> reasm_reach r'"

lemma reach_inv: "reasm_reach r \<Longrightarrow> reasm_inv r"
proof (induction rule: reasm_reach.induct)
  case (start ssize c)
  show ?case by (rule reassembler_new_inv)
next
  case (resize r ssize)
  then show ?case by (simp add: reasm_inv_def set_symbol_size_def)
next
  case (pushed r p key symbol now dl res r')
  then show ?case using push_total [of r p key symbol now dl] by auto
qed

lemma feed_reach: "reasm_reach r \<Longrightarrow> feed p r key dl xs = Some (out, r') \<Longrightarrow> reasm_reach r'"
proof (induction xs arbitrary: r out)
  case (Cons x xs)
  obtain symbol now where x: "x = (symbol, now)" by (cases x)
  obtain res r1 out' where r1: "push p r key symbol now dl = Some (res, r1)" "feed p r1 key dl xs = Some (out', r')"
    using Cons.prems(2) x by (auto split: option.splits)
  show ?case using Cons.IH [OF reasm_reach.pushed [OF Cons.prems(1) r1(1)] r1(2)] .
qed simp

text \<open>An object that expires and is then hit by one of its own symbols is closed without being counted, and
  the later sweep that removes it does not count it either.\<close>

lemma expired_on_own_symbol_uncounted:
  assumes inv: "reasm_inv r" and st: "tmap (objects r) key = Some st" "\<not> obj_done st" "expires_at_ms st < now"
    and g: "push_guard r key symbol = Some (Some (idx, scheme, k, sy))" and ord: "order r = key # rest"
    and other: "other \<noteq> key"
  shows "\<exists>r' t. push p r key symbol now dl = Some (None, r') \<and> unrecoverable_count r' = unrecoverable_count r \<and>
    order r' = key # rest \<and> (\<forall>now' c. sweep other now' (order r') (objects r') c = sweep other now' rest t c)"
proof -
  let ?st' = "st\<lparr>obj_done := True, payload := [], repair_shards := []\<rparr>"
  have tab: "table_inv (objects r)" using inv by (simp add: reasm_inv_def)
  obtain u where u: "table_set (objects r) key ?st' = Some u" "table_inv u" "tmap u = (tmap (objects r))(key \<mapsto> ?st')"
    using table_set_inv [OF tab, of key ?st'] st(1) by auto
  obtain t where t: "table_remove u key = Some (tmap u key, t)" using table_remove_inv [OF u(2), of key] by blast
  have "sweep key now (order r) (objects r) c = Some (order r, objects r, c)" for c by (simp add: ord)
  then have "push p r key symbol now dl = Some (None, r\<lparr>objects := u\<rparr>)"
    using g tab st u(1) by (simp add: push_def admit_def ingest_def)
  moreover have "sweep other now' (key # rest) u c = sweep other now' rest t c" for now' c
    using other u t by simp
  ultimately show ?thesis using ord by auto
qed

section \<open>Properties\<close>

text \<open>C3: the reassembler recovers a frame from any \<open>K\<close> of its symbols. For a frame of at most 262144
  bytes that splits into fewer than 255 shards, the encoder returns (on any CPU) the source symbols
  followed by the repair symbols, and a reachable reassembler with the same symbol size that is fed
  these symbols under a fresh key, in any order, with any repetitions and losses, before the object
  expires, returns the frame exactly once: on the arrival of the \<open>K\<close>-th distinct symbol.\<close>

theorem fec_roundtrip:
  assumes "reasm_reach r" "table_get (objects r) key = Some None" "re_symbol_size r = symbol_size params"
    and "ct \<noteq> []" "length ct \<le> 262144" "symbol_size params \<noteq> 0"
    and "k = source_count (of_nat (length ct)) (symbol_size params)" "k < 255"
    and "arr \<noteq> []" "\<forall>(i, now) \<in> set arr. i < k + min repair (255 - k) \<and> now \<le> sat_add (snd (hd arr)) dl"
  shows "\<exists>syms r'. build p ct params oid repair = Some syms \<and> length syms = k + min repair (255 - k) \<and>
    feed q r key dl (map (\<lambda>(i, now). (syms ! i, now)) arr) = Some (deliveries k ct {} (map fst arr), r') \<and>
    reasm_reach r'"
proof -
  let ?sy = "unat (symbol_size params)" and ?L = "min (length ct) (unat (symbol_size params))"
  let ?r = "min repair (255 - k)" and ?osize = "of_nat (length ct) :: u32"
  let ?sch = "scheme_for (arq params) ?r"
  have inv: "reasm_inv r" using assms(1) by (rule reach_inv)
  have sy: "0 < ?sy" "0 < length ct" using assms(4,6) by (auto simp: unat_gt_0)
  have "unat ?osize = length ct" using assms(5) by (simp add: unat_of_nat)
  then have k: "k = div_ceil (length ct) ?sy" using assms(7) sy by (simp add: source_count_def)
  have g: "geometry k ?L (length ct)" using geometry_new [OF sy(2) assms(5) sy(1)] assms(8) k by simp
  obtain d where d: "build p ct params oid repair = Some (map (\<lambda>i. mk_symbol oid ?osize (to_u8 ?sch) i (d i)) [0..<k + ?r])"
    "\<And>i. i < k + ?r \<Longrightarrow> carries ?sch (padded ct k ?L) ?L (length ct) i (d i)"
    using build_symbols [OF sy(2) assms(5) sy(1), of p oid repair] assms(8) unfolding k [symmetric] by blast
  have idx: "carries ?sch (padded ct k ?L) ?L (length ct) i (d i) \<and> i < 255 \<and> (?sch = Pq \<longrightarrow> i < k + 2)" if "i < k + ?r" for i
    using d(2) [OF that] that assms(8) by (auto simp: scheme_for_def split: if_splits)
  have tab: "tmap (objects r) key = None" using assms(2) inv by (simp add: reasm_inv_def)
  let ?syms = "map (\<lambda>i. mk_symbol oid ?osize (to_u8 ?sch) i (d i)) [0..<k + ?r]"
  have eq: "map (\<lambda>(i, now). (?syms ! i, now)) arr = map (\<lambda>(i, now). (mk_symbol oid ?osize (to_u8 ?sch) i (d i), now)) arr"
    using assms(10) by (auto simp del: upt_Suc)
  have "\<exists>r'. feed q r key dl (map (\<lambda>(i, now). (?syms ! i, now)) arr) = Some (deliveries k ct {} (map fst arr), r') \<and> reasm_inv r'"
    unfolding eq
    by (rule feed_tracked [OF g k refl sy(1) idx assms(10)]) (use assms(3) inv tab in simp_all)
  then show ?thesis using d(1) feed_reach [OF assms(1)] by fastforce
qed

theorem fec_roundtrip_witness:
  "\<exists>syms r'. build scalar_cpu [7, 8, 9] \<lparr>symbol_size = 2, deadline_ms = 100, arq = False\<rparr> 5 1 = Some syms \<and> length syms = 3 \<and>
    feed scalar_cpu (reassembler_new 2 4) 77 100 (map (\<lambda>(i, now). (syms ! i, now)) [(2, 10), (2, 11), (0, 60), (1, 110)]) =
      Some ([None, None, Some [7, 8, 9], None], r')"
proof -
  let ?params = "\<lparr>symbol_size = 2, deadline_ms = 100, arq = False\<rparr>" and ?r = "reassembler_new 2 4"
  have r: "table_get (objects ?r) 77 = Some None" "re_symbol_size ?r = symbol_size ?params"
    by (simp_all add: reassembler_new_def Let_def table_new_inv)
  have k: "2 = source_count (of_nat (length [7 :: u8, 8, 9])) (symbol_size ?params)"
    by (simp add: source_count_def div_ceil_def)
  have "deliveries 2 [7, 8, 9] {} (map fst [(2 :: nat, 10 :: nat), (2, 11), (0, 60), (1, 110)]) = [None, None, Some [7, 8, 9], None]"
    by simp
  then show ?thesis
    using fec_roundtrip [OF reasm_reach.start r _ _ _ k, of "[(2, 10), (2, 11), (0, 60), (1, 110)]" 1 100 scalar_cpu 5 scalar_cpu]
    by (auto simp: sat_add_def u64_max_def)
qed

text \<open>C19: no input makes the reassembler panic, and its memory is bounded. From every reachable state a push
  of any symbol under any key and time returns; afterwards at most \<open>max_objects\<close> objects are in
  flight, the arrival order lists exactly their keys, and each buffers less than 512 KiB of source shards.\<close>

theorem push_never_panics:
  assumes "reasm_reach r"
  shows "\<exists>res r'. push p r key symbol now dl = Some (res, r') \<and> in_flight r' \<le> max_objects r' \<and>
    max_objects r' = max_objects r \<and> distinct (order r') \<and> length (order r') = in_flight r' \<and>
    (\<forall>id \<in> set (order r'). \<exists>st. table_get (objects r') id = Some (Some st) \<and> obj_k st < 255 \<and> length (payload st) < 524288)"
proof -
  obtain res r' where r': "push p r key symbol now dl = Some (res, r')" "reasm_inv r'" "max_objects r' = max_objects r"
    using push_total [OF reach_inv [OF assms]] by blast
  have tab: "table_inv (objects r')" and ord: "distinct (order r')" "set (order r') = dom (tmap (objects r'))"
    and wf: "\<And>key st. tmap (objects r') key = Some st \<Longrightarrow> obj_wf st"
    using r'(2) by (auto simp: reasm_inv_def)
  have "length (order r') = in_flight r'"
    using distinct_card [OF ord(1)] ord(2) tmap_dom [OF tab] by (simp add: in_flight_def)
  moreover have "\<exists>st. table_get (objects r') id = Some (Some st) \<and> obj_k st < 255 \<and> length (payload st) < 524288"
    if "id \<in> set (order r')" for id
  proof -
    obtain st where st: "tmap (objects r') id = Some st" using \<open>id \<in> set (order r')\<close> ord(2) by auto
    show ?thesis using st tab obj_wf_bound [OF wf [OF st]] by simp
  qed
  ultimately show ?thesis using r' ord(1) by (auto simp: reasm_inv_def in_flight_def)
qed

theorem push_never_panics_witness:
  "\<exists>res r'. push scalar_cpu (reassembler_new 2 4) 77 (mk_symbol 0 3 9 200 [1]) 5 10 = Some (res, r') \<and> in_flight r' \<le> 4"
proof -
  have "max_objects (reassembler_new 2 4) = 4" by (simp add: reassembler_new_def Let_def)
  then show ?thesis
    using push_never_panics [OF reasm_reach.start, of scalar_cpu 2 4 77 "mk_symbol 0 3 9 200 [1]" 5 10] by auto
qed

end
