(* ===== verification/Fec_Mismatch.thy ===== *)
theory Fec_Mismatch
  imports Fec_Roundtrip
begin

text \<open>
  What a reassembler of \<^verbatim>\<open>crates/yip-transport/src/fec.rs\<close> does with the symbols of an encoder whose symbol size
  differs from its own. Path MTU discovery changes the symbol size of one side only, and the wire length
  check is against the receiver's own size.
\<close>

section \<open>Wire lengths under two symbol sizes\<close>

text \<open>At most one index has the same wire length under both sizes, and the receiver reads it as one of at
  least two source shards.\<close>

lemma wire_len_coincides:
  assumes g: "geometry k L sz" "geometry k' L' sz" and L: "L = min sz sy" "L' = min sz sy'" and k: "2 \<le> k" and ne: "sy \<noteq> sy'"
  shows "\<exists>i0. \<forall>i. wire_len k L sz i = wire_len k' L' sz i \<longrightarrow> i = i0 \<and> i < k' \<and> 2 \<le> k'"
proof -
  note a = geometryD [OF g(1)] and b = geometryD [OF g(2)]
  have "L < sz" using a(3,6) k by (metis Suc_1 Suc_le_eq add_le_imp_le_diff le_trans linorder_not_le mult.commute mult_le_mono2 nat_mult_1_right one_add_one)
  then have sy: "L = sy" "L \<noteq> L'" using L ne by (auto simp: min_def split: if_splits)
  show ?thesis
  proof (cases "L < L'")
    case True
    have kk: "k' \<le> k" if "k' \<noteq> 1"
    proof (rule ccontr)
      assume "\<not> k' \<le> k"
      then have "k * L \<le> (k' - 1) * L'" using True by (intro mult_le_mono) auto
      then show False using a(7) b(6) by simp
    qed
    have "i = k' - 1 \<and> 2 \<le> k'" if w: "wire_len k L sz i = wire_len k' L' sz i" for i
    proof -
      have le: "wire_len k L sz i \<le> L" by (rule wire_len_le [OF g(1)])
      then have i: "i = k' - 1" using w True by (auto simp: wire_len_def split: if_splits)
      have "k' \<noteq> 1" using w i le \<open>L < sz\<close> by (auto simp: wire_len_def)
      then show ?thesis using i b(1) by simp
    qed
    then show ?thesis using b(1) by fastforce
  next
    case False
    then have lt: "L' < L" using sy by simp
    then have sz: "L' < sz" using \<open>L < sz\<close> by simp
    have k': "k \<le> k'"
    proof (rule ccontr)
      assume "\<not> k \<le> k'"
      then have "k' * L' \<le> (k - 1) * L" using lt by (intro mult_le_mono) auto
      then show False using a(6) b(7) by simp
    qed
    have "i = k - 1" if w: "wire_len k L sz i = wire_len k' L' sz i" for i
    proof (rule ccontr)
      assume "i \<noteq> k - 1"
      then show False using w wire_len_le [OF g(2), of i] lt by (simp add: wire_len_def)
    qed
    then show ?thesis using k k' by (intro exI [of _ "k - 1"]) fastforce
  qed
qed

text \<open>Bytes of the right length are a genuine source shard of some frame.\<close>

lemma carries_some_frame:
  assumes g: "geometry k L sz" and i: "i < k" and d: "length d = wire_len k L sz i"
  shows "\<exists>ct. length ct = sz \<and> carries scheme (padded ct k L) L sz i d"
proof -
  let ?ct = "replicate (i * L) 0 @ d @ replicate (sz - i * L - length d) 0"
  have fits: "i * L + length d \<le> sz"
  proof (cases "i = k - 1")
    case True
    then show ?thesis using d geometryD(6) [OF g] by (simp add: wire_len_def)
  next
    case False
    then have "i < k - 1" using i by simp
    then have "i * L + L \<le> (k - 1) * L" using block_fits by blast
    then show ?thesis using d False geometryD(6) [OF g] by (simp add: wire_len_def)
  qed
  then have len: "length ?ct = sz" by simp
  have g': "geometry k L (length ?ct)" using g len by simp
  have "take L (drop (i * L) ?ct) = d"
    using d wire_len_le [OF g, of i] i by (auto simp: wire_len_def split: if_splits)
  then have "splice (replicate L 0) 0 d = padded ?ct k L ! i" using padded_nth [OF g' i] by simp
  then have "carries scheme (padded ?ct k L) L sz i d"
    using padded_facts(1) [OF g'] d i by (simp add: carries_def)
  then show ?thesis using len by blast
qed

section \<open>Dropped symbols\<close>

lemma push_guard_wrong_len:
  assumes inv: "reasm_inv r" and sz: "0 < sz" "sz \<le> 262144" and sy: "sy = unat (re_symbol_size r)" "0 < sy" and i: "i < 255"
    and new: "tmap (objects r) key = None"
    and d: "255 \<le> div_ceil sz sy \<or> length d \<noteq> wire_len (div_ceil sz sy) (min sz sy) sz i"
  shows "push_guard r key (mk_symbol oid (of_nat sz) (to_u8 scheme) i d) = Some None"
proof -
  let ?s = "mk_symbol oid (of_nat sz) (to_u8 scheme) i d"
  have u: "unat (of_nat sz :: u32) = sz" using sz by (simp add: unat_of_nat)
  have nz: "object_size ?s \<noteq> 0" "\<not> object_size ?s > MAX_OBJECT_SIZE" "re_symbol_size r \<noteq> 0"
    using u sz sy by (auto simp: mk_symbol_def MAX_OBJECT_SIZE_def word_less_nat_alt unat_eq_zero)
  have pid: "parse_payload_id (payload_id ?s) = Some (of_nat i, scheme)" "unat (of_nat i :: u16) = i"
    using i by (simp_all add: mk_symbol_def parse_pack_payload_id unat_of_nat)
  have tab: "table_get (objects r) key = Some None" using inv new by (simp add: reasm_inv_def)
  have k: "source_count (of_nat sz) (re_symbol_size r) = div_ceil sz sy" using u sy by (simp add: source_count_def)
  have s: "object_size ?s = of_nat sz" "sym_data ?s = d" by (simp_all add: mk_symbol_def)
  show ?thesis
  proof (cases "255 \<le> div_ceil sz sy")
    case True
    then show ?thesis using nz pid tab k i by (simp add: push_guard_def s)
  next
    case False
    then have "expected_wire_len (div_ceil sz sy) sy sz i = Some (wire_len (div_ceil sz sy) (min sz sy) sz i)"
      using expected_wire_len_new [OF sz sy(2)] by simp
    then show ?thesis using nz pid tab k i d False u sy(1) by (simp add: push_guard_def s)
  qed
qed

lemma push_guard_wrong_len_old:
  assumes inv: "reasm_inv r" and st: "tmap (objects r) key = Some st" "obj_wf st" and i: "i < 255"
    and d: "length d \<noteq> wire_len (obj_k st) (shard_len st) (unat (obj_size st)) i"
  shows "push_guard r key (mk_symbol oid (obj_size st) (to_u8 scheme) i d) = Some None"
proof -
  let ?s = "mk_symbol oid (obj_size st) (to_u8 scheme) i d"
  have g: "geometry (obj_k st) (shard_len st) (unat (obj_size st))" using st by (simp add: obj_wf_def)
  have pid: "parse_payload_id (payload_id ?s) = Some (of_nat i, scheme)" "unat (of_nat i :: u16) = i"
    using i by (simp_all add: mk_symbol_def parse_pack_payload_id unat_of_nat)
  have tab: "table_get (objects r) key = Some (Some st)" using inv st(1) by (simp add: reasm_inv_def)
  have s: "object_size ?s = obj_size st" "sym_data ?s = d" by (simp_all add: mk_symbol_def)
  show ?thesis
    using pid tab expected_wire_len_existing [OF g, of i] i d by (simp add: push_guard_def s)
qed

lemma push_dropped: "push_guard r key symbol = Some None \<Longrightarrow> push p r key symbol now dl = Some (None, r)"
  by (simp add: push_def)

section \<open>Feeding a reassembler of another symbol size\<close>

text \<open>The reassembler of \<open>sy'\<close>-byte symbols either has no object under the key, or one that holds the single
  symbol \<open>i0\<close> and needs at least two.\<close>

definition starved :: "Scheme \<Rightarrow> bytes \<Rightarrow> nat \<Rightarrow> nat set \<Rightarrow> nat \<Rightarrow> nat \<Rightarrow> u64 \<Rightarrow> FecReassembler \<Rightarrow> bool" where
  "starved scheme ct sy T dl i0 key r \<longleftrightarrow> reasm_inv r \<and>
     (tmap (objects r) key = None \<or>
      2 \<le> div_ceil (length ct) sy \<and>
      (\<exists>t \<in> T. tracked scheme ct (div_ceil (length ct) sy) (min (length ct) sy) (sat_add t dl) {i0} key r))"

text \<open>The only symbol of \<open>ct\<close>'s length the reassembler admits is shard \<open>i0\<close>.\<close>

definition admits_only :: "Scheme \<Rightarrow> bytes \<Rightarrow> nat \<Rightarrow> nat \<Rightarrow> nat \<Rightarrow> bytes \<Rightarrow> bool" where
  "admits_only scheme ct sy i0 i d \<longleftrightarrow> i < 255 \<and>
     (let k = div_ceil (length ct) sy; L = min (length ct) sy
      in k < 255 \<longrightarrow> length d = wire_len k L (length ct) i \<longrightarrow>
         i = i0 \<and> i < k \<and> 2 \<le> k \<and> carries scheme (padded ct k L) L (length ct) i d)"

lemma mismatch_admits:
  fixes ct :: bytes
  assumes g: "geometry k L (length ct)" and L: "L = min (length ct) sy" and k: "2 \<le> k" and ne: "sy \<noteq> sy'"
    and ct: "0 < length ct" "length ct \<le> 262144" and sy': "0 < sy'"
    and d: "\<And>i. i < n \<Longrightarrow> length (d i) = wire_len k L (length ct) i" and n: "n \<le> 255"
  shows "\<exists>i0 ct'. length ct' = length ct \<and> (\<forall>i < n. admits_only scheme ct' sy' i0 i (d i))"
proof (cases "div_ceil (length ct) sy' < 255")
  case False
  then have "length ct = length ct \<and> (\<forall>i < n. admits_only scheme ct sy' 0 i (d i))" using n by (simp add: admits_only_def)
  then show ?thesis by blast
next
  case True
  let ?k' = "div_ceil (length ct) sy'" and ?L' = "min (length ct) sy'"
  have g': "geometry ?k' ?L' (length ct)" using geometry_new [OF ct sy'] True by blast
  obtain i0 where i0: "\<And>i. wire_len k L (length ct) i = wire_len ?k' ?L' (length ct) i \<Longrightarrow> i = i0 \<and> i < ?k' \<and> 2 \<le> ?k'"
    using wire_len_coincides [OF g g' L refl k ne] by blast
  obtain ct' where ct': "length ct' = length ct" "i0 < ?k' \<Longrightarrow> length (d i0) = wire_len ?k' ?L' (length ct) i0 \<Longrightarrow>
      carries scheme (padded ct' ?k' ?L') ?L' (length ct) i0 (d i0)"
    using carries_some_frame [OF g', of i0 "d i0" scheme] refl [of "length ct"] by metis
  have "admits_only scheme ct' sy' i0 i (d i)" if "i < n" for i
    using that n d [OF that] i0 [of i] ct' by (auto simp: admits_only_def Let_def)
  then show ?thesis using ct'(1) by blast
qed

lemma push_starved:
  assumes st: "starved scheme ct sy T dl i0 key r" and sy: "sy = unat (re_symbol_size r)" "0 < sy"
    and ct: "0 < length ct" "length ct \<le> 262144" and now: "now \<in> T" "\<forall>t \<in> T. now \<le> sat_add t dl"
    and only: "admits_only scheme ct sy i0 i d"
  shows "\<exists>r'. push p r key (mk_symbol oid (of_nat (length ct)) (to_u8 scheme) i d) now dl = Some (None, r') \<and>
    starved scheme ct sy T dl i0 key r' \<and> re_symbol_size r' = re_symbol_size r"
proof -
  let ?k = "div_ceil (length ct) sy" and ?L = "min (length ct) sy"
  let ?s = "mk_symbol oid (of_nat (length ct)) (to_u8 scheme) i d"
  have inv: "reasm_inv r" and i: "i < 255" using st only by (simp_all add: starved_def admits_only_def)
  show ?thesis
  proof (cases "?k < 255 \<and> length d = wire_len ?k ?L (length ct) i")
    case True
    then have c: "i = i0" "i < ?k" "2 \<le> ?k" "carries scheme (padded ct ?k ?L) ?L (length ct) i d"
      using only by (auto simp: admits_only_def Let_def)
    have g: "geometry ?k ?L (length ct)" using geometry_new [OF ct sy(2)] True by blast
    obtain S t where S: "t \<in> T" "tmap (objects r) key = None \<and> S = {} \<and> sat_add t dl = sat_add now dl \<or>
        tracked scheme ct ?k ?L (sat_add t dl) S key r" "S \<subseteq> {i0}"
      using st now(1) unfolding starved_def by blast
    have eq: "insert i S = {i0}" "\<not> card {i0} = ?k" using S(3) c(1,3) by auto
    have le: "now \<le> sat_add t dl" using S(1) now(2) by blast
    have "scheme = Pq \<longrightarrow> i < ?k + 2" using c(2) by simp
    from push_tracked [OF inv g refl refl sy c(4) i this le S(2), of p oid]
    obtain r' where "push p r key ?s now dl = Some (None, r')" "tracked scheme ct ?k ?L (sat_add t dl) {i0} key r'"
      "re_symbol_size r' = re_symbol_size r" unfolding eq(1) using eq(2) by auto
    then show ?thesis using c(3) S(1) by (auto simp: starved_def tracked_def)
  next
    case False
    have "push_guard r key ?s = Some None"
    proof (cases "tmap (objects r) key")
      case None
      show ?thesis by (rule push_guard_wrong_len [OF inv ct sy i None]) (use False in auto)
    next
      case (Some st')
      then obtain e where "tracks scheme ct ?k ?L e {i0} st'" using st by (auto simp: starved_def tracked_def)
      then have o: "obj_wf st'" "obj_k st' = ?k" "shard_len st' = ?L" "unat (obj_size st') = length ct" by (simp_all add: tracks_def)
      moreover have "?k < 255" using o(1,2) geometryD(2) unfolding obj_wf_def by metis
      moreover have "of_nat (length ct) = obj_size st'" using o(4) by (metis of_nat_unat ucast_id)
      ultimately show ?thesis using push_guard_wrong_len_old [OF inv Some _ i, of d oid scheme] False by simp
    qed
    then show ?thesis using push_dropped st by blast
  qed
qed

lemma feed_starved:
  assumes "starved scheme ct sy T dl i0 key r" "sy = unat (re_symbol_size r)" "0 < sy" "0 < length ct" "length ct \<le> 262144"
    and "\<forall>(i, now) \<in> set arr. now \<in> T \<and> admits_only scheme ct sy i0 i (d i)" "\<forall>s \<in> T. \<forall>t \<in> T. s \<le> sat_add t dl"
  shows "\<exists>r'. feed p r key dl (map (\<lambda>(i, now). (mk_symbol oid (of_nat (length ct)) (to_u8 scheme) i (d i), now)) arr) =
      Some (replicate (length arr) None, r')"
  using assms(1,2,6)
proof (induction arr arbitrary: r)
  case (Cons a arr)
  obtain i now where a: "a = (i, now)" by (cases a)
  have h: "now \<in> T" "\<forall>t \<in> T. now \<le> sat_add t dl" "admits_only scheme ct sy i0 i (d i)" using Cons.prems(3) assms(7) a by auto
  obtain r' where "push p r key (mk_symbol oid (of_nat (length ct)) (to_u8 scheme) i (d i)) now dl = Some (None, r')"
    "starved scheme ct sy T dl i0 key r'" "re_symbol_size r' = re_symbol_size r"
    using push_starved [OF Cons.prems(1,2) assms(3-5) h] by blast
  then show ?case using Cons.IH [of r'] Cons.prems(2,3) a by auto
qed simp

section \<open>Properties\<close>

text \<open>C38: two sides with different symbol sizes lose every frame that needs more than one symbol. When the encoder's
  symbol size differs from the reassembler's, the symbols of a frame that splits into two or more shards,
  fed under a fresh key in any order, any number of times and within the deadline, repairs included, never
  yield the frame: every push returns nothing.\<close>

theorem symbol_size_mismatch_starves:
  assumes "reasm_reach r" "table_get (objects r) key = Some None"
    and "re_symbol_size r \<noteq> symbol_size params" "re_symbol_size r \<noteq> 0" "symbol_size params \<noteq> 0"
    and "ct \<noteq> []" "length ct \<le> 262144"
    and "k = source_count (of_nat (length ct)) (symbol_size params)" "2 \<le> k" "k < 255"
    and "\<forall>(i, now) \<in> set arr. i < k + min repair (255 - k) \<and> now \<in> T" "\<forall>s \<in> T. \<forall>t \<in> T. s \<le> sat_add t dl"
  shows "\<exists>syms r'. build p ct params oid repair = Some syms \<and> length syms = k + min repair (255 - k) \<and>
    feed q r key dl (map (\<lambda>(i, now). (syms ! i, now)) arr) = Some (replicate (length arr) None, r')"
proof -
  let ?sy = "unat (symbol_size params)" and ?sy' = "unat (re_symbol_size r)"
  let ?k' = "div_ceil (length ct) ?sy'" and ?L = "min (length ct) ?sy" and ?L' = "min (length ct) ?sy'"
  let ?r = "min repair (255 - k)" and ?osize = "of_nat (length ct) :: u32"
  let ?sch = "scheme_for (arq params) ?r"
  have inv: "reasm_inv r" using assms(1) by (rule reach_inv)
  have sy: "0 < ?sy" "0 < length ct" "0 < ?sy'" "?sy \<noteq> ?sy'"
    using assms(4-6) assms(3) [unfolded word_unat_eq_iff] by (simp_all add: unat_gt_0)
  have "unat ?osize = length ct" using assms(7) by (simp add: unat_of_nat)
  then have k: "k = div_ceil (length ct) ?sy" using assms(8) sy by (simp add: source_count_def)
  have g: "geometry k ?L (length ct)" using geometry_new [OF sy(2) assms(7) sy(1)] assms(10) k by simp
  obtain d where d: "build p ct params oid repair = Some (map (\<lambda>i. mk_symbol oid ?osize (to_u8 ?sch) i (d i)) [0..<k + ?r])"
    "\<And>i. i < k + ?r \<Longrightarrow> carries ?sch (padded ct k ?L) ?L (length ct) i (d i)"
    using build_symbols [OF sy(2) assms(7) sy(1), of p oid repair] assms(10) unfolding k [symmetric] by blast
  have len: "length (d i) = wire_len k ?L (length ct) i" if "i < k + ?r" for i
    using d(2) [OF that] padded_facts(1) [OF g] by (simp add: carries_def)
  have n255: "k + ?r \<le> 255" using assms(10) by simp
  have "\<exists>i0 ct'. length ct' = length ct \<and> (\<forall>i < k + ?r. admits_only ?sch ct' ?sy' i0 i (d i))"
    by (rule mismatch_admits [OF g refl assms(9) sy(4) sy(2) assms(7) sy(3) _ n255]) (rule len)
  then obtain i0 ct' where ct': "length ct' = length ct" "\<forall>i < k + ?r. admits_only ?sch ct' ?sy' i0 i (d i)"
    by (elim exE conjE) (rule that)
  have tab: "tmap (objects r) key = None" using assms(2) inv by (simp add: reasm_inv_def)
  let ?syms = "map (\<lambda>i. mk_symbol oid ?osize (to_u8 ?sch) i (d i)) [0..<k + ?r]"
  have eq: "map (\<lambda>(i, now). (?syms ! i, now)) arr = map (\<lambda>(i, now). (mk_symbol oid ?osize (to_u8 ?sch) i (d i), now)) arr"
    using assms(11) by (auto simp del: upt_Suc)
  have st: "starved ?sch ct' ?sy' T dl i0 key r" using inv tab by (simp add: starved_def)
  have ct'': "0 < length ct'" "length ct' \<le> 262144" using sy(2) assms(7) ct'(1) by simp_all
  have adm: "\<forall>(i, now) \<in> set arr. now \<in> T \<and> admits_only ?sch ct' ?sy' i0 i (d i)" using assms(11) ct'(2) by blast
  have "\<exists>r'. feed q r key dl (map (\<lambda>(i, now). (mk_symbol oid (of_nat (length ct')) (to_u8 ?sch) i (d i), now)) arr) =
      Some (replicate (length arr) None, r')"
    by (rule feed_starved [OF st refl sy(3) ct'' adm assms(12)])
  then have "\<exists>r'. feed q r key dl (map (\<lambda>(i, now). (?syms ! i, now)) arr) = Some (replicate (length arr) None, r')"
    unfolding eq ct'(1) .
  then obtain r' where r': "feed q r key dl (map (\<lambda>(i, now). (?syms ! i, now)) arr) = Some (replicate (length arr) None, r')" ..
  have l: "length ?syms = k + ?r" by simp
  show ?thesis by (rule exI, rule exI, rule conjI [OF d(1) conjI [OF l r']])
qed

theorem symbol_size_mismatch_starves_witness:
  "\<exists>syms r'. build scalar_cpu [7, 8, 9, 10, 11] \<lparr>symbol_size = 2, deadline_ms = 100, arq = False\<rparr> 5 1 = Some syms \<and> length syms = 4 \<and>
    feed scalar_cpu (reassembler_new 3 4) 77 100 (map (\<lambda>(i, now). (syms ! i, now)) [(0, 10), (1, 10), (2, 11), (3, 11), (1, 12)]) =
      Some ([None, None, None, None, None], r')"
proof -
  let ?params = "\<lparr>symbol_size = 2, deadline_ms = 100, arq = False\<rparr>" and ?r = "reassembler_new 3 4"
  have r: "table_get (objects ?r) 77 = Some None" "re_symbol_size ?r \<noteq> symbol_size ?params" "re_symbol_size ?r \<noteq> 0"
    by (simp_all add: reassembler_new_def Let_def table_new_inv)
  have k: "3 = source_count (of_nat (length [7 :: u8, 8, 9, 10, 11])) (symbol_size ?params)"
    by (simp add: source_count_def div_ceil_def)
  let ?arr = "[(0 :: nat, 10 :: nat), (1, 10), (2, 11), (3, 11), (1, 12)]"
  have h: "symbol_size ?params \<noteq> 0" "[7 :: u8, 8, 9, 10, 11] \<noteq> []" "length [7 :: u8, 8, 9, 10, 11] \<le> 262144"
    by simp_all
  have a: "\<forall>(i, now) \<in> set ?arr. i < 3 + min 1 (255 - 3) \<and> now \<in> {10, 11, 12}" by simp
  have t: "\<forall>s \<in> {10, 11, 12}. \<forall>t \<in> {10, 11, 12}. s \<le> sat_add t 100" by (simp add: sat_add_def u64_max_def)
  have five: "replicate (length ?arr) (None :: bytes option) = [None, None, None, None, None]" "3 + min 1 (255 - 3) = (4 :: nat)"
    by simp_all
  have "2 \<le> (3 :: nat)" "(3 :: nat) < 255" by simp_all
  from symbol_size_mismatch_starves [OF reasm_reach.start r h k this a t, of scalar_cpu 5 scalar_cpu]
  show ?thesis unfolding five .
qed

end
