(* ===== verification/Daemon_Base.thy ===== *)
theory Daemon_Base
  imports Prelude
begin

text \<open>
  What the parts of the daemon share: the datagrams they hand to the I/O loop (\<^verbatim>\<open>crates/yip-io/src/poll.rs\<close>) and the jittered
  intervals of their periodic messages (\<^verbatim>\<open>bin/yipd/src/peer_manager/mod.rs\<close>).
\<close>

record 'addr EgressDatagram =
  ed_fate :: u16
  ed_dst :: 'addr
  ed_bytes :: bytes

text \<open>The random value \<open>v\<close> is drawn from the operating system.\<close>

definition jitter_ms :: "nat \<Rightarrow> nat \<Rightarrow> nat" where
  "jitter_ms v base =
     (let spread = base div 4
      in if spread = 0 then base else base - spread + v mod sat_add (sat_mul spread 2) 1)"

text \<open>An interval of at least one millisecond never becomes zero and stays within a quarter of its base.\<close>

lemma jitter_ms_band:
  assumes "base \<le> u64_max"
  shows "base - base div 4 \<le> jitter_ms v base" "jitter_ms v base \<le> base + base div 4"
proof -
  let ?s = "base div 4"
  have "?s * 2 + 1 \<le> u64_max" using assms by (auto simp: u64_max_def)
  then have "sat_add (sat_mul ?s 2) 1 = Suc (2 * ?s)" by (simp add: sat_add_def sat_mul_def)
  then have eq: "jitter_ms v base = (if ?s = 0 then base else base - ?s + v mod Suc (2 * ?s))" by (simp add: jitter_ms_def Let_def)
  have m: "v mod Suc (2 * ?s) \<le> 2 * ?s" "?s \<le> base" using mod_less_divisor [of "Suc (2 * ?s)" v] by linarith+
  show "base - ?s \<le> jitter_ms v base" unfolding eq by (simp add: diff_le_mono)
  show "jitter_ms v base \<le> base + ?s"
  proof (cases "?s = 0")
    case False
    then have "jitter_ms v base = base - ?s + v mod Suc (2 * ?s)" unfolding eq by (simp only: if_False)
    then show ?thesis using m by linarith
  qed (simp add: eq)
qed

end
