(* ===== verification/Replay.thy ===== *)
theory Replay
  imports Prelude
begin

unbundle bit_operations_syntax

text \<open>
  The anti-replay window of \<^verbatim>\<open>crates/yip-crypto/src/lib.rs\<close>: a ring of 64-bit words indexed by the
  word number of a counter modulo the ring size. Counters are the natural numbers their \<^verbatim>\<open>u64\<close>
  values denote; every subtraction of the source is guarded, and a word number plus a distance never
  exceeds the word number of the new counter, so no operation wraps. The index of a ring access is
  masked with the ring size minus one, so that \<open>word_idx_less\<close> shows it in range.
\<close>

section \<open>Definitions\<close>

definition REPLAY_WINDOW_BITS_STANDARD :: nat where
  "REPLAY_WINDOW_BITS_STANDARD = 8192"

definition REPLAY_WORDS_STANDARD :: nat where
  "REPLAY_WORDS_STANDARD = 128"

definition REPLAY_WINDOW_BITS_HIGH_THROUGHPUT :: nat where
  "REPLAY_WINDOW_BITS_HIGH_THROUGHPUT = 131072"

definition REPLAY_WORDS_HIGH_THROUGHPUT :: nat where
  "REPLAY_WORDS_HIGH_THROUGHPUT = 2048"

datatype ReplayProfile = Standard | HighThroughput

fun replay_bits :: "ReplayProfile \<Rightarrow> nat" where
  "replay_bits Standard = REPLAY_WINDOW_BITS_STANDARD"
| "replay_bits HighThroughput = REPLAY_WINDOW_BITS_HIGH_THROUGHPUT"

fun replay_words :: "ReplayProfile \<Rightarrow> nat" where
  "replay_words Standard = REPLAY_WORDS_STANDARD"
| "replay_words HighThroughput = REPLAY_WORDS_HIGH_THROUGHPUT"

record ReplayWindow =
  rw_profile :: ReplayProfile
  rw_latest :: nat
  rw_bitmap :: "u64 list"
  rw_started :: bool

definition new_with_profile :: "ReplayProfile \<Rightarrow> ReplayWindow" where
  "new_with_profile p =
     \<lparr>rw_profile = p, rw_latest = 0, rw_bitmap = replicate (replay_words p) 0, rw_started = False\<rparr>"

definition replay_new :: ReplayWindow where
  "replay_new = new_with_profile HighThroughput"

definition copy_words :: "u64 list \<Rightarrow> nat list \<Rightarrow> u64 list \<Rightarrow> u64 list" where
  "copy_words old ws new = fold (\<lambda>w bm. bm[w AND (length bm - 1) := old ! (w AND (length old - 1))]) ws new"

definition promote_to_high_throughput :: "ReplayWindow \<Rightarrow> ReplayWindow" where
  "promote_to_high_throughput rw =
     (if rw_profile rw = HighThroughput then rw
      else let old_words = length (rw_bitmap rw);
               new_bitmap = replicate (replay_words HighThroughput) 0;
               latest_word = rw_latest rw div 64;
               start_word = latest_word - (old_words - 1)
           in rw\<lparr>rw_profile := HighThroughput,
                 rw_bitmap := (if rw_started rw then copy_words (rw_bitmap rw) [start_word..<Suc latest_word] new_bitmap
                               else new_bitmap)\<rparr>)"

definition word_idx :: "ReplayWindow \<Rightarrow> nat \<Rightarrow> nat" where
  "word_idx rw counter = (counter div 64) AND (length (rw_bitmap rw) - 1)"

definition bit_mask :: "nat \<Rightarrow> u64" where
  "bit_mask counter = push_bit (counter mod 64) 1"

definition replay_check :: "ReplayWindow \<Rightarrow> nat \<Rightarrow> bool" where
  "replay_check rw counter =
     (if \<not> rw_started rw then True
      else if counter > rw_latest rw then True
      else let diff = rw_latest rw - counter
           in if diff \<ge> replay_bits (rw_profile rw) then False
              else (rw_bitmap rw ! word_idx rw counter) AND bit_mask counter = 0)"

definition clear_words :: "nat \<Rightarrow> nat \<Rightarrow> u64 list \<Rightarrow> u64 list" where
  "clear_words old_word n bm = fold (\<lambda>w bm. bm[(old_word + w) AND (length bm - 1) := 0]) [1..<Suc n] bm"

definition or_bit :: "ReplayWindow \<Rightarrow> nat \<Rightarrow> ReplayWindow" where
  "or_bit rw counter =
     (let idx = word_idx rw counter
      in rw\<lparr>rw_bitmap := (rw_bitmap rw)[idx := (rw_bitmap rw ! idx) OR bit_mask counter]\<rparr>)"

definition replay_commit :: "ReplayWindow \<Rightarrow> nat \<Rightarrow> ReplayWindow" where
  "replay_commit rw counter =
     (if \<not> rw_started rw then
        rw\<lparr>rw_started := True, rw_latest := counter,
           rw_bitmap := (rw_bitmap rw)[word_idx rw counter := bit_mask counter]\<rparr>
      else if counter > rw_latest rw then
        let diff = counter - rw_latest rw;
            window_bits = replay_bits (rw_profile rw);
            total_words = length (rw_bitmap rw);
            old_word = rw_latest rw div 64;
            new_word = counter div 64;
            bm = (if diff \<ge> window_bits then map (\<lambda>_. 0) (rw_bitmap rw)
                  else if new_word > old_word
                       then clear_words old_word (min (new_word - old_word) total_words) (rw_bitmap rw)
                       else rw_bitmap rw)
        in or_bit (rw\<lparr>rw_bitmap := bm, rw_latest := counter\<rparr>) counter
      else if rw_latest rw - counter < replay_bits (rw_profile rw) then or_bit rw counter
      else rw)"

definition check_and_set :: "ReplayWindow \<Rightarrow> nat \<Rightarrow> bool \<times> ReplayWindow" where
  "check_and_set rw counter =
     (if replay_check rw counter then (True, replay_commit rw counter) else (False, rw))"

section \<open>The ring as a set of counters\<close>

lemmas replay_consts = REPLAY_WINDOW_BITS_STANDARD_def REPLAY_WORDS_STANDARD_def
  REPLAY_WINDOW_BITS_HIGH_THROUGHPUT_def REPLAY_WORDS_HIGH_THROUGHPUT_def

definition ring_ok :: "ReplayWindow \<Rightarrow> bool" where
  "ring_ok rw \<longleftrightarrow> length (rw_bitmap rw) = replay_words (rw_profile rw)"

definition ring_bit :: "u64 list \<Rightarrow> nat \<Rightarrow> bool" where
  "ring_bit bm c = bit (bm ! (c div 64 mod length bm)) (c mod 64)"

lemma bits_words: "replay_bits p = 64 * replay_words p"
  by (cases p) (simp_all add: replay_consts)

lemma words_pos [simp]: "0 < replay_words p"
  by (cases p) (simp_all add: replay_consts)

lemma and_words: "x AND (replay_words p - Suc 0) = x mod replay_words p"
proof -
  have "x AND (2 ^ n - 1) = x mod 2 ^ n" for n :: nat
    by (metis mask_eq_exp_minus_1 take_bit_eq_mask take_bit_eq_mod)
  from this [of 7] this [of 11] show ?thesis by (cases p) (simp_all add: replay_consts)
qed

lemma word_idx_mod: "ring_ok rw \<Longrightarrow> word_idx rw c = c div 64 mod length (rw_bitmap rw)"
  by (simp add: word_idx_def ring_ok_def and_words)

lemma word_idx_less: "ring_ok rw \<Longrightarrow> word_idx rw c < length (rw_bitmap rw)"
  by (simp add: word_idx_mod) (simp add: ring_ok_def)

lemma bit_mask_exp: "bit_mask c = 2 ^ (c mod 64)"
  by (simp add: bit_mask_def push_bit_of_1)

lemma bit_mask_bit: "bit (bit_mask c) (d mod 64) \<longleftrightarrow> d mod 64 = c mod 64"
  by (auto simp: bit_mask_exp bit_exp_iff)

lemma and_bit_mask: "w AND bit_mask c = 0 \<longleftrightarrow> \<not> bit w (c mod 64)"
  by (simp add: bit_mask_exp and_exp_eq_0_iff_not_bit)

lemma replay_check_ring:
  "ring_ok rw \<Longrightarrow> rw_started rw \<Longrightarrow> replay_check rw c \<longleftrightarrow>
     rw_latest rw < c \<or> rw_latest rw < c + replay_bits (rw_profile rw) \<and> \<not> ring_bit (rw_bitmap rw) c"
  by (auto simp: replay_check_def Let_def word_idx_mod and_bit_mask ring_bit_def)

lemma or_bit_ring:
  assumes "ring_ok rw"
  shows "ring_ok (or_bit rw c)"
    and "ring_bit (rw_bitmap (or_bit rw c)) d \<longleftrightarrow> ring_bit (rw_bitmap rw) d \<or>
       d div 64 mod length (rw_bitmap rw) = c div 64 mod length (rw_bitmap rw) \<and> d mod 64 = c mod 64"
  using assms word_idx_less [OF assms, of c]
  by (auto simp: or_bit_def Let_def ring_ok_def ring_bit_def word_idx_mod nth_list_update bit_or_iff bit_mask_bit)

lemma clear_words_nth:
  assumes "length bm = replay_words p" "j < length bm"
  shows "length (clear_words old n bm) = length bm \<and>
    clear_words old n bm ! j = (if \<exists>w \<in> {1..n}. (old + w) mod length bm = j then 0 else bm ! j)"
proof (induction n)
  case 0
  then show ?case by (simp add: clear_words_def)
next
  case (Suc n)
  have step: "clear_words old (Suc n) bm = (clear_words old n bm)[(old + Suc n) mod length bm := 0]"
    using Suc.IH assms(1) by (simp add: clear_words_def and_words)
  have "(\<exists>w \<in> {1..Suc n}. (old + w) mod length bm = j) \<longleftrightarrow>
      (\<exists>w \<in> {1..n}. (old + w) mod length bm = j) \<or> (old + Suc n) mod length bm = j"
    by (auto simp: atLeastAtMostSuc_conv)
  then show ?case using Suc.IH assms(2) unfolding step by (cases "(old + Suc n) mod length bm = j") simp_all
qed

lemma mod_near_wrap:
  fixes a b w :: nat
  assumes "a mod w = b mod w" "b \<le> a" "a \<le> b + w"
  shows "a = b \<or> a = b + w"
  using assms mod_near [of a w b] by fastforce

lemma same_cell:
  fixes c d k :: nat
  assumes "d div 64 = c div 64 + k" "d mod 64 = c mod 64"
  shows "d = c + 64 * k"
  using assms div_mult_mod_eq [of d 64] div_mult_mod_eq [of c 64] by (simp add: algebra_simps)

text \<open>\<open>in_ring W l c\<close>: the word of \<open>c\<close> is one of the \<open>W\<close> words up to the word of \<open>l\<close>, so that no other such
  word has its place in the ring.\<close>

definition in_ring :: "nat \<Rightarrow> nat \<Rightarrow> nat \<Rightarrow> bool" where
  "in_ring W l c \<longleftrightarrow> c div 64 \<le> l div 64 \<and> l div 64 < c div 64 + W"

lemma cleared_iff:
  fixes dw cw lw W :: nat
  assumes "dw \<le> cw" "cw < dw + W" "lw < cw" "cw \<le> lw + W"
  shows "(\<exists>w \<in> {1..cw - lw}. (lw + w) mod W = dw mod W) \<longleftrightarrow> lw < dw"
proof
  assume "\<exists>w \<in> {1..cw - lw}. (lw + w) mod W = dw mod W"
  then obtain w where w: "1 \<le> w" "w \<le> cw - lw" "(lw + w) mod W = dw mod W" by auto
  have "lw + w = dw"
  proof (cases "dw \<le> lw + w")
    case True
    then show ?thesis using mod_near [OF w(3)] w(2) assms by linarith
  next
    case False
    then show ?thesis using mod_near [OF w(3) [symmetric]] w(1,2) assms by linarith
  qed
  then show "lw < dw" using w(1) by linarith
next
  assume "lw < dw"
  then show "\<exists>w \<in> {1..cw - lw}. (lw + w) mod W = dw mod W"
    using assms by (intro bexI [of _ "dw - lw"]) auto
qed

lemma advance_keeps:
  assumes "length bm = replay_words p" "l < c" "c < l + replay_bits p" "in_ring (replay_words p) c d"
  shows "ring_bit (if c div 64 > l div 64 then clear_words (l div 64) (min (c div 64 - l div 64) (length bm)) bm else bm) d
     \<longleftrightarrow> d div 64 \<le> l div 64 \<and> ring_bit bm d"
proof (cases "c div 64 > l div 64")
  case True
  let ?W = "replay_words p" and ?n = "min (c div 64 - l div 64) (length bm)"
  have cw: "c div 64 \<le> l div 64 + ?W"
    using div_le_mono [of c "l + replay_bits p" 64] assms(3) by (simp add: bits_words)
  then have n: "?n = c div 64 - l div 64" using assms(1) by simp
  have j: "d div 64 mod ?W < length bm" using assms(1) by simp
  have "(\<exists>w \<in> {1..?n}. (l div 64 + w) mod ?W = d div 64 mod ?W) \<longleftrightarrow> l div 64 < d div 64"
    unfolding n using assms(4) True cw by (intro cleared_iff) (simp_all add: in_ring_def)
  then show ?thesis
    using clear_words_nth [OF assms(1) j, of "l div 64" ?n] True assms(1) by (auto simp: ring_bit_def)
next
  case False
  then have "c div 64 = l div 64" using div_le_mono [of l c 64] assms(2) by linarith
  then show ?thesis using assms(4) by (simp add: in_ring_def)
qed

section \<open>The invariant\<close>

text \<open>\<open>replay_inv S rw\<close>: the window \<open>rw\<close> represents the set \<open>S\<close> of committed counters.\<close>

definition replay_inv :: "nat set \<Rightarrow> ReplayWindow \<Rightarrow> bool" where
  "replay_inv S rw \<longleftrightarrow> ring_ok rw \<and> (rw_started rw \<longleftrightarrow> S \<noteq> {}) \<and>
     (rw_started rw \<longrightarrow> rw_latest rw \<in> S) \<and> (\<forall>c \<in> S. c \<le> rw_latest rw) \<and>
     (\<not> rw_started rw \<longrightarrow> (\<forall>d. \<not> ring_bit (rw_bitmap rw) d)) \<and>
     (\<forall>c \<in> S. in_ring (replay_words (rw_profile rw)) (rw_latest rw) c \<longrightarrow> ring_bit (rw_bitmap rw) c) \<and>
     (\<forall>d. in_ring (replay_words (rw_profile rw)) (rw_latest rw) d \<and> ring_bit (rw_bitmap rw) d \<longrightarrow>
        d \<in> S \<or> (\<exists>c \<in> S. d = c + replay_bits (rw_profile rw)))"

lemma replay_inv_new: "replay_inv {} (new_with_profile p)"
  by (simp add: replay_inv_def new_with_profile_def ring_ok_def ring_bit_def)

lemma in_ring_cell:
  assumes "in_ring W l d" "d div 64 mod W = c div 64 mod W" "d mod 64 = c mod 64" "c \<le> l" "l < c + 64 * W"
  shows "d = c \<or> d = c + 64 * W"
proof -
  have c: "c div 64 \<le> l div 64" "l div 64 \<le> c div 64 + W"
    using div_le_mono [OF assms(4), of 64] div_le_mono [of l "c + 64 * W" 64] assms(5) by simp_all
  show ?thesis
  proof (cases "c div 64 \<le> d div 64")
    case True
    have "d div 64 = c div 64 \<or> d div 64 = c div 64 + W"
      using mod_near_wrap [OF assms(2) True] assms(1) c by (simp add: in_ring_def)
    then show ?thesis using same_cell [of d c 0] same_cell [of d c W] assms(3) by auto
  next
    case False
    then have "c div 64 = d div 64" using mod_near [OF assms(2) [symmetric]] assms(1) c by (simp add: in_ring_def)
    then show ?thesis using False by simp
  qed
qed

lemma commit_first:
  assumes "replay_inv S rw" "\<not> rw_started rw"
  shows "replay_inv (insert c S) (replay_commit rw c)"
proof -
  let ?W = "length (rw_bitmap rw)"
  have ok: "ring_ok rw" and S: "S = {}" and z: "\<not> ring_bit (rw_bitmap rw) d" for d
    using assms by (auto simp: replay_inv_def)
  have i: "word_idx rw c = c div 64 mod ?W" "c div 64 mod ?W < ?W" using word_idx_mod [OF ok] word_idx_less [OF ok] by metis+
  have b: "ring_bit ((rw_bitmap rw)[c div 64 mod ?W := bit_mask c]) d \<longleftrightarrow>
      d div 64 mod ?W = c div 64 mod ?W \<and> d mod 64 = c mod 64" for d
    using z [of d] i(2) by (auto simp: ring_bit_def nth_list_update bit_mask_bit)
  have "d = c \<or> d = c + replay_bits (rw_profile rw)"
    if "in_ring (replay_words (rw_profile rw)) c d" "d div 64 mod ?W = c div 64 mod ?W" "d mod 64 = c mod 64" for d
    using in_ring_cell [of "replay_words (rw_profile rw)" c d c] that ok by (simp add: ring_ok_def bits_words)
  then show ?thesis using assms ok S b i by (auto simp: replay_inv_def replay_commit_def ring_ok_def)
qed

lemma commit_back:
  assumes "replay_inv S rw" "rw_started rw" "c \<le> rw_latest rw" "rw_latest rw < c + replay_bits (rw_profile rw)"
  shows "replay_inv (insert c S) (replay_commit rw c)"
proof -
  let ?W = "length (rw_bitmap rw)"
  have ok: "ring_ok rw" using assms(1) by (simp add: replay_inv_def)
  have cm: "replay_commit rw c = or_bit rw c" using assms(2-4) by (simp add: replay_commit_def)
  have f: "rw_started (or_bit rw c) = rw_started rw" "rw_latest (or_bit rw c) = rw_latest rw"
    "rw_profile (or_bit rw c) = rw_profile rw" by (simp_all add: or_bit_def Let_def)
  have "d = c \<or> d = c + replay_bits (rw_profile rw)"
    if "in_ring (replay_words (rw_profile rw)) (rw_latest rw) d" "d div 64 mod ?W = c div 64 mod ?W" "d mod 64 = c mod 64" for d
    using in_ring_cell [of ?W "rw_latest rw" d c] that ok assms(3,4) by (simp add: ring_ok_def bits_words)
  then show ?thesis
    unfolding cm using assms(1-3) or_bit_ring [OF ok, of c] f unfolding replay_inv_def by auto
qed

lemma commit_forward:
  assumes "replay_inv S rw" "rw_started rw" "rw_latest rw < c"
  shows "replay_inv (insert c S) (replay_commit rw c)"
proof -
  let ?p = "rw_profile rw" and ?l = "rw_latest rw"
  let ?W = "replay_words ?p"
  define bm where "bm = (if c - ?l \<ge> replay_bits ?p then map (\<lambda>_. 0) (rw_bitmap rw)
      else if c div 64 > ?l div 64 then clear_words (?l div 64) (min (c div 64 - ?l div 64) (length (rw_bitmap rw))) (rw_bitmap rw)
      else rw_bitmap rw)"
  define r where "r = rw\<lparr>rw_bitmap := bm, rw_latest := c\<rparr>"
  have cm: "replay_commit rw c = or_bit r c" using assms(2,3) by (simp add: replay_commit_def Let_def bm_def r_def)
  have len: "length (rw_bitmap rw) = ?W" using assms(1) by (simp add: replay_inv_def ring_ok_def)
  have lbm: "length bm = ?W"
    using len clear_words_nth [OF len, of 0] by (auto simp: bm_def)
  have ok: "ring_ok r" using lbm by (simp add: r_def ring_ok_def)
  have kept: "ring_bit bm d \<longleftrightarrow> c - ?l < replay_bits ?p \<and> d div 64 \<le> ?l div 64 \<and> ring_bit (rw_bitmap rw) d"
    if "in_ring ?W c d" for d
  proof (cases "c - ?l \<ge> replay_bits ?p")
    case True
    then show ?thesis using len by (simp add: bm_def ring_bit_def)
  next
    case False
    then show ?thesis using advance_keeps [OF len assms(3) _ that] assms(3) by (simp add: bm_def)
  qed
  have lc: "?l div 64 \<le> c div 64" using assms(3) by (simp add: div_le_mono)
  have near: "c - ?l < replay_bits ?p" if "in_ring ?W c d" "d \<le> ?l" for d
  proof (rule ccontr)
    assume "\<not> c - ?l < replay_bits ?p"
    then have "d + 64 * ?W \<le> c" using that(2) assms(3) by (simp add: bits_words)
    then have "d div 64 + ?W \<le> c div 64" using div_le_mono [of "d + 64 * ?W" c 64] by simp
    then show False using that(1) by (simp add: in_ring_def)
  qed
  have cell: "d = c \<or> d = c + replay_bits ?p"
    if "in_ring ?W c d" "d div 64 mod ?W = c div 64 mod ?W" "d mod 64 = c mod 64" for d
    using in_ring_cell [of ?W c d c] that by (simp add: bits_words)
  have ring: "in_ring ?W ?l d" if "in_ring ?W c d" "d div 64 \<le> ?l div 64" for d using that lc by (simp add: in_ring_def)
  have safe: "ring_bit bm d" if "d \<in> S" "in_ring ?W c d" for d
  proof -
    have "d \<le> ?l" using assms(1) that(1) by (simp add: replay_inv_def)
    then have "d div 64 \<le> ?l div 64" by (rule div_le_mono)
    then show ?thesis
      using assms(1) that kept [OF that(2)] near [OF that(2) \<open>d \<le> ?l\<close>] ring [OF that(2)] by (simp add: replay_inv_def)
  qed
  have tight: "d \<in> S \<or> (\<exists>e \<in> S. d = e + replay_bits ?p)" if "in_ring ?W c d" "ring_bit bm d" for d
    using assms(1) that kept [OF that(1)] ring [OF that(1)] unfolding replay_inv_def by blast
  have f: "rw_started (or_bit r c) = rw_started rw" "rw_latest (or_bit r c) = c" "rw_profile (or_bit r c) = ?p"
    by (simp_all add: or_bit_def Let_def r_def)
  have le: "\<forall>d \<in> insert c S. d \<le> c" using assms(1,3) by (auto simp: replay_inv_def)
  have rb: "ring_bit (rw_bitmap (or_bit r c)) d \<longleftrightarrow> ring_bit bm d \<or>
      d div 64 mod ?W = c div 64 mod ?W \<and> d mod 64 = c mod 64" for d
    using or_bit_ring(2) [OF ok, of c d] lbm by (simp add: r_def)
  show ?thesis
    unfolding cm replay_inv_def f using or_bit_ring(1) [OF ok, of c] assms(2) le safe tight cell rb by (simp, blast)
qed

lemma commit_inv [inv_intros]:
  assumes "replay_inv S rw" "replay_check rw c"
  shows "replay_inv (insert c S) (replay_commit rw c)"
proof (cases "rw_started rw")
  case True
  then show ?thesis
    using commit_forward [OF assms(1) True] commit_back [OF assms(1) True] assms
    by (cases "rw_latest rw < c") (auto simp: replay_inv_def replay_check_ring)
qed (simp add: commit_first assms)

text \<open>The windows that arise from an empty one by committing counters that passed the check, with the set of
  the counters committed.\<close>

inductive replay_run :: "ReplayProfile \<Rightarrow> nat set \<Rightarrow> ReplayWindow \<Rightarrow> bool" for p where
  new: "replay_run p {} (new_with_profile p)"
| commit: "replay_run p S rw \<Longrightarrow> check_and_set rw c = (True, rw') \<Longrightarrow> replay_run p (insert c S) rw'"

lemma commit_profile: "rw_profile (replay_commit rw c) = rw_profile rw"
  by (simp add: replay_commit_def Let_def or_bit_def)

lemma replay_run_inv: "replay_run p S rw \<Longrightarrow> replay_inv S rw \<and> rw_profile rw = p"
proof (induction rule: replay_run.induct)
  case new
  show ?case using replay_inv_new by (simp add: new_with_profile_def)
next
  case (commit S rw c rw')
  then show ?case using commit_inv by (auto simp: check_and_set_def commit_profile split: if_splits)
qed

lemma commit_refused:
  assumes "replay_inv S rw" "replay_check rw c"
  shows "\<not> replay_check (replay_commit rw c) c"
proof -
  let ?rw = "replay_commit rw c"
  have inv: "replay_inv (insert c S) ?rw" using commit_inv [OF assms] .
  have ok: "ring_ok rw" using assms(1) by (simp add: replay_inv_def)
  have "ring_bit (rw_bitmap ?rw) c"
  proof (cases "in_ring (replay_words (rw_profile ?rw)) (rw_latest ?rw) c")
    case True
    then show ?thesis using inv unfolding replay_inv_def by blast
  next
    case False
    have "c \<le> rw_latest rw" "rw_started rw"
      using False by (auto simp: in_ring_def replay_commit_def Let_def or_bit_def split: if_splits intro!: ccontr [of "_ \<le> _"])
    then have "?rw = or_bit rw c" using assms(2) by (auto simp: replay_check_def replay_commit_def Let_def split: if_splits)
    then show ?thesis using or_bit_ring(2) [OF ok] by simp
  qed
  moreover have "c \<le> rw_latest ?rw" "ring_ok ?rw" "rw_started ?rw" using inv by (auto simp: replay_inv_def)
  ultimately show ?thesis by (simp add: replay_check_ring)
qed

text \<open>What a session relies on: a guard that accepts a counter and records it refuses it from then on at once,
  and stays a guard.\<close>

locale replay_guard =
  fixes ok :: "'w \<Rightarrow> bool" and chk :: "'w \<Rightarrow> nat \<Rightarrow> bool" and cmt :: "'w \<Rightarrow> nat \<Rightarrow> 'w"
  assumes keeps: "ok w \<Longrightarrow> chk w c \<Longrightarrow> ok (cmt w c)"
    and refuses: "ok w \<Longrightarrow> chk w c \<Longrightarrow> \<not> chk (cmt w c) c"
begin

lemma next_differs: "ok w \<Longrightarrow> chk w c \<Longrightarrow> chk (cmt w c) d \<Longrightarrow> d \<noteq> c"
  using refuses by blast

end

definition window_ok :: "ReplayWindow \<Rightarrow> bool" where
  "window_ok rw \<longleftrightarrow> (\<exists>S. replay_inv S rw)"

interpretation guard: replay_guard window_ok replay_check replay_commit
  by unfold_locales (use commit_inv commit_refused in \<open>auto simp: window_ok_def\<close>)

lemma window_ok_new [simp]: "window_ok (new_with_profile p)"
  using replay_inv_new by (auto simp: window_ok_def)

section \<open>Promotion to the larger window\<close>

lemma copy_words_nth:
  assumes "length old = replay_words p" "length new = replay_words q" "n \<le> replay_words q"
  shows "length (copy_words old [a..<a + n] new) = length new \<and>
    (\<forall>w \<in> {a..<a + n}. copy_words old [a..<a + n] new ! (w mod replay_words q) = old ! (w mod replay_words p)) \<and>
    (\<forall>j < length new. (\<forall>w \<in> {a..<a + n}. w mod replay_words q \<noteq> j) \<longrightarrow> copy_words old [a..<a + n] new ! j = new ! j)"
  using assms(3)
proof (induction n)
  case 0
  then show ?case by (simp add: copy_words_def)
next
  case (Suc n)
  let ?W = "replay_words q" and ?bm = "copy_words old [a..<a + n] new"
  have IH: "length ?bm = ?W" "\<forall>w \<in> {a..<a + n}. ?bm ! (w mod ?W) = old ! (w mod replay_words p)"
    "\<forall>j < ?W. (\<forall>w \<in> {a..<a + n}. w mod ?W \<noteq> j) \<longrightarrow> ?bm ! j = new ! j"
    using Suc assms(2) by simp_all
  have step: "copy_words old [a..<a + Suc n] new = ?bm[(a + n) mod ?W := old ! ((a + n) mod replay_words p)]"
    using IH(1) assms(1) by (simp add: copy_words_def and_words)
  have fresh: "w mod ?W \<noteq> (a + n) mod ?W" if "w \<in> {a..<a + n}" for w
    using mod_near [of "a + n" ?W w] that Suc.prems by auto
  have "copy_words old [a..<a + Suc n] new ! (w mod ?W) = old ! (w mod replay_words p)" if "w \<in> {a..<a + Suc n}" for w
    using that IH(1,2) fresh [of w] unfolding step by (cases "w = a + n") (auto simp: nth_list_update)
  moreover have "copy_words old [a..<a + Suc n] new ! j = new ! j" if "j < ?W" "\<forall>w \<in> {a..<a + Suc n}. w mod ?W \<noteq> j" for j
    using that IH(3) unfolding step by auto
  ultimately show ?case using IH(1) assms(2) unfolding step by simp
qed

lemma promote_ring:
  assumes "ring_ok rw" "rw_profile rw = Standard" "rw_started rw" "c \<le> rw_latest rw"
    and "rw_latest rw < c + replay_bits HighThroughput"
  shows "ring_ok (promote_to_high_throughput rw)"
    and "c div 64 + replay_words HighThroughput \<noteq> rw_latest rw div 64 \<Longrightarrow>
      ring_bit (rw_bitmap (promote_to_high_throughput rw)) c \<longleftrightarrow>
      in_ring (replay_words Standard) (rw_latest rw) c \<and> ring_bit (rw_bitmap rw) c"
proof -
  let ?W = "replay_words HighThroughput" and ?V = "replay_words Standard" and ?lw = "rw_latest rw div 64"
  define a where "a = ?lw - (?V - 1)"
  define n where "n = Suc ?lw - a"
  let ?new = "replicate ?W 0 :: u64 list"
  let ?bm = "copy_words (rw_bitmap rw) [a..<a + n] ?new"
  have old: "length (rw_bitmap rw) = ?V" using assms(1,2) by (simp add: ring_ok_def)
  have n: "n \<le> ?W" "a + n = Suc ?lw" by (auto simp: n_def a_def replay_consts)
  have bm: "rw_bitmap (promote_to_high_throughput rw) = ?bm"
    "rw_profile (promote_to_high_throughput rw) = HighThroughput"
    using assms(2,3) old n(2) by (simp_all add: promote_to_high_throughput_def Let_def a_def)
  note cw = copy_words_nth [OF old length_replicate n(1), of a 0]
  show "ring_ok (promote_to_high_throughput rw)" using cw bm by (simp add: ring_ok_def)
  assume far: "c div 64 + ?W \<noteq> ?lw"
  have "c div 64 \<le> ?lw" "?lw \<le> c div 64 + ?W"
    using div_le_mono [OF assms(4), of 64] div_le_mono [of "rw_latest rw" "c + 64 * ?W" 64] assms(5)
    by (simp_all add: bits_words)
  then have c: "c div 64 \<le> ?lw" "?lw < c div 64 + ?W" using far by linarith+
  have ring: "in_ring ?V (rw_latest rw) c \<longleftrightarrow> c div 64 \<in> {a..<a + n}"
    unfolding n(2) using c by (auto simp: in_ring_def a_def replay_consts)
  show "ring_bit (rw_bitmap (promote_to_high_throughput rw)) c \<longleftrightarrow>
      in_ring ?V (rw_latest rw) c \<and> ring_bit (rw_bitmap rw) c"
  proof (cases "c div 64 \<in> {a..<a + n}")
    case True
    then show ?thesis using cw bm old ring by (simp add: ring_bit_def)
  next
    case False
    have "w mod ?W \<noteq> c div 64 mod ?W" if "w \<in> {a..<a + n}" for w
      using mod_near [of w ?W "c div 64"] mod_near [of "c div 64" ?W w] that False n(2) c by auto
    moreover have "c div 64 mod ?W < length ?new" by (simp add: replay_consts)
    ultimately have "?bm ! (c div 64 mod ?W) = ?new ! (c div 64 mod ?W)" using cw by blast
    then have "\<not> ring_bit ?bm c" using cw mod_less_divisor [OF words_pos, of "c div 64" HighThroughput] by (simp add: ring_bit_def)
    then show ?thesis using bm ring False by auto
  qed
qed

section \<open>Properties\<close>

text \<open>C22: the replay window decides exactly, up to the ring size. After any run the window knows the largest
  committed counter; a counter whose word is among the ring's words up to the latest one is refused
  if it was committed, and accepted if it was not, unless it lies exactly one window above a
  committed counter; and a counter that is a whole window or more behind is always refused.\<close>

theorem replay_window_exact:
  assumes "replay_run p S rw" "S \<noteq> {}"
  shows "rw_latest rw = Max S \<and> (c + replay_bits p \<le> rw_latest rw \<longrightarrow> \<not> replay_check rw c) \<and>
    (rw_latest rw div 64 < c div 64 + replay_words p \<longrightarrow>
       (c \<in> S \<longrightarrow> \<not> replay_check rw c) \<and>
       (c \<notin> S \<and> (\<forall>e \<in> S. c \<noteq> e + replay_bits p) \<longrightarrow> replay_check rw c))"
proof -
  have inv: "replay_inv S rw" "rw_profile rw = p" using replay_run_inv [OF assms(1)] by simp_all
  have st: "ring_ok rw" "rw_started rw" "rw_latest rw \<in> S" "\<forall>c \<in> S. c \<le> rw_latest rw"
    using inv assms(2) by (auto simp: replay_inv_def)
  have max: "rw_latest rw = Max S"
    using st(3,4) by (intro Max_eqI [symmetric]) (auto intro: finite_subset [of _ "{..rw_latest rw}"])
  note chk = replay_check_ring [OF st(1,2), of c] and le = div_le_mono [of c "rw_latest rw" 64]
  have near: "rw_latest rw < c + replay_bits p" if "rw_latest rw div 64 < c div 64 + replay_words p"
    using that div_le_mono [of "c + 64 * replay_words p" "rw_latest rw" 64] by (simp add: bits_words not_le [symmetric])
  have "\<not> replay_check rw c" if "c \<in> S" "rw_latest rw div 64 < c div 64 + replay_words p"
    using chk that st(4) le inv by (auto simp: replay_inv_def in_ring_def)
  moreover have "replay_check rw c"
    if "c \<notin> S" "\<forall>e \<in> S. c \<noteq> e + replay_bits p" "rw_latest rw div 64 < c div 64 + replay_words p"
    using chk that near inv le unfolding replay_inv_def in_ring_def by (metis not_le)
  ultimately show ?thesis using max chk inv(2) by auto
qed

theorem replay_window_exact_witness:
  "\<exists>rw. replay_run Standard {5} rw \<and> \<not> replay_check rw 5 \<and> replay_check rw 4 \<and> replay_check rw 6"
proof -
  let ?rw = "replay_commit (new_with_profile Standard) 5"
  have "replay_run Standard {5} ?rw"
    using replay_run.commit [OF replay_run.new, of Standard 5 ?rw]
    by (simp add: check_and_set_def replay_check_def new_with_profile_def)
  then show ?thesis
    using replay_window_exact [of Standard "{5}" ?rw 5] replay_window_exact [of Standard "{5}" ?rw 4]
      replay_window_exact [of Standard "{5}" ?rw 6] by (auto simp: replay_consts)
qed

text \<open>C34: the ring is one word too small for its window. A committed counter that is not the first of its word is
  accepted a second time once the counter that starts the word one ring later has been committed,
  although it is less than a window behind. This holds for both profiles.\<close>

theorem replay_window_gap:
  assumes "c mod 64 \<noteq> 0"
  shows "\<exists>rw. replay_run p {64 * (c div 64 + replay_words p), c} rw \<and>
    rw_latest rw < c + replay_bits p \<and> replay_check rw c"
proof -
  let ?c = "64 * (c div 64 + replay_words p)"
  let ?r = "replay_commit (new_with_profile p) c"
  let ?rw = "replay_commit ?r ?c"
  have r: "replay_run p {c} ?r"
    using replay_run.commit [OF replay_run.new, of p c ?r]
    by (simp add: check_and_set_def replay_check_def new_with_profile_def)
  have inv: "ring_ok ?r" "rw_profile ?r = p" using replay_run_inv [OF r] by (simp_all add: replay_inv_def)
  have rf: "rw_started ?r" "rw_latest ?r = c" by (simp_all add: replay_commit_def new_with_profile_def)
  have m: "0 < c mod 64" "c mod 64 < 64" "64 * (c div 64) + c mod 64 = c" using assms by simp_all
  have W: "1 \<le> replay_words p" using words_pos [of p] by linarith
  have lt: "c < ?c" unfolding distrib_left using m(2,3) W by linarith
  have less: "?c < c + replay_bits p" unfolding bits_words distrib_left using m(1,3) by linarith
  define bm where "bm = clear_words (c div 64) (min (?c div 64 - c div 64) (length (rw_bitmap ?r))) (rw_bitmap ?r)"
  let ?r' = "?r\<lparr>rw_bitmap := bm, rw_latest := ?c\<rparr>"
  have rw: "?rw = or_bit ?r' ?c"
    using lt less rf inv(2) words_pos [of p] by (simp add: replay_commit_def [of ?r] Let_def bm_def)
  let ?d = "?c + c mod 64"
  have d: "?d div 64 = c div 64 + replay_words p" "?d mod 64 = c mod 64" "?c div 64 = c div 64 + replay_words p" by simp_all
  have ring: "in_ring (replay_words p) ?c ?d" unfolding in_ring_def d by (simp add: W)
  have len: "length (rw_bitmap ?r) = replay_words p" using inv by (simp add: ring_ok_def)
  have lbm: "length bm = replay_words p" using clear_words_nth [OF len, of 0] len by (simp add: bm_def)
  have gt: "c div 64 < ?c div 64" unfolding d using W by linarith
  have "\<not> ring_bit bm ?d"
    using advance_keeps [OF len lt less ring] gt by (simp add: bm_def)
  then have z: "\<not> ring_bit bm c" unfolding ring_bit_def d lbm by simp
  have ok: "ring_ok ?r'" using lbm inv(2) by (simp add: ring_ok_def)
  have nz: "c mod 64 \<noteq> ?c mod 64" using m(1) by simp
  have f: "rw_started ?rw" "rw_latest ?rw = ?c" "rw_profile ?rw = p"
    unfolding rw using rf inv(2) by (simp_all add: or_bit_def Let_def)
  have "\<not> ring_bit (rw_bitmap ?rw) c" unfolding rw using or_bit_ring(2) [OF ok, of ?c c] z nz by simp
  moreover have "ring_ok ?rw" unfolding rw by (rule or_bit_ring(1) [OF ok])
  ultimately have "replay_check ?rw c" using f less by (simp add: replay_check_ring)
  moreover have "replay_run p {?c, c} ?rw"
    using replay_run.commit [OF r, of ?c ?rw] lt rf by (simp add: check_and_set_def replay_check_def)
  ultimately show ?thesis using f(2) less by (intro exI [of _ ?rw]) simp
qed

theorem replay_window_gap_witness:
  "\<exists>rw. replay_run HighThroughput {131072, 63} rw \<and> replay_check rw 63"
  using replay_window_gap [of 63 HighThroughput] by (auto simp: replay_consts)

text \<open>C37: promotion keeps the window's verdict on every counter above the latest one and on every counter whose
  word is still in the smaller ring, but it forgets the counters behind that ring: each of them is
  accepted again while it is inside the larger window.\<close>

theorem promote_verdicts:
  assumes "replay_run Standard S rw" "S \<noteq> {}" "rw_latest rw div 64 < c div 64 + 2048"
  shows "replay_check (promote_to_high_throughput rw) c \<longleftrightarrow>
    (if rw_latest rw div 64 < c div 64 + 128 then replay_check rw c else True)"
proof -
  have inv: "replay_inv S rw" "rw_profile rw = Standard" using replay_run_inv [OF assms(1)] by simp_all
  then have st: "ring_ok rw" "rw_started rw" using assms(2) by (auto simp: replay_inv_def)
  let ?rw = "promote_to_high_throughput rw"
  have f: "rw_started ?rw" "rw_latest ?rw = rw_latest rw" "rw_profile ?rw = HighThroughput"
    using inv(2) st(2) by (simp_all add: promote_to_high_throughput_def Let_def)
  have near: "rw_latest rw < c + replay_bits HighThroughput"
    using assms(3) div_le_mono [of "c + 64 * 2048" "rw_latest rw" 64] by (simp add: replay_consts not_le [symmetric])
  show ?thesis
  proof (cases "rw_latest rw < c")
    case True
    then show ?thesis by (simp add: replay_check_def f)
  next
    case False
    then have le: "c \<le> rw_latest rw" by simp
    have "replay_check ?rw c \<longleftrightarrow> \<not> (in_ring (replay_words Standard) (rw_latest rw) c \<and> ring_bit (rw_bitmap rw) c)"
      using promote_ring [OF st(1) inv(2) st(2) le near] assms(3) near False f
      by (simp add: replay_check_ring) (simp add: replay_consts)
    moreover have "rw_latest rw < c + 8192" if "rw_latest rw div 64 < c div 64 + 128"
      using that div_le_mono [of "c + 64 * 128" "rw_latest rw" 64] by (simp add: not_le [symmetric])
    ultimately show ?thesis
      using replay_check_ring [OF st, of c] inv(2) False div_le_mono [OF le, of 64]
      by (auto simp: in_ring_def replay_consts)
  qed
qed

theorem promote_verdicts_witness:
  "\<exists>rw. replay_run Standard {10000, 5} rw \<and> \<not> replay_check rw 5 \<and> replay_check (promote_to_high_throughput rw) 5"
proof -
  let ?r = "replay_commit (new_with_profile Standard) 5"
  have r: "replay_run Standard {5} ?r" "rw_latest ?r = 5"
    using replay_run.commit [OF replay_run.new, of Standard 5 ?r]
    by (simp_all add: check_and_set_def replay_check_def new_with_profile_def replay_commit_def)
  let ?rw = "replay_commit ?r 10000"
  have run: "replay_run Standard {10000, 5} ?rw"
    using replay_run.commit [OF r(1), of 10000 ?rw] r(2) by (simp add: check_and_set_def replay_check_def)
  have lat: "rw_latest ?rw = 10000" using r(2) by (simp add: replay_commit_def [of ?r] Let_def or_bit_def)
  have st: "rw_started ?rw" "rw_profile ?rw = Standard" using replay_run_inv [OF run] by (simp_all add: replay_inv_def)
  have "\<not> replay_check ?rw 5" using lat st by (simp add: replay_check_def replay_consts)
  moreover have "replay_check (promote_to_high_throughput ?rw) 5"
    using promote_verdicts [OF run, of 5] lat by simp
  ultimately show ?thesis using run by blast
qed

end
