(* ===== verification/Session.thy ===== *)
theory Session
  imports Replay
begin

text \<open>
  The AEAD session of \<^verbatim>\<open>crates/yip-crypto/src/lib.rs\<close>: sealing under a strided send counter, opening behind
  the replay window, every buffered and in-place variant, and the bare in-place cipher. The
  ChaCha20-Poly1305 implementation is the parameter \<open>A\<close> of type \<open>aead\<close>; what the session relies on is
  \<open>aead_ok\<close>: a tag has 16 bytes, opening a sealed buffer in place restores the plaintext at its front,
  and opening keeps the length of the buffer. The session's own checks precede every use of it.
\<close>

section \<open>Definitions\<close>

record aead =
  aead_seal :: "bytes \<Rightarrow> bytes \<Rightarrow> bytes \<Rightarrow> (bytes \<times> bytes) option"
  aead_open :: "bytes \<Rightarrow> bytes \<Rightarrow> bytes \<Rightarrow> nat option \<times> bytes"

definition aead_ok :: "aead \<Rightarrow> bool" where
  "aead_ok A \<longleftrightarrow> (\<forall>k n p ct tag. aead_seal A k n p = Some (ct, tag) \<longrightarrow>
       length ct = length p \<and> length tag = 16 \<and>
       fst (aead_open A k n (ct @ tag)) = Some (length p) \<and> take (length p) (snd (aead_open A k n (ct @ tag))) = p) \<and>
     (\<forall>k n b. length (snd (aead_open A k n b)) = length b)"

datatype CryptoError = Decrypt | Replay | Handshake

definition noise_nonce :: "nat \<Rightarrow> bytes" where
  "noise_nonce counter = replicate 4 0 @ le_bytes 8 counter"

record Sealed =
  sd_counter :: nat
  sd_ciphertext :: bytes

record Session =
  s_send_key :: bytes
  s_recv_key :: bytes
  s_send_counter :: nat
  s_stride :: nat
  s_replay :: ReplayWindow

definition from_raw_keys :: "bytes \<Rightarrow> bytes \<Rightarrow> nat \<Rightarrow> nat \<Rightarrow> CryptoError + Session" where
  "from_raw_keys k_send k_recv start_counter st =
     (if length k_send \<noteq> 32 \<or> length k_recv \<noteq> 32 then Inl Handshake
      else Inr \<lparr>s_send_key = k_send, s_recv_key = k_recv, s_send_counter = start_counter,
                s_stride = (if st = 0 then 1 else st), s_replay = replay_new\<rparr>)"

definition set_stride :: "Session \<Rightarrow> nat \<Rightarrow> nat \<Rightarrow> Session" where
  "set_stride s start_counter st0 =
     (let st = (if st0 = 0 then 1 else st0);
          c = (if s_send_counter s = 0 then start_counter
               else let rem = s_send_counter s mod st; target_rem = start_counter mod st;
                        diff = (if rem \<le> target_rem then target_rem - rem else st - (rem - target_rem))
                    in sat_add (s_send_counter s) diff)
      in s\<lparr>s_send_counter := c, s_stride := st\<rparr>)"

text \<open>The counter advance shared by the sealing operations.\<close>

definition bump :: "Session \<Rightarrow> CryptoError + Session" where
  "bump s = (case checked_add (s_send_counter s) (s_stride s) of
               None \<Rightarrow> Inl Decrypt | Some c \<Rightarrow> Inr (s\<lparr>s_send_counter := c\<rparr>))"

definition seal :: "aead \<Rightarrow> Session \<Rightarrow> bytes \<Rightarrow> (CryptoError + Sealed) \<times> Session" where
  "seal A s plaintext =
     (let counter = s_send_counter s
      in case aead_seal A (s_send_key s) (noise_nonce counter) plaintext of
           None \<Rightarrow> (Inl Decrypt, s)
         | Some (ct, tag) \<Rightarrow>
             (case bump s of
                Inl e \<Rightarrow> (Inl e, s)
              | Inr s' \<Rightarrow> (Inr \<lparr>sd_counter = counter, sd_ciphertext = ct @ tag\<rparr>, s')))"

definition open_session :: "aead \<Rightarrow> Session \<Rightarrow> nat \<Rightarrow> bytes \<Rightarrow> (CryptoError + bytes) \<times> Session" where
  "open_session A s counter ciphertext =
     (if \<not> replay_check (s_replay s) counter then (Inl Replay, s)
      else case aead_open A (s_recv_key s) (noise_nonce counter) ciphertext of
             (None, _) \<Rightarrow> (Inl Decrypt, s)
           | (Some n, buf) \<Rightarrow> (Inr (take n buf), s\<lparr>s_replay := replay_commit (s_replay s) counter\<rparr>))"

definition check_replay :: "Session \<Rightarrow> nat \<Rightarrow> bool" where
  "check_replay s counter = replay_check (s_replay s) counter"

text \<open>Variants with a caller's buffer return its new contents beside the result.\<close>

definition seal_into :: "aead \<Rightarrow> Session \<Rightarrow> bytes \<Rightarrow> ((CryptoError + nat) \<times> bytes) \<times> Session" where
  "seal_into A s plaintext =
     (let counter = s_send_counter s
      in case aead_seal A (s_send_key s) (noise_nonce counter) plaintext of
           None \<Rightarrow> ((Inl Decrypt, plaintext), s)
         | Some (ct, tag) \<Rightarrow>
             (case bump s of
                Inl e \<Rightarrow> ((Inl e, ct @ tag), s)
              | Inr s' \<Rightarrow> ((Inr counter, ct @ tag), s')))"

definition seal_with_counter :: "aead \<Rightarrow> Session \<Rightarrow> nat \<Rightarrow> bytes \<Rightarrow> CryptoError + Sealed" where
  "seal_with_counter A s counter plaintext =
     (case aead_seal A (s_send_key s) (noise_nonce counter) plaintext of
        None \<Rightarrow> Inl Decrypt
      | Some (ct, tag) \<Rightarrow> Inr \<lparr>sd_counter = counter, sd_ciphertext = ct @ tag\<rparr>)"

definition seal_into_with_counter :: "aead \<Rightarrow> Session \<Rightarrow> nat \<Rightarrow> bytes \<Rightarrow> (CryptoError + unit) \<times> bytes" where
  "seal_into_with_counter A s counter plaintext =
     (case aead_seal A (s_send_key s) (noise_nonce counter) plaintext of
        None \<Rightarrow> (Inl Decrypt, plaintext)
      | Some (ct, tag) \<Rightarrow> (Inr (), ct @ tag))"

definition open_with_window ::
    "aead \<Rightarrow> Session \<Rightarrow> nat \<Rightarrow> bytes \<Rightarrow> ReplayWindow \<Rightarrow> (CryptoError + bytes) \<times> ReplayWindow" where
  "open_with_window A s counter ciphertext rw =
     (if \<not> replay_check rw counter then (Inl Replay, rw)
      else case aead_open A (s_recv_key s) (noise_nonce counter) ciphertext of
             (None, _) \<Rightarrow> (Inl Decrypt, rw)
           | (Some n, buf) \<Rightarrow> (Inr (take n buf), replay_commit rw counter))"

definition open_into_with_window ::
    "aead \<Rightarrow> Session \<Rightarrow> nat \<Rightarrow> bytes \<Rightarrow> ReplayWindow \<Rightarrow> bytes \<Rightarrow> ((CryptoError + unit) \<times> bytes) \<times> ReplayWindow" where
  "open_into_with_window A s counter ciphertext rw out =
     (if \<not> replay_check rw counter then ((Inl Replay, out), rw)
      else case aead_open A (s_recv_key s) (noise_nonce counter) ciphertext of
             (None, buf) \<Rightarrow> ((Inl Decrypt, buf), rw)
           | (Some n, buf) \<Rightarrow> ((Inr (), take n buf), replay_commit rw counter))"

definition open_into :: "aead \<Rightarrow> Session \<Rightarrow> nat \<Rightarrow> bytes \<Rightarrow> bytes \<Rightarrow> ((CryptoError + unit) \<times> bytes) \<times> Session" where
  "open_into A s counter ciphertext out =
     (if \<not> replay_check (s_replay s) counter then ((Inl Replay, out), s)
      else case aead_open A (s_recv_key s) (noise_nonce counter) ciphertext of
             (None, buf) \<Rightarrow> ((Inl Decrypt, buf), s)
           | (Some n, buf) \<Rightarrow>
               ((Inr (), take n buf), s\<lparr>s_replay := replay_commit (s_replay s) counter\<rparr>))"

text \<open>In place, the sealed bytes replace the front of the buffer and the rest of it is untouched.\<close>

definition seal_in_place :: "aead \<Rightarrow> Session \<Rightarrow> bytes \<Rightarrow> nat \<Rightarrow> ((CryptoError + nat) \<times> bytes) \<times> Session" where
  "seal_in_place A s buf plaintext_len =
     (let counter = s_send_counter s
      in case checked_add plaintext_len 16 of
           None \<Rightarrow> ((Inl Decrypt, buf), s)
         | Some total_len \<Rightarrow>
             if length buf < total_len then ((Inl Decrypt, buf), s)
             else case aead_seal A (s_send_key s) (noise_nonce counter) (take plaintext_len buf) of
                    None \<Rightarrow> ((Inl Decrypt, buf), s)
                  | Some (ct, tag) \<Rightarrow>
                      let buf' = ct @ tag @ drop total_len buf
                      in (case bump s of
                            Inl e \<Rightarrow> ((Inl e, buf'), s)
                          | Inr s' \<Rightarrow> ((Inr counter, buf'), s')))"

definition open_in_place :: "aead \<Rightarrow> Session \<Rightarrow> nat \<Rightarrow> bytes \<Rightarrow> nat \<Rightarrow> ((CryptoError + nat) \<times> bytes) \<times> Session" where
  "open_in_place A s counter buf sealed_len =
     (if \<not> replay_check (s_replay s) counter then ((Inl Replay, buf), s)
      else if sealed_len < 16 \<or> length buf < sealed_len then ((Inl Decrypt, buf), s)
      else case aead_open A (s_recv_key s) (noise_nonce counter) (take sealed_len buf) of
             (None, b) \<Rightarrow> ((Inl Decrypt, b @ drop sealed_len buf), s)
           | (Some n, b) \<Rightarrow>
               ((Inr n, b @ drop sealed_len buf), s\<lparr>s_replay := replay_commit (s_replay s) counter\<rparr>))"

text \<open>\<^verbatim>\<open>ChaCha20Poly1305Cipher\<close> holds one key and no counter.\<close>

definition cipher_seal_in_place :: "aead \<Rightarrow> bytes \<Rightarrow> nat \<Rightarrow> bytes \<Rightarrow> nat \<Rightarrow> (CryptoError + nat) \<times> bytes" where
  "cipher_seal_in_place A key counter buf plaintext_len =
     (case checked_add plaintext_len 16 of
        None \<Rightarrow> (Inl Decrypt, buf)
      | Some total_len \<Rightarrow>
          if length buf < total_len then (Inl Decrypt, buf)
          else case aead_seal A key (noise_nonce counter) (take plaintext_len buf) of
                 None \<Rightarrow> (Inl Decrypt, buf)
               | Some (ct, tag) \<Rightarrow> (Inr total_len, ct @ tag @ drop total_len buf))"

definition cipher_open_in_place :: "aead \<Rightarrow> bytes \<Rightarrow> nat \<Rightarrow> bytes \<Rightarrow> nat \<Rightarrow> (CryptoError + nat) \<times> bytes" where
  "cipher_open_in_place A key counter buf sealed_len =
     (if sealed_len < 16 \<or> length buf < sealed_len then (Inl Decrypt, buf)
      else case aead_open A key (noise_nonce counter) (take sealed_len buf) of
             (None, b) \<Rightarrow> (Inl Decrypt, b @ drop sealed_len buf)
           | (Some n, b) \<Rightarrow> (Inr n, b @ drop sealed_len buf))"

definition cipher_open_with_window ::
    "aead \<Rightarrow> bytes \<Rightarrow> nat \<Rightarrow> bytes \<Rightarrow> nat \<Rightarrow> ReplayWindow \<Rightarrow> ((CryptoError + nat) \<times> bytes) \<times> ReplayWindow" where
  "cipher_open_with_window A key counter buf sealed_len rw =
     (if \<not> replay_check rw counter then ((Inl Replay, buf), rw)
      else case cipher_open_in_place A key counter buf sealed_len of
             (Inl e, b) \<Rightarrow> ((Inl e, b), rw)
           | (Inr n, b) \<Rightarrow> ((Inr n, b), replay_commit rw counter))"

section \<open>Sealing\<close>

lemma bump_Inr: "bump s = Inr s' \<longleftrightarrow>
    s_send_counter s + s_stride s \<le> u64_max \<and> s' = s\<lparr>s_send_counter := s_send_counter s + s_stride s\<rparr>"
  by (auto simp: bump_def checked_add_def)

lemma seal_Inr:
  assumes "seal A s p = (Inr sd, s')"
  obtains ct tag where "aead_seal A (s_send_key s) (noise_nonce (s_send_counter s)) p = Some (ct, tag)"
    and "bump s = Inr s'" and "sd = \<lparr>sd_counter = s_send_counter s, sd_ciphertext = ct @ tag\<rparr>"
  using assms by (auto simp: seal_def Let_def split: option.splits sum.splits prod.splits)

text \<open>One step of a session, with the counter it hands out; failures and the opening of frames hand out
  none. A run may also reconfigure the session by the start counters and strides in \<open>R\<close>.\<close>

inductive seal_step :: "aead \<Rightarrow> Session \<Rightarrow> nat option \<Rightarrow> Session \<Rightarrow> bool" for A where
  seal: "seal A s p = (Inr sd, s') \<Longrightarrow> seal_step A s (Some (sd_counter sd)) s'"
| seal_into: "seal_into A s p = ((Inr c, out), s') \<Longrightarrow> seal_step A s (Some c) s'"
| seal_in_place: "seal_in_place A s buf n = ((Inr c, out), s') \<Longrightarrow> seal_step A s (Some c) s'"
| failed: "seal A s p = (Inl e, s') \<Longrightarrow> seal_step A s None s'"
| failed_into: "seal_into A s p = ((Inl e, out), s') \<Longrightarrow> seal_step A s None s'"
| failed_in_place: "seal_in_place A s buf n = ((Inl e, out), s') \<Longrightarrow> seal_step A s None s'"
| open_session: "open_session A s c ct = (res, s') \<Longrightarrow> seal_step A s None s'"
| open_into: "open_into A s c ct out = (r, s') \<Longrightarrow> seal_step A s None s'"
| open_in_place: "open_in_place A s c buf n = (r, s') \<Longrightarrow> seal_step A s None s'"

inductive seal_run :: "aead \<Rightarrow> (nat \<times> nat) set \<Rightarrow> Session \<Rightarrow> nat list \<Rightarrow> Session \<Rightarrow> bool" for A R s0 where
  start: "seal_run A R s0 [] s0"
| handed: "seal_run A R s0 cs s \<Longrightarrow> seal_step A s (Some c) s' \<Longrightarrow> seal_run A R s0 (cs @ [c]) s'"
| silent: "seal_run A R s0 cs s \<Longrightarrow> seal_step A s None s' \<Longrightarrow> seal_run A R s0 cs s'"
| reconfigured: "seal_run A R s0 cs s \<Longrightarrow> (i, n) \<in> R \<Longrightarrow> seal_run A R s0 cs (set_stride s i n)"

lemma seal_step_Some:
  assumes "seal_step A s (Some c) s'"
  shows "c = s_send_counter s \<and> s' = s\<lparr>s_send_counter := s_send_counter s + s_stride s\<rparr> \<and>
    s_send_counter s + s_stride s \<le> u64_max"
  using assms
  by (cases rule: seal_step.cases)
     (auto simp: seal_def seal_into_def seal_in_place_def Let_def bump_Inr split: option.splits sum.splits prod.splits if_splits)

lemma seal_step_None:
  assumes "seal_step A s None s'"
  shows "s_send_counter s' = s_send_counter s \<and> s_stride s' = s_stride s"
  using assms
  by (cases rule: seal_step.cases)
     (auto simp: seal_def seal_into_def seal_in_place_def open_session_def open_into_def open_in_place_def Let_def
        split: option.splits sum.splits prod.splits if_splits)

lemma set_stride_grows: "min (s_send_counter s) u64_max \<le> s_send_counter (set_stride s i n)" "0 < s_stride (set_stride s i n)"
  by (auto simp: set_stride_def Let_def sat_add_def)

lemma seal_run_increasing:
  assumes "seal_run A R s0 cs s" "0 < s_stride s0"
  shows "sorted_wrt (<) cs \<and> (\<forall>c \<in> set cs. s_send_counter s0 \<le> c \<and> c < u64_max \<and> c < s_send_counter s) \<and>
    min (s_send_counter s0) u64_max \<le> s_send_counter s \<and> 0 < s_stride s"
  using assms(1)
proof (induction rule: seal_run.induct)
  case (handed cs s c s')
  then show ?case using seal_step_Some [OF handed.hyps(2)] by (fastforce simp: sorted_wrt_append)
next
  case (silent cs s s')
  then show ?case using seal_step_None [OF silent.hyps(2)] by simp
next
  case (reconfigured cs s i n)
  then show ?case using set_stride_grows [of s i n] by fastforce
qed (use assms(2) in simp)

lemma set_stride_residue:
  assumes "0 < n" "i < n" "s_send_counter s + n \<le> u64_max"
  shows "s_send_counter (set_stride s i n) mod n = i \<and> s_stride (set_stride s i n) = n \<and>
    s_send_counter s \<le> s_send_counter (set_stride s i n)"
proof (cases "s_send_counter s = 0")
  case False
  let ?c = "s_send_counter s"
  define d where "d = (if ?c mod n \<le> i then i - ?c mod n else n - (?c mod n - i))"
  have lt: "?c mod n < n" using assms(1) by simp
  have "d \<le> n" using lt assms(2) by (auto simp: d_def)
  moreover have "s_send_counter (set_stride s i n) = sat_add ?c d" "s_stride (set_stride s i n) = n"
    using assms(1,2) False by (simp_all add: set_stride_def Let_def d_def)
  ultimately have c: "s_send_counter (set_stride s i n) = ?c + d" "s_stride (set_stride s i n) = n"
    using assms(3) sat_add_id [of ?c d] by simp_all
  have "(?c + d) mod n = (?c mod n + d) mod n" by (simp add: mod_add_left_eq)
  also have "\<dots> = i"
  proof (cases "?c mod n \<le> i")
    case True
    then show ?thesis using assms(2) by (simp add: d_def)
  next
    case False
    then have "?c mod n + d = i + n" using lt by (simp add: d_def)
    then show ?thesis using assms(2) by simp
  qed
  finally show ?thesis using c by simp
qed (use assms in \<open>simp add: set_stride_def Let_def\<close>)

text \<open>The counters of a worker that is only ever configured as number \<open>i\<close> of \<open>n\<close> stay in its residue class.\<close>

lemma set_stride_class:
  assumes "i < n"
  shows "s_stride (set_stride t i n) = n \<and> (s_send_counter (set_stride t i n) + n \<le> u64_max \<longrightarrow> s_send_counter (set_stride t i n) mod n = i)"
proof (cases "s_send_counter t + n \<le> u64_max")
  case True
  then show ?thesis using set_stride_residue [of n i t] assms by simp
next
  case False
  then have "\<not> s_send_counter (set_stride t i n) + n \<le> u64_max" using set_stride_grows(1) [of t i n] assms by linarith
  moreover have "s_stride (set_stride t i n) = n" using assms by (simp add: set_stride_def Let_def)
  ultimately show ?thesis by simp
qed

lemma seal_run_residue:
  assumes "seal_run A {(i, n)} (set_stride s0 i n) cs s" "i < n"
  shows "(\<forall>c \<in> set cs. c mod n = i) \<and> s_stride s = n \<and> (s_send_counter s + n \<le> u64_max \<longrightarrow> s_send_counter s mod n = i)"
  using assms(1)
proof (induction rule: seal_run.induct)
  case (handed cs s c s')
  then show ?case using seal_step_Some [OF handed.hyps(2)] by auto
next
  case (silent cs s s')
  then show ?case using seal_step_None [OF silent.hyps(2)] by simp
qed (use set_stride_class [OF assms(2)] in auto)

lemma seal_variants:
  assumes "seal A s p = (r, s')"
  shows "snd (seal_into A s p) = s' \<and>
      (case r of Inl e \<Rightarrow> fst (fst (seal_into A s p)) = Inl e
               | Inr sd \<Rightarrow> fst (seal_into A s p) = (Inr (sd_counter sd), sd_ciphertext sd))"
    and "\<lbrakk>aead_ok A; length rest \<ge> 16; length p + 16 \<le> u64_max\<rbrakk> \<Longrightarrow>
      snd (seal_in_place A s (p @ rest) (length p)) = s' \<and>
      (case r of Inl e \<Rightarrow> fst (fst (seal_in_place A s (p @ rest) (length p))) = Inl e
               | Inr sd \<Rightarrow> fst (seal_in_place A s (p @ rest) (length p)) =
                   (Inr (sd_counter sd), sd_ciphertext sd @ drop 16 rest))"
  using assms
  by (auto simp: seal_def seal_into_def seal_in_place_def Let_def checked_add_def
      split: option.splits sum.splits prod.splits)

section \<open>Opening\<close>

lemma open_variants:
  assumes "open_session A s c ct = (r, s')"
  shows "open_with_window A s c ct (s_replay s) = (r, s_replay s')"
    and "open_into A s c ct out = ((case r of Inl e \<Rightarrow> Inl e | Inr p \<Rightarrow> Inr (),
      case r of Inl Replay \<Rightarrow> out | Inr p \<Rightarrow> p | _ \<Rightarrow> snd (aead_open A (s_recv_key s) (noise_nonce c) ct)), s')"
    and "open_into_with_window A s c ct (s_replay s) out = (fst (open_into A s c ct out), s_replay s')"
  using assms
  by (auto simp: open_session_def open_with_window_def open_into_def open_into_with_window_def
      split: if_splits prod.splits option.splits)

lemma open_in_place_variant:
  assumes "open_session A s c ct = (r, s')" "16 \<le> length ct" "aead_ok A"
    and "\<forall>n. fst (aead_open A (s_recv_key s) (noise_nonce c) ct) = Some n \<longrightarrow> n = length ct - 16"
  shows "\<exists>b. length b = length ct \<and> open_in_place A s c (ct @ rest) (length ct) =
      ((case r of Inl e \<Rightarrow> Inl e | Inr p \<Rightarrow> Inr (length p), b @ rest), s') \<and>
      (case r of Inr p \<Rightarrow> take (length p) b = p | _ \<Rightarrow> True)"
proof -
  let ?o = "aead_open A (s_recv_key s) (noise_nonce c) ct"
  have len: "length (snd ?o) = length ct" using assms(3) by (simp add: aead_ok_def)
  show ?thesis
  proof (cases "replay_check (s_replay s) c")
    case False
    then show ?thesis using assms(1) by (intro exI [of _ ct]) (auto simp: open_session_def open_in_place_def)
  next
    case True
    then show ?thesis using assms(1,2,4) len
      by (intro exI [of _ "snd ?o"])
         (auto simp: open_session_def open_in_place_def split: prod.splits option.splits)
  qed
qed

lemma open_sealed:
  assumes "aead_ok A" "s_recv_key b = s_send_key a" "seal A a p = (Inr sd, a')" "check_replay b (sd_counter sd)"
  shows "open_session A b (sd_counter sd) (sd_ciphertext sd) =
    (Inr p, b\<lparr>s_replay := replay_commit (s_replay b) (sd_counter sd)\<rparr>)"
proof -
  obtain ct tag where ct: "aead_seal A (s_send_key a) (noise_nonce (s_send_counter a)) p = Some (ct, tag)"
    "sd = \<lparr>sd_counter = s_send_counter a, sd_ciphertext = ct @ tag\<rparr>"
    using seal_Inr [OF assms(3)] by blast
  obtain o1 buf where o: "aead_open A (s_send_key a) (noise_nonce (s_send_counter a)) (ct @ tag) = (o1, buf)" by fastforce
  have "fst (o1, buf) = Some (length p)" "take (length p) (snd (o1, buf)) = p"
    using assms(1) ct(1) unfolding aead_ok_def o [symmetric] by blast+
  then show ?thesis using assms(2,4) o ct(2) by (simp add: open_session_def check_replay_def)
qed

text \<open>What the steps of a run do to the window: each commits a counter that passed the check, or nothing.\<close>

lemma seal_step_window:
  assumes "seal_step A s r s'"
  shows "s_replay s' = s_replay s \<or> (\<exists>c. replay_check (s_replay s) c \<and> s_replay s' = replay_commit (s_replay s) c)"
  using assms
  by (cases rule: seal_step.cases)
     (auto simp: seal_def seal_into_def seal_in_place_def open_session_def open_into_def open_in_place_def Let_def bump_Inr
        split: option.splits sum.splits prod.splits if_splits)

lemma seal_step_replay_inv:
  assumes "\<exists>T. replay_inv T (s_replay s) \<and> S \<subseteq> T \<and> rw_profile (s_replay s) = p" "seal_step A s r s'"
  shows "\<exists>T. replay_inv T (s_replay s') \<and> S \<subseteq> T \<and> rw_profile (s_replay s') = p"
proof -
  obtain T where T: "replay_inv T (s_replay s)" "S \<subseteq> T" "rw_profile (s_replay s) = p" using assms(1) by blast
  from seal_step_window [OF assms(2)] show ?thesis
  proof
    assume "\<exists>c. replay_check (s_replay s) c \<and> s_replay s' = replay_commit (s_replay s) c"
    then obtain c where c: "replay_check (s_replay s) c" "s_replay s' = replay_commit (s_replay s) c" by blast
    have "replay_inv (insert c T) (s_replay s')" unfolding c(2) by (rule commit_inv [OF T(1) c(1)])
    then show ?thesis using T(2,3) c(2) commit_profile by auto
  qed (use T in auto)
qed

lemma seal_run_window:
  assumes "seal_run A R s0 cs s" "replay_inv S (s_replay s0)"
  shows "\<exists>T. replay_inv T (s_replay s) \<and> S \<subseteq> T \<and> rw_profile (s_replay s) = rw_profile (s_replay s0)"
  using assms(1)
proof (induction rule: seal_run.induct)
  case (handed cs s c s')
  show ?case by (rule seal_step_replay_inv [OF handed.IH handed.hyps(2)])
next
  case (silent cs s s')
  show ?case by (rule seal_step_replay_inv [OF silent.IH silent.hyps(2)])
next
  case (reconfigured cs s i n)
  then show ?case by (simp add: set_stride_def Let_def)
qed (use assms(2) in blast)

lemma committed_refused:
  assumes "replay_inv S rw" "c \<in> S" "rw_latest rw div 64 < c div 64 + replay_words (rw_profile rw) \<or> c + replay_bits (rw_profile rw) \<le> rw_latest rw"
  shows "\<not> replay_check rw c"
proof -
  have st: "ring_ok rw" "rw_started rw" "c \<le> rw_latest rw" using assms(1,2) by (auto simp: replay_inv_def)
  have "ring_bit (rw_bitmap rw) c" if "rw_latest rw div 64 < c div 64 + replay_words (rw_profile rw)"
    using assms(1,2) that div_le_mono [OF st(3), of 64] by (simp add: replay_inv_def in_ring_def)
  then show ?thesis using replay_check_ring [OF st(1,2), of c] st(3) assms(3) by auto
qed

section \<open>Properties\<close>

text \<open>C21: a sealed frame is opened, and not a second time while the window remembers it. A peer that holds the sender's key as its
  receive key and whose window accepts the counter recovers exactly the plaintext. After any further
  opening and sealing, of whatever frames, the counter is a replay and changes nothing, as long as the largest
  counter accepted lies less than a ring of words ahead, and again once it lies a window or more ahead;
  only in the part of a word between the two the ring has forgotten it. A frame that is refused, as a replay or a forgery, never moves
  the window.\<close>

theorem session_opens_once:
  assumes "aead_ok A" "s_recv_key b = s_send_key a" "window_ok (s_replay b)"
    and "seal A a p = (Inr sd, a')" "check_replay b (sd_counter sd)"
  shows "\<exists>b'. open_session A b (sd_counter sd) (sd_ciphertext sd) = (Inr p, b') \<and> window_ok (s_replay b') \<and>
    (\<forall>ct. open_session A b' (sd_counter sd) ct = (Inl Replay, b')) \<and>
    (\<forall>R cs b'' ct. seal_run A R b' cs b'' \<longrightarrow>
       rw_latest (s_replay b'') div 64 < sd_counter sd div 64 + replay_words (rw_profile (s_replay b)) \<or>
       sd_counter sd + replay_bits (rw_profile (s_replay b)) \<le> rw_latest (s_replay b'') \<longrightarrow>
       open_session A b'' (sd_counter sd) ct = (Inl Replay, b'')) \<and>
    (\<forall>c ct e. fst (open_session A b c ct) = Inl e \<longrightarrow> snd (open_session A b c ct) = b)"
proof -
  let ?c = "sd_counter sd"
  let ?b = "b\<lparr>s_replay := replay_commit (s_replay b) ?c\<rparr>"
  have chk: "replay_check (s_replay b) ?c" using assms(5) by (simp add: check_replay_def)
  obtain S where S: "replay_inv S (s_replay b)" using assms(3) by (auto simp: window_ok_def)
  have inv: "replay_inv (insert ?c S) (s_replay ?b)" "rw_profile (s_replay ?b) = rw_profile (s_replay b)"
    using commit_inv [OF S chk] commit_profile by simp_all
  have "open_session A ?b ?c ct = (Inl Replay, ?b)" for ct
    using guard.refuses [OF assms(3) chk] by (simp add: open_session_def)
  moreover have "open_session A b'' ?c ct = (Inl Replay, b'')"
    if run: "seal_run A R ?b cs b''" and far: "rw_latest (s_replay b'') div 64 < ?c div 64 + replay_words (rw_profile (s_replay b)) \<or>
      ?c + replay_bits (rw_profile (s_replay b)) \<le> rw_latest (s_replay b'')" for R cs b'' ct
  proof -
    obtain T where "replay_inv T (s_replay b'')" "?c \<in> T" "rw_profile (s_replay b'') = rw_profile (s_replay b)"
      using seal_run_window [OF run inv(1)] inv(2) by auto
    then have "\<not> replay_check (s_replay b'') ?c" using committed_refused far by metis
    then show ?thesis by (simp add: open_session_def)
  qed
  moreover have "snd (open_session A b c ct) = b" if "fst (open_session A b c ct) = Inl e" for c ct e
    using that by (auto simp: open_session_def split: if_splits prod.splits option.splits)
  ultimately show ?thesis
    using open_sealed [OF assms(1,2,4,5)] guard.keeps [OF assms(3) chk] by (intro exI [of _ ?b]) simp
qed

text \<open>An instance of the parameter: the ciphertext is the plaintext and the tag is the nonce and four zero bytes.\<close>

definition null_aead :: aead where
  "null_aead = \<lparr>aead_seal = (\<lambda>k n p. if length n = 12 then Some (p, n @ replicate 4 0) else None),
     aead_open = (\<lambda>k n b. (if 16 \<le> length b \<and> drop (length b - 16) b = n @ replicate 4 0
                          then Some (length b - 16) else None, b))\<rparr>"

lemma null_aead_ok: "aead_ok null_aead"
  by (auto simp: aead_ok_def null_aead_def)

theorem session_opens_once_witness:
  "\<exists>a b b' b''. from_raw_keys (replicate 32 1) (replicate 32 2) 7 1 = Inr a \<and>
     from_raw_keys (replicate 32 2) (replicate 32 1) 0 1 = Inr b \<and>
     open_session null_aead b 7 ([9] @ noise_nonce 7 @ replicate 4 0) = (Inr [9], b') \<and>
     open_session null_aead b' 900 ([8] @ noise_nonce 900 @ replicate 4 0) = (Inr [8], b'') \<and>
     open_session null_aead b'' 7 ([9] @ noise_nonce 7 @ replicate 4 0) = (Inl Replay, b'')"
proof -
  define a where "a = \<lparr>s_send_key = replicate 32 1, s_recv_key = replicate 32 2, s_send_counter = 7, s_stride = 1, s_replay = replay_new\<rparr>"
  define b where "b = \<lparr>s_send_key = replicate 32 2, s_recv_key = replicate 32 1, s_send_counter = 0, s_stride = 1, s_replay = replay_new\<rparr>"
  define sd where "sd = \<lparr>sd_counter = 7, sd_ciphertext = [9] @ noise_nonce 7 @ replicate 4 0\<rparr>"
  have s: "seal null_aead a [9] = (Inr sd, a\<lparr>s_send_counter := 8\<rparr>)"
    by (simp add: seal_def a_def sd_def null_aead_def noise_nonce_def bump_def checked_add_def u64_max_def le_bytes_def)
  have w: "window_ok (s_replay b)" by (simp add: b_def replay_new_def)
  have chk: "check_replay b (sd_counter sd)"
    by (simp add: b_def replay_new_def check_replay_def replay_check_def new_with_profile_def)
  have keys: "s_recv_key b = s_send_key a" by (simp add: a_def b_def)
  have prof: "rw_profile (s_replay b) = HighThroughput" "sd_counter sd = 7" by (simp_all add: b_def replay_new_def new_with_profile_def sd_def)
  obtain b' where b': "open_session null_aead b (sd_counter sd) (sd_ciphertext sd) = (Inr [9], b')"
    "\<And>R cs b'' ct. seal_run null_aead R b' cs b'' \<Longrightarrow> rw_latest (s_replay b'') div 64 < 7 div 64 + replay_words HighThroughput \<Longrightarrow>
       open_session null_aead b'' 7 ct = (Inl Replay, b'')"
    using session_opens_once [OF null_aead_ok keys w s chk] unfolding prof by blast
  have l: "s_replay b' = replay_commit replay_new 7"
    using b'(1) by (auto simp: open_session_def b_def sd_def null_aead_def split: if_splits)
  have lat: "rw_started (s_replay b')" "rw_latest (s_replay b') = 7"
    unfolding l by (simp_all add: replay_new_def new_with_profile_def replay_commit_def)
  define b'' where "b'' = b'\<lparr>s_replay := replay_commit (s_replay b') 900\<rparr>"
  have open2: "open_session null_aead b' 900 ([8] @ noise_nonce 900 @ replicate 4 0) = (Inr [8], b'')"
    using lat by (simp add: open_session_def replay_check_def null_aead_def b''_def noise_nonce_def le_bytes_def)
  have "seal_run null_aead {} b' [] b''" by (rule seal_run.silent [OF seal_run.start seal_step.open_session [OF open2]])
  moreover have "rw_latest (s_replay b'') = 900" using lat by (simp add: b''_def replay_commit_def Let_def or_bit_def)
  ultimately have "open_session null_aead b'' 7 ct = (Inl Replay, b'')" for ct using b'(2) by (simp add: replay_consts)
  moreover have "from_raw_keys (replicate 32 1) (replicate 32 2) 7 1 = Inr a" "from_raw_keys (replicate 32 2) (replicate 32 1) 0 1 = Inr b"
    by (simp_all only: from_raw_keys_def a_def b_def length_replicate) simp_all
  ultimately show ?thesis using b'(1) open2 unfolding sd_def by auto
qed

text \<open>C23: no two frames are sealed under the same nonce. A session hands out strictly increasing counters, whatever sealing
  operations, failures, openings and reconfigurations of its stride are interleaved, and never one below where it
  started; and two workers that share the keys of one session, configured as numbers \<open>i \<noteq> j\<close> of \<open>n\<close> and
  never otherwise, never hand out the same counter. The operations that take the counter as an argument leave it to their caller.\<close>

theorem sealed_counters_unique:
  assumes "0 < s_stride s"
  shows "(\<forall>cs s'. seal_run A UNIV s cs s' \<longrightarrow> sorted_wrt (<) cs \<and> distinct cs \<and> (\<forall>c \<in> set cs. s_send_counter s \<le> c)) \<and>
    (\<forall>n i j t cs ds s' t'. i < n \<and> j < n \<and> i \<noteq> j \<and> seal_run A {(i, n)} (set_stride s i n) cs s' \<and> seal_run A {(j, n)} (set_stride t j n) ds t' \<longrightarrow>
       set cs \<inter> set ds = {})"
proof (intro conjI allI impI)
  fix cs s' assume "seal_run A UNIV s cs s'"
  note inc = seal_run_increasing [OF this assms]
  then show "sorted_wrt (<) cs" "\<forall>c \<in> set cs. s_send_counter s \<le> c" by blast+
  then show "distinct cs" using strict_sorted_iff by blast
next
  fix n i j t cs ds s' t'
  assume a: "i < n \<and> j < n \<and> i \<noteq> j \<and> seal_run A {(i, n)} (set_stride s i n) cs s' \<and> seal_run A {(j, n)} (set_stride t j n) ds t'"
  then have "\<forall>c \<in> set cs. c mod n = i" "\<forall>c \<in> set ds. c mod n = j" using seal_run_residue by blast+
  then show "set cs \<inter> set ds = {}" using a by (metis disjoint_iff)
qed

theorem sealed_counters_unique_witness:
  "\<exists>s s' u u'. seal_run null_aead UNIV s [4, 5, 8] s' \<and> s_stride s = 1 \<and> distinct [4, 5, 8 :: nat] \<and>
     seal_run null_aead {(0, 2)} (set_stride s 0 2) [4] u \<and> seal_run null_aead {(1, 2)} (set_stride s 1 2) [5] u' \<and> set [4] \<inter> set [5 :: nat] = {}"
proof -
  define s where "s k st = \<lparr>s_send_key = [], s_recv_key = [], s_send_counter = k, s_stride = st, s_replay = replay_new\<rparr>" for k st
  have step: "seal_step null_aead (s k st) (Some k) (s (k + st) st)" if "k + st \<le> u64_max" for k st
  proof -
    have "seal null_aead (s k st) [] = (Inr \<lparr>sd_counter = k, sd_ciphertext = noise_nonce k @ replicate 4 0\<rparr>, s (k + st) st)"
      using that by (simp add: seal_def null_aead_def noise_nonce_def le_bytes_def bump_def checked_add_def Let_def s_def)
    then show ?thesis using seal_step.seal by fastforce
  qed
  have conf: "set_stride (s 6 1) 0 4 = s 8 4" "set_stride (s 4 1) 0 2 = s 4 2" "set_stride (s 4 1) 1 2 = s 5 2"
    by (simp_all add: s_def set_stride_def Let_def sat_add_def u64_max_def)
  have st: "seal_step null_aead (s 4 1) (Some 4) (s 5 1)" "seal_step null_aead (s 5 1) (Some 5) (s 6 1)" "seal_step null_aead (s 8 4) (Some 8) (s 12 4)"
    "seal_step null_aead (s 4 2) (Some 4) (s 6 2)" "seal_step null_aead (s 5 2) (Some 5) (s 7 2)"
    using step [of 4 1] step [of 5 1] step [of 8 4] step [of 4 2] step [of 5 2] by (simp_all add: u64_max_def)
  have "seal_run null_aead UNIV (s 4 1) [4, 5] (s 6 1)"
    using seal_run.handed [OF seal_run.handed [OF seal_run.start st(1)] st(2)] by simp
  from seal_run.handed [OF seal_run.reconfigured [OF this, of 0 4, unfolded conf] st(3)]
  have r: "seal_run null_aead UNIV (s 4 1) [4, 5, 8] (s 12 4)" by simp
  have w: "seal_run null_aead {(0, 2)} (set_stride (s 4 1) 0 2) [4] (s 6 2)" "seal_run null_aead {(1, 2)} (set_stride (s 4 1) 1 2) [5] (s 7 2)"
    unfolding conf using seal_run.handed [OF seal_run.start st(4)] seal_run.handed [OF seal_run.start st(5)] by simp_all
  have "0 < s_stride (s 4 1)" by (simp add: s_def)
  note unique = sealed_counters_unique [OF this, of null_aead]
  have "distinct [4, 5, 8 :: nat]" using unique [THEN conjunct1, rule_format, OF r] by blast
  moreover have "set [4] \<inter> set [5 :: nat] = {}"
    by (rule unique [THEN conjunct2, rule_format, of 0 2 1]) (use w in simp)
  moreover have "s_stride (s 4 1) = 1" by (simp add: s_def)
  ultimately show ?thesis using r w by blast
qed

text \<open>The buffered and in-place variants agree with the plain operations. Sealing into a reused buffer or in
  place yields the same counter, the same sealed bytes and the same next session as \<open>seal\<close>, and
  leaves the bytes behind the tag alone; opening into a buffer or against the session's own window
  as an argument returns what \<open>open_session\<close> returns and moves the window alike; and the bare cipher
  with a window opens in place what the session opens in place.\<close>

theorem session_variants_agree:
  assumes "aead_ok A" "length rest \<ge> 16" "length p + 16 \<le> u64_max"
  shows "(\<forall>sd s'. seal A s p = (Inr sd, s') \<longrightarrow>
       seal_into A s p = ((Inr (sd_counter sd), sd_ciphertext sd), s') \<and>
       seal_in_place A s (p @ rest) (length p) = ((Inr (sd_counter sd), sd_ciphertext sd @ drop 16 rest), s') \<and>
       seal_with_counter A s (s_send_counter s) p = Inr sd) \<and>
     (\<forall>q s'. open_session A s c ct = (Inr q, s') \<longrightarrow>
       open_into A s c ct out = ((Inr (), q), s') \<and> open_with_window A s c ct (s_replay s) = (Inr q, s_replay s') \<and>
       open_into_with_window A s c ct (s_replay s) out = ((Inr (), q), s_replay s')) \<and>
     (\<forall>e s'. open_session A s c ct = (Inl e, s') \<longrightarrow>
       s' = s \<and> fst (fst (open_into A s c ct out)) = Inl e \<and> snd (open_into A s c ct out) = s \<and>
       open_with_window A s c ct (s_replay s) = (Inl e, s_replay s)) \<and>
     cipher_open_with_window A (s_recv_key s) c buf m (s_replay s) =
       (fst (open_in_place A s c buf m), s_replay (snd (open_in_place A s c buf m)))"
proof (intro conjI allI impI)
  show "cipher_open_with_window A (s_recv_key s) c buf m (s_replay s) =
      (fst (open_in_place A s c buf m), s_replay (snd (open_in_place A s c buf m)))"
    by (auto simp: cipher_open_with_window_def cipher_open_in_place_def open_in_place_def split: prod.splits option.splits)
next
  fix sd s' assume a: "seal A s p = (Inr sd, s')"
  show "seal_into A s p = ((Inr (sd_counter sd), sd_ciphertext sd), s')"
    using seal_variants(1) [OF a] by (cases "seal_into A s p") simp
  show "seal_in_place A s (p @ rest) (length p) = ((Inr (sd_counter sd), sd_ciphertext sd @ drop 16 rest), s')"
    using seal_variants(2) [OF a assms] by (cases "seal_in_place A s (p @ rest) (length p)") simp
  show "seal_with_counter A s (s_send_counter s) p = Inr sd"
    using seal_Inr [OF a] by (metis (no_types, lifting) seal_with_counter_def case_prod_conv option.case(2))
next
  fix q s' assume a: "open_session A s c ct = (Inr q, s')"
  show "open_into A s c ct out = ((Inr (), q), s')" using open_variants(2) [OF a] by simp
  then show "open_into_with_window A s c ct (s_replay s) out = ((Inr (), q), s_replay s')"
    using open_variants(3) [OF a] by simp
  show "open_with_window A s c ct (s_replay s) = (Inr q, s_replay s')" using open_variants(1) [OF a] by simp
next
  fix e s' assume a: "open_session A s c ct = (Inl e, s')"
  show s: "s' = s" using a by (auto simp: open_session_def split: if_splits prod.splits option.splits)
  show "fst (fst (open_into A s c ct out)) = Inl e" "snd (open_into A s c ct out) = s"
    using open_variants(2) [OF a, of out] s by simp_all
  show "open_with_window A s c ct (s_replay s) = (Inl e, s_replay s)" using open_variants(1) [OF a] s by simp
qed

theorem session_variants_agree_witness:
  "\<exists>s s'. seal_in_place null_aead s ([9] @ replicate 16 0) 1 = ((Inr 4, [9] @ noise_nonce 4 @ replicate 4 0), s') \<and>
     seal_into null_aead s [9] = ((Inr 4, [9] @ noise_nonce 4 @ replicate 4 0), s')"
proof -
  define s where "s = \<lparr>s_send_key = [], s_recv_key = [], s_send_counter = 4, s_stride = 1, s_replay = replay_new\<rparr>"
  define sd where "sd = \<lparr>sd_counter = 4, sd_ciphertext = [9] @ noise_nonce 4 @ replicate 4 0\<rparr>"
  have "seal null_aead s [9] = (Inr sd, s\<lparr>s_send_counter := 5\<rparr>)"
    by (simp add: seal_def s_def sd_def null_aead_def noise_nonce_def le_bytes_def bump_def checked_add_def Let_def u64_max_def)
  moreover have "length ([9] :: bytes) + 16 \<le> u64_max" by (simp add: u64_max_def)
  ultimately have "seal_into null_aead s [9] = ((Inr 4, sd_ciphertext sd), s\<lparr>s_send_counter := 5\<rparr>) \<and>
      seal_in_place null_aead s ([9] @ replicate 16 0) (length ([9] :: bytes)) = ((Inr 4, sd_ciphertext sd @ drop 16 (replicate 16 0)), s\<lparr>s_send_counter := 5\<rparr>)"
    using session_variants_agree [OF null_aead_ok, of "replicate 16 0" "[9]" s 0 "[]" "[]" "[]" 0] by (simp add: sd_def)
  then show ?thesis by (intro exI [of _ s] exI [of _ "s\<lparr>s_send_counter := 5\<rparr>"]) (simp add: sd_def)
qed

end
