(* ===== verification/Codecs.thy ===== *)
theory Codecs
  imports Prelude
begin

text \<open>
  The contracts of the wire formats. A \<open>roundtrip_codec\<close> decodes what it encodes; in a
  \<open>canonical_codec\<close> a message moreover has exactly one accepted encoding, so that whoever accepts a
  byte string accepts the encoding of the message it stands for and nothing else.
\<close>

locale roundtrip_codec =
  fixes valid :: "'a \<Rightarrow> bool" and enc :: "'a \<Rightarrow> bytes" and dec :: "bytes \<Rightarrow> 'a option"
  assumes roundtrip: "valid x \<Longrightarrow> dec (enc x) = Some x"
begin

lemma enc_inj:
  assumes "valid x" "valid y" "enc x = enc y"
  shows "x = y"
proof -
  have "Some x = dec (enc x)" using roundtrip [OF assms(1)] ..
  also have "\<dots> = dec (enc y)" unfolding assms(3) ..
  also have "\<dots> = Some y" using roundtrip [OF assms(2)] .
  finally show ?thesis by simp
qed

end

locale canonical_codec = roundtrip_codec +
  assumes canonical: "dec b = Some x \<Longrightarrow> valid x \<and> enc x = b"
begin

lemma dec_iff: "dec b = Some x \<longleftrightarrow> valid x \<and> enc x = b"
  using roundtrip canonical by blast

lemma rejects_iff: "dec b = None \<longleftrightarrow> (\<forall>x. valid x \<longrightarrow> enc x \<noteq> b)"
  using dec_iff [of b] by (cases "dec b") auto

end

section \<open>Shared list lemmas\<close>

lemma take_append_exact: "length xs = n \<Longrightarrow> take n (xs @ ys) = xs"
  by simp

lemma drop_append_exact: "length xs = n \<Longrightarrow> drop n (xs @ ys) = ys"
  by simp

lemma split_at: "n \<le> length bs \<Longrightarrow> \<exists>xs ys. bs = xs @ ys \<and> length xs = n"
  by (rule exI [of _ "take n bs"], rule exI [of _ "drop n bs"]) simp

lemma split_at_end: "n \<le> length bs \<Longrightarrow> \<exists>xs ys. bs = xs @ ys \<and> length ys = n"
  by (rule exI [of _ "take (length bs - n) bs"], rule exI [of _ "drop (length bs - n) bs"]) simp

lemmas split_simps = take_append_exact drop_append_exact

lemma length_1E:
  assumes "length bs = 1"
  obtains b where "bs = [b]"
  using assms by (auto simp: length_Suc_conv)

end
