(* ===== verification/Wire.thy ===== *)
theory Wire
  imports Codecs
begin

text \<open>
  The wire codec of \<^verbatim>\<open>crates/yip-wire/src/lib.rs\<close>: a 15-byte header, a payload and an 8-byte tag, with
  the header masked by a keystream derived from the tag. SipHash-1-3 is third-party code and a
  parameter \<open>sip\<close> (key, message).
\<close>

unbundle bit_operations_syntax

section \<open>Frames and codec\<close>

record Frame =
  conn_tag :: u64
  fr_object_id :: u16
  fr_payload_id :: bytes
  fr_flags :: u8
  fr_payload :: bytes

definition HEADER_LEN :: nat where
  "HEADER_LEN = 15"

definition TAG_LEN :: nat where
  "TAG_LEN = 8"

definition MIN_FRAME :: nat where
  "MIN_FRAME = HEADER_LEN + TAG_LEN"

definition write_header :: "Frame \<Rightarrow> bytes" where
  "write_header f = be64 (conn_tag f) @ be16 (fr_object_id f) @ fr_payload_id f @ [fr_flags f]"

definition read_header :: "bytes \<Rightarrow> u64 \<times> u16 \<times> bytes \<times> u8" where
  "read_header bs = (un64 (take 8 bs), un16 (take 2 (drop 8 bs)), take 4 (drop 10 bs), bs ! 14)"

definition auth_tag :: "(bytes \<Rightarrow> bytes \<Rightarrow> u64) \<Rightarrow> bytes \<Rightarrow> bytes \<Rightarrow> bytes \<Rightarrow> bytes" where
  "auth_tag sip auth_key header payload = be64 (sip auth_key (header @ payload))"

definition header_mask :: "(bytes \<Rightarrow> bytes \<Rightarrow> u64) \<Rightarrow> bytes \<Rightarrow> bytes \<Rightarrow> bytes" where
  "header_mask sip hp_key sample =
     be64 (sip hp_key (sample @ be32 0)) @ take 7 (be64 (sip hp_key (sample @ be32 1)))"

definition xor_in_place :: "bytes \<Rightarrow> bytes \<Rightarrow> bytes" where
  "xor_in_place buf m = map (\<lambda>(b, x). b XOR x) (zip buf m) @ drop (length m) buf"

datatype WireError = AuthFailed | Malformed

record Codec =
  auth_key :: bytes
  hp_key :: bytes

definition frame :: "(bytes \<Rightarrow> bytes \<Rightarrow> u64) \<Rightarrow> Codec \<Rightarrow> Frame \<Rightarrow> bytes" where
  "frame sip c f =
     (let header = write_header f;
          tag = auth_tag sip (auth_key c) header (fr_payload f);
          m = header_mask sip (hp_key c) tag
      in xor_in_place header m @ fr_payload f @ tag)"

definition deframe :: "(bytes \<Rightarrow> bytes \<Rightarrow> u64) \<Rightarrow> Codec \<Rightarrow> bytes \<Rightarrow> WireError + Frame" where
  "deframe sip c datagram =
     (if length datagram < MIN_FRAME then Inl Malformed
      else let tag = drop (length datagram - TAG_LEN) datagram;
               m = header_mask sip (hp_key c) tag;
               header = xor_in_place (take HEADER_LEN datagram) m;
               payload = take (length datagram - TAG_LEN - HEADER_LEN) (drop HEADER_LEN datagram);
               expected = auth_tag sip (auth_key c) header payload
           in if expected \<noteq> tag then Inl AuthFailed
              else case read_header header of (ct, oid, pid, fl) \<Rightarrow>
                Inr \<lparr>conn_tag = ct, fr_object_id = oid, fr_payload_id = pid, fr_flags = fl, fr_payload = payload\<rparr>)"

section \<open>Lemmas\<close>

lemma length_header_mask [simp, codec_simps]: "length (header_mask sip k s) = 15"
  by (simp add: header_mask_def)

lemma length_auth_tag [simp, codec_simps]: "length (auth_tag sip k h p) = 8"
  by (simp add: auth_tag_def)

lemma length_xor_in_place [simp, codec_simps]: "length (xor_in_place buf m) = length buf"
  by (simp add: xor_in_place_def)

lemma xor_in_place_twice: "length buf \<le> length m \<Longrightarrow> xor_in_place (xor_in_place buf m) m = buf"
  by (rule nth_equalityI) (simp_all add: xor_in_place_def xor.assoc nth_append)

lemma write_read_header:
  assumes "length (fr_payload_id f) = 4"
  shows "length (write_header f) = 15"
    "read_header (write_header f) = (conn_tag f, fr_object_id f, fr_payload_id f, fr_flags f)"
  using assms by (simp_all add: write_header_def read_header_def nth_append)

lemma read_write_header:
  assumes "length bs = 15" "read_header bs = (ct, oid, pid, fl)"
    and "conn_tag f = ct" "fr_object_id f = oid" "fr_payload_id f = pid" "fr_flags f = fl"
  shows "write_header f = bs" "length pid = 4"
proof -
  obtain as bs' where 1: "bs = as @ bs'" "length as = 8" using split_at [of 8 bs] assms(1) by auto
  obtain cs ds where 2: "bs' = cs @ ds" "length cs = 2" using split_at [of 2 bs'] 1 assms(1) by auto
  obtain es gs where 3: "ds = es @ gs" "length es = 4" using split_at [of 4 ds] 1 2 assms(1) by auto
  have "length gs = 1" using 1 2 3 assms(1) by simp
  then obtain g where 4: "gs = [g]" by (rule length_1E)
  have "ct = un64 as" "oid = un16 cs" "pid = es" "fl = g"
    using assms(2) 1 2 3 4 by (auto simp: read_header_def nth_append)
  then show "write_header f = bs" "length pid = 4"
    using 1 2 3 4 assms(3-) by (simp_all add: write_header_def be64_un64 be16_un16)
qed

lemma deframe_frame:
  assumes "length (fr_payload_id f) = 4"
  shows "deframe sip c (frame sip c f) = Inr f"
  using write_read_header [OF assms]
  by (simp add: frame_def deframe_def Let_def MIN_FRAME_def HEADER_LEN_def TAG_LEN_def xor_in_place_twice)

lemma frame_deframe:
  assumes d: "deframe sip c d = Inr f"
  shows "length (fr_payload_id f) = 4 \<and> frame sip c f = d"
proof -
  have len: "23 \<le> length d"
    using d by (auto simp: deframe_def MIN_FRAME_def HEADER_LEN_def TAG_LEN_def split: if_splits)
  obtain h rest where h: "d = h @ rest" "length h = 15" using split_at [of 15 d] len by auto
  have "8 \<le> length rest" using h len by simp
  from split_at_end [OF this] obtain pl tag where t: "rest = pl @ tag" "length tag = 8" by blast
  let ?m = "header_mask sip (hp_key c) tag"
  let ?hd = "xor_in_place h ?m"
  obtain ct oid pid fl where rh: "read_header ?hd = (ct, oid, pid, fl)" by (cases "read_header ?hd")
  have f: "auth_tag sip (auth_key c) ?hd pl = tag"
    "f = \<lparr>conn_tag = ct, fr_object_id = oid, fr_payload_id = pid, fr_flags = fl, fr_payload = pl\<rparr>"
    using d len h t rh by (auto simp: deframe_def Let_def MIN_FRAME_def HEADER_LEN_def TAG_LEN_def split: if_splits)
  have w: "write_header f = ?hd" "length pid = 4"
    using read_write_header [of ?hd ct oid pid fl f] h(2) rh f(2) by simp_all
  then show ?thesis using f h t by (simp add: frame_def Let_def xor_in_place_twice)
qed

interpretation wire: canonical_codec "\<lambda>f. length (fr_payload_id f) = 4" "frame sip c"
  "\<lambda>d. case deframe sip c d of Inl _ \<Rightarrow> None | Inr f \<Rightarrow> Some f" for sip c
  by unfold_locales (auto simp: deframe_frame dest: frame_deframe split: sum.splits)

section \<open>Properties\<close>

text \<open>C24: the wire codec accepts exactly the datagrams it would itself produce. Whatever SipHash computes, a
  datagram shorter than header and tag is malformed, and any other datagram deframes to \<open>f\<close> if and
  only if it is the framing of \<open>f\<close> under the same keys, and fails authentication if it is the framing
  of no frame at all.\<close>

theorem wire_codec_exact:
  "(deframe sip c d = Inr f \<longleftrightarrow> length (fr_payload_id f) = 4 \<and> frame sip c f = d) \<and>
   (deframe sip c d = Inl Malformed \<longleftrightarrow> length d < 23) \<and>
   (deframe sip c d = Inl AuthFailed \<longleftrightarrow> 23 \<le> length d \<and> \<not> (\<exists>g. length (fr_payload_id g) = 4 \<and> frame sip c g = d))"
proof (intro conjI)
  show "deframe sip c d = Inr f \<longleftrightarrow> length (fr_payload_id f) = 4 \<and> frame sip c f = d"
    using wire.dec_iff [of sip c d f] by (auto split: sum.splits)
  show m: "deframe sip c d = Inl Malformed \<longleftrightarrow> length d < 23"
    by (simp add: deframe_def Let_def MIN_FRAME_def HEADER_LEN_def TAG_LEN_def split: prod.splits)
  have "deframe sip c d \<noteq> Inr g \<longleftrightarrow> \<not> (length (fr_payload_id g) = 4 \<and> frame sip c g = d)" for g
    using wire.dec_iff [of sip c d g] by (auto split: sum.splits)
  then show "deframe sip c d = Inl AuthFailed \<longleftrightarrow>
      23 \<le> length d \<and> \<not> (\<exists>g. length (fr_payload_id g) = 4 \<and> frame sip c g = d)"
    using m by (cases "deframe sip c d"; cases "projl (deframe sip c d)") auto
qed

end
