(* ===== verification/Fifo_Cache.thy ===== *)
theory Fifo_Cache
  imports Prelude
begin

text \<open>
  The bounded map with an arrival queue that the flow table and the retransmit buffer of
  \<^verbatim>\<open>crates/yip-transport\<close> share: entries leave in arrival order, first while the front has expired and
  then one more when the cache is full.
\<close>

type_synonym ('k, 'v) fifo = "('k \<rightharpoonup> 'v) \<times> 'k list"

section \<open>Operations\<close>

text \<open>\<open>evict_expired\<close>: pop the front of the queue while it has expired or is no longer in the map.\<close>

fun drop_expired :: "('v \<Rightarrow> bool) \<Rightarrow> ('k \<rightharpoonup> 'v) \<Rightarrow> 'k list \<Rightarrow> ('k, 'v) fifo" where
  "drop_expired old m [] = (m, [])"
| "drop_expired old m (front # rest) =
     (if (case m front of None \<Rightarrow> True | Some e \<Rightarrow> old e) then drop_expired old (m(front := None)) rest
      else (m, front # rest))"

text \<open>Insertion of a fresh key, evicting the front of the queue when \<open>maxn\<close> entries are there.\<close>

definition push_fresh :: "nat \<Rightarrow> 'k \<Rightarrow> 'v \<Rightarrow> ('k, 'v) fifo \<Rightarrow> ('k, 'v) fifo" where
  "push_fresh maxn k v c =
     (case c of (m, ord) \<Rightarrow>
        let (m', ord') = (if card (dom m) \<ge> maxn
                          then case ord of [] \<Rightarrow> (m, ord) | old # rest \<Rightarrow> (m(old := None), rest)
                          else (m, ord))
        in (m'(k \<mapsto> v), ord' @ [k]))"

section \<open>Invariant\<close>

definition fifo_inv :: "nat \<Rightarrow> ('k, 'v) fifo \<Rightarrow> bool" where
  "fifo_inv maxn c = (case c of (m, ord) \<Rightarrow> distinct ord \<and> set ord = dom m \<and> length ord \<le> maxn)"

lemma fifo_inv_card: "fifo_inv maxn (m, ord) \<Longrightarrow> finite (dom m) \<and> card (dom m) = length ord"
proof -
  assume "fifo_inv maxn (m, ord)"
  then have ord: "distinct ord" "dom m = set ord" by (auto simp: fifo_inv_def)
  show ?thesis unfolding ord(2) using distinct_card [OF ord(1)] by simp
qed

lemma drop_expired_inv:
  assumes "fifo_inv maxn (m, ord)" "drop_expired old m ord = (m', ord')"
  shows "fifo_inv maxn (m', ord') \<and> m' \<subseteq>\<^sub>m m \<and> (\<exists>gone. ord = gone @ ord') \<and> (\<forall>k v. m k = Some v \<and> \<not> old v \<longrightarrow> m' k = Some v)"
  using assms
proof (induction ord arbitrary: m)
  case (Cons front rest)
  show ?case
  proof (cases "case m front of None \<Rightarrow> True | Some e \<Rightarrow> old e")
    case True
    let ?m = "m(front := None)"
    have inv: "fifo_inv maxn (?m, rest)" using Cons.prems(1) by (auto simp: fifo_inv_def)
    have "drop_expired old ?m rest = (m', ord')" using Cons.prems(2) True by simp
    from Cons.IH [OF inv this] have ih: "fifo_inv maxn (m', ord')" "m' \<subseteq>\<^sub>m ?m" "\<exists>gone. rest = gone @ ord'"
      "\<forall>k v. ?m k = Some v \<and> \<not> old v \<longrightarrow> m' k = Some v" by blast+
    have "?m \<subseteq>\<^sub>m m" by (simp add: map_le_def)
    then have "m' \<subseteq>\<^sub>m m" using ih(2) map_le_trans by blast
    moreover obtain gone where "front # rest = (front # gone) @ ord'" using ih(3) by auto
    moreover have "?m k = Some v" if "m k = Some v" "\<not> old v" for k v using that True by auto
    ultimately show ?thesis using ih(1,4) by blast
  next
    case False
    then show ?thesis using Cons.prems by auto
  qed
qed auto

lemma push_fresh_inv:
  assumes "fifo_inv maxn (m, ord)" "m k = None" "0 < maxn" "push_fresh maxn k v (m, ord) = (m', ord')"
  shows "fifo_inv maxn (m', ord') \<and> m' k = Some v \<and>
    (\<forall>k'. k' \<noteq> k \<longrightarrow> m' k' = (if maxn \<le> length ord \<and> k' = hd ord then None else m k'))"
proof -
  have c: "card (dom m) = length ord" using fifo_inv_card [OF assms(1)] by simp
  have ord: "distinct ord" "set ord = dom m" "length ord \<le> maxn" and k: "k \<notin> set ord"
    using assms(1,2) by (auto simp: fifo_inv_def)
  show ?thesis
  proof (cases "maxn \<le> length ord")
    case True
    then obtain old rest where o: "ord = old # rest" using assms(3) by (cases ord) auto
    have eq: "m' = m(old := None, k \<mapsto> v)" "ord' = rest @ [k]" using assms(4) c True o by (auto simp: push_fresh_def)
    have "dom m' = insert k (dom m - {old})" using k o ord(2) by (auto simp: eq)
    also have "\<dots> = set ord'" using ord o by (auto simp: eq)
    finally have "dom m' = set ord'" .
    moreover have "k \<notin> set rest" using k o by simp
    ultimately show ?thesis using ord o k True by (simp add: fifo_inv_def eq)
  next
    case False
    then have eq: "m' = m(k \<mapsto> v)" "ord' = ord @ [k]" using assms(4) c by (auto simp: push_fresh_def)
    then show ?thesis using ord k False by (simp add: fifo_inv_def)
  qed
qed

end
