(* ===== verification/Flow.thy ===== *)
theory Flow
  imports Fifo_Cache
begin

text \<open>
  Flow classification: the classes of \<^verbatim>\<open>crates/yip-transport/src/lib.rs\<close>, the bounded flow table of
  \<^verbatim>\<open>flow.rs\<close> and the classifier of \<^verbatim>\<open>classify.rs\<close> with its header parser. The single-precision average
  packet size is only mixed and compared with two constants; these operations are a parameter
  \<open>size_ops\<close>.
\<close>

unbundle bit_operations_syntax

section \<open>Classes and flow keys\<close>

datatype FlowClass = Realtime | Bulk | Default

record FlowKey =
  fk_src :: bytes
  fk_dst :: bytes
  src_port :: u16
  dst_port :: u16
  fk_proto :: u8

text \<open>The lexicographic comparison of byte arrays.\<close>

fun bytes_le :: "bytes \<Rightarrow> bytes \<Rightarrow> bool" where
  "bytes_le [] ys \<longleftrightarrow> True"
| "bytes_le (x # xs) [] \<longleftrightarrow> False"
| "bytes_le (x # xs) (y # ys) \<longleftrightarrow> x < y \<or> x = y \<and> bytes_le xs ys"

definition endpoint_le :: "bytes \<times> u16 \<Rightarrow> bytes \<times> u16 \<Rightarrow> bool" where
  "endpoint_le a b \<longleftrightarrow> bytes_le (fst a) (fst b) \<and> (fst a = fst b \<longrightarrow> snd a \<le> snd b)"

definition flip :: "FlowKey \<Rightarrow> FlowKey" where
  "flip k = k\<lparr>fk_src := fk_dst k, fk_dst := fk_src k, src_port := dst_port k, dst_port := src_port k\<rparr>"

definition canonical :: "FlowKey \<Rightarrow> FlowKey" where
  "canonical k = (if endpoint_le (fk_src k, src_port k) (fk_dst k, dst_port k) then k else flip k)"

section \<open>Flow table\<close>

definition MIN_PACKETS :: nat where
  "MIN_PACKETS = 4"

definition MIN_RATE_PPS :: nat where
  "MIN_RATE_PPS = 20"

record 'f size_ops =
  of_size :: "nat \<Rightarrow> 'f"
  ewma :: "'f \<Rightarrow> 'f \<Rightarrow> 'f"
  above_large :: "'f \<Rightarrow> bool"
  below_small :: "'f \<Rightarrow> bool"

record 'f FlowStat =
  ewma_size :: 'f
  packets :: nat
  first_ms :: nat
  last_ms :: nat

record 'f FlowTable =
  ft_cache :: "(FlowKey, 'f FlowStat) fifo"
  ft_max :: nat
  ft_ttl :: nat

definition flow_table_new :: "nat \<Rightarrow> nat \<Rightarrow> 'f FlowTable" where
  "flow_table_new maxn ttl = \<lparr>ft_cache = (Map.empty, []), ft_max = max maxn 1, ft_ttl = ttl\<rparr>"

definition flow_evict_expired :: "'f FlowTable \<Rightarrow> nat \<Rightarrow> 'f FlowTable" where
  "flow_evict_expired t now =
     t\<lparr>ft_cache := (case ft_cache t of (m, ord) \<Rightarrow> drop_expired (\<lambda>s. now - last_ms s > ft_ttl t) m ord)\<rparr>"

definition flow_observe :: "'f size_ops \<Rightarrow> 'f FlowTable \<Rightarrow> FlowKey \<Rightarrow> nat \<Rightarrow> nat \<Rightarrow> 'f FlowTable" where
  "flow_observe ops t key sz now =
     (let t = flow_evict_expired t now; size_f = of_size ops (min sz 65535)
      in case ft_cache t of (m, ord) \<Rightarrow>
           (case m key of
              Some stat \<Rightarrow>
                t\<lparr>ft_cache := (m(key \<mapsto> stat\<lparr>ewma_size := ewma ops size_f (ewma_size stat),
                                            packets := min (packets stat + 1) (2 ^ 32 - 1), last_ms := now\<rparr>), ord)\<rparr>
            | None \<Rightarrow>
                t\<lparr>ft_cache := push_fresh (ft_max t) key
                    \<lparr>ewma_size = size_f, packets = 1, first_ms = now, last_ms = now\<rparr> (m, ord)\<rparr>))"

definition flow_classify :: "'f size_ops \<Rightarrow> 'f FlowTable \<Rightarrow> FlowKey \<Rightarrow> FlowClass option" where
  "flow_classify ops t key =
     (case fst (ft_cache t) key of
        None \<Rightarrow> None
      | Some stat \<Rightarrow>
          if packets stat < MIN_PACKETS then None
          else if above_large ops (ewma_size stat) then Some Bulk
          else if below_small ops (ewma_size stat)
          then let duration_ms = last_ms stat - first_ms stat;
                   is_frequent = duration_ms = 0 \<or> packets stat * 1000 \<ge> (MIN_RATE_PPS * duration_ms) mod 2 ^ 64
               in if is_frequent then Some Realtime else None
          else None)"

section \<open>Header parser\<close>

record Parsed =
  dscp :: u8
  key :: FlowKey

definition parse_l3 :: "bytes \<Rightarrow> bool \<Rightarrow> bytes option" where
  "parse_l3 inner l2 =
     (if l2
      then do {
        a \<leftarrow> byte_at inner 12; b \<leftarrow> byte_at inner 13;
        let ethertype = un16 [a, b];
        if ethertype = 0x0800 \<or> ethertype = 0x86DD then slice_from inner 14 else None }
      else Some inner)"

definition parse_addrs :: "bytes \<Rightarrow> (u8 \<times> u8 \<times> nat \<times> bytes \<times> bytes) option" where
  "parse_addrs ip =
     do {
       b0 \<leftarrow> byte_at ip 0;
       let version = drop_bit 4 b0;
       if version = 4 then do {
         b1 \<leftarrow> byte_at ip 1; proto \<leftarrow> byte_at ip 9;
         src \<leftarrow> slice ip 12 16; dst \<leftarrow> slice ip 16 20;
         Some (drop_bit 2 b1, proto, unat (b0 AND 0x0F) * 4, src @ replicate 12 0, dst @ replicate 12 0) }
       else if version = 6 then do {
         b1 \<leftarrow> byte_at ip 1;
         let tc = (push_bit 4 (ucast (b0 AND 0x0F)) :: u16) OR ucast (drop_bit 4 b1);
         proto \<leftarrow> byte_at ip 6;
         src \<leftarrow> slice ip 8 24; dst \<leftarrow> slice ip 24 40;
         Some (ucast (drop_bit 2 tc), proto, 40, src, dst) }
       else None }"

definition port_at :: "bytes \<Rightarrow> nat \<Rightarrow> u16" where
  "port_at ip off = (case slice ip off (off + 2) of None \<Rightarrow> 0 | Some b \<Rightarrow> un16 b)"

definition parse_ip :: "bytes \<Rightarrow> bool \<Rightarrow> Parsed option" where
  "parse_ip inner l2 =
     do {
       ip \<leftarrow> parse_l3 inner l2;
       (ds, proto, l4_off, src, dst) \<leftarrow> parse_addrs ip;
       let (sp, dp) = (if proto = 6 \<or> proto = 17 then (port_at ip l4_off, port_at ip (l4_off + 2)) else (0, 0));
       Some \<lparr>dscp = ds, key = \<lparr>fk_src = src, fk_dst = dst, src_port = sp, dst_port = dp, fk_proto = proto\<rparr>\<rparr> }"

section \<open>Classifier\<close>

record PolicyRule =
  pr_proto :: "u8 option"
  pr_dst_port :: "u16 option"
  pr_class :: FlowClass

record 'f Classifier =
  rules :: "PolicyRule list"
  flows :: "'f FlowTable"

definition classifier_new :: "PolicyRule list \<Rightarrow> 'f Classifier" where
  "classifier_new rs = \<lparr>rules = rs, flows = flow_table_new 4096 30000\<rparr>"

definition rule_matches :: "FlowKey \<Rightarrow> PolicyRule \<Rightarrow> bool" where
  "rule_matches k r \<longleftrightarrow>
     (case pr_proto r of None \<Rightarrow> True | Some x \<Rightarrow> x = fk_proto k) \<and>
     (case pr_dst_port r of None \<Rightarrow> True | Some x \<Rightarrow> x = dst_port k)"

definition classify :: "'f size_ops \<Rightarrow> 'f Classifier \<Rightarrow> bytes \<Rightarrow> bool \<Rightarrow> nat \<Rightarrow> FlowClass \<times> 'f Classifier" where
  "classify ops c inner l2 now =
     (case parse_ip inner l2 of
        None \<Rightarrow> (Default, c)
      | Some p \<Rightarrow>
          (case find (rule_matches (key p)) (rules c) of
             Some r \<Rightarrow> (pr_class r, c)
           | None \<Rightarrow>
               if dscp p \<in> {46, 40, 48, 56} then (Realtime, c)
               else if dscp p \<in> {8, 10, 12, 14} then (Bulk, c)
               else let k = canonical (key p);
                        c' = c\<lparr>flows := flow_observe ops (flows c) k (length inner) now\<rparr>
                    in case flow_classify ops (flows c') k of
                         Some cl \<Rightarrow> (cl, c')
                       | None \<Rightarrow> (Default, c')))"

definition observe_ingress :: "'f size_ops \<Rightarrow> 'f Classifier \<Rightarrow> bytes \<Rightarrow> bool \<Rightarrow> nat \<Rightarrow> 'f Classifier" where
  "observe_ingress ops c inner l2 now =
     (case parse_ip inner l2 of
        None \<Rightarrow> c
      | Some p \<Rightarrow> c\<lparr>flows := flow_observe ops (flows c) (canonical (key p)) (length inner) now\<rparr>)"

section \<open>Lemmas\<close>

lemma bytes_le_refl [simp]: "bytes_le xs xs"
  by (induction xs) simp_all

lemma bytes_le_total: "bytes_le xs ys \<or> bytes_le ys xs"
  by (induction xs ys rule: bytes_le.induct) auto

lemma bytes_le_antisym: "bytes_le xs ys \<Longrightarrow> bytes_le ys xs \<Longrightarrow> xs = ys"
proof (induction xs ys rule: bytes_le.induct)
  case (1 ys)
  then show ?case by (cases ys) simp_all
next
  case (3 x xs y ys)
  have "x = y" using 3(2,3) less_asym [of x y] by (metis bytes_le.simps(3))
  then show ?case using 3 by simp
qed simp

lemma endpoint_le_total: "endpoint_le a b \<or> endpoint_le b a"
proof (cases "fst a = fst b")
  case True
  then show ?thesis using linear [of "snd a" "snd b"] by (simp add: endpoint_le_def)
next
  case False
  then show ?thesis using bytes_le_total [of "fst a" "fst b"] by (simp add: endpoint_le_def)
qed

lemma endpoint_le_antisym: "endpoint_le a b \<Longrightarrow> endpoint_le b a \<Longrightarrow> a = b"
proof -
  assume le: "endpoint_le a b" "endpoint_le b a"
  then have "fst a = fst b" using bytes_le_antisym unfolding endpoint_le_def by blast
  moreover from this have "snd a = snd b" using le unfolding endpoint_le_def by (simp add: order_antisym)
  ultimately show ?thesis by (rule prod_eqI)
qed

lemma flip_flip [simp]: "flip (flip k) = k"
  by (simp add: flip_def)

lemma flip_sel [simp]: "fk_src (flip k) = fk_dst k" "fk_dst (flip k) = fk_src k" "src_port (flip k) = dst_port k"
  "dst_port (flip k) = src_port k" "fk_proto (flip k) = fk_proto k"
  by (simp_all add: flip_def)

lemma canonical_flip: "canonical (flip k) = canonical k"
proof (cases "endpoint_le (fk_src k, src_port k) (fk_dst k, dst_port k) \<and> endpoint_le (fk_dst k, dst_port k) (fk_src k, src_port k)")
  case True
  then have "fk_src k = fk_dst k" "src_port k = dst_port k" using endpoint_le_antisym by blast+
  then have "flip k = k" by (simp add: flip_def)
  then show ?thesis by simp
next
  case False
  then show ?thesis
    using endpoint_le_total [of "(fk_src k, src_port k)" "(fk_dst k, dst_port k)"] by (auto simp: canonical_def)
qed

lemma flow_evict_inv:
  assumes "fifo_inv (ft_max t) (ft_cache t)"
  shows "fifo_inv (ft_max t) (ft_cache (flow_evict_expired t now))"
proof (cases "ft_cache t")
  case (Pair m ord)
  obtain m' ord' where d: "drop_expired (\<lambda>s. now - last_ms s > ft_ttl t) m ord = (m', ord')" by fastforce
  show ?thesis using drop_expired_inv [OF _ d] assms Pair d by (simp add: flow_evict_expired_def)
qed

lemma flow_observe_inv:
  assumes "fifo_inv (ft_max t) (ft_cache t)" "0 < ft_max t"
  shows "fifo_inv (ft_max t) (ft_cache (flow_observe ops t k sz now))" "ft_max (flow_observe ops t k sz now) = ft_max t"
proof -
  let ?t = "flow_evict_expired t now"
  obtain m ord where c: "ft_cache ?t = (m, ord)" by fastforce
  have mx: "ft_max ?t = ft_max t" by (simp add: flow_evict_expired_def)
  have inv: "fifo_inv (ft_max t) (m, ord)" using flow_evict_inv [OF assms(1), of now] c by simp
  show "ft_max (flow_observe ops t k sz now) = ft_max t"
    using mx c by (simp add: flow_observe_def Let_def split: option.splits)
  show "fifo_inv (ft_max t) (ft_cache (flow_observe ops t k sz now))"
  proof (cases "m k")
    case None
    let ?v = "\<lparr>ewma_size = of_size ops (min sz 65535), packets = 1, first_ms = now, last_ms = now\<rparr>"
    obtain m' ord' where p: "push_fresh (ft_max t) k ?v (m, ord) = (m', ord')" by fastforce
    show ?thesis using push_fresh_inv [OF inv None assms(2) p] p None c mx by (simp add: flow_observe_def Let_def)
  next
    case (Some stat)
    then have "dom (m(k \<mapsto> x)) = dom m" for x by auto
    then show ?thesis using inv Some c by (simp add: flow_observe_def Let_def fifo_inv_def)
  qed
qed

inductive classifier_reach :: "'f size_ops \<Rightarrow> 'f Classifier \<Rightarrow> bool" for ops where
  new: "classifier_reach ops (classifier_new rs)"
| classify: "classifier_reach ops c \<Longrightarrow> classifier_reach ops (snd (classify ops c inner l2 now))"
| ingress: "classifier_reach ops c \<Longrightarrow> classifier_reach ops (observe_ingress ops c inner l2 now)"

definition classifier_inv :: "'f Classifier \<Rightarrow> bool" where
  "classifier_inv c \<longleftrightarrow> ft_max (flows c) = 4096 \<and> fifo_inv 4096 (ft_cache (flows c))"

lemma observe_classifier_inv:
  assumes "classifier_inv c"
  shows "classifier_inv (c\<lparr>flows := flow_observe ops (flows c) k sz now\<rparr>)"
  using assms flow_observe_inv [of "flows c" ops k sz now] by (simp add: classifier_inv_def)

lemma classifier_reach_inv: "classifier_reach ops c \<Longrightarrow> classifier_inv c"
proof (induction rule: classifier_reach.induct)
  case (new rs)
  show ?case by (simp add: classifier_inv_def classifier_new_def flow_table_new_def fifo_inv_def)
next
  case (classify c inner l2 now)
  then show ?case
    using observe_classifier_inv [OF classify.IH] by (auto simp: classify_def Let_def split: option.splits)
next
  case (ingress c inner l2 now)
  then show ?case using observe_classifier_inv [OF ingress.IH] by (auto simp: observe_ingress_def split: option.splits)
qed

section \<open>Properties\<close>

text \<open>The canonical flow key identifies a conversation in both directions: two keys have the same canonical
  form exactly when they are equal or one is the other with its endpoints exchanged.\<close>

theorem canonical_identifies_conversation:
  "canonical k = canonical k' \<longleftrightarrow> k' = k \<or> k' = flip k"
proof
  assume eq: "canonical k = canonical k'"
  have "canonical k = k \<or> canonical k = flip k" "canonical k' = k' \<or> canonical k' = flip k'" by (auto simp: canonical_def)
  then show "k' = k \<or> k' = flip k" using eq flip_flip by metis
qed (auto simp: canonical_flip)

text \<open>The classifier's memory is bounded. In every reachable state the flow table tracks at most 4096 flows, and
  its arrival queue lists exactly the tracked flows, each once.\<close>

theorem classifier_bounded:
  assumes "classifier_reach ops c"
  shows "\<exists>m ord. ft_cache (flows c) = (m, ord) \<and> distinct ord \<and> set ord = dom m \<and> card (dom m) \<le> 4096"
proof -
  obtain m ord where c: "ft_cache (flows c) = (m, ord)" by fastforce
  have inv: "fifo_inv 4096 (m, ord)" using classifier_reach_inv [OF assms] c by (simp add: classifier_inv_def)
  then show ?thesis using c fifo_inv_card [OF inv] by (auto simp: fifo_inv_def)
qed

theorem classifier_bounded_witness:
  "\<exists>m ord. ft_cache (flows (observe_ingress \<lparr>of_size = id, ewma = max, above_large = (<) 1000, below_small = (>) 256\<rparr>
     (classifier_new []) (0x45 # replicate 19 0) False 5)) = (m, ord) \<and> card (dom m) \<le> 4096"
  using classifier_bounded [OF classifier_reach.ingress [OF classifier_reach.new]] by blast

end
