(* ===== verification/Wire_Glue.thy ===== *)
theory Wire_Glue
  imports Wire Fec_Roundtrip Flow
begin

text \<open>
  The glue of \<^verbatim>\<open>bin/yipd/src/wire_glue.rs\<close> between the symbols of the transport and the frames of the wire:
  the codec keys derived from the handshake's channel binding, the class in the flags byte, and the
  counter and object size in front of the payload. BLAKE2s is the parameter \<open>b2s\<close>.
\<close>

section \<open>Definitions\<close>

unbundle bit_operations_syntax

definition derive_wire_keys :: "(bytes \<Rightarrow> bytes) \<Rightarrow> bytes \<Rightarrow> bytes \<times> bytes" where
  "derive_wire_keys b2s channel_binding =
     (let a = b2s (map (of_nat \<circ> of_char) ''yip wire auth'' @ channel_binding);
          h = b2s (map (of_nat \<circ> of_char) ''yip wire hp'' @ channel_binding)
      in (take 16 a, take 16 h))"

fun class_to_flags :: "FlowClass \<Rightarrow> u8" where
  "class_to_flags Realtime = 0"
| "class_to_flags Bulk = 1"
| "class_to_flags Default = 2"

definition flags_to_class :: "u8 \<Rightarrow> FlowClass" where
  "flags_to_class f = (let c = f AND 0x03 in if c = 0 then Realtime else if c = 1 then Bulk else Default)"

definition symbol_to_frame :: "u64 \<Rightarrow> Symbol \<Rightarrow> u64 \<Rightarrow> FlowClass \<Rightarrow> Frame" where
  "symbol_to_frame tag symbol counter c =
     \<lparr>conn_tag = tag, fr_object_id = object_id symbol, fr_payload_id = payload_id symbol, fr_flags = class_to_flags c,
      fr_payload = be64 counter @ be32 (object_size symbol) @ sym_data symbol\<rparr>"

definition frame_to_symbol :: "Frame \<Rightarrow> (Symbol \<times> u64 \<times> FlowClass) option" where
  "frame_to_symbol f =
     (if length (fr_payload f) < 12 then None
      else let counter = un64 (take 8 (fr_payload f)); osize = un32 (take 4 (drop 8 (fr_payload f)))
           in Some (\<lparr>object_id = fr_object_id f, object_size = osize, payload_id = fr_payload_id f,
                     sym_data = drop 12 (fr_payload f)\<rparr>, counter, flags_to_class (fr_flags f)))"

section \<open>Lemmas\<close>

lemma flags_to_class_inverse [simp]: "flags_to_class (class_to_flags c) = c"
  by (cases c) (simp_all add: flags_to_class_def)

lemma frame_to_symbol_inverse [simp]: "frame_to_symbol (symbol_to_frame tag s c cl) = Some (s, c, cl)"
  by (simp add: frame_to_symbol_def symbol_to_frame_def Let_def codec_simps take_append drop_append)

end
