(* ===== verification/Handshake_Msg.thy ===== *)
theory Handshake_Msg
  imports Session Wire_Glue
begin

text \<open>
  The message layer of \<^verbatim>\<open>bin/yipd/src/handshake.rs\<close>: packet types, the established session with its shard
  clones, the ephemeral keys read off handshake packets, and the TAI64N labels that order initiations.
  The wall clock is an argument.
\<close>

section \<open>Definitions\<close>

datatype PacketType = HandshakeInit | HandshakeResp | Data | Control | Gossip

fun packet_type :: "PacketType \<Rightarrow> u8" where
  "packet_type HandshakeInit = 0"
| "packet_type HandshakeResp = 1"
| "packet_type Data = 2"
| "packet_type Control = 3"
| "packet_type Gossip = 4"

record Established =
  es_session :: Session
  es_auth_key :: bytes
  es_hp_key :: bytes
  es_raw_send_key :: bytes
  es_raw_recv_key :: bytes

definition clone_for_shard :: "nat \<Rightarrow> nat \<Rightarrow> Established \<Rightarrow> CryptoError + Established" where
  "clone_for_shard shard_id num_shards e =
     (case from_raw_keys (es_raw_send_key e) (es_raw_recv_key e) shard_id num_shards of
        Inl x \<Rightarrow> Inl x
      | Inr s \<Rightarrow> Inr \<lparr>es_session = s, es_auth_key = es_auth_key e, es_hp_key = es_hp_key e,
                       es_raw_send_key = es_raw_send_key e, es_raw_recv_key = es_raw_recv_key e\<rparr>)"

definition init_ephemeral :: "bytes \<Rightarrow> bytes option" where
  "init_ephemeral init_pkt = slice init_pkt 1 33"

definition PQ_CIPHERTEXT_LEN :: nat where "PQ_CIPHERTEXT_LEN = 768"

definition RESP_EPHEMERAL_OFFSET :: nat where "RESP_EPHEMERAL_OFFSET = 1 + PQ_CIPHERTEXT_LEN"

definition resp_ephemeral :: "bytes \<Rightarrow> bytes option" where
  "resp_ephemeral resp_pkt = slice resp_pkt RESP_EPHEMERAL_OFFSET (RESP_EPHEMERAL_OFFSET + 32)"

definition TAI64N_LEN :: nat where "TAI64N_LEN = 12"

definition now_tai64n :: "u64 \<Rightarrow> u32 \<Rightarrow> bytes" where
  "now_tai64n secs nanos = be64 (secs + 2 ^ 62) @ be32 nanos"

text \<open>A \<^verbatim>\<open>Duration\<close> is its seconds and its nanoseconds below a second; no step of the source overflows.\<close>

definition tai64n_sub_duration :: "bytes \<Rightarrow> nat \<times> nat \<Rightarrow> bytes" where
  "tai64n_sub_duration ts duration =
     (case duration of (sub_secs, sub_nanos) \<Rightarrow>
        let secs = be_val (take 8 ts); nanos = be_val (drop 8 ts);
            (secs, nanos) = (if nanos < sub_nanos then (secs - 1, nanos + 1000000000 - sub_nanos)
                             else (secs, nanos - sub_nanos));
            min_secs = 2 ^ 62;
            (secs, nanos) = (if secs < min_secs \<or> secs - sub_secs < min_secs then (min_secs, 0)
                             else (secs - sub_secs, nanos))
        in be_bytes 8 secs @ be_bytes 4 nanos)"

definition frame_init_payload :: "u64 \<Rightarrow> u32 \<Rightarrow> bytes \<Rightarrow> bytes" where
  "frame_init_payload secs nanos cert = now_tai64n secs nanos @ cert"

definition parse_init_payload :: "bytes \<Rightarrow> (bytes \<times> bytes) option" where
  "parse_init_payload pl = map_option (\<lambda>ts. (ts, drop TAI64N_LEN pl)) (slice pl 0 TAI64N_LEN)"

section \<open>Labels\<close>

text \<open>The instant a label denotes, in nanoseconds.\<close>

definition label_ns :: "bytes \<Rightarrow> nat" where
  "label_ns ts = be_val (take 8 ts) * 1000000000 + be_val (drop 8 ts)"

definition epoch_ns :: nat where
  "epoch_ns = 2 ^ 62 * 1000000000"

definition label_ok :: "bytes \<Rightarrow> bool" where
  "label_ok ts \<longleftrightarrow> length ts = 12 \<and> be_val (drop 8 ts) < 1000000000"

lemma label_parts:
  assumes "s < 2 ^ 64" "n < 1000000000"
  shows "label_ok (be_bytes 8 s @ be_bytes 4 n)" "label_ns (be_bytes 8 s @ be_bytes 4 n) = s * 1000000000 + n"
  using assms by (simp_all add: label_ok_def label_ns_def be_val_be_bytes)

lemma be_val_Cons: "be_val (x # xs) = unat x * 256 ^ length xs + be_val xs"
proof (induction xs rule: rev_induct)
  case Nil
  show ?case by (simp add: be_val_def)
next
  case (snoc y ys)
  have "be_val (x # ys @ [y]) = be_val (x # ys) * 256 + unat y" using be_val_snoc [of "x # ys" y] by simp
  then show ?case using snoc by (simp add: algebra_simps)
qed

lemma lex_less_be_val: "length xs = length ys \<Longrightarrow> lex_less xs ys \<longleftrightarrow> be_val xs < be_val ys"
proof (induction xs ys rule: list_induct2)
  case (Cons x xs y ys)
  have b: "be_val xs < 256 ^ length xs" "be_val ys < 256 ^ length xs" using be_val_less [of xs] be_val_less [of ys] Cons.hyps by simp_all
  have lt: "be_val (x # xs) < be_val (y # ys)" if "unat x < unat y"
  proof -
    have "Suc (unat x) * 256 ^ length xs \<le> unat y * 256 ^ length xs" using that by (intro mult_le_mono1) simp
    then show ?thesis using b(1) Cons.hyps by (simp add: be_val_Cons)
  qed
  have gt: "\<not> be_val (x # xs) < be_val (y # ys)" if "unat y < unat x"
  proof -
    have "Suc (unat y) * 256 ^ length xs \<le> unat x * 256 ^ length xs" using that by (intro mult_le_mono1) simp
    then show ?thesis using b(2) Cons.hyps by (simp add: be_val_Cons)
  qed
  show ?case
    using Cons.IH lt gt Cons.hyps by (cases "unat x" "unat y" rule: linorder_cases) (auto simp: word_less_nat_alt be_val_Cons word_unat_eq_iff)
qed simp

lemma be_val_append: "be_val (xs @ ys) = be_val xs * 256 ^ length ys + be_val ys"
proof (induction ys rule: rev_induct)
  case (snoc y ys)
  then show ?case using be_val_snoc [of "xs @ ys" y] by (simp add: algebra_simps)
qed simp

lemma label_order:
  assumes "label_ok ts" "label_ok us"
  shows "lex_less ts us \<longleftrightarrow> label_ns ts < label_ns us"
proof -
  define a b where "a = be_val (take 8 ts)" and "b = be_val (drop 8 ts)"
  define c d where "c = be_val (take 8 us)" and "d = be_val (drop 8 us)"
  have len: "length ts = 12" "length us = 12" and lt: "b < 1000000000" "d < 1000000000"
    using assms by (simp_all add: label_ok_def b_def d_def)
  have "be_val ts = a * 256 ^ 4 + b" "be_val us = c * 256 ^ 4 + d"
    using be_val_append [of "take 8 ts" "drop 8 ts"] be_val_append [of "take 8 us" "drop 8 us"] len
    by (simp_all add: a_def b_def c_def d_def)
  moreover have "a * 256 ^ 4 + b < c * 256 ^ 4 + d \<longleftrightarrow> a * 1000000000 + b < c * 1000000000 + d"
    using lt by (cases a c rule: linorder_cases) simp_all
  ultimately show ?thesis using lex_less_be_val [of ts us] len by (simp add: label_ns_def a_def b_def c_def d_def)
qed

lemma label_sub:
  assumes "label_ok ts" "sn < 1000000000"
  shows "label_ok (tai64n_sub_duration ts (ss, sn)) \<and>
    label_ns (tai64n_sub_duration ts (ss, sn)) = max epoch_ns (label_ns ts - (ss * 1000000000 + sn))"
proof -
  define a b where "a = be_val (take 8 ts)" and "b = be_val (drop 8 ts)"
  have len: "length ts = 12" and b: "b < 1000000000" using assms by (simp_all add: label_ok_def b_def)
  have a: "a < 2 ^ 64" using be_val_less [of "take 8 ts"] len by (simp add: a_def)
  define a' b' where "a' = (if b < sn then a - 1 else a)" and "b' = (if b < sn then b + 1000000000 - sn else b - sn)"
  have b': "b' < 1000000000" and a': "a' < 2 ^ 64" using b assms(2) a by (auto simp: b'_def a'_def)
  have r: "tai64n_sub_duration ts (ss, sn) =
      (if a' < 2 ^ 62 \<or> a' - ss < 2 ^ 62 then be_bytes 8 (2 ^ 62) @ be_bytes 4 0 else be_bytes 8 (a' - ss) @ be_bytes 4 b')"
    by (simp add: tai64n_sub_duration_def Let_def a_def [symmetric] b_def [symmetric] a'_def b'_def)
  have ns: "label_ns ts = a * 1000000000 + b" by (simp add: label_ns_def a_def b_def)
  show ?thesis
  proof (cases "a' < 2 ^ 62 \<or> a' - ss < 2 ^ 62")
    case True
    then have "label_ns ts - (ss * 1000000000 + sn) \<le> epoch_ns"
      using ns b assms(2) by (auto simp: a'_def epoch_ns_def split: if_splits)
    then show ?thesis using True label_parts [of "2 ^ 62" 0] unfolding r by (simp add: epoch_ns_def)
  next
    case False
    then have "label_ns ts - (ss * 1000000000 + sn) = (a' - ss) * 1000000000 + b'"
      using ns b assms(2) by (auto simp: a'_def b'_def diff_mult_distrib split: if_splits)
    moreover have "epoch_ns \<le> (a' - ss) * 1000000000" using False by (simp add: epoch_ns_def)
    ultimately show ?thesis using False label_parts [of "a' - ss" b'] a' b' unfolding r by simp
  qed
qed

section \<open>Properties\<close>

text \<open>TAI64N labels order initiations by time and shift exactly. The byte-wise comparison of two labels is the
  comparison of the instants they denote; subtracting a duration gives a well-formed label of the
  earlier instant, or of the epoch when the difference is before it; the label the clock gives for a
  Unix time is well formed and that many nanoseconds after the epoch, and is recovered with the
  certificate from the framed payload.\<close>

theorem tai64n_labels:
  assumes "label_ok ts" "label_ok us" "sub_nanos < 1000000000" "unat secs < 2 ^ 62" "unat nanos < 1000000000"
  shows "(lex_less ts us \<longleftrightarrow> label_ns ts < label_ns us) \<and>
    label_ok (tai64n_sub_duration ts (sub_secs, sub_nanos)) \<and>
    label_ns (tai64n_sub_duration ts (sub_secs, sub_nanos)) = max epoch_ns (label_ns ts - (sub_secs * 1000000000 + sub_nanos)) \<and>
    label_ns (now_tai64n secs nanos) = epoch_ns + unat secs * 1000000000 + unat nanos \<and>
    parse_init_payload (frame_init_payload secs nanos cert) = Some (now_tai64n secs nanos, cert)"
proof (intro conjI)
  show "label_ns (now_tai64n secs nanos) = epoch_ns + unat secs * 1000000000 + unat nanos"
  proof -
    have "unat (secs + 2 ^ 62) = unat secs + 2 ^ 62" using assms(4) by (subst unat_word_ariths) simp
    then show ?thesis
      using unat_u32_less [of nanos] assms(4)
      by (simp add: label_ns_def now_tai64n_def be64_def be32_def be_val_be_bytes epoch_ns_def)
  qed
  show "parse_init_payload (frame_init_payload secs nanos cert) = Some (now_tai64n secs nanos, cert)"
    by (simp add: parse_init_payload_def frame_init_payload_def now_tai64n_def TAI64N_LEN_def slice_def)
qed (use assms label_order label_sub in auto)

theorem tai64n_labels_witness:
  "label_ns (tai64n_sub_duration (now_tai64n 100 5) (3, 6)) = epoch_ns + 96999999999 \<and>
   parse_init_payload (frame_init_payload 100 5 [1, 2]) = Some (now_tai64n 100 5, [1, 2])"
proof -
  have ok: "label_ok (now_tai64n 100 5)" by (simp add: label_ok_def now_tai64n_def be32_def be_val_be_bytes)
  have ns: "label_ns (now_tai64n 100 5) = epoch_ns + 100000000005"
    using tai64n_labels [OF ok ok, of 6 100 5] by simp
  show ?thesis using tai64n_labels [OF ok ok, of 6 100 5 3 "[1, 2]"] ns by (simp add: epoch_ns_def)
qed

end
