(* ===== verification/Sent_Log.thy ===== *)
theory Sent_Log
  imports Flow "HOL-Library.AList"
begin

text \<open>
  The sender's log of \<^verbatim>\<open>bin/yipd/src/dataplane.rs\<close> from packet counters to flow classes. The hash map is an
  association list with distinct keys, the queue of arrivals a list; counts saturate at 32 bits.
\<close>

section \<open>Definitions\<close>

record ClassCounts =
  cc_realtime :: nat
  cc_bulk :: nat
  cc_default :: nat

record SentLog =
  sl_capacity :: nat
  sl_map :: "(u64 \<times> FlowClass) list"
  sl_order :: "(u64 \<times> FlowClass) list"

definition sent_log_new :: "nat \<Rightarrow> SentLog" where
  "sent_log_new capacity = \<lparr>sl_capacity = capacity, sl_map = [], sl_order = []\<rparr>"

definition sent_log_insert :: "u64 \<Rightarrow> FlowClass \<Rightarrow> SentLog \<Rightarrow> SentLog" where
  "sent_log_insert counter c l =
     (let l' = (if length (sl_map l) \<ge> sl_capacity l
                then case sl_order l of
                       [] \<Rightarrow> l
                     | (oldest, _) # rest \<Rightarrow> l\<lparr>sl_order := rest, sl_map := AList.delete oldest (sl_map l)\<rparr>
                else l)
      in l'\<lparr>sl_map := AList.update counter c (sl_map l'), sl_order := sl_order l' @ [(counter, c)]\<rparr>)"

definition sent_log_get :: "SentLog \<Rightarrow> u64 \<Rightarrow> FlowClass option" where
  "sent_log_get l counter = map_of (sl_map l) counter"

definition u32_max :: nat where
  "u32_max = 4294967295"

definition count_class :: "SentLog \<Rightarrow> FlowClass \<Rightarrow> nat" where
  "count_class l c = min (length (filter (\<lambda>(_, k). k = c) (sl_map l))) u32_max"

fun bump_count :: "FlowClass \<Rightarrow> ClassCounts \<Rightarrow> ClassCounts" where
  "bump_count Realtime n = n\<lparr>cc_realtime := min (cc_realtime n + 1) u32_max\<rparr>"
| "bump_count Bulk n = n\<lparr>cc_bulk := min (cc_bulk n + 1) u32_max\<rparr>"
| "bump_count Default n = n\<lparr>cc_default := min (cc_default n + 1) u32_max\<rparr>"

fun cc_get :: "FlowClass \<Rightarrow> ClassCounts \<Rightarrow> nat" where
  "cc_get Realtime n = cc_realtime n"
| "cc_get Bulk n = cc_bulk n"
| "cc_get Default n = cc_default n"

definition count_classes_in_range :: "SentLog \<Rightarrow> u64 \<Rightarrow> u64 \<Rightarrow> ClassCounts" where
  "count_classes_in_range l s e =
     (let zero = \<lparr>cc_realtime = 0, cc_bulk = 0, cc_default = 0\<rparr>
      in if s > e then zero
         else foldl (\<lambda>n (counter, c). if counter \<ge> s \<and> counter \<le> e then bump_count c n else n) zero (sl_order l))"

section \<open>Invariant\<close>

text \<open>The map holds exactly the queued entries, each counter once, and no more than the capacity (one entry when the
  capacity is 0).\<close>

definition log_inv :: "SentLog \<Rightarrow> bool" where
  "log_inv l \<longleftrightarrow> distinct (map fst (sl_order l)) \<and> distinct (map fst (sl_map l)) \<and>
     set (sl_map l) = set (sl_order l) \<and> length (sl_order l) \<le> max 1 (sl_capacity l)"

lemma log_inv_length: "log_inv l \<Longrightarrow> length (sl_map l) = length (sl_order l)"
  by (metis log_inv_def distinct_card distinct_map)

lemma log_inv_get: "log_inv l \<Longrightarrow> sent_log_get l c = map_of (sl_order l) c"
  unfolding sent_log_get_def log_inv_def
  by (metis map_of_eqI distinct_map image_set map_of_inject_set)

lemma update_fresh: "k \<notin> fst ` set al \<Longrightarrow> AList.update k v al = al @ [(k, v)]"
  by (induction al) auto

lemma log_inv_evict:
  assumes "log_inv l" "sl_order l = (oldest, c) # rest"
  shows "log_inv (l\<lparr>sl_order := rest, sl_map := AList.delete oldest (sl_map l)\<rparr>)"
proof -
  have "set (sl_map l) = insert (oldest, c) (set rest)" "oldest \<notin> fst ` set rest" "distinct (map fst rest)"
    using assms by (auto simp: log_inv_def)
  then have "set (AList.delete oldest (sl_map l)) = set rest" by (auto simp: AList.delete_eq image_iff)
  then show ?thesis using assms by (simp add: log_inv_def AList.distinct_delete)
qed

lemma insert_log:
  assumes "log_inv l" "counter \<notin> fst ` set (sl_order l)"
  shows "log_inv (sent_log_insert counter c l) \<and> sl_capacity (sent_log_insert counter c l) = sl_capacity l \<and>
    sl_order (sent_log_insert counter c l) =
       (if length (sl_order l) < max 1 (sl_capacity l) then sl_order l else tl (sl_order l)) @ [(counter, c)]"
proof -
  define l' where "l' = (if length (sl_map l) \<ge> sl_capacity l
      then case sl_order l of [] \<Rightarrow> l | (oldest, _) # rest \<Rightarrow> l\<lparr>sl_order := rest, sl_map := AList.delete oldest (sl_map l)\<rparr>
      else l)"
  have ins: "sent_log_insert counter c l = l'\<lparr>sl_map := AList.update counter c (sl_map l'), sl_order := sl_order l' @ [(counter, c)]\<rparr>"
    by (simp only: sent_log_insert_def l'_def Let_def)
  have "log_inv l' \<and> sl_capacity l' = sl_capacity l \<and> length (sl_order l') < max 1 (sl_capacity l) \<and>
      sl_order l' = (if length (sl_order l) < max 1 (sl_capacity l) then sl_order l else tl (sl_order l))"
  proof (cases "length (sl_map l) \<ge> sl_capacity l \<and> sl_order l \<noteq> []")
    case True
    then obtain oldest k rest where o: "sl_order l = (oldest, k) # rest" by (metis list.exhaust surj_pair)
    have "l' = l\<lparr>sl_order := rest, sl_map := AList.delete oldest (sl_map l)\<rparr>" using True o by (simp add: l'_def)
    then show ?thesis using log_inv_evict [OF assms(1) o] True o assms(1) log_inv_length [OF assms(1)] by (auto simp: log_inv_def)
  next
    case False
    then have "l' = l" by (auto simp: l'_def split: list.splits)
    then show ?thesis using False assms(1) log_inv_length [OF assms(1)] by auto
  qed
  moreover from this have "set (sl_order l') \<subseteq> set (sl_order l)" by (auto dest: list.set_sel(2) [rotated])
  then have "counter \<notin> fst ` set (sl_order l')" using assms(2) by auto
  ultimately show ?thesis unfolding ins by (auto simp: log_inv_def update_fresh)
qed

section \<open>Runs\<close>

definition sent_log_run :: "nat \<Rightarrow> (u64 \<times> FlowClass) list \<Rightarrow> SentLog" where
  "sent_log_run capacity xs = foldl (\<lambda>l (counter, c). sent_log_insert counter c l) (sent_log_new capacity) xs"

text \<open>The last \<open>n\<close> elements of a list.\<close>

definition newest :: "nat \<Rightarrow> 'a list \<Rightarrow> 'a list" where
  "newest n xs = drop (length xs - n) xs"

lemma run_newest:
  assumes "distinct (map fst xs)"
  shows "log_inv (sent_log_run cap xs) \<and> sl_capacity (sent_log_run cap xs) = cap \<and>
    sl_order (sent_log_run cap xs) = newest (max 1 cap) xs"
  using assms
proof (induction xs rule: rev_induct)
  case Nil
  show ?case by (simp add: sent_log_run_def sent_log_new_def log_inv_def newest_def)
next
  case (snoc x xs)
  obtain k c where x: "x = (k, c)" by (cases x)
  define n where "n = max 1 cap"
  let ?l = "sent_log_run cap xs" and ?n = n
  have IH: "log_inv ?l" "sl_capacity ?l = cap" "sl_order ?l = newest ?n xs" using snoc by (simp_all add: n_def)
  have "set (newest ?n xs) \<subseteq> set xs" by (simp add: newest_def set_drop_subset)
  then have "k \<notin> fst ` set (sl_order ?l)" using snoc.prems x IH(3) by auto
  note ins = insert_log [OF IH(1) this, of c, unfolded IH(2) n_def [symmetric] IH(3)]
  have n: "0 < n" by (simp add: n_def)
  have "sent_log_run cap (xs @ [x]) = sent_log_insert k c ?l" by (simp add: sent_log_run_def x)
  moreover have "(if length (newest ?n xs) < ?n then newest ?n xs else tl (newest ?n xs)) @ [x] = newest ?n (xs @ [x])"
  proof (cases "length xs < n")
    case False
    then have "tl (drop (length xs - n) xs) = drop (Suc (length xs) - n) xs" by (simp add: Suc_diff_le tl_drop drop_Suc)
    then show ?thesis using False n by (simp add: newest_def)
  qed (simp add: newest_def)
  ultimately show ?case using ins IH x unfolding n_def [symmetric] by simp
qed

lemma filter_set_count:
  assumes "distinct xs" "distinct ys" "set xs = set ys"
  shows "length (filter P xs) = length (filter P ys)"
  by (metis assms distinct_card distinct_filter set_filter)

lemma bump_get: "cc_get c (bump_count k n) = (if c = k then min (cc_get c n + 1) u32_max else cc_get c n)"
  by (cases c; cases k) simp_all

lemma fold_counts:
  "cc_get c n \<le> u32_max \<Longrightarrow> cc_get c (foldl (\<lambda>n (counter, k). if P counter then bump_count k n else n) n xs) =
     min (cc_get c n + length (filter (\<lambda>(counter, k). P counter \<and> k = c) xs)) u32_max"
proof (induction xs arbitrary: n)
  case (Cons x xs)
  obtain counter k where x: "x = (counter, k)" by (cases x)
  have "cc_get c (if P counter then bump_count k n else n) \<le> u32_max" using Cons.prems by (simp add: bump_get)
  from Cons.IH [OF this] show ?case by (auto simp: x bump_get min_def)
qed simp

section \<open>Properties\<close>

text \<open>The log remembers exactly the newest packets. After any sequence of insertions with distinct counters the
  lookup knows the class of exactly the last \<open>capacity\<close> of them (the last one when the capacity is 0),
  the per-class counts are the numbers of those packets, and the counts in a range of counters count
  exactly those packets whose counter lies in it, saturating at 32 bits.\<close>

theorem sent_log_exact:
  assumes "distinct (map fst xs)" "l = sent_log_run cap xs" "ys = newest (max 1 cap) xs"
  shows "sent_log_get l counter = map_of ys counter \<and>
    count_class l c = min (length (filter (\<lambda>(_, k). k = c) ys)) u32_max \<and>
    cc_get c (count_classes_in_range l s e) = min (length (filter (\<lambda>(n, k). s \<le> n \<and> n \<le> e \<and> k = c) ys)) u32_max"
proof -
  have l: "log_inv l" "sl_order l = ys" using run_newest [OF assms(1), of cap] assms(2,3) by simp_all
  have "length (filter (\<lambda>(_, k). k = c) (sl_map l)) = length (filter (\<lambda>(_, k). k = c) ys)"
    using l by (intro filter_set_count) (auto simp: log_inv_def distinct_map)
  moreover have "cc_get c (count_classes_in_range l s e) = min (length (filter (\<lambda>(n, k). s \<le> n \<and> n \<le> e \<and> k = c) ys)) u32_max"
  proof (cases "s > e")
    case True
    then have "filter (\<lambda>(n, k). s \<le> n \<and> n \<le> e \<and> k = c) ys = []" by (auto simp: filter_empty_conv)
    then show ?thesis using True by (cases c) (simp_all add: count_classes_in_range_def Let_def)
  next
    case False
    have z: "cc_get c \<lparr>cc_realtime = 0, cc_bulk = 0, cc_default = 0\<rparr> = 0" by (cases c) simp_all
    then show ?thesis
      using False fold_counts [of c "\<lparr>cc_realtime = 0, cc_bulk = 0, cc_default = 0\<rparr>" "\<lambda>n. n \<ge> s \<and> n \<le> e" ys] l(2)
      by (simp add: count_classes_in_range_def Let_def conj_ac)
  qed
  ultimately show ?thesis using log_inv_get [OF l(1)] l(2) by (simp add: count_class_def)
qed

theorem sent_log_exact_witness:
  "sent_log_get (sent_log_run 2 [(1, Bulk), (2, Default), (3, Bulk)]) 1 = None \<and>
   sent_log_get (sent_log_run 2 [(1, Bulk), (2, Default), (3, Bulk)]) 3 = Some Bulk"
  using sent_log_exact [of "[(1, Bulk), (2, Default), (3, Bulk)]" _ 2 "[(2, Default), (3, Bulk)]" 1 Bulk 0 0, OF _ refl]
    sent_log_exact [of "[(1, Bulk), (2, Default), (3, Bulk)]" _ 2 "[(2, Default), (3, Bulk)]" 3 Bulk 0 0, OF _ refl]
  by (simp add: newest_def)

end
