(* ===== verification/Float32.thy ===== *)
theory Float32
  imports Complex_Main "HOL-Library.Log_Nat"
begin

text \<open>
  The single-precision arithmetic of Rust's \<^verbatim>\<open>f32\<close>, as far as \<^verbatim>\<open>crates/yip-transport/src/control.rs\<close> and \<^verbatim>\<open>bin/yipd/src/dataplane.rs\<close> compute with it: a
  finite value is the rational number it denotes, and an operation rounds the exact result to the nearest value of
  the format, ties to even. The two zeros are one value, since no operation used tells them apart. The format is a parameter,
  \<open>p\<close> bits of precision and \<open>2^-q\<close> as the smallest positive value, so that the product in \<^verbatim>\<open>f64\<close> is an instance too.
\<close>

section \<open>Rounding\<close>

definition round_even :: "rat \<Rightarrow> int" where
  "round_even x = (let f = \<lfloor>x\<rfloor>; d = x - of_int f in if d < 1 / 2 \<or> d = 1 / 2 \<and> even f then f else f + 1)"

text \<open>The distance of neighbouring values around \<open>x\<close>.\<close>

definition quantum :: "nat \<Rightarrow> nat \<Rightarrow> rat \<Rightarrow> rat" where
  "quantum p q x = 2 ^ (floorlog 2 (nat \<lfloor>\<bar>x\<bar> * 2 ^ q\<rfloor>) - p) / 2 ^ q"

definition fl_round :: "nat \<Rightarrow> nat \<Rightarrow> rat \<Rightarrow> rat" where
  "fl_round p q x = of_int (round_even (x / quantum p q x)) * quantum p q x"

definition is_fl :: "nat \<Rightarrow> nat \<Rightarrow> rat \<Rightarrow> bool" where
  "is_fl p q x \<longleftrightarrow> (\<exists>(m :: int) (e :: nat). \<bar>m\<bar> \<le> 2 ^ p \<and> x = of_int m * 2 ^ e / 2 ^ q)"

lemma round_even_of_int [simp]: "round_even (of_int k) = k"
  by (simp add: round_even_def)

lemma round_even_cases: "round_even x = \<lfloor>x\<rfloor> \<or> round_even x = \<lfloor>x\<rfloor> + 1"
  by (simp add: round_even_def Let_def)

lemma round_even_near: "\<bar>of_int (round_even x) - x\<bar> \<le> 1 / 2"
proof -
  have "of_int \<lfloor>x\<rfloor> \<le> x" "x < of_int \<lfloor>x\<rfloor> + 1" using floor_correct [of x] by simp_all
  then show ?thesis unfolding round_even_def Let_def by (auto simp: abs_le_iff)
qed

lemma round_even_mono:
  assumes "x \<le> y"
  shows "round_even x \<le> round_even y"
proof (cases "\<lfloor>x\<rfloor> = \<lfloor>y\<rfloor>")
  case True
  then show ?thesis using assms by (auto simp: round_even_def Let_def)
next
  case False
  then have "\<lfloor>x\<rfloor> + 1 \<le> \<lfloor>y\<rfloor>" using floor_mono [OF assms] by linarith
  then show ?thesis using round_even_cases [of x] round_even_cases [of y] by linarith
qed

lemma round_even_le: "x \<le> of_int k \<Longrightarrow> round_even x \<le> k"
  using round_even_mono [of x "of_int k"] by simp

lemma round_even_ge: "of_int k \<le> x \<Longrightarrow> k \<le> round_even x"
  using round_even_mono [of "of_int k" x] by simp

text \<open>A value is less than \<open>2^p\<close> quanta, and at least half of that unless the quantum is the smallest one.\<close>

lemma quantum_pos [simp]: "0 < quantum p q x" "quantum p q x \<noteq> 0" "0 \<le> quantum p q x"
  by (simp_all add: quantum_def)

lemma quantum_upper: "\<bar>x\<bar> < 2 ^ p * quantum p q x"
proof -
  define a where "a = nat \<lfloor>\<bar>x\<bar> * 2 ^ q\<rfloor>"
  let ?L = "floorlog 2 a"
  have "a < 2 ^ ?L" using floorlog_bounds [of a 2] by (cases "a = 0") (auto simp: floorlog_eq_zero_iff)
  also have "\<dots> \<le> 2 ^ (p + (?L - p))" by (intro power_increasing) simp_all
  finally have "(of_nat (Suc a) :: rat) \<le> of_nat (2 ^ (p + (?L - p)))" by (intro of_nat_mono) simp
  moreover have "\<bar>x\<bar> * 2 ^ q < of_nat (Suc a)" unfolding a_def using floor_correct [of "\<bar>x\<bar> * 2 ^ q"] by simp
  ultimately have "\<bar>x\<bar> * 2 ^ q < 2 ^ p * 2 ^ (?L - p)" by (simp add: power_add)
  then show ?thesis by (simp add: quantum_def a_def field_simps)
qed

lemma quantum_lower:
  assumes "quantum p q x \<noteq> 1 / 2 ^ q" "0 < p"
  shows "2 ^ (p - 1) * quantum p q x \<le> \<bar>x\<bar>"
proof -
  define a where "a = nat \<lfloor>\<bar>x\<bar> * 2 ^ q\<rfloor>"
  define s where "s = floorlog 2 a - p"
  have "s \<noteq> 0" using assms(1) unfolding quantum_def a_def [symmetric] s_def [symmetric] by (intro notI) simp
  then have s: "0 < s" "floorlog 2 a = p + s" by (simp_all add: s_def)
  have "a \<noteq> 0"
  proof
    assume "a = 0"
    then have "floorlog 2 a = 0" by (simp add: floorlog_def)
    then show False using s(2) assms(2) by linarith
  qed
  then have "2 ^ (floorlog 2 a - 1) \<le> a" using floorlog_bounds [of a 2] by simp
  moreover have "floorlog 2 a - 1 = p - 1 + s" using s(2) assms(2) by linarith
  ultimately have "2 ^ (p - 1 + s) \<le> a" by simp
  then have "(of_nat (2 ^ (p - 1 + s)) :: rat) \<le> of_nat a" by (rule of_nat_mono)
  also have "\<dots> \<le> \<bar>x\<bar> * 2 ^ q" by (simp add: a_def)
  finally have "2 ^ (p - 1) * 2 ^ s \<le> \<bar>x\<bar> * 2 ^ q" by (simp add: power_add)
  then show ?thesis by (simp add: quantum_def s_def a_def field_simps)
qed

lemma quantum_mono: "\<bar>x\<bar> \<le> \<bar>y\<bar> \<Longrightarrow> \<exists>k. quantum p q y = quantum p q x * 2 ^ k"
proof -
  assume "\<bar>x\<bar> \<le> \<bar>y\<bar>"
  then have "floorlog 2 (nat \<lfloor>\<bar>x\<bar> * 2 ^ q\<rfloor>) \<le> floorlog 2 (nat \<lfloor>\<bar>y\<bar> * 2 ^ q\<rfloor>)"
    by (intro floorlog_mono nat_mono floor_mono mult_right_mono) simp_all
  then obtain k where "floorlog 2 (nat \<lfloor>\<bar>y\<bar> * 2 ^ q\<rfloor>) - p = floorlog 2 (nat \<lfloor>\<bar>x\<bar> * 2 ^ q\<rfloor>) - p + k"
    using le_Suc_ex diff_le_mono by blast
  then show ?thesis by (auto simp: quantum_def power_add)
qed

lemma quantum_bound:
  assumes "\<bar>x\<bar> < 2 ^ k" "p \<le> q + k"
  shows "quantum p q x \<le> 2 ^ (q + k - p) / 2 ^ q"
proof -
  have "\<bar>x\<bar> * 2 ^ q < of_nat (2 ^ (q + k))" using assms(1) by (simp add: power_add mult.commute)
  then have "nat \<lfloor>\<bar>x\<bar> * 2 ^ q\<rfloor> < 2 ^ (q + k)" by (simp add: nat_less_iff floor_less_iff)
  then have "floorlog 2 (nat \<lfloor>\<bar>x\<bar> * 2 ^ q\<rfloor>) \<le> q + k" by (simp add: floorlog_le_iff)
  then show ?thesis by (simp add: quantum_def divide_right_mono power_increasing)
qed

text \<open>Rounding is monotone, keeps the values of the format, yields only such, and errs by at most half a quantum.\<close>

lemma fl_round_near: "\<bar>fl_round p q x - x\<bar> \<le> quantum p q x / 2"
proof -
  have "fl_round p q x - x = (of_int (round_even (x / quantum p q x)) - x / quantum p q x) * quantum p q x"
    by (simp add: fl_round_def algebra_simps)
  then have "\<bar>fl_round p q x - x\<bar> = \<bar>of_int (round_even (x / quantum p q x)) - x / quantum p q x\<bar> * quantum p q x"
    by (simp add: abs_mult)
  also have "\<dots> \<le> 1 / 2 * quantum p q x" by (intro mult_right_mono round_even_near) simp
  finally show ?thesis by simp
qed

lemma fl_round_is_fl: "is_fl p q (fl_round p q x)"
proof -
  let ?u = "quantum p q x"
  have "\<bar>x\<bar> \<le> 2 ^ p * ?u" using quantum_upper [of x p q] by simp
  then have "x / ?u \<le> 2 ^ p" "- (2 ^ p) \<le> x / ?u" by (simp_all add: field_simps abs_le_iff)
  then have "\<bar>round_even (x / ?u)\<bar> \<le> 2 ^ p"
    using round_even_le [of "x / ?u" "2 ^ p"] round_even_ge [of "- (2 ^ p)" "x / ?u"] by (simp add: abs_le_iff)
  then show ?thesis unfolding is_fl_def fl_round_def quantum_def by (metis times_divide_eq_right)
qed

lemma fl_round_id:
  assumes "is_fl p q x" "0 < p"
  shows "fl_round p q x = x"
proof -
  let ?u = "quantum p q x"
  obtain m :: int and e :: nat where x: "\<bar>m\<bar> \<le> 2 ^ p" "x = of_int m * 2 ^ e / 2 ^ q" using assms(1) by (auto simp: is_fl_def)
  define t where "t = floorlog 2 (nat \<lfloor>\<bar>x\<bar> * 2 ^ q\<rfloor>) - p"
  have u: "?u = 2 ^ t / 2 ^ q" by (simp add: quantum_def t_def)
  have xu: "x / ?u = of_int m * 2 ^ e / 2 ^ t" unfolding u by (subst x(2)) simp
  have "\<exists>k :: int. x / ?u = of_int k"
  proof (cases "t \<le> e")
    case True
    then obtain d where d: "e = t + d" using le_Suc_ex by blast
    have "x / ?u = of_int (m * 2 ^ d)" unfolding xu d by (simp add: power_add)
    then show ?thesis by blast
  next
    case False
    then obtain d where d: "t = e + Suc d" by (metis add_Suc_right less_imp_Suc_add not_le)
    have "(1 :: rat) < 2 ^ t" unfolding d by (simp add: one_less_power del: power_Suc)
    then have "?u \<noteq> 1 / 2 ^ q" unfolding u by (simp add: field_simps)
    from quantum_lower [OF this assms(2)] have "2 ^ (p - 1) \<le> \<bar>x / ?u\<bar>" by (simp add: field_simps abs_mult)
    then have "2 ^ (p - 1) * 2 ^ t \<le> of_int \<bar>m\<bar> * (2 ^ e :: rat)" unfolding xu by (simp add: abs_mult field_simps)
    then have "of_int (2 ^ (p - 1) * 2 ^ Suc d) \<le> (of_int \<bar>m\<bar> :: rat)" by (simp add: d power_add)
    then have le: "2 ^ (p - 1) * 2 ^ Suc d \<le> \<bar>m\<bar>" by (simp only: of_int_le_iff)
    have p: "(2 :: int) ^ p = 2 * 2 ^ (p - 1)" using assms(2) by (cases p) simp_all
    have "d = 0"
    proof (rule ccontr)
      assume "d \<noteq> 0"
      then have "(2 :: int) ^ 2 \<le> 2 ^ Suc d" by (intro power_increasing) simp_all
      then have "(2 :: int) ^ (p - 1) * 4 \<le> 2 ^ (p - 1) * 2 ^ Suc d" by (intro mult_left_mono) simp_all
      then have "(2 :: int) ^ (p - 1) * 4 \<le> 2 * 2 ^ (p - 1)" using le x(1) p by linarith
      then show False by simp
    qed
    then have "\<bar>m\<bar> = 2 * 2 ^ (p - 1)" using le x(1) p by simp
    then have am: "\<bar>m\<bar> = 2 * 2 ^ (p - 1)" .
    define k where "k = sgn m * 2 ^ (p - 1)"
    have "m = sgn m * \<bar>m\<bar>" by (simp only: mult_sgn_abs)
    also have "\<dots> = k * 2" unfolding am k_def by simp
    finally have mk: "m = k * 2" .
    have "x / ?u = of_int k" unfolding xu d \<open>d = 0\<close> mk by simp
    then show ?thesis by blast
  qed
  then obtain k :: int where "x / ?u = of_int k" by blast
  then have "fl_round p q x = x / ?u * ?u" unfolding fl_round_def by simp
  then show ?thesis by simp
qed

lemma fl_round_mono:
  assumes "0 \<le> x" "x \<le> y" "0 < p"
  shows "fl_round p q x \<le> fl_round p q y"
proof -
  let ?u = "quantum p q x" and ?v = "quantum p q y"
  have xy: "\<bar>x\<bar> \<le> \<bar>y\<bar>" using assms by simp
  obtain k where k: "?v = ?u * 2 ^ k" using quantum_mono [OF xy] by blast
  show ?thesis
  proof (cases k)
    case 0
    then have "?v = ?u" using k by simp
    have "x / ?u \<le> y / ?u" using assms by (intro divide_right_mono) simp_all
    then have "round_even (x / ?u) \<le> round_even (y / ?u)" by (rule round_even_mono)
    then show ?thesis unfolding fl_round_def \<open>?v = ?u\<close> by (intro mult_right_mono) simp_all
  next
    case (Suc j)
    have "x / ?u \<le> of_int (2 ^ p)" using quantum_upper [of x p q] assms by (simp add: field_simps)
    then have "fl_round p q x \<le> of_int (2 ^ p) * ?u" unfolding fl_round_def using round_even_le by (intro mult_right_mono) auto
    also have "\<dots> = of_int (2 ^ (p - 1)) * (?u * 2)" using assms(3) by (cases p) simp_all
    also have "\<dots> \<le> of_int (2 ^ (p - 1)) * ?v" unfolding k Suc by (intro mult_left_mono) simp_all
    also have "\<dots> \<le> fl_round p q y"
    proof -
      have "?u * 1 < ?u * 2 ^ Suc j" by (rule mult_strict_left_mono) (simp_all add: one_less_power del: power_Suc)
      moreover have "1 / 2 ^ q \<le> ?u" by (simp add: quantum_def divide_right_mono)
      ultimately have "1 / 2 ^ q < ?v" unfolding k Suc by linarith
      then have "2 ^ (p - 1) * ?v \<le> y" using quantum_lower [of p q y] assms by simp
      then have "of_int (2 ^ (p - 1)) \<le> y / ?v" by (simp add: field_simps)
      then show ?thesis unfolding fl_round_def using round_even_ge by (intro mult_right_mono) auto
    qed
    finally show ?thesis .
  qed
qed

section \<open>Values and operations\<close>

datatype f32 = NaN | PosInf | NegInf | Fin rat

text \<open>The value nearest to a number; the largest finite one is below \<open>2^128\<close>.\<close>

definition to_f32 :: "rat \<Rightarrow> f32" where
  "to_f32 x = (let y = fl_round 24 149 x in if y \<ge> 2 ^ 128 then PosInf else if y \<le> - (2 ^ 128) then NegInf else Fin y)"

fun f32_le :: "f32 \<Rightarrow> f32 \<Rightarrow> bool" where
  "f32_le NaN _ = False"
| "f32_le _ NaN = False"
| "f32_le NegInf _ = True"
| "f32_le _ PosInf = True"
| "f32_le (Fin a) (Fin b) = (a \<le> b)"
| "f32_le _ _ = False"

fun f32_add :: "f32 \<Rightarrow> f32 \<Rightarrow> f32" where
  "f32_add (Fin a) (Fin b) = to_f32 (a + b)"
| "f32_add NaN _ = NaN"
| "f32_add _ NaN = NaN"
| "f32_add PosInf NegInf = NaN"
| "f32_add NegInf PosInf = NaN"
| "f32_add PosInf _ = PosInf"
| "f32_add _ PosInf = PosInf"
| "f32_add _ _ = NegInf"

fun f32_sign :: "f32 \<Rightarrow> rat" where
  "f32_sign (Fin a) = a"
| "f32_sign PosInf = 1"
| "f32_sign NegInf = - 1"
| "f32_sign NaN = 0"

fun f32_mul :: "f32 \<Rightarrow> f32 \<Rightarrow> f32" where
  "f32_mul (Fin a) (Fin b) = to_f32 (a * b)"
| "f32_mul a b = (let s = f32_sign a * f32_sign b in if s = 0 then NaN else if s > 0 then PosInf else NegInf)"

text \<open>\<^verbatim>\<open>f32::from(n) / f32::from(d)\<close>.\<close>

definition f32_quotient :: "nat \<Rightarrow> nat \<Rightarrow> f32" where
  "f32_quotient n d =
     (case (to_f32 (of_nat n), to_f32 (of_nat d)) of
        (Fin a, Fin b) \<Rightarrow> if b = 0 then (if a = 0 then NaN else PosInf) else to_f32 (a / b)
      | _ \<Rightarrow> NaN)"

text \<open>\<^verbatim>\<open>(f64::from(n) * f64::from(r)).ceil() as i64\<close>, where the cast takes \<^verbatim>\<open>NaN\<close> to 0 and saturates.\<close>

definition f32_ceil_product :: "nat \<Rightarrow> f32 \<Rightarrow> int" where
  "f32_ceil_product n r =
     (case r of
        Fin x \<Rightarrow> max (- (2 ^ 63)) (min (2 ^ 63 - 1) \<lceil>fl_round 53 1074 (of_nat n * x)\<rceil>)
      | NaN \<Rightarrow> 0
      | PosInf \<Rightarrow> if n = 0 then 0 else 2 ^ 63 - 1
      | NegInf \<Rightarrow> if n = 0 then 0 else - (2 ^ 63))"

text \<open>The values of the type; and those between 0 and 1, on which nothing overflows.\<close>

fun is_f32 :: "f32 \<Rightarrow> bool" where
  "is_f32 (Fin x) = is_fl 24 149 x"
| "is_f32 _ = True"

definition unit_f32 :: "f32 \<Rightarrow> bool" where
  "unit_f32 v \<longleftrightarrow> (\<exists>x. v = Fin x \<and> is_fl 24 149 x \<and> 0 \<le> x \<and> x \<le> 1)"

lemma fl_lits: "is_fl 24 149 0" "is_fl 24 149 1"
proof -
  have "(1 :: rat) = of_int 1 * 2 ^ 149 / 2 ^ 149" by simp
  then show "is_fl 24 149 1" unfolding is_fl_def by (intro exI [of _ 1] exI [of _ 149]) simp
  show "is_fl 24 149 0" unfolding is_fl_def by (intro exI [of _ 0]) simp
qed

lemma fl_round_lits [simp]: "fl_round 24 149 0 = 0" "fl_round 24 149 1 = 1"
  using fl_lits by (simp_all add: fl_round_id)

lemma fl_round_unit: "0 \<le> x \<Longrightarrow> x \<le> 1 \<Longrightarrow> 0 \<le> fl_round 24 149 x \<and> fl_round 24 149 x \<le> 1"
  using fl_round_mono [of 0 x 24 149] fl_round_mono [of x 1 24 149] by simp

lemma fl_round_two:
  assumes "0 \<le> x" "x \<le> 2"
  shows "0 \<le> fl_round 24 149 x" "fl_round 24 149 x \<le> 2" "to_f32 x = Fin (fl_round 24 149 x)"
proof -
  have "(2 :: rat) = of_int 1 * 2 ^ 150 / 2 ^ 149" by simp
  then have "is_fl 24 149 2" unfolding is_fl_def by (intro exI [of _ 1] exI [of _ 150]) simp
  then have r: "0 \<le> fl_round 24 149 x" "fl_round 24 149 x \<le> 2" using assms fl_round_mono [of 0 x 24 149] fl_round_mono [of x 2 24 149] by (simp_all add: fl_round_id)
  then show "0 \<le> fl_round 24 149 x" "fl_round 24 149 x \<le> 2" .
  have "fl_round 24 149 x < 2 ^ 128" "- (2 ^ 128) < fl_round 24 149 x" using r by simp_all
  then show "to_f32 x = Fin (fl_round 24 149 x)" by (simp add: to_f32_def Let_def)
qed

lemma to_f32_unit: "0 \<le> x \<Longrightarrow> x \<le> 1 \<Longrightarrow> unit_f32 (to_f32 x)"
  using fl_round_two [of x] fl_round_unit [of x] fl_round_is_fl by (simp add: unit_f32_def)

lemma fl_round_error: "0 \<le> x \<Longrightarrow> x < 2 \<Longrightarrow> \<bar>fl_round 24 149 x - x\<bar> \<le> 1 / 2 ^ 24"
  using fl_round_near [of 24 149 x] quantum_bound [of x 1 24 149] by simp

lemma fl_round_ge: "is_fl 24 149 l \<Longrightarrow> 0 \<le> l \<Longrightarrow> l \<le> x \<Longrightarrow> l \<le> fl_round 24 149 x"
  using fl_round_mono [of l x 24 149] by (simp add: fl_round_id)

text \<open>The product of a ratio and a number of symbols fits the 53 bits of \<^verbatim>\<open>f64\<close>.\<close>

lemma product_exact:
  assumes "is_fl 24 149 x" "n \<le> 2 ^ 29"
  shows "fl_round 53 1074 (of_nat n * x) = of_nat n * x"
proof -
  obtain m :: int and e :: nat where x: "\<bar>m\<bar> \<le> 2 ^ 24" "x = of_int m * 2 ^ e / 2 ^ 149" using assms(1) by (auto simp: is_fl_def)
  have "\<bar>int n * m\<bar> = int n * \<bar>m\<bar>" by (simp add: abs_mult)
  also have "\<dots> \<le> 2 ^ 29 * 2 ^ 24" using x(1) assms(2) by (intro mult_mono) simp_all
  finally have "\<bar>int n * m\<bar> \<le> 2 ^ 53" by simp
  moreover have "of_nat n * x = of_int (int n * m) * 2 ^ (e + 925) / 2 ^ 1074"
  proof -
    have "(2 :: rat) ^ 1074 = 2 ^ 149 * 2 ^ 925" by (simp only: power_add [symmetric]) simp
    then show ?thesis unfolding x(2) power_add by (simp only: of_int_mult of_int_of_nat_eq) (simp only: times_divide_eq_right mult.assoc mult_divide_mult_cancel_right power_not_zero zero_neq_numeral not_False_eq_True divide_eq_eq_numeral, simp)
  qed
  ultimately have "is_fl 53 1074 (of_nat n * x)" unfolding is_fl_def by blast
  then show ?thesis by (simp add: fl_round_id)
qed

end
