(* ===== verification/Controller.thy ===== *)
theory Controller
  imports Float32 Flow Fec
begin

text \<open>
  The per-class parameters of \<^verbatim>\<open>crates/yip-transport/src/lib.rs\<close> and the adaptive redundancy controller of
  \<^verbatim>\<open>control.rs\<close>. The controller computes with \<^verbatim>\<open>f32\<close>; the operations and literals it uses, and
  those the data plane uses to feed it, are the fields of \<open>float_ops\<close>, a parameter of every definition, and
  \<open>f32_ops\<close> are those of single precision. The laws the controller needs of them, an order that is total on
  numbers, literals where they belong and monotone decay, are the locale \<open>ratio_arith\<close>, interpreted on \<open>f32_ops\<close>.
\<close>

section \<open>Class parameters\<close>

text \<open>The initial repair ratio is the literal \<open>f_initial\<close> of the class.\<close>

fun params :: "FlowClass \<Rightarrow> flow_params" where
  "params Realtime = \<lparr>symbol_size = 1200, deadline_ms = 20, arq = False\<rparr>"
| "params Bulk = \<lparr>symbol_size = 1200, deadline_ms = 500, arq = True\<rparr>"
| "params Default = \<lparr>symbol_size = 1200, deadline_ms = 100, arq = False\<rparr>"

fun class_index :: "FlowClass \<Rightarrow> nat" where
  "class_index Realtime = 0"
| "class_index Bulk = 1"
| "class_index Default = 2"

section \<open>Controller\<close>

record 'f float_ops =
  f_le :: "'f \<Rightarrow> 'f \<Rightarrow> bool"
  f_add :: "'f \<Rightarrow> 'f \<Rightarrow> 'f"
  f_mul :: "'f \<Rightarrow> 'f \<Rightarrow> 'f"
  f_zero :: 'f
  f_one :: 'f
  f_epsilon :: 'f
  f_target :: 'f
  f_headroom :: 'f
  f_decay :: 'f
  f_initial :: "FlowClass \<Rightarrow> 'f"
  f_ceil_product :: "nat \<Rightarrow> 'f \<Rightarrow> int"
  f_quotient :: "nat \<Rightarrow> nat \<Rightarrow> 'f"
  f_severe :: 'f

text \<open>\<^verbatim>\<open>a < b\<close>, \<^verbatim>\<open>a.max(b)\<close>, \<^verbatim>\<open>a.min(b)\<close> and \<^verbatim>\<open>x.clamp(0.0, 1.0)\<close> in terms of the order, in which \<^verbatim>\<open>NaN\<close> is related to nothing.\<close>

definition f_less :: "'f float_ops \<Rightarrow> 'f \<Rightarrow> 'f \<Rightarrow> bool" where
  "f_less F a b = (f_le F a b \<and> \<not> f_le F b a)"

definition f_max :: "'f float_ops \<Rightarrow> 'f \<Rightarrow> 'f \<Rightarrow> 'f" where
  "f_max F a b = (if f_le F a b \<or> \<not> f_le F a a then b else a)"

definition f_min :: "'f float_ops \<Rightarrow> 'f \<Rightarrow> 'f \<Rightarrow> 'f" where
  "f_min F a b = (if f_le F a b \<or> \<not> f_le F b b then a else b)"

definition clamp01 :: "'f float_ops \<Rightarrow> 'f \<Rightarrow> 'f" where
  "clamp01 F x = (if f_less F x (f_zero F) then f_zero F else if f_less F (f_one F) x then f_one F else x)"

record 'f AdaptiveController =
  ac_ratio :: 'f
  ac_min :: 'f
  ac_target :: 'f

definition new_for :: "'f float_ops \<Rightarrow> FlowClass \<Rightarrow> 'f AdaptiveController" where
  "new_for F class =
     \<lparr>ac_ratio = f_initial F class,
      ac_min = (if arq (params class) then f_zero F else f_initial F class),
      ac_target = f_target F\<rparr>"

definition set_ratio :: "'f float_ops \<Rightarrow> 'f \<Rightarrow> 'f AdaptiveController \<Rightarrow> 'f AdaptiveController" where
  "set_ratio F r c = c\<lparr>ac_ratio := clamp01 F r\<rparr>"

definition set_min_ratio :: "'f float_ops \<Rightarrow> 'f \<Rightarrow> 'f AdaptiveController \<Rightarrow> 'f AdaptiveController" where
  "set_min_ratio F r c = c\<lparr>ac_min := clamp01 F r\<rparr>"

definition ac_observe_loss :: "'f float_ops \<Rightarrow> 'f \<Rightarrow> 'f AdaptiveController \<Rightarrow> 'f AdaptiveController" where
  "ac_observe_loss F loss_fraction c =
     (let loss = clamp01 F loss_fraction
      in if f_less F (f_add F (ac_target c) (ac_ratio c)) loss
         then c\<lparr>ac_ratio := f_min F (f_add F loss (f_headroom F)) (f_one F)\<rparr>
         else if f_le F loss (ac_target c)
         then let decayed = f_max F (f_mul F (ac_ratio c) (f_decay F)) (ac_min c)
              in c\<lparr>ac_ratio := (if f_le F decayed (f_epsilon F) then ac_min c else decayed)\<rparr>
         else c)"

text \<open>The narrowing of the rounded product: a value outside \<^verbatim>\<open>u32\<close> becomes \<^verbatim>\<open>u32::MAX\<close>.\<close>

definition repair_count :: "'f float_ops \<Rightarrow> 'f AdaptiveController \<Rightarrow> nat \<Rightarrow> nat" where
  "repair_count F c source_symbols =
     (if f_le F (ac_ratio c) (f_epsilon F) then 0
      else let raw = f_ceil_product F source_symbols (ac_ratio c);
               n = (if 0 \<le> raw \<and> raw < 2 ^ 32 then nat raw else 2 ^ 32 - 1)
           in max n 1)"

lemma observe_target: "ac_target (ac_observe_loss F l c) = ac_target c" "ac_min (ac_observe_loss F l c) = ac_min c"
  by (simp_all add: ac_observe_loss_def Let_def)

section \<open>Laws of the arithmetic\<close>

locale ratio_arith =
  fixes F :: "'f float_ops" and val :: "'f \<Rightarrow> bool"
  assumes nan: "val a \<Longrightarrow> \<not> f_le F a a \<Longrightarrow> \<not> f_le F a b \<and> \<not> f_le F b a"
    and total: "f_le F a a \<Longrightarrow> f_le F b b \<Longrightarrow> f_le F a b \<or> f_le F b a"
    and trans: "f_le F a b \<Longrightarrow> f_le F b c \<Longrightarrow> f_le F a c"
    and lits: "val (f_zero F)" "val (f_one F)" "f_le F (f_zero F) (f_zero F)" "f_le F (f_one F) (f_one F)" "f_le F (f_zero F) (f_one F)"
    and initial: "val (f_initial F class)" "f_le F (f_zero F) (f_initial F class)" "f_le F (f_initial F class) (f_one F)"
    and headroom: "val a \<Longrightarrow> f_le F (f_zero F) a \<Longrightarrow> f_le F a (f_one F) \<Longrightarrow> val (f_add F a (f_headroom F)) \<and> f_le F a (f_add F a (f_headroom F))"
    and decay: "val a \<Longrightarrow> f_le F (f_zero F) a \<Longrightarrow> f_le F a (f_one F) \<Longrightarrow>
      val (f_mul F a (f_decay F)) \<and> f_le F (f_zero F) (f_mul F a (f_decay F)) \<and> f_le F (f_mul F a (f_decay F)) a"
begin

definition in_unit :: "'f \<Rightarrow> bool" where
  "in_unit a \<longleftrightarrow> val a \<and> f_le F (f_zero F) a \<and> f_le F a (f_one F)"

definition ok :: "'f AdaptiveController \<Rightarrow> bool" where
  "ok c \<longleftrightarrow> in_unit (ac_ratio c) \<and> in_unit (ac_min c)"

lemma clamp_unit: "val a \<Longrightarrow> f_le F a a \<Longrightarrow> in_unit (clamp01 F a)"
  using total [of a "f_zero F"] total [of a "f_one F"] lits by (auto simp: in_unit_def clamp01_def f_less_def)

lemma clamp_id: "in_unit a \<Longrightarrow> clamp01 F a = a"
  by (simp add: in_unit_def clamp01_def f_less_def)

lemma clamp_nan: "val a \<Longrightarrow> \<not> f_le F a a \<Longrightarrow> clamp01 F a = a"
  using nan [of a "f_zero F"] nan [of a "f_one F"] by (simp add: clamp01_def f_less_def)

lemma new_ok: "ok (new_for F class)"
  using initial lits by (simp add: ok_def in_unit_def new_for_def)

lemma set_ok: "ok c \<Longrightarrow> val r \<Longrightarrow> f_le F r r \<Longrightarrow> ok (set_min_ratio F r (set_ratio F r c))"
  using clamp_unit by (simp add: ok_def set_ratio_def set_min_ratio_def)

lemma jump_unit: "in_unit l \<Longrightarrow> in_unit (f_min F (f_add F l (f_headroom F)) (f_one F)) \<and> f_le F l (f_min F (f_add F l (f_headroom F)) (f_one F))"
  using headroom [of l] trans [of "f_zero F" l "f_add F l (f_headroom F)"] lits by (auto simp: in_unit_def f_min_def)

lemma decay_unit: "in_unit a \<Longrightarrow> in_unit (f_mul F a (f_decay F))"
  using decay [of a] trans [of "f_mul F a (f_decay F)" a "f_one F"] by (auto simp: in_unit_def)

lemma observe_ok:
  assumes "ok c" "val l"
  shows "ok (ac_observe_loss F l c)"
proof (cases "f_le F l l")
  case True
  then have "in_unit (clamp01 F l)" using assms(2) by (rule clamp_unit [rotated])
  then have up: "in_unit (f_min F (f_add F (clamp01 F l) (f_headroom F)) (f_one F))" using jump_unit by blast
  have down: "in_unit (f_max F (f_mul F (ac_ratio c) (f_decay F)) (ac_min c))"
    using assms(1) decay_unit by (auto simp: ok_def f_max_def)
  show ?thesis using assms(1) up down by (simp add: ok_def ac_observe_loss_def Let_def)
next
  case False
  then show ?thesis using assms nan [OF assms(2) False] clamp_nan [OF assms(2) False] by (simp add: ac_observe_loss_def f_less_def)
qed

end

section \<open>Single precision\<close>

definition f32_ops :: "f32 float_ops" where
  "f32_ops = \<lparr>f_le = f32_le, f_add = f32_add, f_mul = f32_mul, f_zero = Fin 0, f_one = Fin 1, f_epsilon = Fin (1 / 2 ^ 23), f_target = to_f32 (1 / 1000),
     f_headroom = to_f32 (1 / 20), f_decay = to_f32 (9 / 10),
     f_initial = (\<lambda>c. case c of Realtime \<Rightarrow> to_f32 (3 / 20) | Bulk \<Rightarrow> to_f32 (1 / 20) | Default \<Rightarrow> to_f32 (1 / 10)),
     f_ceil_product = f32_ceil_product, f_quotient = f32_quotient, f_severe = to_f32 (4 / 5)\<rparr>"

lemma f32_ops_sel [simp]:
  "f_le f32_ops = f32_le" "f_add f32_ops = f32_add" "f_mul f32_ops = f32_mul" "f_zero f32_ops = Fin 0" "f_one f32_ops = Fin 1"
  "f_epsilon f32_ops = Fin (1 / 2 ^ 23)" "f_target f32_ops = to_f32 (1 / 1000)" "f_headroom f32_ops = to_f32 (1 / 20)" "f_decay f32_ops = to_f32 (9 / 10)"
  "f_initial f32_ops = (\<lambda>c. case c of Realtime \<Rightarrow> to_f32 (3 / 20) | Bulk \<Rightarrow> to_f32 (1 / 20) | Default \<Rightarrow> to_f32 (1 / 10))"
  "f_ceil_product f32_ops = f32_ceil_product" "f_quotient f32_ops = f32_quotient" "f_severe f32_ops = to_f32 (4 / 5)"
  by (simp_all add: f32_ops_def)

lemma f32_unit_iff: "is_f32 a \<and> f32_le (Fin 0) a \<and> f32_le a (Fin 1) \<longleftrightarrow> unit_f32 a"
  by (cases a) (auto simp: unit_f32_def)

lemma f32_headroom:
  assumes "unit_f32 a"
  shows "is_f32 (f32_add a (to_f32 (1 / 20))) \<and> f32_le a (f32_add a (to_f32 (1 / 20)))"
proof -
  obtain x where x: "a = Fin x" "is_fl 24 149 x" "0 \<le> x" "x \<le> 1" using assms by (auto simp: unit_f32_def)
  obtain h where h: "to_f32 (1 / 20) = Fin h" "0 \<le> h" "h \<le> 1" using to_f32_unit [of "1 / 20"] by (auto simp: unit_f32_def)
  show ?thesis using x h fl_round_two [of "x + h"] fl_round_ge [OF x(2,3), of "x + h"] fl_round_is_fl by simp
qed

lemma f32_decay:
  assumes "unit_f32 a"
  shows "is_f32 (f32_mul a (to_f32 (9 / 10))) \<and> f32_le (Fin 0) (f32_mul a (to_f32 (9 / 10))) \<and> f32_le (f32_mul a (to_f32 (9 / 10))) a"
proof -
  obtain x where x: "a = Fin x" "is_fl 24 149 x" "0 \<le> x" "x \<le> 1" using assms by (auto simp: unit_f32_def)
  obtain d where d: "to_f32 (9 / 10) = Fin d" "0 \<le> d" "d \<le> 1" using to_f32_unit [of "9 / 10"] by (auto simp: unit_f32_def)
  have xd: "0 \<le> x * d" "x * d \<le> x" "x * d \<le> 2" using x d mult_left_le [of d x] by simp_all
  have "fl_round 24 149 (x * d) \<le> x" using fl_round_mono [OF xd(1,2), of 24 149] x(2) by (simp add: fl_round_id)
  then show ?thesis using x d fl_round_two [OF xd(1,3)] fl_round_is_fl by simp
qed

interpretation single: ratio_arith f32_ops is_f32
proof unfold_locales
  have lit: "is_f32 (to_f32 x) \<and> f32_le (Fin 0) (to_f32 x) \<and> f32_le (to_f32 x) (Fin 1)" if "0 \<le> x" "x \<le> 1" for x
    using to_f32_unit [OF that] f32_unit_iff by blast
  show "is_f32 (f_initial f32_ops c)" "f_le f32_ops (f_zero f32_ops) (f_initial f32_ops c)" "f_le f32_ops (f_initial f32_ops c) (f_one f32_ops)" for c
    using lit [of "3 / 20"] lit [of "1 / 20"] lit [of "1 / 10"] by (cases c; simp)+
  show "\<not> f_le f32_ops a b \<and> \<not> f_le f32_ops b a" if "\<not> f_le f32_ops a a" for a b using that by (cases a; cases b) simp_all
  show "f_le f32_ops a b \<or> f_le f32_ops b a" if "f_le f32_ops a a" "f_le f32_ops b b" for a b using that by (cases a; cases b) auto
  show "f_le f32_ops a c" if "f_le f32_ops a b" "f_le f32_ops b c" for a b c using that by (cases a; cases b; cases c) auto
qed (use fl_lits f32_headroom f32_decay f32_unit_iff in auto)

lemma single_unit [simp]: "single.in_unit a \<longleftrightarrow> unit_f32 a"
  using f32_unit_iff by (simp add: single.in_unit_def)

text \<open>The controllers that arise from observations, of whatever value, and overrides, by whatever number.\<close>

inductive ctl_reach :: "f32 AdaptiveController \<Rightarrow> bool" where
  new: "ctl_reach (new_for f32_ops class)"
| observe: "ctl_reach c \<Longrightarrow> is_f32 l \<Longrightarrow> ctl_reach (ac_observe_loss f32_ops l c)"
| override: "ctl_reach c \<Longrightarrow> is_f32 r \<Longrightarrow> r \<noteq> NaN \<Longrightarrow> ctl_reach (set_min_ratio f32_ops r (set_ratio f32_ops r c))"

lemma ctl_reach_unit: "ctl_reach c \<Longrightarrow> unit_f32 (ac_ratio c) \<and> unit_f32 (ac_min c) \<and> ac_target c = to_f32 (1 / 1000)"
proof -
  have "single.ok c \<and> ac_target c = to_f32 (1 / 1000)" if "ctl_reach c"
    using that
  proof (induction rule: ctl_reach.induct)
    case (new cl)
    show ?case using single.new_ok by (simp add: new_for_def)
  next
    case (observe c l)
    then show ?case using single.observe_ok by (simp add: observe_target)
  next
    case (override c r)
    have "f32_le r r" using override(3) by (cases r) simp_all
    then show ?case using override single.set_ok [of c r] by (simp add: set_ratio_def set_min_ratio_def)
  qed
  then show "ctl_reach c \<Longrightarrow> ?thesis" by (simp add: single.ok_def)
qed

lemma target_bounds:
  obtains t where "to_f32 (1 / 1000) = Fin t" "is_fl 24 149 t" "0 \<le> t" "t \<le> 1 / 2"
proof -
  have "(1 / 2 :: rat) = of_int 1 * 2 ^ 148 / 2 ^ 149" by simp
  then have "is_fl 24 149 (1 / 2)" unfolding is_fl_def by (intro exI [of _ 1] exI [of _ 148]) simp
  then have "fl_round 24 149 (1 / 1000) \<le> 1 / 2" using fl_round_mono [of "1 / 1000" "1 / 2" 24 149] by (simp add: fl_round_id)
  then show ?thesis using that fl_round_two [of "1 / 1000"] fl_round_is_fl by simp
qed



text \<open>Decay on a clean link: one observation takes the ratio to the floor or below \<open>19/20\<close> of itself.\<close>

lemma fl_round_relative:
  assumes "0 \<le> y"
  shows "fl_round 24 149 y \<le> y + y / 2 ^ 24 + 1 / 2 ^ 150"
proof (cases "quantum 24 149 y = 1 / 2 ^ 149")
  case True
  then have "fl_round 24 149 y - y \<le> 1 / 2 ^ 150" using order_trans [OF abs_ge_self fl_round_near [of 24 149 y]] by simp
  moreover have "0 \<le> y / 2 ^ 24" using assms by simp
  ultimately show ?thesis by linarith
next
  case False
  then have "2 ^ 23 * quantum 24 149 y \<le> y" using quantum_lower [of 24 149 y] assms by simp
  moreover have "fl_round 24 149 y - y \<le> quantum 24 149 y / 2" by (rule order_trans [OF abs_ge_self fl_round_near])
  ultimately have "fl_round 24 149 y \<le> y + y / 2 ^ 24" by simp
  moreover have "(0 :: rat) \<le> 1 / 2 ^ 150" by simp
  ultimately show ?thesis by linarith
qed

lemma clean_step:
  assumes "ctl_reach c" "ac_ratio c = Fin x" "ac_min c = Fin m"
  shows "\<exists>y. ac_ratio (ac_observe_loss f32_ops (Fin 0) c) = Fin y \<and> (y = m \<or> 1 / 2 ^ 23 < y \<and> y \<le> 19 / 20 * x) \<and> (x = m \<longrightarrow> y = m)"
proof -
  have c: "unit_f32 (Fin x)" "unit_f32 (Fin m)" "ac_target c = to_f32 (1 / 1000)" using ctl_reach_unit [OF assms(1)] assms(2,3) by auto
  then have x: "is_fl 24 149 x" "0 \<le> x" "x \<le> 1" "0 \<le> m" by (auto simp: unit_f32_def)
  obtain t where t: "to_f32 (1 / 1000) = Fin t" "0 \<le> t" "t \<le> 1 / 2" using target_bounds by metis
  define d where "d = fl_round 24 149 (9 / 10)"
  have "d - 9 / 10 \<le> 1 / 2 ^ 24" unfolding d_def by (intro order_trans [OF abs_ge_self fl_round_error]) simp_all
  then have d: "to_f32 (9 / 10) = Fin d" "0 \<le> d" "d \<le> 91 / 100" using fl_round_two [of "9 / 10"] by (simp_all add: d_def)
  have xd: "0 \<le> x * d" "x * d \<le> 91 / 100 * x" "x * d \<le> x" "x * d \<le> 2"
    using x d mult_left_mono [OF d(3) x(2)] mult_left_le [of d x] by simp_all
  let ?e = "fl_round 24 149 (x * d)"
  have e: "?e \<le> x" using fl_round_mono [OF xd(1,3), of 24 149] x(1) by (simp add: fl_round_id)
  have "Fin 0 = clamp01 f32_ops (Fin 0)" by (simp add: clamp01_def f_less_def)
  then have r: "ac_ratio (ac_observe_loss f32_ops (Fin 0) c) = Fin (if max ?e m \<le> 1 / 2 ^ 23 then m else max ?e m)"
    using assms(2,3) c(3) t d fl_round_two [of "t + x"] fl_round_two [OF xd(1,4)] x by (auto simp: ac_observe_loss_def f_less_def f_max_def Let_def max_def)
  have "?e \<le> 19 / 20 * x" if "1 / 2 ^ 23 < x"
  proof -
    have "1 / 2 ^ 150 \<le> x / 100" using that by simp
    moreover have "x * d / 2 ^ 24 \<le> x / 2 ^ 24" using xd(3) by (rule divide_right_mono) simp
    moreover have "x / 2 ^ 24 \<le> x / 100" using x(2) by simp
    ultimately show ?thesis using fl_round_relative [OF xd(1)] xd(2) x(2) by linarith
  qed
  then show ?thesis unfolding r using e by (auto simp: max_def)
qed

lemma clean_run:
  assumes "ctl_reach c" "ac_min c = Fin m"
  shows "\<exists>y. ac_ratio (((ac_observe_loss f32_ops (Fin 0)) ^^ n) c) = Fin y \<and> (y = m \<or> y \<le> (19 / 20) ^ n \<and> (0 < n \<longrightarrow> 1 / 2 ^ 23 < y)) \<and>
    ctl_reach (((ac_observe_loss f32_ops (Fin 0)) ^^ n) c) \<and> ac_min (((ac_observe_loss f32_ops (Fin 0)) ^^ n) c) = Fin m"
proof (induction n)
  case 0
  obtain r where "ac_ratio c = Fin r" "r \<le> 1" using ctl_reach_unit [OF assms(1)] by (auto simp: unit_f32_def)
  then show ?case using assms by simp
next
  case (Suc n)
  let ?c = "((ac_observe_loss f32_ops (Fin 0)) ^^ n) c"
  obtain x where x: "ac_ratio ?c = Fin x" "x = m \<or> x \<le> (19 / 20) ^ n" "ctl_reach ?c" "ac_min ?c = Fin m" using Suc by blast
  obtain y where y: "ac_ratio (ac_observe_loss f32_ops (Fin 0) ?c) = Fin y" "y = m \<or> 1 / 2 ^ 23 < y \<and> y \<le> 19 / 20 * x" "x = m \<longrightarrow> y = m"
    using clean_step [OF x(3,1,4)] by blast
  have "y = m \<or> y \<le> (19 / 20) ^ Suc n \<and> 1 / 2 ^ 23 < y" using x(2) y(2,3) by auto
  moreover have "ctl_reach (ac_observe_loss f32_ops (Fin 0) ?c)" using ctl_reach.observe [OF x(3)] fl_lits by simp
  ultimately show ?case using y(1) x(4) by (simp add: observe_target)
qed

section \<open>Properties\<close>



text \<open>On a clean link the controller settles. From every reachable state, 320 observations of zero loss bring the
  ratio exactly to the floor, where it stays.\<close>

theorem controller_settles:
  assumes "ctl_reach c" "320 \<le> n"
  shows "ac_ratio (((ac_observe_loss f32_ops (Fin 0)) ^^ n) c) = ac_min c"
proof -
  obtain m where m: "ac_min c = Fin m" using ctl_reach_unit [OF assms(1)] by (auto simp: unit_f32_def)
  have "(19 / 20 :: rat) ^ n \<le> (19 / 20) ^ 320" using assms(2) by (intro power_decreasing) simp_all
  also have "\<dots> \<le> 1 / 2 ^ 23" by (simp add: power_divide)
  finally show ?thesis using clean_run [OF assms(1) m, of n] assms(2) m by auto
qed

theorem controller_settles_witness:
  "repair_count f32_ops (((ac_observe_loss f32_ops (Fin 0)) ^^ 320) (new_for f32_ops Bulk)) 200 = 0"
proof -
  have "ac_ratio (((ac_observe_loss f32_ops (Fin 0)) ^^ 320) (new_for f32_ops Bulk)) = Fin 0"
    using controller_settles [OF ctl_reach.new, of 320 Bulk] by (simp add: new_for_def)
  then show ?thesis by (simp add: repair_count_def)
qed

end
