(* ===== verification/Transport.thy ===== *)
theory Transport
  imports Controller Fec_Roundtrip
begin

text \<open>
  The transport of \<^verbatim>\<open>crates/yip-transport/src/lib.rs\<close>: classification, encoding with the class's adaptive
  redundancy, and one reassembler per class, created on first use. The host CPU \<open>p\<close>, the floating point
  operations \<open>F\<close> of the controllers and \<open>G\<close> of the flow table are parameters.
\<close>

section \<open>Definitions\<close>

record ('f, 'g) Transport =
  tr_classifier :: "'g Classifier"
  tr_encoder :: FecEncoder
  tr_controllers :: "'f AdaptiveController list"
  tr_reassemblers :: "nat \<rightharpoonup> FecReassembler"
  tr_symbol_size :: u16

definition transport_new :: "'f float_ops \<Rightarrow> PolicyRule list \<Rightarrow> u16 \<Rightarrow> ('f, 'g) Transport" where
  "transport_new F rs ssize =
     \<lparr>tr_classifier = classifier_new rs, tr_encoder = encoder_new,
      tr_controllers = [new_for F Realtime, new_for F Bulk, new_for F Default],
      tr_reassemblers = Map.empty, tr_symbol_size = ssize\<rparr>"

definition tr_set_shard :: "nat \<Rightarrow> nat \<Rightarrow> ('f, 'g) Transport \<Rightarrow> ('f, 'g) Transport" where
  "tr_set_shard shard_id num_shards t =
     t\<lparr>tr_encoder := set_shard (tr_encoder t) (of_nat shard_id) (of_nat num_shards)\<rparr>"

definition tr_set_symbol_size :: "u16 \<Rightarrow> ('f, 'g) Transport \<Rightarrow> ('f, 'g) Transport" where
  "tr_set_symbol_size ssize t =
     t\<lparr>tr_symbol_size := ssize,
       tr_reassemblers := (\<lambda>i. map_option (\<lambda>re. set_symbol_size re ssize) (tr_reassemblers t i))\<rparr>"

definition params_for :: "('f, 'g) Transport \<Rightarrow> FlowClass \<Rightarrow> flow_params" where
  "params_for t c = (params c)\<lparr>symbol_size := tr_symbol_size t\<rparr>"

text \<open>\<open>div_ceil\<close> by a symbol size of 0 is a division by zero: the source panics.\<close>

definition tr_encode ::
    "cpu \<Rightarrow> 'f float_ops \<Rightarrow> 'g size_ops \<Rightarrow> bytes \<Rightarrow> bytes \<Rightarrow> bool \<Rightarrow> nat \<Rightarrow> ('f, 'g) Transport \<Rightarrow>
     ((FlowClass \<times> Symbol list) \<times> ('f, 'g) Transport) exec" where
  "tr_encode p F G ciphertext inner l2 now t =
     (case classify G (tr_classifier t) inner l2 now of
        (c, cls) \<Rightarrow>
          let ps = params_for t c
          in if symbol_size ps = 0 then None
             else let n = div_ceil (length ciphertext) (unat (symbol_size ps));
                      source = max (if n < 2 ^ 32 then n else 2 ^ 32 - 1) 1;
                      repair = repair_count F (tr_controllers t ! class_index c) source
                  in map_option (\<lambda>(syms, e). ((c, syms), t\<lparr>tr_classifier := cls, tr_encoder := e\<rparr>))
                       (encode p (tr_encoder t) ciphertext ps repair))"

definition tr_decode ::
    "cpu \<Rightarrow> u64 \<Rightarrow> Symbol \<Rightarrow> FlowClass \<Rightarrow> nat \<Rightarrow> ('f, 'g) Transport \<Rightarrow> (bytes option \<times> ('f, 'g) Transport) exec" where
  "tr_decode p object_key symbol c now t =
     (let ps = params_for t c;
          re = (case tr_reassemblers t (class_index c) of
                  Some re \<Rightarrow> re | None \<Rightarrow> reassembler_new (symbol_size ps) 256)
      in map_option (\<lambda>(res, re'). (res, t\<lparr>tr_reassemblers := (tr_reassemblers t)(class_index c \<mapsto> re')\<rparr>))
           (push p re object_key symbol now (deadline_ms ps)))"

definition tr_observe_ingress :: "'g size_ops \<Rightarrow> bytes \<Rightarrow> bool \<Rightarrow> nat \<Rightarrow> ('f, 'g) Transport \<Rightarrow> ('f, 'g) Transport" where
  "tr_observe_ingress G inner l2 now t = t\<lparr>tr_classifier := observe_ingress G (tr_classifier t) inner l2 now\<rparr>"

definition repair_object ::
    "cpu \<Rightarrow> bytes \<Rightarrow> FlowClass \<Rightarrow> u16 \<Rightarrow> nat \<Rightarrow> ('f, 'g) Transport \<Rightarrow> (Symbol list \<times> ('f, 'g) Transport) exec" where
  "repair_object p ciphertext c oid extra_repair t =
     map_option (\<lambda>(syms, e). (syms, t\<lparr>tr_encoder := e\<rparr>))
       (repair_with_id p (tr_encoder t) ciphertext (params_for t c) oid extra_repair)"

definition tr_observe_loss :: "'f float_ops \<Rightarrow> FlowClass \<Rightarrow> 'f \<Rightarrow> ('f, 'g) Transport \<Rightarrow> ('f, 'g) Transport" where
  "tr_observe_loss F c loss t =
     t\<lparr>tr_controllers := (tr_controllers t)[class_index c :=
         ac_observe_loss F loss (tr_controllers t ! class_index c)]\<rparr>"

definition set_fec_repair_ratio :: "'f float_ops \<Rightarrow> 'f \<Rightarrow> ('f, 'g) Transport \<Rightarrow> ('f, 'g) Transport" where
  "set_fec_repair_ratio F r t = t\<lparr>tr_controllers := map (\<lambda>c. set_min_ratio F r (set_ratio F r c)) (tr_controllers t)\<rparr>"

text \<open>The counters summed over the classes' reassemblers; the source's sum wraps in a release build.\<close>

definition fec_recovered_count :: "('f, 'g) Transport \<Rightarrow> nat" where
  "fec_recovered_count t =
     (\<Sum>i\<leftarrow>[0, 1, 2]. case tr_reassemblers t i of None \<Rightarrow> 0 | Some r \<Rightarrow> recovered_count r) mod 2 ^ 64"

definition fec_unrecoverable_count :: "('f, 'g) Transport \<Rightarrow> nat" where
  "fec_unrecoverable_count t =
     (\<Sum>i\<leftarrow>[0, 1, 2]. case tr_reassemblers t i of None \<Rightarrow> 0 | Some r \<Rightarrow> unrecoverable_count r) mod 2 ^ 64"

section \<open>Invariant\<close>

text \<open>Three controllers, and reassemblers only for the classes, each reachable, with the transport's symbol size and room for 256 objects.\<close>

definition tr_inv :: "('f, 'g) Transport \<Rightarrow> bool" where
  "tr_inv t \<longleftrightarrow> length (tr_controllers t) = 3 \<and> dom (tr_reassemblers t) \<subseteq> {0, 1, 2} \<and>
     (\<forall>i re. tr_reassemblers t i = Some re \<longrightarrow> reasm_reach re \<and> re_symbol_size re = tr_symbol_size t \<and> max_objects re = 256)"

lemma class_index_less: "class_index c < 3"
  by (cases c) simp_all

lemma tr_inv_new [inv_intros]: "tr_inv (transport_new F rs ssize)"
  by (simp add: tr_inv_def transport_new_def)

lemma tr_inv_symbol_size [inv_intros]: "tr_inv t \<Longrightarrow> tr_inv (tr_set_symbol_size ssize t)"
  unfolding tr_inv_def tr_set_symbol_size_def
  by (auto simp: dom_def set_symbol_size_def [of _ ssize] intro: reasm_reach.resize [unfolded set_symbol_size_def])

lemma tr_inv_loss [inv_intros]: "tr_inv t \<Longrightarrow> tr_inv (tr_observe_loss F c l t)"
  by (simp add: tr_inv_def tr_observe_loss_def)

lemma tr_inv_ingress [inv_intros]: "tr_inv t \<Longrightarrow> tr_inv (tr_observe_ingress G inner l2 now t)"
  by (simp add: tr_inv_def tr_observe_ingress_def)

lemma push_symbol_size: "push p r k s now dl = Some (res, r') \<Longrightarrow> re_symbol_size r' = re_symbol_size r"
  by (auto simp: push_def Let_def split: option.splits prod.splits)

lemma push_max_objects: "push p r k s now dl = Some (res, r') \<Longrightarrow> max_objects r' = max_objects r"
  by (auto simp: push_def Let_def split: option.splits prod.splits)

text \<open>The reassembler \<open>decode\<close> uses for a class.\<close>

definition reasm_for :: "FlowClass \<Rightarrow> ('f, 'g) Transport \<Rightarrow> FecReassembler" where
  "reasm_for c t = (case tr_reassemblers t (class_index c) of Some re \<Rightarrow> re | None \<Rightarrow> reassembler_new (tr_symbol_size t) 256)"

lemma reasm_for_reach:
  assumes "tr_inv t"
  shows "reasm_reach (reasm_for c t) \<and> re_symbol_size (reasm_for c t) = tr_symbol_size t \<and> max_objects (reasm_for c t) = 256"
proof (cases "tr_reassemblers t (class_index c)")
  case None
  then show ?thesis using reasm_reach.start [of "tr_symbol_size t" 256] by (simp add: reasm_for_def) (simp add: reassembler_new_def Let_def)
qed (use assms in \<open>simp add: tr_inv_def reasm_for_def\<close>)

lemma tr_decode_push:
  "tr_decode p k s c now t = map_option (\<lambda>(res, re). (res, t\<lparr>tr_reassemblers := (tr_reassemblers t)(class_index c \<mapsto> re)\<rparr>))
     (push p (reasm_for c t) k s now (deadline_ms (params c)))"
  by (cases "tr_reassemblers t (class_index c)") (simp_all add: tr_decode_def reasm_for_def Let_def params_for_def)

lemma tr_decode_total:
  assumes "tr_inv t"
  shows "\<exists>res t'. tr_decode p k s c now t = Some (res, t') \<and> tr_inv t' \<and> tr_symbol_size t' = tr_symbol_size t"
proof -
  note r = reasm_for_reach [OF assms, of c]
  obtain res r' where r': "push p (reasm_for c t) k s now (deadline_ms (params c)) = Some (res, r')"
    using push_total [OF reach_inv] r by blast
  have "reasm_reach r'" "re_symbol_size r' = tr_symbol_size t" "max_objects r' = 256"
    using reasm_reach.pushed [OF _ r'] push_symbol_size [OF r'] push_max_objects [OF r'] r by auto
  moreover have "class_index c \<in> {0, 1, 2}" by (cases c) simp_all
  ultimately show ?thesis using assms r' by (auto simp: tr_decode_push tr_inv_def split: if_splits)
qed

lemma build_total:
  assumes "length ct \<le> 262144"
  shows "\<exists>syms. build p ct ps oid repair = Some syms \<and> (\<forall>s \<in> set syms. object_id s = oid \<and> length (payload_id s) = 4)"
proof (cases "symbol_size ps = 0 \<or> ct = [] \<or> div_ceil (length ct) (unat (symbol_size ps)) \<ge> 255")
  case True
  have "unat (of_nat (length ct) :: u32) = length ct" using assms by (simp add: unat_of_nat)
  moreover have "div_ceil 0 b = 0" for b :: nat by (cases b) (simp_all add: div_ceil_def)
  ultimately have "symbol_size ps = 0 \<or> source_count (of_nat (length ct)) (symbol_size ps) = 0 \<or>
      source_count (of_nat (length ct)) (symbol_size ps) \<ge> 255"
    using True by (auto simp: source_count_def Let_def)
  then have "build p ct ps oid repair = Some []" using assms by (auto simp: build_def Let_def)
  then show ?thesis by simp
next
  case False
  then have "0 < length ct" "0 < unat (symbol_size ps)" "div_ceil (length ct) (unat (symbol_size ps)) < 255"
    by (auto simp: unat_gt_0)
  from build_symbols [OF this(1) assms this(2), of p oid repair] this(3) show ?thesis
    by (fastforce simp: mk_symbol_def pack_payload_id_def)
qed

lemma tr_encode_build:
  assumes "classify G (tr_classifier t) inner l2 now = (c, cls)" "tr_symbol_size t \<noteq> 0" "length ct \<le> 262144"
  shows "\<exists>repair syms e. build p ct (params_for t c) (next_object_id (tr_encoder t)) repair = Some syms \<and>
    tr_encode p F G ct inner l2 now t = Some ((c, syms), t\<lparr>tr_classifier := cls, tr_encoder := e\<rparr>)"
proof -
  let ?n = "div_ceil (length ct) (unat (symbol_size (params_for t c)))"
  let ?repair = "repair_count F (tr_controllers t ! class_index c) (max (if ?n < 2 ^ 32 then ?n else 2 ^ 32 - 1) 1)"
  obtain syms where syms: "build p ct (params_for t c) (next_object_id (tr_encoder t)) ?repair = Some syms"
    using build_total [OF assms(3)] by blast
  moreover have "symbol_size (params_for t c) \<noteq> 0" using assms(2) by (simp add: params_for_def)
  ultimately show ?thesis using assms(1) unfolding tr_encode_def Let_def encode_def by (intro exI) auto
qed

lemma tr_encode_total:
  assumes "tr_inv t" "length ct \<le> 262144" "tr_symbol_size t \<noteq> 0"
  shows "\<exists>c syms t'. tr_encode p F G ct inner l2 now t = Some ((c, syms), t') \<and> tr_inv t' \<and>
    tr_symbol_size t' = tr_symbol_size t \<and> (\<forall>s \<in> set syms. length (payload_id s) = 4)"
proof -
  obtain c cls where c: "classify G (tr_classifier t) inner l2 now = (c, cls)" by fastforce
  obtain repair syms e where e: "build p ct (params_for t c) (next_object_id (tr_encoder t)) repair = Some syms"
    "tr_encode p F G ct inner l2 now t = Some ((c, syms), t\<lparr>tr_classifier := cls, tr_encoder := e\<rparr>)"
    using tr_encode_build [OF c assms(3,2)] by blast
  have "\<forall>s \<in> set syms. length (payload_id s) = 4"
    using build_total [OF assms(2), of p "params_for t c" "next_object_id (tr_encoder t)" repair] e(1) by auto
  then show ?thesis using e(2) assms(1) by (simp add: tr_inv_def)
qed

end
