(* ===== verification/Retx.thy ===== *)
theory Retx
  imports Flow
begin

text \<open>
  The sender's retransmit buffer of \<^verbatim>\<open>crates/yip-transport/src/retxbuf.rs\<close>, keyed by send counter, bounded
  in size and with a time to live.
\<close>

section \<open>Buffer\<close>

record Entry =
  en_ciphertext :: bytes
  en_class :: FlowClass
  en_object_id :: u16
  inserted_ms :: nat

record RetxBuffer =
  rb_cache :: "(u64, Entry) fifo"
  rb_max :: nat
  rb_ttl :: nat

definition retx_new :: "nat \<Rightarrow> nat \<Rightarrow> RetxBuffer" where
  "retx_new maxn ttl = \<lparr>rb_cache = (Map.empty, []), rb_max = max maxn 1, rb_ttl = ttl\<rparr>"

definition retx_len :: "RetxBuffer \<Rightarrow> nat" where
  "retx_len b = card (dom (fst (rb_cache b)))"

definition retx_evict_expired :: "RetxBuffer \<Rightarrow> nat \<Rightarrow> RetxBuffer" where
  "retx_evict_expired b now =
     b\<lparr>rb_cache := (case rb_cache b of (m, ord) \<Rightarrow> drop_expired (\<lambda>e. now - inserted_ms e > rb_ttl b) m ord)\<rparr>"

definition retx_put :: "RetxBuffer \<Rightarrow> u64 \<Rightarrow> bytes \<Rightarrow> FlowClass \<Rightarrow> u16 \<Rightarrow> nat \<Rightarrow> RetxBuffer" where
  "retx_put b counter ct cl oid now =
     (let e = \<lparr>en_ciphertext = ct, en_class = cl, en_object_id = oid, inserted_ms = now\<rparr>
      in case fst (rb_cache b) counter of
           Some _ \<Rightarrow> b\<lparr>rb_cache := ((fst (rb_cache b))(counter \<mapsto> e), snd (rb_cache b))\<rparr>
         | None \<Rightarrow>
             let b' = retx_evict_expired b now
             in b'\<lparr>rb_cache := push_fresh (rb_max b') counter e (rb_cache b')\<rparr>)"

definition retx_get :: "RetxBuffer \<Rightarrow> u64 \<Rightarrow> nat \<Rightarrow> (bytes \<times> FlowClass \<times> u16) option" where
  "retx_get b counter now =
     (case fst (rb_cache b) counter of
        None \<Rightarrow> None
      | Some e \<Rightarrow>
          if now - inserted_ms e > rb_ttl b then None else Some (en_ciphertext e, en_class e, en_object_id e))"

section \<open>Lemmas\<close>

definition retx_inv :: "RetxBuffer \<Rightarrow> bool" where
  "retx_inv b \<longleftrightarrow> 0 < rb_max b \<and> fifo_inv (rb_max b) (rb_cache b)"

lemma retx_new_inv: "retx_inv (retx_new maxn ttl)"
  by (simp add: retx_inv_def retx_new_def fifo_inv_def)

lemma retx_put_facts:
  assumes inv: "retx_inv b" and b': "b' = retx_put b counter ct cl oid now"
  shows "retx_inv b'" "rb_max b' = rb_max b" "rb_ttl b' = rb_ttl b"
    "fst (rb_cache b') counter = Some \<lparr>en_ciphertext = ct, en_class = cl, en_object_id = oid, inserted_ms = now\<rparr>"
    "c \<noteq> counter \<Longrightarrow> fst (rb_cache b') c = None \<or> fst (rb_cache b') c = fst (rb_cache b) c"
proof -
  let ?e = "\<lparr>en_ciphertext = ct, en_class = cl, en_object_id = oid, inserted_ms = now\<rparr>"
  obtain m ord where c: "rb_cache b = (m, ord)" by fastforce
  have mx: "0 < rb_max b" and fi: "fifo_inv (rb_max b) (m, ord)" using inv c by (simp_all add: retx_inv_def)
  obtain m1 ord1 where d: "drop_expired (\<lambda>e. now - inserted_ms e > rb_ttl b) m ord = (m1, ord1)" by fastforce
  have inv1: "fifo_inv (rb_max b) (m1, ord1)" "m1 \<subseteq>\<^sub>m m" using drop_expired_inv [OF fi d] by blast+
  obtain m2 ord2 where p: "push_fresh (rb_max b) counter ?e (m1, ord1) = (m2, ord2)" by fastforce
  have fresh: "m1 counter = None" if "m counter = None" using that inv1(2) by (metis domIff map_le_implies_dom_le subsetD)
  note f2 = push_fresh_inv [OF inv1(1) _ mx p]
  have cache: "rb_cache b' = (if m counter = None then (m2, ord2) else (m(counter \<mapsto> ?e), ord))"
    by (auto simp: b' retx_put_def retx_evict_expired_def Let_def c d p split: option.splits)
  show "rb_max b' = rb_max b" "rb_ttl b' = rb_ttl b"
    by (simp_all add: b' retx_put_def retx_evict_expired_def Let_def split: option.splits)
  then show "retx_inv b'"
    using mx fi f2 fresh by (cases "m counter") (auto simp: retx_inv_def cache fifo_inv_def insert_absorb)
  show "fst (rb_cache b') counter = Some ?e" using f2 fresh by (cases "m counter") (simp_all add: cache)
  have sub: "m1 c = None \<or> m1 c = m c" using inv1(2) by (auto simp: map_le_def dom_def)
  show "fst (rb_cache b') c = None \<or> fst (rb_cache b') c = fst (rb_cache b) c" if "c \<noteq> counter"
    using f2 fresh that sub by (cases "m counter") (auto simp: cache c)
qed

inductive retx_reach :: "RetxBuffer \<Rightarrow> bool" where
  new: "retx_reach (retx_new maxn ttl)"
| put: "retx_reach b \<Longrightarrow> retx_reach (retx_put b counter ct cl oid now)"

lemma retx_reach_inv: "retx_reach b \<Longrightarrow> retx_inv b"
  by (induction rule: retx_reach.induct) (simp_all add: retx_new_inv retx_put_facts(1))

section \<open>Properties\<close>

text \<open>The retransmit buffer returns what was stored. In every reachable state an object that has just been stored
  is returned unchanged until its time to live has passed and never after, storing it makes no other
  counter return anything it did not return before, and the buffer never holds more than its
  capacity.\<close>

theorem retx_put_get:
  assumes "retx_reach b"
  shows "retx_get (retx_put b counter ct cl oid now) counter later =
      (if later - now \<le> rb_ttl b then Some (ct, cl, oid) else None) \<and>
    (retx_get (retx_put b counter ct cl oid now) c later \<in> {None, retx_get b c later} \<or> c = counter) \<and>
    retx_len (retx_put b counter ct cl oid now) \<le> rb_max b"
proof -
  let ?b = "retx_put b counter ct cl oid now"
  have inv: "retx_inv b" using assms by (rule retx_reach_inv)
  note f = retx_put_facts [OF inv refl, where counter = counter and ct = ct and cl = cl and oid = oid and now = now]
  have "retx_get ?b counter later = (if later - now \<le> rb_ttl b then Some (ct, cl, oid) else None)"
    using f(3,4) by (simp add: retx_get_def)
  moreover have "retx_get ?b c later \<in> {None, retx_get b c later}" if "c \<noteq> counter"
    using f(5) [OF that] unfolding retx_get_def f(3) by auto
  moreover have "retx_len ?b \<le> rb_max b"
    using f(1,2) fifo_inv_card [of "rb_max b" "fst (rb_cache ?b)" "snd (rb_cache ?b)"]
    by (auto simp: retx_inv_def retx_len_def fifo_inv_def split: prod.splits)
  ultimately show ?thesis by blast
qed

theorem retx_put_get_witness:
  "retx_get (retx_put (retx_new 2 100) 7 [1, 2] Bulk 3 50) 7 120 = Some ([1, 2], Bulk, 3) \<and>
   retx_get (retx_put (retx_new 2 100) 7 [1, 2] Bulk 3 50) 7 151 = None"
  using retx_put_get [OF retx_reach.new, of 2 100 7 "[1, 2]" Bulk 3 50 120 7]
    retx_put_get [OF retx_reach.new, of 2 100 7 "[1, 2]" Bulk 3 50 151 7] by (simp add: retx_new_def)

end
