(* ===== verification/Feedback.thy ===== *)
theory Feedback
  imports Codecs
begin

text \<open>
  Loss reports of \<^verbatim>\<open>crates/yip-transport/src/feedback.rs\<close> and the in-band control frames of
  \<^verbatim>\<open>crates/yip-transport/src/plpmtu.rs\<close>, with their byte encodings.
\<close>

section \<open>Loss reports\<close>

definition MAX_NACK :: nat where
  "MAX_NACK = 64"

record LossReport =
  delivered_count :: u32
  high_counter :: u64
  missing :: "u64 list"

definition report_encode :: "LossReport \<Rightarrow> bytes" where
  "report_encode r =
     (let n_missing = min (length (missing r)) MAX_NACK
      in be32 (delivered_count r) @ be64 (high_counter r) @ be16 (of_nat n_missing) @
         concat (map (\<lambda>i. be64 (missing r ! i)) [0..<n_missing]))"

definition report_decode :: "bytes \<Rightarrow> LossReport option" where
  "report_decode bs =
     (if length bs < 14 then None
      else let dc = un32 (take 4 bs); hc = un64 (take 8 (drop 4 bs)); n = unat (un16 (take 2 (drop 12 bs)))
           in if length bs \<noteq> 14 + n * 8 then None
              else let ms = map (\<lambda>i. un64 (take 8 (drop (14 + i * 8) bs))) [0..<n]
                   in Some \<lparr>delivered_count = dc, high_counter = hc, missing = take MAX_NACK ms\<rparr>)"

section \<open>Control frames\<close>

definition MAGIC_MTU_PROBE :: bytes where
  "MAGIC_MTU_PROBE = [0xFF, 0x50]"

definition MAGIC_MTU_PROBE_ACK :: bytes where
  "MAGIC_MTU_PROBE_ACK = [0xFF, 0x41]"

datatype ControlFrame =
    Feedback LossReport
  | MtuProbe u16 u16 bytes
  | MtuProbeAck u16 u16

fun control_encode :: "ControlFrame \<Rightarrow> bytes" where
  "control_encode (Feedback report) = report_encode report"
| "control_encode (MtuProbe probe_id target pad) = MAGIC_MTU_PROBE @ be16 probe_id @ be16 target @ pad"
| "control_encode (MtuProbeAck probe_id accepted) = MAGIC_MTU_PROBE_ACK @ be16 probe_id @ be16 accepted"

definition control_decode :: "bytes \<Rightarrow> ControlFrame option" where
  "control_decode bs =
     (if length bs \<ge> 6 \<and> take 2 bs = MAGIC_MTU_PROBE
      then let probe_id = un16 (take 2 (drop 2 bs)); target = un16 (take 2 (drop 4 bs))
           in if length bs \<noteq> unat target then None else Some (MtuProbe probe_id target (drop 6 bs))
      else if length bs = 6 \<and> take 2 bs = MAGIC_MTU_PROBE_ACK
      then Some (MtuProbeAck (un16 (take 2 (drop 2 bs))) (un16 (take 2 (drop 4 bs))))
      else map_option Feedback (report_decode bs))"

section \<open>Lemmas\<close>

lemma length_concat_be64: "length (concat (map (\<lambda>i. be64 (f i)) [0..<n])) = n * 8"
  by (induction n) simp_all

lemma nth_chunk_be64: "i < n \<Longrightarrow> take 8 (drop (i * 8) (concat (map (\<lambda>i. be64 (f i)) [0..<n]))) = be64 (f i)"
proof (induction n)
  case (Suc n)
  show ?case
  proof (cases "i = n")
    case True
    then show ?thesis using length_concat_be64 [of f n] by simp
  next
    case False
    then have i: "i < n" using Suc.prems by simp
    then have "i * 8 + 8 \<le> n * 8" by simp
    then show ?thesis using Suc.IH [OF i] length_concat_be64 [of f n] by simp
  qed
qed simp

lemma length_report_encode: "length (report_encode r) = 14 + min (length (missing r)) MAX_NACK * 8"
  by (simp add: report_encode_def Let_def length_concat_be64)

lemma report_roundtrip: "report_decode (report_encode r) = Some (r\<lparr>missing := take MAX_NACK (missing r)\<rparr>)"
proof -
  define n where "n = min (length (missing r)) MAX_NACK"
  define tail where "tail = concat (map (\<lambda>i. be64 (missing r ! i)) [0..<n])"
  define bs where "bs = report_encode r"
  have bs: "bs = be32 (delivered_count r) @ be64 (high_counter r) @ be16 (of_nat n) @ tail"
    by (simp add: bs_def report_encode_def Let_def n_def tail_def)
  have n: "unat (of_nat n :: u16) = n" by (simp add: unat_of_nat n_def MAX_NACK_def)
  have len: "length bs = 14 + n * 8" by (simp add: bs tail_def length_concat_be64)
  have "map (\<lambda>i. un64 (take 8 (drop (14 + i * 8) bs))) [0..<n] = take n (missing r)"
  proof (rule nth_equalityI)
    fix i assume "i < length (map (\<lambda>i. un64 (take 8 (drop (14 + i * 8) bs))) [0..<n])"
    then have i: "i < n" by simp
    have "drop (14 + i * 8) bs = drop (i * 8) tail" by (simp add: bs)
    then have "take 8 (drop (14 + i * 8) bs) = be64 (missing r ! i)" using nth_chunk_be64 [OF i] by (simp add: tail_def)
    then show "map (\<lambda>i. un64 (take 8 (drop (14 + i * 8) bs))) [0..<n] ! i = take n (missing r) ! i" using i by simp
  qed (simp add: n_def)
  moreover have "un32 (take 4 bs) = delivered_count r" "un64 (take 8 (drop 4 bs)) = high_counter r"
    "un16 (take 2 (drop 12 bs)) = of_nat n" by (simp_all add: bs)
  ultimately have "report_decode bs =
      Some \<lparr>delivered_count = delivered_count r, high_counter = high_counter r, missing = take MAX_NACK (take n (missing r))\<rparr>"
    unfolding report_decode_def Let_def using n len by simp
  moreover have "take MAX_NACK (take n (missing r)) = take MAX_NACK (missing r)" by (simp add: n_def min_def)
  ultimately show ?thesis unfolding bs_def [symmetric] by simp
qed

lemma report_decode_bound:
  assumes "report_decode bs = Some r"
  shows "length (missing r) \<le> MAX_NACK"
proof -
  have "\<exists>ms. missing r = take MAX_NACK ms"
    using assms unfolding report_decode_def Let_def by (metis LossReport.select_convs(3) option.distinct(1) option.inject)
  then show ?thesis by auto
qed

interpretation report: roundtrip_codec "\<lambda>r. length (missing r) \<le> MAX_NACK" report_encode report_decode
  by unfold_locales (simp add: report_roundtrip)

lemma take2_be32: "take 2 (be32 w) = MAGIC_MTU_PROBE \<longleftrightarrow> unat w div 65536 = 0xFF50"
proof -
  let ?x = "unat w" and ?two = "Suc (Suc 0)"
  have x: "?x div 65536 < 256 ^ ?two" using unat_u32_less [of w] by simp
  have y: "(0xFF50 :: nat) < 256 ^ ?two" by simp
  have four: "(4 :: nat) = Suc (Suc ?two)" by simp
  have "be_bytes (Suc (Suc ?two)) ?x = be_bytes ?two (?x div 256 div 256) @ [of_nat (?x div 256), of_nat ?x]"
    by (simp only: be_bytes.simps append_assoc append.simps)
  moreover have "?x div 256 div 256 = ?x div 65536" by (simp add: div_mult2_eq [symmetric])
  ultimately have "take 2 (be32 w) = be_bytes ?two (?x div 65536)"
    unfolding be32_def four by (simp del: be_bytes.simps)
  moreover have "MAGIC_MTU_PROBE = be_bytes ?two 0xFF50" by (simp add: MAGIC_MTU_PROBE_def)
  ultimately show ?thesis using be_bytes_inject [OF x y] by simp
qed

text \<open>The control frames that survive their own encoding.\<close>

fun control_ok :: "ControlFrame \<Rightarrow> bool" where
  "control_ok (Feedback r) \<longleftrightarrow> length (missing r) \<le> MAX_NACK \<and> unat (delivered_count r) div 65536 \<noteq> 0xFF50"
| "control_ok (MtuProbe probe_id target pad) \<longleftrightarrow> unat target = 6 + length pad"
| "control_ok (MtuProbeAck probe_id accepted) \<longleftrightarrow> True"

lemma magic_lengths [simp]: "length MAGIC_MTU_PROBE = 2" "length MAGIC_MTU_PROBE_ACK = 2"
  "MAGIC_MTU_PROBE_ACK \<noteq> MAGIC_MTU_PROBE" "MAGIC_MTU_PROBE \<noteq> MAGIC_MTU_PROBE_ACK"
  by (simp_all add: MAGIC_MTU_PROBE_def MAGIC_MTU_PROBE_ACK_def)

lemma take2_report: "take 2 (report_encode r) = MAGIC_MTU_PROBE \<longleftrightarrow> unat (delivered_count r) div 65536 = 0xFF50"
  using take2_be32 [of "delivered_count r"] by (simp add: report_encode_def Let_def)

lemma control_decode_report:
  assumes "take 2 (report_encode r) \<noteq> MAGIC_MTU_PROBE"
  shows "control_decode (report_encode r) = map_option Feedback (report_decode (report_encode r))"
proof -
  have "length (report_encode r) \<noteq> 6" by (simp add: length_report_encode)
  then show ?thesis unfolding control_decode_def using assms by (simp only: simp_thms if_False)
qed

lemma control_roundtrip: "control_decode (control_encode cf) = Some cf \<longleftrightarrow> control_ok cf"
proof (cases cf)
  case (Feedback r)
  show ?thesis
  proof (cases "take 2 (report_encode r) = MAGIC_MTU_PROBE")
    case True
    moreover have "6 \<le> length (report_encode r)" by (simp add: length_report_encode)
    ultimately have "control_decode (report_encode r) \<noteq> Some (Feedback r)"
      unfolding control_decode_def Let_def by (simp only: simp_thms if_True ControlFrame.distinct option.distinct
        option.inject split: if_split)
    then show ?thesis using True take2_report Feedback by simp
  next
    case False
    have "r\<lparr>missing := take MAX_NACK (missing r)\<rparr> = r \<longleftrightarrow> length (missing r) \<le> MAX_NACK"
      by (cases r) (simp add: take_all_iff)
    then show ?thesis using control_decode_report [OF False] False take2_report [of r] Feedback
      by (simp add: report_roundtrip)
  qed
next
  case (MtuProbe probe_id target pad)
  moreover have "6 + length pad = unat target \<longleftrightarrow> unat target = 6 + length pad" by auto
  ultimately show ?thesis by (simp add: control_decode_def Let_def)
next
  case (MtuProbeAck probe_id accepted)
  then show ?thesis by (simp add: control_decode_def Let_def)
qed

interpretation control: roundtrip_codec control_ok control_encode control_decode
  by unfold_locales (simp add: control_roundtrip)

section \<open>Properties\<close>

text \<open>C33: a control frame comes back from its encoding exactly when it is a probe padded to its target size, any
  acknowledgment, or a loss report with at most 64 missing counters whose delivered count does not
  start with the two bytes of the probe magic. A report whose count has the upper half 0xFF50 is
  taken for a probe and lost.\<close>

theorem control_frame_roundtrip_iff:
  "(control_decode (control_encode cf) = Some cf \<longleftrightarrow> control_ok cf) \<and>
   report_decode (report_encode r) = Some (r\<lparr>missing := take MAX_NACK (missing r)\<rparr>) \<and>
   length (report_encode r) \<le> 526"
  using control_roundtrip [of cf] report_roundtrip [of r] length_report_encode [of r] by (simp add: MAX_NACK_def)

end
