(* ===== verification/Loss_Detect.thy ===== *)
theory Loss_Detect
  imports Feedback
begin

text \<open>
  The receiver's loss detector of \<^verbatim>\<open>crates/yip-transport/src/lossdetect.rs\<close>. The two ordered maps of the
  source are strictly sorted lists: the pending counters with their first-seen time and the resolved
  counters above the watermark. Counters and times are naturals below \<open>2 ^ 64\<close>.
\<close>

section \<open>Detector\<close>

record LossDetector =
  grace_ms :: nat
  window :: nat
  ld_high :: nat
  seen_any :: bool
  pending :: "(nat \<times> nat) list"
  delivered :: nat
  resolved_below :: nat
  resolved_set :: "nat list"

definition detector_new :: "nat \<Rightarrow> nat \<Rightarrow> LossDetector" where
  "detector_new grace w =
     \<lparr>grace_ms = grace, window = w, ld_high = 0, seen_any = False, pending = [], delivered = 0,
      resolved_below = 0, resolved_set = []\<rparr>"

definition is_resolved :: "LossDetector \<Rightarrow> nat \<Rightarrow> bool" where
  "is_resolved d c \<longleftrightarrow> c < resolved_below d \<or> c \<in> set (resolved_set d)"

text \<open>\<open>pop_first\<close> until at most \<open>w\<close> entries are left.\<close>

fun pop_to :: "nat \<Rightarrow> 'a list \<Rightarrow> 'a list" where
  "pop_to w [] = []"
| "pop_to w (x # xs) = (if length (x # xs) > w then pop_to w xs else x # xs)"

text \<open>The watermark moves over the consecutive prefix of the resolved set.\<close>

function advance :: "nat \<Rightarrow> nat list \<Rightarrow> nat \<times> nat list" where
  "advance below xs = (if below \<in> set xs then advance (sat_add below 1) (remove1 below xs) else (below, xs))"
  by auto
termination
  by (relation "measure (\<lambda>(_, xs). length xs)") (auto simp: length_remove1 dest: length_pos_if_in_set)

definition mark_resolved :: "LossDetector \<Rightarrow> nat \<Rightarrow> LossDetector" where
  "mark_resolved d c =
     (if c < resolved_below d then d
      else case advance (resolved_below d) (insort_insert c (resolved_set d)) of
             (below, xs) \<Rightarrow> d\<lparr>resolved_below := below, resolved_set := pop_to (window d) xs\<rparr>)"

text \<open>\<open>entry(c).or_insert(now)\<close> on the pending map.\<close>

definition or_insert :: "nat \<Rightarrow> nat \<Rightarrow> (nat \<times> nat) list \<Rightarrow> (nat \<times> nat) list" where
  "or_insert c now xs = (if c \<in> fst ` set xs then xs else insort_key fst (c, now) xs)"

definition enforce_window :: "LossDetector \<Rightarrow> LossDetector" where
  "enforce_window d = d\<lparr>pending := pop_to (window d) (pending d)\<rparr>"

fun imply_gap :: "LossDetector \<Rightarrow> nat \<Rightarrow> nat list \<Rightarrow> LossDetector" where
  "imply_gap d now [] = d"
| "imply_gap d now (c # cs) =
     imply_gap (if is_resolved d c then d else d\<lparr>pending := or_insert c now (pending d)\<rparr>) now cs"

definition on_seen :: "LossDetector \<Rightarrow> nat \<Rightarrow> nat \<Rightarrow> LossDetector" where
  "on_seen d counter now =
     (if is_resolved d counter then d
      else if \<not> seen_any d
      then enforce_window (d\<lparr>ld_high := counter, seen_any := True, pending := or_insert counter now (pending d)\<rparr>)
      else let d' = (if counter > ld_high d
                     then (imply_gap d now [ld_high d + 1..<counter])\<lparr>ld_high := counter\<rparr>
                     else d)
           in enforce_window (d'\<lparr>pending := or_insert counter now (pending d')\<rparr>))"

definition forget :: "nat \<Rightarrow> (nat \<times> nat) list \<Rightarrow> (nat \<times> nat) list" where
  "forget c xs = filter (\<lambda>(k, _). k \<noteq> c) xs"

definition on_delivered :: "LossDetector \<Rightarrow> nat \<Rightarrow> LossDetector" where
  "on_delivered d counter =
     (let d' = mark_resolved (d\<lparr>pending := forget counter (pending d)\<rparr>) counter
      in d'\<lparr>delivered := min (delivered d' + 1) (2 ^ 32 - 1)\<rparr>)"

definition expired :: "LossDetector \<Rightarrow> nat \<Rightarrow> nat list" where
  "expired d now = map fst (filter (\<lambda>(c, first_ms). now - first_ms \<ge> grace_ms d) (pending d))"

fun promote :: "LossDetector \<Rightarrow> nat list \<Rightarrow> LossDetector" where
  "promote d [] = d"
| "promote d (c # cs) = promote (mark_resolved (d\<lparr>pending := forget c (pending d)\<rparr>) c) cs"

definition report :: "LossDetector \<Rightarrow> nat \<Rightarrow> LossReport \<times> LossDetector" where
  "report d now =
     (let promoted = expired d now; d' = promote d promoted
      in (\<lparr>delivered_count = of_nat (delivered d'), high_counter = of_nat (if seen_any d' then ld_high d' else 0),
           missing = map of_nat (take MAX_NACK promoted)\<rparr>, d'\<lparr>delivered := 0\<rparr>))"

section \<open>Invariant\<close>

definition keys :: "(nat \<times> nat) list \<Rightarrow> nat set" where
  "keys xs = fst ` set xs"

text \<open>The invariant that holds whatever arrives: ordered maps within the window, and no pending counter is resolved.\<close>

definition ld_inv :: "LossDetector \<Rightarrow> bool" where
  "ld_inv d \<longleftrightarrow>
     sorted_wrt (<) (map fst (pending d)) \<and> length (pending d) \<le> window d \<and>
     sorted_wrt (<) (resolved_set d) \<and> length (resolved_set d) \<le> window d \<and>
     (\<forall>c \<in> keys (pending d). \<not> is_resolved d c \<and> c \<le> ld_high d) \<and>
     (\<forall>c \<in> set (resolved_set d). resolved_below d < c \<and> c < u64_max) \<and> (pending d \<noteq> [] \<longrightarrow> seen_any d)"

lemma pop_to_suffix: "\<exists>ys. xs = ys @ pop_to w xs \<and> length (pop_to w xs) \<le> w \<and> (length xs \<le> w \<longrightarrow> ys = [])"
proof (induction xs)
  case (Cons x xs)
  show ?case
  proof (cases "length (x # xs) > w")
    case True
    then obtain ys where "xs = ys @ pop_to w xs" "length (pop_to w xs) \<le> w" using Cons by blast
    then show ?thesis using True by (intro exI [of _ "x # ys"]) auto
  qed simp
qed simp

lemma pop_to_facts:
  "set (pop_to w xs) \<subseteq> set xs" "length (pop_to w xs) \<le> w" "length xs \<le> w \<Longrightarrow> pop_to w xs = xs"
  "sorted_wrt P xs \<Longrightarrow> sorted_wrt P (pop_to w xs)"
proof -
  obtain ys where ys: "xs = ys @ pop_to w xs" "length (pop_to w xs) \<le> w" "length xs \<le> w \<longrightarrow> ys = []"
    using pop_to_suffix by blast
  show "set (pop_to w xs) \<subseteq> set xs" by (subst (2) ys(1)) auto
  show "length (pop_to w xs) \<le> w" by (rule ys(2))
  show "length xs \<le> w \<Longrightarrow> pop_to w xs = xs" using ys(1,3) by auto
  show "sorted_wrt P xs \<Longrightarrow> sorted_wrt P (pop_to w xs)" by (subst (asm) ys(1)) (simp add: sorted_wrt_append)
qed

declare advance.simps [simp del]

lemma advance_facts:
  assumes "sorted_wrt (<) xs" "\<forall>x \<in> set xs. below \<le> x \<and> x < u64_max" "advance below xs = (below', ys)"
  shows "sorted_wrt (<) ys \<and> length ys \<le> length xs \<and> below \<le> below' \<and> (\<forall>y \<in> set ys. below' < y \<and> y < u64_max) \<and>
    (\<forall>c. c < below' \<or> c \<in> set ys \<longleftrightarrow> c < below \<or> c \<in> set xs)"
  using assms
proof (induction xs arbitrary: below)
  case Nil
  then show ?case by (simp add: advance.simps)
next
  case (Cons x xs)
  show ?case
  proof (cases "x = below")
    case True
    have b: "sat_add below 1 = below + 1" using Cons.prems(2) True by (simp add: sat_add_def)
    have adv: "advance (below + 1) xs = (below', ys)"
      using Cons.prems(3) True b by (subst (asm) advance.simps) simp
    have xs: "\<forall>y \<in> set xs. below + 1 \<le> y \<and> y < u64_max" using Cons.prems(1,2) True by auto
    have srt: "sorted_wrt (<) xs" using Cons.prems(1) by simp
    have "c < below \<or> c \<in> set (x # xs) \<longleftrightarrow> c < below + 1 \<or> c \<in> set xs" for c using True by auto
    then show ?thesis using Cons.IH [OF srt xs adv] by auto
  next
    case False
    then have "below \<notin> set (x # xs)" using Cons.prems(1,2) by auto
    then have "below' = below" "ys = x # xs" using Cons.prems(3) by (subst (asm) advance.simps; simp)+
    then show ?thesis using Cons.prems(1,2) False by (auto simp: le_less)
  qed
qed

lemma insort_insert_facts:
  assumes "sorted_wrt (<) xs"
  shows "sorted_wrt (<) (insort_insert (c :: nat) xs)" "set (insort_insert c xs) = insert c (set xs)"
    "length (insort_insert c xs) \<le> length xs + 1"
  using assms by (auto simp: strict_sorted_iff insort_insert_key_def sorted_insort distinct_insort set_insort_key)

lemma mark_resolved_facts:
  assumes "sorted_wrt (<) (resolved_set d)" "\<forall>x \<in> set (resolved_set d). resolved_below d < x \<and> x < u64_max" "c < u64_max"
    and d': "d' = mark_resolved d c"
  shows "sorted_wrt (<) (resolved_set d')" "\<forall>x \<in> set (resolved_set d'). resolved_below d' < x \<and> x < u64_max"
    "length (resolved_set d) \<le> window d \<Longrightarrow> length (resolved_set d') \<le> window d" "resolved_below d \<le> resolved_below d'"
    "is_resolved d' x \<Longrightarrow> is_resolved d x \<or> x = c"
    "length (resolved_set d) < window d \<Longrightarrow> is_resolved d' x \<longleftrightarrow> is_resolved d x \<or> x = c"
    "pending d' = pending d" "window d' = window d" "ld_high d' = ld_high d" "seen_any d' = seen_any d"
    "grace_ms d' = grace_ms d" "delivered d' = delivered d"
proof -
  obtain below xs where adv: "advance (resolved_below d) (insort_insert c (resolved_set d)) = (below, xs)"
    by (cases "advance (resolved_below d) (insort_insert c (resolved_set d))")
  let ?s = "insort_insert c (resolved_set d)"
  note ins = insort_insert_facts [OF assms(1), of c]
  have f: "sorted_wrt (<) xs \<and> length xs \<le> length ?s \<and> resolved_below d \<le> below \<and> (\<forall>y \<in> set xs. below < y \<and> y < u64_max) \<and>
      (\<forall>x. x < below \<or> x \<in> set xs \<longleftrightarrow> x < resolved_below d \<or> x \<in> set ?s)" if "\<not> c < resolved_below d"
    by (rule advance_facts [OF ins(1) _ adv]) (use assms(2,3) ins(2) that in auto)
  note pop = pop_to_facts [where w = "window d" and xs = xs]
  have eq: "d' = (if c < resolved_below d then d else d\<lparr>resolved_below := below, resolved_set := pop_to (window d) xs\<rparr>)"
    by (simp add: d' mark_resolved_def adv)
  show "sorted_wrt (<) (resolved_set d')" using f pop(4) assms(1) by (simp add: eq)
  show "\<forall>x \<in> set (resolved_set d'). resolved_below d' < x \<and> x < u64_max" using f pop(1) assms(2) by (auto simp: eq)
  show "length (resolved_set d) \<le> window d \<Longrightarrow> length (resolved_set d') \<le> window d" using pop(2) by (simp add: eq)
  show "resolved_below d \<le> resolved_below d'" using f by (simp add: eq)
  show "is_resolved d' x \<Longrightarrow> is_resolved d x \<or> x = c"
    using f pop(1) ins(2) by (auto simp: eq is_resolved_def split: if_splits)
  show "is_resolved d' x \<longleftrightarrow> is_resolved d x \<or> x = c" if "length (resolved_set d) < window d"
  proof (cases "c < resolved_below d")
    case False
    have "pop_to (window d) xs = xs" using f [OF False] ins(3) that by (intro pop(3)) simp
    then show ?thesis using f [OF False] ins(2) False by (auto simp: eq is_resolved_def)
  qed (auto simp: eq is_resolved_def)
qed (simp_all add: d' mark_resolved_def split: prod.splits)

lemma keys_simps [simp]: "keys [] = {}" "keys (x # xs) = insert (fst x) (keys xs)" "finite (keys xs)"
  by (simp_all add: keys_def)

lemma map_fst_insort: "map fst (insort_key fst (c, now) xs) = insort c (map fst xs)"
  by (induction xs) auto

lemma or_insert_facts:
  assumes "sorted_wrt (<) (map fst xs)"
  shows "sorted_wrt (<) (map fst (or_insert c now xs))" "keys (or_insert c now xs) = insert c (keys xs)"
proof -
  show "sorted_wrt (<) (map fst (or_insert c now xs))"
    using assms by (auto simp: or_insert_def strict_sorted_iff map_fst_insort sorted_insort distinct_insort)
  show "keys (or_insert c now xs) = insert c (keys xs)"
    by (auto simp: or_insert_def keys_def set_insort_key)
qed

lemma forget_facts:
  "sorted_wrt (<) (map fst xs) \<Longrightarrow> sorted_wrt (<) (map fst (forget c xs))" "keys (forget c xs) = keys xs - {c}"
  "length (forget c xs) \<le> length xs"
proof -
  show "sorted_wrt (<) (map fst xs) \<Longrightarrow> sorted_wrt (<) (map fst (forget c xs))"
    by (induction xs) (auto simp: forget_def)
  show "keys (forget c xs) = keys xs - {c}" by (auto simp: forget_def keys_def)
  show "length (forget c xs) \<le> length xs" by (simp add: forget_def)
qed

lemma pop_to_keys: "sorted_wrt (<) (map fst xs) \<Longrightarrow> sorted_wrt (<) (map fst (pop_to w xs))"
  using pop_to_facts(4) [of "\<lambda>a b. fst a < fst b" xs w] by (simp add: sorted_wrt_map)

text \<open>The invariant before the window is enforced, with \<open>h\<close> for the highest counter.\<close>

definition ld_core :: "nat \<Rightarrow> LossDetector \<Rightarrow> bool" where
  "ld_core h d \<longleftrightarrow>
     sorted_wrt (<) (map fst (pending d)) \<and> sorted_wrt (<) (resolved_set d) \<and> length (resolved_set d) \<le> window d \<and>
     (\<forall>c \<in> keys (pending d). \<not> is_resolved d c \<and> c \<le> h) \<and>
     (\<forall>c \<in> set (resolved_set d). resolved_below d < c \<and> c < u64_max)"

lemma ld_inv_core:
  "ld_inv d \<longleftrightarrow> ld_core (ld_high d) d \<and> length (pending d) \<le> window d \<and> (pending d \<noteq> [] \<longrightarrow> seen_any d)"
  by (auto simp: ld_inv_def ld_core_def)

lemma ld_core_or_insert:
  assumes "ld_core h d" "\<not> is_resolved d c" "c \<le> h"
  shows "ld_core h (d\<lparr>pending := or_insert c now (pending d)\<rparr>)"
  using assms or_insert_facts [of "pending d" c now] by (auto simp: ld_core_def is_resolved_def)

lemma imply_gap_sel [simp]:
  "window (imply_gap d now cs) = window d" "ld_high (imply_gap d now cs) = ld_high d"
  "seen_any (imply_gap d now cs) = seen_any d" "resolved_below (imply_gap d now cs) = resolved_below d"
  "resolved_set (imply_gap d now cs) = resolved_set d" "grace_ms (imply_gap d now cs) = grace_ms d"
  "delivered (imply_gap d now cs) = delivered d"
  by (induction cs arbitrary: d) simp_all

lemma is_resolved_pending [simp]: "is_resolved (d\<lparr>pending := q\<rparr>) x = is_resolved d x"
  by (simp add: is_resolved_def)

lemma imply_gap_facts:
  assumes "ld_core h d" "\<forall>c \<in> set cs. c \<le> h"
  shows "ld_core h (imply_gap d now cs) \<and>
    keys (pending (imply_gap d now cs)) = keys (pending d) \<union> {c \<in> set cs. \<not> is_resolved d c}"
  using assms
proof (induction cs arbitrary: d)
  case (Cons c cs)
  show ?case
  proof (cases "is_resolved d c")
    case True
    then show ?thesis using Cons by auto
  next
    case False
    let ?d = "d\<lparr>pending := or_insert c now (pending d)\<rparr>"
    have "ld_core h ?d" using Cons.prems False by (intro ld_core_or_insert) simp_all
    moreover have "keys (pending ?d) = insert c (keys (pending d))"
      using or_insert_facts(2) Cons.prems(1) by (simp add: ld_core_def)
    ultimately show ?thesis using Cons.IH [of ?d] Cons.prems(2) False by auto
  qed
qed simp

lemma enforce_window_inv:
  assumes "ld_core (ld_high d) d" "seen_any d"
  shows "ld_inv (enforce_window d)" "length (pending d) \<le> window d \<Longrightarrow> enforce_window d = d"
proof -
  note pop = pop_to_facts [where w = "window d" and xs = "pending d"]
  have sub: "keys (pop_to (window d) (pending d)) \<subseteq> keys (pending d)" using pop(1) by (auto simp: keys_def)
  show "ld_inv (enforce_window d)"
    using assms sub pop(2) pop_to_keys [of "pending d" "window d"]
    by (auto simp: ld_inv_core ld_core_def enforce_window_def)
  show "length (pending d) \<le> window d \<Longrightarrow> enforce_window d = d" using pop(3) by (simp add: enforce_window_def)
qed

text \<open>The state \<open>on_seen\<close> hands to \<open>enforce_window\<close>.\<close>

definition seen_core :: "LossDetector \<Rightarrow> nat \<Rightarrow> nat \<Rightarrow> LossDetector" where
  "seen_core d counter now =
     (if \<not> seen_any d then d\<lparr>ld_high := counter, seen_any := True, pending := or_insert counter now (pending d)\<rparr>
      else let d' = (if counter > ld_high d then (imply_gap d now [ld_high d + 1..<counter])\<lparr>ld_high := counter\<rparr> else d)
           in d'\<lparr>pending := or_insert counter now (pending d')\<rparr>)"

lemma on_seen_core: "on_seen d c now = (if is_resolved d c then d else enforce_window (seen_core d c now))"
  by (simp add: on_seen_def seen_core_def)

lemma seen_core_facts:
  assumes inv: "ld_inv d" and c: "\<not> is_resolved d c" and d': "d' = seen_core d c now"
  shows "ld_core (ld_high d') d'" "seen_any d'"
    "keys (pending d) \<union> {c} \<subseteq> keys (pending d')" "keys (pending d') \<subseteq> keys (pending d) \<union> {..c}"
    "resolved_below d' = resolved_below d" "resolved_set d' = resolved_set d" "window d' = window d"
    "seen_any d \<Longrightarrow> {x. ld_high d < x \<and> x < c \<and> \<not> is_resolved d x} \<subseteq> keys (pending d')"
proof -
  have core: "ld_core (max (ld_high d) c) d" using inv by (auto simp: ld_inv_core ld_core_def)
  let ?g = "imply_gap d now [ld_high d + 1..<c]"
  have g: "ld_core (max (ld_high d) c) ?g"
    "keys (pending ?g) = keys (pending d) \<union> {x \<in> set [ld_high d + 1..<c]. \<not> is_resolved d x}"
    using imply_gap_facts [OF core, of "[ld_high d + 1..<c]" now] by auto
  define q where "q = (if seen_any d \<and> ld_high d < c then pending ?g else pending d)"
  have res: "is_resolved ?g x = is_resolved d x" for x by (simp add: is_resolved_def)
  have qk: "keys (pending d) \<subseteq> keys q" "keys q \<subseteq> keys (pending d) \<union> {..c}" using g(2) by (auto simp: q_def)
  have qs: "sorted_wrt (<) (map fst q)" using g(1) core by (simp add: q_def ld_core_def)
  have qr: "\<forall>x \<in> keys q. \<not> is_resolved d x \<and> x \<le> max (ld_high d) c"
  proof -
    have "\<forall>x \<in> keys (pending ?g). \<not> is_resolved d x \<and> x \<le> max (ld_high d) c" using g(1) unfolding ld_core_def res by blast
    moreover have "\<forall>x \<in> keys (pending d). \<not> is_resolved d x \<and> x \<le> max (ld_high d) c" using core unfolding ld_core_def by blast
    ultimately show ?thesis unfolding q_def by (metis (full_types))
  qed
  have sel: "pending d' = or_insert c now q" "ld_high d' = (if seen_any d then max (ld_high d) c else c)" "seen_any d'"
    "resolved_below d' = resolved_below d" "resolved_set d' = resolved_set d" "window d' = window d"
    by (simp_all add: d' seen_core_def Let_def q_def)
  have empty: "\<not> seen_any d \<Longrightarrow> q = []" using inv by (auto simp: q_def ld_inv_def)
  note ins = or_insert_facts [OF qs, of c now]
  have res': "is_resolved d' x = is_resolved d x" for x by (simp add: is_resolved_def sel)
  have "x \<le> ld_high d'" if "x \<in> insert c (keys q)" for x using that qr empty sel(2) by auto
  then show "ld_core (ld_high d') d'"
    using core ins qr c sel res' by (auto simp: ld_core_def)
  show "seen_any d'" "resolved_below d' = resolved_below d" "resolved_set d' = resolved_set d" "window d' = window d"
    by (rule sel)+
  show "keys (pending d) \<union> {c} \<subseteq> keys (pending d')" "keys (pending d') \<subseteq> keys (pending d) \<union> {..c}"
    using ins(2) qk sel(1) by auto
  show "seen_any d \<Longrightarrow> {x. ld_high d < x \<and> x < c \<and> \<not> is_resolved d x} \<subseteq> keys (pending d')"
    using ins(2) g(2) sel(1) by (auto simp: q_def)
qed

lemma on_seen_inv: "ld_inv d \<Longrightarrow> ld_inv (on_seen d c now)"
proof -
  assume inv: "ld_inv d"
  have "ld_inv (enforce_window (seen_core d c now))" if "\<not> is_resolved d c"
    by (rule enforce_window_inv(1) [OF seen_core_facts(1,2) [OF inv that refl]])
  then show ?thesis using inv by (simp add: on_seen_core)
qed

lemma forget_inv:
  assumes "ld_inv d"
  shows "ld_inv (d\<lparr>pending := forget c (pending d)\<rparr>)"
proof -
  let ?q = "forget c (pending d)"
  have q: "sorted_wrt (<) (map fst ?q)" "length ?q \<le> window d" "pending d = [] \<Longrightarrow> ?q = []"
  proof -
    show "sorted_wrt (<) (map fst ?q)" using assms forget_facts(1) by (simp add: ld_inv_def)
    show "length ?q \<le> window d" using assms le_trans [OF forget_facts(3)] by (simp add: ld_inv_def)
    show "pending d = [] \<Longrightarrow> ?q = []" by (simp add: forget_def)
  qed
  then show ?thesis using assms forget_facts(2) [of c "pending d"] by (auto simp: ld_inv_def)
qed

lemma mark_resolved_inv:
  assumes "ld_inv d" "c \<notin> keys (pending d)" "c < u64_max"
  shows "ld_inv (mark_resolved d c)"
proof -
  have pre: "sorted_wrt (<) (resolved_set d)" "\<forall>x \<in> set (resolved_set d). resolved_below d < x \<and> x < u64_max"
    "length (resolved_set d) \<le> window d" using assms(1) by (auto simp: ld_inv_def)
  note m = mark_resolved_facts [OF pre(1,2) assms(3) refl]
  have "\<forall>x \<in> keys (pending d). \<not> is_resolved (mark_resolved d c) x" using m(5) assms(1,2) by (auto simp: ld_inv_def)
  then show ?thesis using m(1,2) m(3) [OF pre(3)] m(7-10) assms(1) by (simp add: ld_inv_def)
qed

lemma resolve_inv:
  assumes "ld_inv d" "c < u64_max"
  shows "ld_inv (mark_resolved (d\<lparr>pending := forget c (pending d)\<rparr>) c)"
  using mark_resolved_inv [OF forget_inv [OF assms(1)] _ assms(2)] forget_facts(2) by simp

lemma promote_inv: "ld_inv d \<Longrightarrow> \<forall>c \<in> set cs. c < u64_max \<Longrightarrow> ld_inv (promote d cs)"
  by (induction cs arbitrary: d) (simp_all add: resolve_inv)

section \<open>Runs within the window\<close>

datatype ld_event = Seen nat nat | Delivered nat | Report nat

text \<open>Runs in which every counter lies less than one window above the watermark, with the events so far and the
  counters promoted to missing so far.\<close>

inductive ld_run :: "nat \<Rightarrow> nat \<Rightarrow> ld_event list \<Rightarrow> LossDetector \<Rightarrow> nat list \<Rightarrow> bool" for grace w where
  start: "ld_run grace w [] (detector_new grace w) []"
| seen: "ld_run grace w evs d rep \<Longrightarrow> c < resolved_below d + w \<Longrightarrow> c < u64_max \<Longrightarrow>
    ld_run grace w (evs @ [Seen c now]) (on_seen d c now) rep"
| delivered: "ld_run grace w evs d rep \<Longrightarrow> c < resolved_below d + w \<Longrightarrow> c < u64_max \<Longrightarrow>
    ld_run grace w (evs @ [Delivered c]) (on_delivered d c) rep"
| reported: "ld_run grace w evs d rep \<Longrightarrow> ld_run grace w (evs @ [Report now]) (snd (report d now)) (rep @ expired d now)"

definition tight :: "nat \<Rightarrow> LossDetector \<Rightarrow> bool" where
  "tight w d \<longleftrightarrow> window d = w \<and> ld_inv d \<and>
     (\<forall>c \<in> keys (pending d) \<union> set (resolved_set d). c < resolved_below d + w \<and> c < u64_max)"

lemma strict_length_card: "sorted_wrt (<) (xs :: nat list) \<Longrightarrow> length xs = card (set xs)"
  by (simp add: strict_sorted_iff distinct_card)

lemma tight_room:
  assumes "tight w d" "0 < w"
  shows "length (resolved_set d) < w"
proof -
  have "set (resolved_set d) \<subseteq> {resolved_below d<..<resolved_below d + w}"
    using assms(1) by (auto simp: tight_def ld_inv_def)
  then have "card (set (resolved_set d)) \<le> card {resolved_below d<..<resolved_below d + w}" by (rule card_mono [rotated]) simp
  moreover have "length (resolved_set d) = card (set (resolved_set d))"
    using assms(1) by (intro strict_length_card) (simp add: tight_def ld_inv_def)
  ultimately show ?thesis using assms(2) by simp
qed

lemma pending_room:
  assumes "sorted_wrt (<) (map fst q)" "keys q \<subseteq> {b..<b + w}"
  shows "length q \<le> w"
proof -
  have "length q = card (keys q)" using strict_length_card [OF assms(1)] by (simp add: keys_def)
  also have "\<dots> \<le> card {b..<b + w}" by (rule card_mono [OF _ assms(2)]) simp
  finally show ?thesis by simp
qed

lemma tight_seen:
  assumes t: "tight w d" and c: "c < resolved_below d + w" "c < u64_max"
  shows "tight w (on_seen d c now)" "is_resolved (on_seen d c now) x \<longleftrightarrow> is_resolved d x"
    "\<not> is_resolved d c \<Longrightarrow> keys (pending d) \<union> {c} \<subseteq> keys (pending (on_seen d c now))"
    "keys (pending d) \<subseteq> keys (pending (on_seen d c now))" "keys (pending (on_seen d c now)) \<subseteq> keys (pending d) \<union> {..c}"
    "\<not> is_resolved d c \<Longrightarrow> seen_any d \<Longrightarrow>
      {x. ld_high d < x \<and> x < c \<and> \<not> is_resolved d x} \<subseteq> keys (pending (on_seen d c now))"
proof -
  have inv: "ld_inv d" "window d = w" using t by (simp_all add: tight_def)
  have all: "tight w (on_seen d c now) \<and> (is_resolved (on_seen d c now) x \<longleftrightarrow> is_resolved d x) \<and>
      keys (pending d) \<union> {c} \<subseteq> keys (pending (on_seen d c now)) \<and>
      keys (pending (on_seen d c now)) \<subseteq> keys (pending d) \<union> {..c} \<and>
      (seen_any d \<longrightarrow> {x. ld_high d < x \<and> x < c \<and> \<not> is_resolved d x} \<subseteq> keys (pending (on_seen d c now)))"
    if c': "\<not> is_resolved d c"
  proof -
    let ?s = "seen_core d c now"
    note s = seen_core_facts [OF inv(1) c' refl, of now]
    have res: "is_resolved ?s x = is_resolved d x" for x by (simp add: is_resolved_def s(5,6))
    have below: "x < resolved_below d + w \<and> x < u64_max" if "x \<in> keys (pending ?s)" for x
    proof -
      have "x \<in> keys (pending d) \<or> x \<le> c" using that s(4) by auto
      then show ?thesis using t c by (auto simp: tight_def)
    qed
    have "keys (pending ?s) \<subseteq> {resolved_below d..<resolved_below d + w}"
    proof
      fix x assume x: "x \<in> keys (pending ?s)"
      then have "\<not> is_resolved ?s x" using s(1) by (simp add: ld_core_def)
      then show "x \<in> {resolved_below d..<resolved_below d + w}" using below [OF x] s(5) by (simp add: is_resolved_def)
    qed
    then have "length (pending ?s) \<le> w" using s(1) by (intro pending_room) (simp_all add: ld_core_def)
    then have e: "on_seen d c now = ?s" using enforce_window_inv(2) [OF s(1,2)] s(7) inv(2) c' by (simp add: on_seen_core)
    have "ld_inv ?s" using on_seen_inv [OF inv(1), of c now] e by simp
    then show ?thesis using e below s(3-8) res t by (auto simp: tight_def)
  qed
  have same: "on_seen d c now = d" if "is_resolved d c" using that by (simp add: on_seen_core)
  show "tight w (on_seen d c now)" "is_resolved (on_seen d c now) x \<longleftrightarrow> is_resolved d x"
    "keys (pending d) \<subseteq> keys (pending (on_seen d c now))" "keys (pending (on_seen d c now)) \<subseteq> keys (pending d) \<union> {..c}"
    using all same t by (cases "is_resolved d c"; simp)+
  show "\<not> is_resolved d c \<Longrightarrow> keys (pending d) \<union> {c} \<subseteq> keys (pending (on_seen d c now))" using all by blast
  show "\<not> is_resolved d c \<Longrightarrow> seen_any d \<Longrightarrow>
      {x. ld_high d < x \<and> x < c \<and> \<not> is_resolved d x} \<subseteq> keys (pending (on_seen d c now))" using all by blast
qed

lemma tight_resolve:
  assumes t: "tight w d" and c: "c < resolved_below d + w" "c < u64_max" and d': "d' = mark_resolved (d\<lparr>pending := forget c (pending d)\<rparr>) c"
  shows "tight w d'" "is_resolved d' x \<longleftrightarrow> is_resolved d x \<or> x = c" "keys (pending d') = keys (pending d) - {c}"
    "resolved_below d \<le> resolved_below d'" "grace_ms d' = grace_ms d"
proof -
  let ?f = "d\<lparr>pending := forget c (pending d)\<rparr>"
  have inv: "ld_inv ?f" using t forget_inv by (simp add: tight_def)
  have pre: "sorted_wrt (<) (resolved_set ?f)" "\<forall>x \<in> set (resolved_set ?f). resolved_below ?f < x \<and> x < u64_max"
    using inv by (auto simp: ld_inv_def)
  note m = mark_resolved_facts [OF pre c(2) d']
  have room: "length (resolved_set ?f) < window ?f \<or> c < resolved_below d"
    using tight_room [OF t] t c(1) by (cases w) (auto simp: tight_def)
  show res: "is_resolved d' x \<longleftrightarrow> is_resolved d x \<or> x = c" for x
  proof (cases "c < resolved_below d")
    case True
    then have "d' = ?f" by (simp add: d' mark_resolved_def)
    moreover have "is_resolved d c" using True by (simp add: is_resolved_def)
    ultimately show ?thesis by auto
  next
    case False
    then show ?thesis using m(6) [of x] room by simp
  qed
  show k: "keys (pending d') = keys (pending d) - {c}" using m(7) forget_facts(2) by simp
  show b: "resolved_below d \<le> resolved_below d'" using m(4) by simp
  show "grace_ms d' = grace_ms d" using m(11) by simp
  have "ld_inv d'" using resolve_inv t c(2) d' by (simp add: tight_def)
  moreover have "x < resolved_below d' + w \<and> x < u64_max" if "x \<in> keys (pending d') \<union> set (resolved_set d')" for x
  proof -
    have "x \<in> keys (pending d) \<or> is_resolved d x \<or> x = c" using that k res [of x] by (auto simp: is_resolved_def)
    then have "x < resolved_below d + w" using t c(1) by (auto simp: tight_def is_resolved_def)
    moreover have "x < u64_max" using that k m(2) t by (auto simp: tight_def)
    ultimately show ?thesis using b by simp
  qed
  ultimately show "tight w d'" using m(8) t by (simp add: tight_def)
qed

lemma tight_promote:
  assumes "tight w d" "set cs \<subseteq> keys (pending d)" "distinct cs"
  shows "tight w (promote d cs) \<and> (\<forall>x. is_resolved (promote d cs) x \<longleftrightarrow> is_resolved d x \<or> x \<in> set cs) \<and>
    keys (pending (promote d cs)) = keys (pending d) - set cs"
  using assms
proof (induction cs arbitrary: d)
  case (Cons c cs)
  let ?d = "mark_resolved (d\<lparr>pending := forget c (pending d)\<rparr>) c"
  have c: "c < resolved_below d + w" "c < u64_max" using Cons.prems by (auto simp: tight_def)
  note r = tight_resolve [OF Cons.prems(1) c refl]
  have "set cs \<subseteq> keys (pending ?d)" "distinct cs" using Cons.prems(2,3) r(3) by auto
  then show ?case using Cons.IH [OF r(1)] r(2,3) by auto
qed simp

lemma expired_facts:
  assumes "ld_inv d"
  shows "distinct (expired d now)" "set (expired d now) \<subseteq> keys (pending d)"
proof -
  have "distinct (map fst (pending d))" using assms by (simp add: ld_inv_def strict_sorted_iff)
  then show "distinct (expired d now)" by (simp add: expired_def distinct_map_filter)
  show "set (expired d now) \<subseteq> keys (pending d)" by (auto simp: expired_def keys_def)
qed

lemma expired_pending:
  "ld_inv d \<Longrightarrow> c \<in> set (expired d now) \<Longrightarrow> c \<in> keys (pending d) \<and> \<not> is_resolved d c \<and> c \<le> ld_high d"
  using expired_facts(2) [of d now] unfolding ld_inv_def by blast

lemma tight_delivered [simp]: "tight w (d\<lparr>delivered := n\<rparr>) = tight w d"
  by (simp add: tight_def ld_inv_def is_resolved_def)

lemma is_resolved_delivered [simp]: "is_resolved (d\<lparr>delivered := n\<rparr>) x = is_resolved d x"
  by (simp add: is_resolved_def)

definition accounted :: "nat \<Rightarrow> ld_event list \<Rightarrow> LossDetector \<Rightarrow> nat list \<Rightarrow> bool" where
  "accounted w evs d rep \<longleftrightarrow>
     tight w d \<and> distinct rep \<and>
     (\<forall>c. is_resolved d c \<longleftrightarrow> Delivered c \<in> set evs \<or> c \<in> set rep) \<and>
     (\<forall>c n. Seen c n \<in> set evs \<longrightarrow> c \<in> keys (pending d) \<or> is_resolved d c) \<and>
     (\<forall>c \<in> keys (pending d). \<exists>c' n. Seen c' n \<in> set evs \<and> c \<le> c')"

lemma accounted_seen:
  assumes a: "accounted w evs d rep" and c: "c < resolved_below d + w" "c < u64_max"
  shows "accounted w (evs @ [Seen c now]) (on_seen d c now) rep"
proof -
  have t: "tight w d" using a by (simp add: accounted_def)
  note s = tight_seen [OF t c, of now]
  have "keys (pending (on_seen d c now)) \<subseteq> keys (pending d) \<union> {..c}" by (rule s(5))
  moreover have "c \<in> keys (pending (on_seen d c now)) \<or> is_resolved d c" using s(3) by blast
  moreover have "\<exists>c' n. Seen c' n \<in> set (evs @ [Seen c now]) \<and> x \<le> c'" if "x \<in> keys (pending d) \<union> {..c}" for x
  proof (cases "x \<le> c")
    case True
    then show ?thesis by (intro exI [of _ c] exI [of _ now]) simp
  next
    case False
    then have "x \<in> keys (pending d)" using that by simp
    then obtain c' n where "Seen c' n \<in> set evs" "x \<le> c'" using a unfolding accounted_def by blast
    then show ?thesis by (intro exI [of _ c'] exI [of _ n]) simp
  qed
  ultimately show ?thesis using a s(1,2,4) unfolding accounted_def by (simp add: subset_iff) blast
qed

lemma accounted_delivered:
  assumes a: "accounted w evs d rep" and c: "c < resolved_below d + w" "c < u64_max"
  shows "accounted w (evs @ [Delivered c]) (on_delivered d c) rep"
proof -
  have t: "tight w d" using a by (simp add: accounted_def)
  note r = tight_resolve [OF t c refl]
  have "x \<in> keys (pending d) - {c} \<or> is_resolved d x \<or> x = c" if "Seen x n \<in> set evs" for x n
    using a that unfolding accounted_def by blast
  then show ?thesis using a r(1,2,3) unfolding accounted_def on_delivered_def Let_def by simp blast
qed

lemma accounted_report:
  assumes a: "accounted w evs d rep"
  shows "accounted w (evs @ [Report now]) (snd (report d now)) (rep @ expired d now)"
proof -
  have t: "tight w d" and inv: "ld_inv d" using a by (auto simp: accounted_def tight_def)
  note e = expired_facts [OF inv, of now]
  note p = tight_promote [OF t e(2,1)]
  have "set rep \<inter> set (expired d now) = {}"
  proof -
    have "\<not> is_resolved d c" if "c \<in> set (expired d now)" for c using inv e(2) that by (auto simp: ld_inv_def)
    then show ?thesis using a by (auto simp: accounted_def)
  qed
  moreover have "x \<in> keys (pending d) - set (expired d now) \<or> is_resolved d x \<or> x \<in> set (expired d now)"
    if "Seen x n \<in> set evs" for x n using a that unfolding accounted_def by blast
  ultimately show ?thesis using a p e(1) unfolding accounted_def report_def Let_def by simp
qed

lemma strict_sorted_keys_unique:
  "sorted_wrt (<) (map fst (xs :: (nat \<times> nat) list)) \<Longrightarrow> (c, s) \<in> set xs \<Longrightarrow> (c, t) \<in> set xs \<Longrightarrow> s = t"
  by (metis eq_key_imp_eq_value strict_sorted_iff)

lemma expired_iff:
  assumes "sorted_wrt (<) (map fst (pending d))" "(c, t) \<in> set (pending d)"
  shows "c \<in> set (expired d now) \<longleftrightarrow> grace_ms d \<le> now - t"
proof -
  have "c \<in> set (expired d now) \<longleftrightarrow> (\<exists>s. (c, s) \<in> set (pending d) \<and> grace_ms d \<le> now - s)"
    by (force simp: expired_def)
  then show ?thesis using strict_sorted_keys_unique [OF assms(1)] assms(2) by blast
qed

lemma ld_run_accounted: "ld_run grace w evs d rep \<Longrightarrow> accounted w evs d rep"
proof (induction rule: ld_run.induct)
  case start
  show ?case by (simp add: accounted_def tight_def ld_inv_def detector_new_def is_resolved_def)
qed (simp_all add: accounted_seen accounted_delivered accounted_report)

section \<open>Properties\<close>

inductive ld_reach :: "LossDetector \<Rightarrow> bool" where
  new: "ld_reach (detector_new grace w)"
| seen: "ld_reach d \<Longrightarrow> c < u64_max \<Longrightarrow> ld_reach (on_seen d c now)"
| delivered: "ld_reach d \<Longrightarrow> c < u64_max \<Longrightarrow> ld_reach (on_delivered d c)"
| report: "ld_reach d \<Longrightarrow> ld_reach (snd (report d now))"

definition ld_bound :: "LossDetector \<Rightarrow> bool" where
  "ld_bound d \<longleftrightarrow> ld_inv d \<and> ld_high d < u64_max"

lemma ld_inv_delivered [simp]: "ld_inv (d\<lparr>delivered := n\<rparr>) = ld_inv d"
  by (simp add: ld_inv_def is_resolved_def)

lemma mark_resolved_high [simp]: "ld_high (mark_resolved d c) = ld_high d"
  by (simp add: mark_resolved_def split: prod.splits)

lemma promote_high [simp]: "ld_high (promote d cs) = ld_high d"
  by (induction cs arbitrary: d) simp_all

lemma on_seen_high: "ld_high d < u64_max \<Longrightarrow> c < u64_max \<Longrightarrow> ld_high (on_seen d c now) < u64_max"
  by (simp add: on_seen_core seen_core_def enforce_window_def Let_def)

lemma report_bound:
  assumes "ld_bound d"
  shows "ld_bound (snd (report d now))"
proof -
  have "\<forall>c \<in> set (expired d now). c < u64_max"
    using assms expired_pending [of d _ now] le_less_trans by (auto simp: ld_bound_def)
  then show ?thesis using assms promote_inv [of d "expired d now"] by (simp add: ld_bound_def report_def Let_def)
qed

lemma ld_reach_bound: "ld_reach d \<Longrightarrow> ld_bound d"
proof (induction rule: ld_reach.induct)
  case (new grace w)
  show ?case by (simp add: ld_bound_def ld_inv_def detector_new_def u64_max_def)
next
  case (seen d c now)
  then show ?case using on_seen_inv on_seen_high by (simp add: ld_bound_def)
next
  case (delivered d c)
  then show ?case using resolve_inv by (simp add: ld_bound_def on_delivered_def Let_def)
qed (simp add: report_bound)

text \<open>C27: the loss detector keeps exact accounts of a run whose counters stay within the window. Every counter
  that was seen is pending, delivered or has been promoted to missing; no counter is promoted twice;
  a counter that skips over others makes each of them pending unless it is resolved; the next report
  promotes exactly the pending counters whose grace period has passed, none of which was ever
  delivered or promoted before; and it lists the first 64 of them.\<close>

theorem loss_detector_exact:
  assumes "ld_run grace w evs d rep"
  shows "distinct rep \<and> missing (fst (report d now)) = map of_nat (take 64 (expired d now)) \<and>
    (\<forall>c n. Seen c n \<in> set evs \<longrightarrow> c \<in> keys (pending d) \<or> Delivered c \<in> set evs \<or> c \<in> set rep) \<and>
    (\<forall>c \<in> set (expired d now). Delivered c \<notin> set evs \<and> c \<notin> set rep \<and> (\<exists>c' n. Seen c' n \<in> set evs \<and> c \<le> c')) \<and>
    (\<forall>(c, t) \<in> set (pending d). c \<in> set (expired d now) \<longleftrightarrow> grace_ms d \<le> now - t) \<and>
    (\<forall>c x. seen_any d \<and> \<not> is_resolved d c \<and> c < resolved_below d + w \<and> c < u64_max \<and> ld_high d < x \<and> x < c \<longrightarrow>
       x \<in> keys (pending (on_seen d c now)) \<or> is_resolved d x)"
proof -
  have a: "accounted w evs d rep" using assms by (rule ld_run_accounted)
  have e: "c \<in> keys (pending d) \<and> \<not> is_resolved d c" if "c \<in> set (expired d now)" for c
    using a expired_pending [of d c now] that by (simp add: accounted_def tight_def)
  have "missing (fst (report d now)) = map of_nat (take 64 (expired d now))"
    by (simp add: report_def Let_def MAX_NACK_def)
  moreover have t: "tight w d" using a by (simp add: accounted_def)
  moreover have "\<forall>(c, t) \<in> set (pending d). c \<in> set (expired d now) \<longleftrightarrow> grace_ms d \<le> now - t"
    using t expired_iff [of d] by (auto simp: tight_def ld_inv_def)
  moreover have "x \<in> keys (pending (on_seen d c now)) \<or> is_resolved d x"
    if "seen_any d" "\<not> is_resolved d c" "c < resolved_below d + w" "c < u64_max" "ld_high d < x" "x < c" for c x
    using tight_seen(6) [OF t that(3,4,2,1), of now] that(5,6) by blast
  moreover have "distinct rep \<and> (\<forall>c n. Seen c n \<in> set evs \<longrightarrow> c \<in> keys (pending d) \<or> Delivered c \<in> set evs \<or> c \<in> set rep) \<and>
      (\<forall>c \<in> set (expired d now). Delivered c \<notin> set evs \<and> c \<notin> set rep \<and> (\<exists>c' n. Seen c' n \<in> set evs \<and> c \<le> c'))"
    using a e unfolding accounted_def by blast
  ultimately show ?thesis by (intro conjI) blast+
qed

theorem loss_detector_exact_witness:
  "\<exists>d. ld_run 10 8 [Seen 0 0, Delivered 0, Seen 2 5] d [] \<and>
    (\<forall>c \<in> set (expired d 100). c \<noteq> 0 \<and> c \<le> 2) \<and> 2 \<in> keys (pending d)"
proof -
  let ?d = "on_seen (on_delivered (on_seen (detector_new 10 8) 0 0) 0) 2 5"
  have "ld_run 10 8 (([] @ [Seen 0 0]) @ [Delivered 0]) (on_delivered (on_seen (detector_new 10 8) 0 0) 0) []"
    by (intro ld_run.intros) (simp_all add: u64_max_def)
  then have run: "ld_run 10 8 [Seen 0 0, Delivered 0, Seen 2 5] ?d []"
    using ld_run.seen [of 10 8 "[Seen 0 0, Delivered 0]" _ "[]" 2 5] by (simp add: u64_max_def)
  show ?thesis using loss_detector_exact [OF run, of 100] run by fastforce
qed

text \<open>The memory of the loss detector is bounded whatever arrives. In every reachable state the pending and
  the resolved counters are at most \<open>window\<close> many each, in strictly increasing order, no pending
  counter is resolved, and a report names at most 64 counters.\<close>

theorem loss_detector_bounded:
  assumes "ld_reach d"
  shows "length (pending d) \<le> window d \<and> length (resolved_set d) \<le> window d \<and>
    sorted_wrt (<) (map fst (pending d)) \<and> sorted_wrt (<) (resolved_set d) \<and>
    (\<forall>(c, first_ms) \<in> set (pending d). \<not> is_resolved d c \<and> c \<le> ld_high d) \<and> length (missing (fst (report d now))) \<le> 64"
proof -
  have inv: "ld_inv d" using ld_reach_bound [OF assms] by (simp add: ld_bound_def)
  then have "\<forall>(c, first_ms) \<in> set (pending d). \<not> is_resolved d c \<and> c \<le> ld_high d" by (auto simp: ld_inv_def keys_def)
  moreover have "length (missing (fst (report d now))) \<le> 64" by (simp add: report_def Let_def MAX_NACK_def)
  ultimately show ?thesis using inv by (simp add: ld_inv_def)
qed

theorem loss_detector_bounded_witness:
  "length (pending (on_seen (detector_new 10 2) 7 0)) \<le> window (on_seen (detector_new 10 2) 7 0) \<and> (7 :: nat) < u64_max"
  using loss_detector_bounded [OF ld_reach.seen [OF ld_reach.new, of 7 10 2 0]] by (simp add: u64_max_def)

end
