(* ===== verification/Plpmtu.thy ===== *)
theory Plpmtu
  imports Feedback
begin

text \<open>
  The path-MTU search of \<^verbatim>\<open>crates/yip-transport/src/plpmtu.rs\<close>: a ladder of four symbol sizes, a
  controller that probes one tier at a time, and its reactions to ticks, acknowledgments, black
  holes and roaming.
\<close>

section \<open>Controller\<close>

definition PLPMTU_LADDER :: "u16 list" where
  "PLPMTU_LADDER = [1120, 1320, 1400, 1530]"

definition PROBE_INTERVAL_MS :: nat where
  "PROBE_INTERVAL_MS = 1000"

definition MAX_PROBE_ATTEMPTS :: nat where
  "MAX_PROBE_ATTEMPTS = 3"

datatype ControllerState = Probing nat nat | Converged

record PlpmtuController =
  confirmed_symbol_size :: u16
  pl_state :: ControllerState
  next_probe_id :: u16
  active_probe :: u16
  last_probe_ms :: "nat option"
  backoff_exp :: nat

definition plpmtu_new :: PlpmtuController where
  "plpmtu_new =
     \<lparr>confirmed_symbol_size = PLPMTU_LADDER ! 0, pl_state = Probing 1 0, next_probe_id = 2, active_probe = 1,
      last_probe_ms = Some 0, backoff_exp = 0\<rparr>"

definition current_symbol_size :: "PlpmtuController \<Rightarrow> u16" where
  "current_symbol_size c = confirmed_symbol_size c"

definition is_converged :: "PlpmtuController \<Rightarrow> bool" where
  "is_converged c = (case pl_state c of Converged \<Rightarrow> True | Probing _ _ \<Rightarrow> False)"

text \<open>The ladder is read at \<open>tier_idx\<close>, which panics out of range.\<close>

definition ladder_at :: "nat \<Rightarrow> u16 exec" where
  "ladder_at i = (if i < length PLPMTU_LADDER then Some (PLPMTU_LADDER ! i) else None)"

definition candidate_symbol_size :: "PlpmtuController \<Rightarrow> u16 option exec" where
  "candidate_symbol_size c =
     (case pl_state c of Probing tier_idx _ \<Rightarrow> map_option Some (ladder_at tier_idx) | Converged \<Rightarrow> Some None)"

definition active_probe_id :: "PlpmtuController \<Rightarrow> u16 option" where
  "active_probe_id c = (case pl_state c of Probing _ _ \<Rightarrow> Some (active_probe c) | Converged \<Rightarrow> None)"

definition probe_interval_ms :: "PlpmtuController \<Rightarrow> nat" where
  "probe_interval_ms c = sat_mul PROBE_INTERVAL_MS (2 ^ min (backoff_exp c) 5)"

definition on_tick :: "PlpmtuController \<Rightarrow> nat \<Rightarrow> ((u16 \<times> u16 \<times> nat) option \<times> PlpmtuController) exec" where
  "on_tick c now =
     (case pl_state c of
        Converged \<Rightarrow> Some (None, c)
      | Probing tier_idx attempts \<Rightarrow>
          let interval = probe_interval_ms c;
              due = now - (case last_probe_ms c of None \<Rightarrow> 0 | Some t \<Rightarrow> t) \<ge> interval
          in if \<not> due then Some (None, c)
             else let next_attempts = min (attempts + 1) 255
                  in if next_attempts > MAX_PROBE_ATTEMPTS then Some (None, c\<lparr>pl_state := Converged\<rparr>)
                     else let c' = c\<lparr>last_probe_ms := Some now, pl_state := Probing tier_idx next_attempts\<rparr>
                          in map_option (\<lambda>target. (Some (active_probe c', target, unat target - 6), c')) (ladder_at tier_idx))"

definition on_ack :: "PlpmtuController \<Rightarrow> u16 \<Rightarrow> u16 \<Rightarrow> (u16 option \<times> PlpmtuController) exec" where
  "on_ack c probe_id accepted =
     (case pl_state c of
        Converged \<Rightarrow> Some (None, c)
      | Probing tier_idx _ \<Rightarrow>
          (case ladder_at tier_idx of
             None \<Rightarrow> None
           | Some target \<Rightarrow>
               if probe_id = active_probe c \<and> accepted = target
               then let c' = c\<lparr>confirmed_symbol_size := accepted, backoff_exp := 0\<rparr>; next_tier = tier_idx + 1
                    in Some (Some accepted,
                         if next_tier < length PLPMTU_LADDER
                         then c'\<lparr>active_probe := next_probe_id c', next_probe_id := next_probe_id c' + 1,
                                pl_state := Probing next_tier 0\<rparr>
                         else c'\<lparr>pl_state := Converged\<rparr>)
               else Some (None, c)))"

definition on_blackhole :: "PlpmtuController \<Rightarrow> u16 option \<times> PlpmtuController" where
  "on_blackhole c =
     (if confirmed_symbol_size c > PLPMTU_LADDER ! 0
      then (Some (PLPMTU_LADDER ! 0),
            c\<lparr>confirmed_symbol_size := PLPMTU_LADDER ! 0, pl_state := Probing 1 0, active_probe := next_probe_id c,
              next_probe_id := next_probe_id c + 1, backoff_exp := min (backoff_exp c + 1) (2 ^ 32 - 1)\<rparr>)
      else (None, c))"

definition reset_to_floor :: "PlpmtuController \<Rightarrow> u16 \<times> PlpmtuController" where
  "reset_to_floor c =
     (PLPMTU_LADDER ! 0,
      c\<lparr>confirmed_symbol_size := PLPMTU_LADDER ! 0, pl_state := Probing 1 0, active_probe := next_probe_id c,
        next_probe_id := next_probe_id c + 1, backoff_exp := 0\<rparr>)"

section \<open>Runs\<close>

datatype plpmtu_event = Tick nat | Ack u16 u16 | Blackhole | Roam

fun plpmtu_step :: "plpmtu_event \<Rightarrow> PlpmtuController \<Rightarrow> PlpmtuController exec" where
  "plpmtu_step (Tick now) c = map_option snd (on_tick c now)"
| "plpmtu_step (Ack i s) c = map_option snd (on_ack c i s)"
| "plpmtu_step Blackhole c = Some (snd (on_blackhole c))"
| "plpmtu_step Roam c = Some (snd (reset_to_floor c))"

inductive plpmtu_reach :: "PlpmtuController \<Rightarrow> bool" where
  init: "plpmtu_reach plpmtu_new"
| step: "plpmtu_reach c \<Longrightarrow> plpmtu_step ev c = Some c' \<Longrightarrow> plpmtu_reach c'"

text \<open>While a tier is probed, the confirmed size is the tier below it.\<close>

definition plpmtu_inv :: "PlpmtuController \<Rightarrow> bool" where
  "plpmtu_inv c \<longleftrightarrow>
     confirmed_symbol_size c \<in> set PLPMTU_LADDER \<and>
     (case pl_state c of
        Converged \<Rightarrow> True
      | Probing tier_idx attempts \<Rightarrow>
          1 \<le> tier_idx \<and> tier_idx < 4 \<and> attempts \<le> MAX_PROBE_ATTEMPTS \<and>
          confirmed_symbol_size c = PLPMTU_LADDER ! (tier_idx - 1))"

lemma ladder_simps [simp]: "length PLPMTU_LADDER = 4" "PLPMTU_LADDER ! 0 = 1120" "PLPMTU_LADDER ! 1 = 1320"
  "PLPMTU_LADDER ! Suc 0 = 1320" "PLPMTU_LADDER ! 2 = 1400" "PLPMTU_LADDER ! 3 = 1530"
  "set PLPMTU_LADDER = {1120, 1320, 1400, 1530}"
  by (simp_all add: PLPMTU_LADDER_def)

lemma ladder_at_Some [simp]: "i < 4 \<Longrightarrow> ladder_at i = Some (PLPMTU_LADDER ! i)"
  by (simp add: ladder_at_def)

lemma ladder_mem: "i < 4 \<Longrightarrow> PLPMTU_LADDER ! i \<in> {1120, 1320, 1400, 1530}"
  using nth_mem [of i PLPMTU_LADDER] by simp

lemma plpmtu_inv_Probing:
  assumes "plpmtu_inv c" "pl_state c = Probing t a"
  shows "1 \<le> t" "t < 4" "a \<le> 3" "confirmed_symbol_size c = PLPMTU_LADDER ! (t - 1)"
  using assms by (simp_all add: plpmtu_inv_def MAX_PROBE_ATTEMPTS_def)

lemma plpmtu_invI:
  assumes "pl_state c = Probing t a" "1 \<le> t" "t < 4" "a \<le> 3" "confirmed_symbol_size c = PLPMTU_LADDER ! (t - 1)"
  shows "plpmtu_inv c"
  using assms ladder_mem [of "t - 1"] by (simp add: plpmtu_inv_def MAX_PROBE_ATTEMPTS_def)

lemma on_tick_Probing:
  assumes "plpmtu_inv c" "pl_state c = Probing t a"
  shows "on_tick c now =
    (if now - (case last_probe_ms c of None \<Rightarrow> 0 | Some x \<Rightarrow> x) < probe_interval_ms c then Some (None, c)
     else if a = 3 then Some (None, c\<lparr>pl_state := Converged\<rparr>)
     else Some (Some (active_probe c, PLPMTU_LADDER ! t, unat (PLPMTU_LADDER ! t) - 6),
                c\<lparr>last_probe_ms := Some now, pl_state := Probing t (a + 1)\<rparr>))"
  using plpmtu_inv_Probing [OF assms] assms(2)
  by (simp add: on_tick_def Let_def MAX_PROBE_ATTEMPTS_def not_le)

lemma on_tick_inv:
  assumes "plpmtu_inv c"
  shows "\<exists>out c'. on_tick c now = Some (out, c') \<and> plpmtu_inv c' \<and> confirmed_symbol_size c' = confirmed_symbol_size c"
proof (cases "pl_state c")
  case (Probing t a)
  note p = plpmtu_inv_Probing [OF assms Probing]
  have "plpmtu_inv (c\<lparr>last_probe_ms := Some now, pl_state := Probing t (a + 1)\<rparr>)" if "a \<noteq> 3"
    using p that by (intro plpmtu_invI [of _ t "a + 1"]) simp_all
  moreover have "plpmtu_inv (c\<lparr>pl_state := Converged\<rparr>)" using assms by (simp add: plpmtu_inv_def)
  ultimately show ?thesis using on_tick_Probing [OF assms Probing, of now] assms by simp
qed (use assms in \<open>simp add: on_tick_def\<close>)

lemma on_ack_Probing:
  assumes "plpmtu_inv c" "pl_state c = Probing t a"
  shows "\<exists>out c'. on_ack c i sz = Some (out, c') \<and> plpmtu_inv c' \<and>
    (if i = active_probe c \<and> sz = PLPMTU_LADDER ! t
     then out = Some sz \<and> confirmed_symbol_size c' = sz \<and> backoff_exp c' = 0 \<and>
          pl_state c' = (if t = 3 then Converged else Probing (t + 1) 0)
     else out = None \<and> c' = c)"
proof (cases "i = active_probe c \<and> sz = PLPMTU_LADDER ! t")
  case True
  note p = plpmtu_inv_Probing [OF assms]
  let ?c = "c\<lparr>confirmed_symbol_size := sz, backoff_exp := 0\<rparr>"
  let ?n = "?c\<lparr>active_probe := next_probe_id ?c, next_probe_id := next_probe_id ?c + 1, pl_state := Probing (t + 1) 0\<rparr>"
  have "plpmtu_inv ?n" if "t \<noteq> 3" using p that True by (intro plpmtu_invI [of _ "t + 1" 0]) simp_all
  moreover have "plpmtu_inv (?c\<lparr>pl_state := Converged\<rparr>)" if "t = 3" using True that by (simp add: plpmtu_inv_def)
  moreover have "t + 1 < 4 \<longleftrightarrow> t \<noteq> 3" using p(2) by auto
  ultimately show ?thesis using True p(2) assms(2) by (cases "t = 3") (simp_all add: on_ack_def Let_def)
next
  case False
  then show ?thesis using plpmtu_inv_Probing(2) [OF assms] assms by (auto simp: on_ack_def)
qed

lemma on_ack_inv:
  assumes "plpmtu_inv c"
  shows "\<exists>out c'. on_ack c i sz = Some (out, c') \<and> plpmtu_inv c'"
  using on_ack_Probing [OF assms] assms by (cases "pl_state c") (fastforce, simp add: on_ack_def)

lemma plpmtu_step_total:
  assumes "plpmtu_inv c"
  shows "\<exists>c'. plpmtu_step ev c = Some c' \<and> plpmtu_inv c'"
proof (cases ev)
  case (Tick now)
  then show ?thesis using on_tick_inv [OF assms, of now] by auto
next
  case (Ack i s)
  then show ?thesis using on_ack_inv [OF assms, of i s] by auto
qed (use assms in \<open>auto simp: on_blackhole_def reset_to_floor_def intro: plpmtu_invI [of _ 1 0]\<close>)

lemma plpmtu_reach_inv: "plpmtu_reach c \<Longrightarrow> plpmtu_inv c"
proof (induction rule: plpmtu_reach.induct)
  case init
  show ?case by (rule plpmtu_invI [of _ 1 0]) (simp_all add: plpmtu_new_def)
next
  case (step c ev c')
  then obtain c'' where "plpmtu_step ev c = Some c''" "plpmtu_inv c''" using plpmtu_step_total by blast
  then show ?case using step.hyps(2) by simp
qed

section \<open>Convergence\<close>

fun run_ticks :: "PlpmtuController \<Rightarrow> nat list \<Rightarrow> PlpmtuController exec" where
  "run_ticks c [] = Some c"
| "run_ticks c (now # rest) = (case on_tick c now of None \<Rightarrow> None | Some (_, c') \<Rightarrow> run_ticks c' rest)"

text \<open>Each tick of the list comes at least \<open>interval\<close> after the one before, the first after \<open>prev\<close>.\<close>

fun spaced :: "nat \<Rightarrow> nat \<Rightarrow> nat list \<Rightarrow> bool" where
  "spaced interval prev [] \<longleftrightarrow> True"
| "spaced interval prev (t # ts) \<longleftrightarrow> prev + interval \<le> t \<and> spaced interval t ts"

lemma run_ticks_Converged: "pl_state c = Converged \<Longrightarrow> run_ticks c ts = Some c"
  by (induction ts) (simp_all add: on_tick_def)

lemma run_ticks_converge:
  assumes "plpmtu_inv c" "pl_state c = Probing t a" "spaced (probe_interval_ms c) (case last_probe_ms c of None \<Rightarrow> 0 | Some x \<Rightarrow> x) ts"
    and "4 - a \<le> length ts"
  shows "\<exists>c'. run_ticks c ts = Some c' \<and> is_converged c' \<and> confirmed_symbol_size c' = confirmed_symbol_size c"
  using assms
proof (induction ts arbitrary: c a)
  case Nil
  then show ?case using plpmtu_inv_Probing(3) [of c t a] by simp
next
  case (Cons x xs)
  note tick = on_tick_Probing [OF Cons.prems(1,2), of x]
  have due: "\<not> x - (case last_probe_ms c of None \<Rightarrow> 0 | Some x \<Rightarrow> x) < probe_interval_ms c" using Cons.prems(3) by (simp add: not_less le_diff_conv2 add.commute)
  show ?case
  proof (cases "a = 3")
    case True
    then show ?thesis using tick due by (simp add: run_ticks_Converged is_converged_def)
  next
    case False
    let ?c = "c\<lparr>last_probe_ms := Some x, pl_state := Probing t (a + 1)\<rparr>"
    have "on_tick c x = Some (Some (active_probe c, PLPMTU_LADDER ! t, unat (PLPMTU_LADDER ! t) - 6), ?c)"
      using tick due False by simp
    moreover have "plpmtu_inv ?c" using on_tick_inv [OF Cons.prems(1), of x] calculation by auto
    moreover have "probe_interval_ms ?c = probe_interval_ms c" by (simp add: probe_interval_ms_def)
    ultimately show ?thesis using Cons.IH [of ?c "a + 1"] Cons.prems(3,4) by simp
  qed
qed

lemma ladder_step: "1 \<le> t \<Longrightarrow> t < 4 \<Longrightarrow> PLPMTU_LADDER ! (t - 1) < PLPMTU_LADDER ! t"
proof -
  assume "1 \<le> t" "t < 4"
  then consider "t = 1" | "t = 2" | "t = 3" by linarith
  then show ?thesis by cases simp_all
qed

lemma probe_fits:
  assumes "plpmtu_inv c" "on_tick c now = Some (Some (i, target, n), c'')"
  shows "current_symbol_size c < target \<and> control_ok (MtuProbe i target (replicate n 0))"
proof (cases "pl_state c")
  case (Probing t a)
  note p = plpmtu_inv_Probing [OF assms(1) Probing]
  have out: "target = PLPMTU_LADDER ! t" "n = unat (PLPMTU_LADDER ! t) - 6"
    using on_tick_Probing [OF assms(1) Probing, of now] assms(2) by (auto split: if_splits)
  have "target \<in> {1120, 1320, 1400, 1530}" using ladder_mem [OF p(2)] out by simp
  then have "6 \<le> unat target" by auto
  then show ?thesis using out p ladder_step [OF p(1,2)] by (simp add: current_symbol_size_def)
qed (use assms(2) in \<open>simp add: on_tick_def\<close>)

lemma grows_only_on_ack:
  assumes inv: "plpmtu_inv c" and st: "plpmtu_step ev c = Some c'" and grow: "current_symbol_size c < current_symbol_size c'"
  shows "\<exists>i. ev = Ack i (current_symbol_size c') \<and> active_probe_id c = Some i \<and>
    candidate_symbol_size c = Some (Some (current_symbol_size c'))"
proof (cases ev)
  case (Tick now)
  then show ?thesis using on_tick_inv [OF inv, of now] st grow by (auto simp: current_symbol_size_def)
next
  case (Ack i sz)
  show ?thesis
  proof (cases "pl_state c")
    case (Probing t a)
    show ?thesis
      using on_ack_Probing [OF inv Probing, of i sz] st grow Ack plpmtu_inv_Probing(2) [OF inv Probing] Probing
      by (auto simp: current_symbol_size_def active_probe_id_def candidate_symbol_size_def split: if_splits)
  qed (use st grow Ack in \<open>simp add: on_ack_def\<close>)
next
  case Blackhole
  have "1120 \<le> current_symbol_size c" using inv by (auto simp: plpmtu_inv_def current_symbol_size_def)
  then show ?thesis using st grow Blackhole
    by (auto simp: on_blackhole_def current_symbol_size_def split: if_splits)
next
  case Roam
  have "1120 \<le> current_symbol_size c" using inv by (auto simp: plpmtu_inv_def current_symbol_size_def)
  then show ?thesis using st grow Roam by (auto simp: reset_to_floor_def current_symbol_size_def)
qed

section \<open>Properties\<close>

text \<open>The path-MTU controller is safe in every reachable state. No tick, acknowledgment, black hole or roaming
  event makes it panic; the confirmed size is always a rung of the ladder; a probe it emits is a
  control frame that survives the wire, for the next rung above the confirmed size; and the
  confirmed size grows only on an acknowledgment of the active probe at exactly the probed size.\<close>

theorem plpmtu_safe:
  assumes "plpmtu_reach c"
  shows "\<exists>c'. plpmtu_step ev c = Some c' \<and> current_symbol_size c' \<in> {1120, 1320, 1400, 1530} \<and>
    (current_symbol_size c < current_symbol_size c' \<longrightarrow>
       (\<exists>i. ev = Ack i (current_symbol_size c') \<and> active_probe_id c = Some i \<and>
            candidate_symbol_size c = Some (Some (current_symbol_size c')))) \<and>
    (\<forall>now i target n c''. on_tick c now = Some (Some (i, target, n), c'') \<longrightarrow>
       current_symbol_size c < target \<and> control_ok (MtuProbe i target (replicate n 0)))"
proof -
  have inv: "plpmtu_inv c" using assms by (rule plpmtu_reach_inv)
  obtain c' where c': "plpmtu_step ev c = Some c'" "plpmtu_inv c'" using plpmtu_step_total [OF inv] by blast
  have "current_symbol_size c' \<in> {1120, 1320, 1400, 1530}"
    using c'(2) by (simp add: plpmtu_inv_def current_symbol_size_def)
  moreover have "\<exists>i. ev = Ack i (current_symbol_size c') \<and> active_probe_id c = Some i \<and>
      candidate_symbol_size c = Some (Some (current_symbol_size c'))"
    if "current_symbol_size c < current_symbol_size c'"
    using grows_only_on_ack [OF inv c'(1)] that .
  moreover have "current_symbol_size c < target \<and> control_ok (MtuProbe i target (replicate n 0))"
    if "on_tick c now = Some (Some (i, target, n), c'')" for now i target n c''
    using probe_fits [OF inv that] .
  ultimately show ?thesis using c'(1) by blast
qed

theorem plpmtu_safe_witness:
  "plpmtu_step (Ack 1 1320) plpmtu_new \<noteq> None \<and> plpmtu_reach plpmtu_new \<and> on_tick plpmtu_new 1000 \<noteq> None"
  using plpmtu_safe [OF plpmtu_reach.init, of "Ack 1 1320"] plpmtu_safe [OF plpmtu_reach.init, of "Tick 1000"]
    plpmtu_reach.init by auto

text \<open>C28: the search for the path MTU ends. From every reachable state that is probing, four or more ticks that are
  at least one probe interval apart, with no acknowledgment in between, make the controller
  converge, and the confirmed size is unchanged.\<close>

theorem plpmtu_converges:
  assumes "plpmtu_reach c" "\<not> is_converged c" "4 \<le> length ts"
    and "spaced (probe_interval_ms c) (case last_probe_ms c of None \<Rightarrow> 0 | Some t \<Rightarrow> t) ts"
  shows "\<exists>c'. run_ticks c ts = Some c' \<and> is_converged c' \<and> current_symbol_size c' = current_symbol_size c"
proof -
  obtain t a where st: "pl_state c = Probing t a" using assms(2) by (auto simp: is_converged_def split: ControllerState.splits)
  show ?thesis
    using run_ticks_converge [OF plpmtu_reach_inv [OF assms(1)] st assms(4)] assms(3) by (simp add: current_symbol_size_def)
qed

theorem plpmtu_converges_witness:
  "\<exists>c'. run_ticks plpmtu_new [1000, 2000, 3500, 4500] = Some c' \<and> is_converged c' \<and> current_symbol_size c' = 1120"
  using plpmtu_converges [OF plpmtu_reach.init, of "[1000, 2000, 3500, 4500]"]
  by (simp add: plpmtu_new_def is_converged_def current_symbol_size_def probe_interval_ms_def PROBE_INTERVAL_MS_def
      sat_mul_def u64_max_def)

end
