(* ===== verification/Mac_Table.thy ===== *)
theory Mac_Table
  imports Prelude
begin

text \<open>
  The MAC learning table of \<^verbatim>\<open>bin/yipd/src/mac_table.rs\<close>: a slab of nodes threaded by an intrusive doubly
  linked recency list, with a hash index and a free list. A link is \<^const>\<open>None\<close> where the source has
  \<^verbatim>\<open>NIL\<close>; a slot outside the slab is a panic. The order in which the hash map is iterated by \<open>sweep\<close> is
  not specified by its library, so it is the parameter \<open>iter\<close>, any enumeration of the map's keys.

  The specification is a list of entries, most recently learned first; the table refines it.
\<close>

unbundle bit_operations_syntax

section \<open>Definitions\<close>

definition DEFAULT_MAC_TABLE_CAPACITY :: nat where
  "DEFAULT_MAC_TABLE_CAPACITY = 4096"

definition DEFAULT_MAC_TABLE_TTL_MS :: nat where
  "DEFAULT_MAC_TABLE_TTL_MS = 300000"

datatype LearnOrigin = Peer | LocalTap

record MacEntry =
  me_peer :: nat
  me_seen :: nat
  me_origin :: LearnOrigin

record Node =
  n_mac :: bytes
  n_entry :: MacEntry
  n_prev :: "nat option"
  n_next :: "nat option"

record MacTable =
  mt_capacity :: nat
  mt_ttl :: nat
  mt_index :: "bytes \<rightharpoonup> nat"
  mt_nodes :: "Node list"
  mt_free :: "nat list"
  mt_head :: "nat option"
  mt_tail :: "nat option"

definition mac_table_new :: "nat \<Rightarrow> nat \<Rightarrow> MacTable" where
  "mac_table_new cap ttl =
     \<lparr>mt_capacity = cap, mt_ttl = ttl, mt_index = Map.empty, mt_nodes = [], mt_free = [], mt_head = None, mt_tail = None\<rparr>"

text \<open>A write through an index of the slab.\<close>

definition upd_node :: "nat \<Rightarrow> (Node \<Rightarrow> Node) \<Rightarrow> MacTable \<Rightarrow> MacTable exec" where
  "upd_node i f t = (if i < length (mt_nodes t) then Some (t\<lparr>mt_nodes := (mt_nodes t)[i := f (mt_nodes t ! i)]\<rparr>) else None)"

definition unlink :: "nat \<Rightarrow> MacTable \<Rightarrow> MacTable exec" where
  "unlink slot t =
     (if slot \<ge> length (mt_nodes t) then None
      else let p = n_prev (mt_nodes t ! slot); n = n_next (mt_nodes t ! slot)
      in do {
        t1 \<leftarrow> (case p of Some i \<Rightarrow> upd_node i (\<lambda>x. x\<lparr>n_next := n\<rparr>) t | None \<Rightarrow> Some (t\<lparr>mt_head := n\<rparr>));
        t2 \<leftarrow> (case n of Some i \<Rightarrow> upd_node i (\<lambda>x. x\<lparr>n_prev := p\<rparr>) t1 | None \<Rightarrow> Some (t1\<lparr>mt_tail := p\<rparr>));
        upd_node slot (\<lambda>x. x\<lparr>n_prev := None, n_next := None\<rparr>) t2
      })"

definition push_front :: "nat \<Rightarrow> MacTable \<Rightarrow> MacTable exec" where
  "push_front slot t = do {
     t1 \<leftarrow> upd_node slot (\<lambda>x. x\<lparr>n_prev := None, n_next := mt_head t\<rparr>) t;
     t2 \<leftarrow> (case mt_head t1 of Some h \<Rightarrow> upd_node h (\<lambda>x. x\<lparr>n_prev := Some slot\<rparr>) t1 | None \<Rightarrow> Some t1);
     let t3 = t2\<lparr>mt_head := Some slot\<rparr>;
     Some (if mt_tail t3 = None then t3\<lparr>mt_tail := Some slot\<rparr> else t3)
   }"

definition move_to_front :: "nat \<Rightarrow> MacTable \<Rightarrow> MacTable exec" where
  "move_to_front slot t =
     (if mt_head t = Some slot then Some t else do { t1 \<leftarrow> unlink slot t; push_front slot t1 })"

definition mac_remove :: "bytes \<Rightarrow> MacTable \<Rightarrow> MacTable exec" where
  "mac_remove mac t =
     (case mt_index t mac of
        None \<Rightarrow> Some t
      | Some slot \<Rightarrow> do {
          t1 \<leftarrow> unlink slot (t\<lparr>mt_index := (mt_index t)(mac := None)\<rparr>);
          Some (t1\<lparr>mt_free := mt_free t1 @ [slot]\<rparr>)
        })"

definition evict_tail :: "MacTable \<Rightarrow> MacTable exec" where
  "evict_tail t =
     (case mt_tail t of
        None \<Rightarrow> Some t
      | Some i \<Rightarrow> if i < length (mt_nodes t) then mac_remove (n_mac (mt_nodes t ! i)) t else None)"

definition alloc :: "bytes \<Rightarrow> MacEntry \<Rightarrow> MacTable \<Rightarrow> (nat \<times> MacTable) exec" where
  "alloc mac e t =
     (let node = \<lparr>n_mac = mac, n_entry = e, n_prev = None, n_next = None\<rparr>
      in if mt_free t \<noteq> []
         then let slot = last (mt_free t)
              in map_option (Pair slot) (upd_node slot (\<lambda>_. node) (t\<lparr>mt_free := butlast (mt_free t)\<rparr>))
         else Some (length (mt_nodes t), t\<lparr>mt_nodes := mt_nodes t @ [node]\<rparr>))"

definition is_learnable_source_mac :: "bytes \<Rightarrow> bool" where
  "is_learnable_source_mac mac =
     (if mac = replicate 6 0 then False
      else if mac = replicate 6 0xFF then False
      else if mac ! 0 AND 0x01 \<noteq> 0 then False
      else True)"

definition learn :: "bytes \<Rightarrow> nat \<Rightarrow> LearnOrigin \<Rightarrow> nat \<Rightarrow> MacTable \<Rightarrow> MacTable exec" where
  "learn src_mac peer_id origin now t =
     (if \<not> is_learnable_source_mac src_mac \<or> mt_capacity t = 0 then Some t
      else case mt_index t src_mac of
        Some slot \<Rightarrow> do {
          t1 \<leftarrow> upd_node slot (\<lambda>x. x\<lparr>n_entry := \<lparr>me_peer = peer_id, me_seen = now, me_origin = origin\<rparr>\<rparr>) t;
          move_to_front slot t1
        }
      | None \<Rightarrow> do {
          t1 \<leftarrow> (if card (dom (mt_index t)) \<ge> mt_capacity t then evict_tail t else Some t);
          (slot, t2) \<leftarrow> alloc src_mac \<lparr>me_peer = peer_id, me_seen = now, me_origin = origin\<rparr> t1;
          push_front slot (t2\<lparr>mt_index := (mt_index t2)(src_mac \<mapsto> slot)\<rparr>)
        })"

definition mac_lookup :: "bytes \<Rightarrow> nat \<Rightarrow> MacTable \<Rightarrow> MacEntry option exec" where
  "mac_lookup mac now t =
     (case mt_index t mac of
        None \<Rightarrow> Some None
      | Some slot \<Rightarrow>
          if slot \<ge> length (mt_nodes t) then None
          else let e = n_entry (mt_nodes t ! slot)
               in if now - me_seen e > mt_ttl t then Some None else Some (Some e))"

fun remove_all :: "bytes list \<Rightarrow> MacTable \<Rightarrow> MacTable exec" where
  "remove_all [] t = Some t"
| "remove_all (m # ms) t = do { t1 \<leftarrow> mac_remove m t; remove_all ms t1 }"

definition mac_sweep :: "((bytes \<rightharpoonup> nat) \<Rightarrow> bytes list) \<Rightarrow> nat \<Rightarrow> MacTable \<Rightarrow> MacTable exec" where
  "mac_sweep iter now t =
     (let keys = iter (mt_index t)
      in if \<exists>m \<in> set keys. the (mt_index t m) \<ge> length (mt_nodes t) then None
         else remove_all (filter (\<lambda>m. now - me_seen (n_entry (mt_nodes t ! the (mt_index t m))) > mt_ttl t) keys) t)"

section \<open>Linked segments\<close>

text \<open>\<open>seg nodes p ss n\<close>: the slots \<open>ss\<close> are linked in this order, entered from \<open>p\<close> and left to \<open>n\<close>.\<close>

fun first :: "nat list \<Rightarrow> nat option \<Rightarrow> nat option" where
  "first [] n = n"
| "first (s # ss) n = Some s"

definition final :: "nat list \<Rightarrow> nat option \<Rightarrow> nat option" where
  "final ss p = (if ss = [] then p else Some (last ss))"

fun seg :: "Node list \<Rightarrow> nat option \<Rightarrow> nat list \<Rightarrow> nat option \<Rightarrow> bool" where
  "seg nodes p [] n \<longleftrightarrow> True"
| "seg nodes p (s # ss) n \<longleftrightarrow>
     s < length nodes \<and> n_prev (nodes ! s) = p \<and> n_next (nodes ! s) = first ss n \<and> seg nodes (Some s) ss n"

lemma final_simps [simp]: "final [] p = p" "final (ss @ [s]) p = Some s" "final (s # ss) p = final ss (Some s)"
  by (simp_all add: final_def)

lemma first_append [simp]: "first (xs @ ys) n = first xs (first ys n)"
  by (cases xs) simp_all

lemma seg_append [simp]: "seg nodes p (xs @ ys) n \<longleftrightarrow> seg nodes p xs (first ys n) \<and> seg nodes (final xs p) ys n"
  by (induction xs arbitrary: p) auto

lemma seg_bound: "seg nodes p ss n \<Longrightarrow> s \<in> set ss \<Longrightarrow> s < length nodes"
  by (induction ss arbitrary: p) auto

lemma seg_frame: "seg nodes p ss n \<Longrightarrow> i \<notin> set ss \<Longrightarrow> seg (nodes[i := x]) p ss n"
  by (induction ss arbitrary: p) auto

lemma seg_grow: "seg nodes p ss n \<Longrightarrow> seg (nodes @ [x]) p ss n"
  by (induction ss arbitrary: p) (auto simp: nth_append)

lemma seg_set_prev:
  "seg nodes p (s # ss) n \<Longrightarrow> s \<notin> set ss \<Longrightarrow> seg (nodes[s := (nodes ! s)\<lparr>n_prev := q\<rparr>]) q (s # ss) n"
  by (auto intro: seg_frame)

lemma seg_set_next:
  "seg nodes p (ss @ [s]) n \<Longrightarrow> s \<notin> set ss \<Longrightarrow> seg (nodes[s := (nodes ! s)\<lparr>n_next := m\<rparr>]) p (ss @ [s]) m"
  by (auto intro: seg_frame)

lemma seg_entry:
  "seg nodes p ss n \<Longrightarrow> seg (nodes[i := (nodes ! i)\<lparr>n_entry := e\<rparr>]) p ss n"
proof (induction ss arbitrary: p)
  case (Cons s ss)
  then show ?case by (cases "i = s") auto
qed simp

text \<open>What the list operations leave alone: everything but the links, the head and the tail.\<close>

definition same_data :: "MacTable \<Rightarrow> MacTable \<Rightarrow> bool" where
  "same_data t t' \<longleftrightarrow> mt_capacity t' = mt_capacity t \<and> mt_ttl t' = mt_ttl t \<and> mt_index t' = mt_index t \<and>
     mt_free t' = mt_free t \<and> map n_mac (mt_nodes t') = map n_mac (mt_nodes t) \<and>
     map n_entry (mt_nodes t') = map n_entry (mt_nodes t)"

lemma same_data_refl [simp]: "same_data t t" "same_data t (t\<lparr>mt_head := h\<rparr>)" "same_data t (t\<lparr>mt_tail := h\<rparr>)"
  by (simp_all add: same_data_def)

lemma same_data_trans: "same_data t u \<Longrightarrow> same_data u v \<Longrightarrow> same_data t v"
  by (simp add: same_data_def)

lemma same_data_length: "same_data t u \<Longrightarrow> length (mt_nodes u) = length (mt_nodes t)"
  unfolding same_data_def by (metis length_map)

lemma same_data_nth:
  assumes "same_data t u" "i < length (mt_nodes t)"
  shows "n_mac (mt_nodes u ! i) = n_mac (mt_nodes t ! i) \<and> n_entry (mt_nodes u ! i) = n_entry (mt_nodes t ! i)"
  using assms same_data_length [OF assms(1)] unfolding same_data_def by (metis nth_map)

definition linked :: "MacTable \<Rightarrow> nat list \<Rightarrow> bool" where
  "linked t ord \<longleftrightarrow> distinct ord \<and> seg (mt_nodes t) None ord None \<and> mt_head t = first ord None \<and> mt_tail t = final ord None"

lemma upd_link:
  assumes "i < length (mt_nodes t)" "\<And>x. n_mac (f x) = n_mac x \<and> n_entry (f x) = n_entry x"
  shows "upd_node i f t = Some (t\<lparr>mt_nodes := (mt_nodes t)[i := f (mt_nodes t ! i)]\<rparr>) \<and>
    same_data t (t\<lparr>mt_nodes := (mt_nodes t)[i := f (mt_nodes t ! i)]\<rparr>)"
  using assms by (auto simp: upd_node_def same_data_def map_update list_update_same_conv intro!: list_update_id [symmetric])

lemma unlink_prev:
  assumes "seg (mt_nodes t) None (xs @ s # ys) None" "distinct (xs @ s # ys)" "mt_head t = first (xs @ s # ys) None"
  shows "\<exists>t1. (case final xs None of Some i \<Rightarrow> upd_node i (\<lambda>x. x\<lparr>n_next := n\<rparr>) t | None \<Rightarrow> Some (t\<lparr>mt_head := n\<rparr>)) = Some t1 \<and>
    same_data t t1 \<and> seg (mt_nodes t1) None xs n \<and> seg (mt_nodes t1) (Some s) ys None \<and>
    mt_head t1 = first xs n \<and> mt_tail t1 = mt_tail t"
proof (cases xs rule: rev_cases)
  case Nil
  then show ?thesis using assms by simp
next
  case (snoc xs' a)
  have a: "a < length (mt_nodes t)" using assms(1) snoc by simp
  note u = upd_link [OF a, of "\<lambda>x. x\<lparr>n_next := n\<rparr>"]
  have "seg (mt_nodes t) None (xs' @ [a]) (Some s)" using assms(1) snoc by simp
  then have "seg ((mt_nodes t)[a := (mt_nodes t ! a)\<lparr>n_next := n\<rparr>]) None (xs' @ [a]) n"
    using assms(2) snoc by (intro seg_set_next) auto
  moreover have "seg ((mt_nodes t)[a := (mt_nodes t ! a)\<lparr>n_next := n\<rparr>]) (Some s) ys None"
    using assms(1,2) snoc by (intro seg_frame) auto
  moreover have "first xs n = first xs m" for m using snoc by (cases xs') simp_all
  ultimately show ?thesis using u a snoc assms(3) by simp
qed

lemma unlink_next:
  assumes "seg (mt_nodes t) None xs n" "seg (mt_nodes t) (Some s) ys None" "distinct (xs @ s # ys)"
    and "mt_tail t = final (xs @ s # ys) None" "n = first ys None"
  shows "\<exists>t1. (case n of Some i \<Rightarrow> upd_node i (\<lambda>x. x\<lparr>n_prev := final xs None\<rparr>) t | None \<Rightarrow> Some (t\<lparr>mt_tail := final xs None\<rparr>)) = Some t1 \<and>
    same_data t t1 \<and> seg (mt_nodes t1) None (xs @ ys) None \<and> mt_head t1 = mt_head t \<and> mt_tail t1 = final (xs @ ys) None"
proof (cases ys)
  case Nil
  then show ?thesis using assms by simp
next
  case (Cons b ys')
  have b: "b < length (mt_nodes t)" using assms(2) Cons by simp
  note u = upd_link [OF b, of "\<lambda>x. x\<lparr>n_prev := final xs None\<rparr>"]
  have "seg ((mt_nodes t)[b := (mt_nodes t ! b)\<lparr>n_prev := final xs None\<rparr>]) (final xs None) (b # ys') None"
    using assms(2,3) Cons by (intro seg_set_prev) auto
  moreover have "seg ((mt_nodes t)[b := (mt_nodes t ! b)\<lparr>n_prev := final xs None\<rparr>]) None xs n"
    using assms(1,3) Cons by (intro seg_frame) auto
  ultimately show ?thesis using u b Cons assms(4,5) by (simp add: final_def)
qed

lemma unlink_linked:
  assumes "linked t (xs @ s # ys)"
  shows "\<exists>t'. unlink s t = Some t' \<and> linked t' (xs @ ys) \<and> same_data t t'"
proof -
  have l: "seg (mt_nodes t) None (xs @ s # ys) None" "distinct (xs @ s # ys)" "mt_head t = first (xs @ s # ys) None"
    "mt_tail t = final (xs @ s # ys) None" using assms by (simp_all add: linked_def)
  have s: "s < length (mt_nodes t)" "n_prev (mt_nodes t ! s) = final xs None" "n_next (mt_nodes t ! s) = first ys None"
    using l(1) by simp_all
  obtain t1 where t1: "(case final xs None of Some i \<Rightarrow> upd_node i (\<lambda>x. x\<lparr>n_next := first ys None\<rparr>) t
      | None \<Rightarrow> Some (t\<lparr>mt_head := first ys None\<rparr>)) = Some t1" "same_data t t1" "seg (mt_nodes t1) None xs (first ys None)"
    "seg (mt_nodes t1) (Some s) ys None" "mt_head t1 = first xs (first ys None)" "mt_tail t1 = mt_tail t"
    using unlink_prev [OF l(1-3), of "first ys None"] by blast
  obtain t2 where t2: "(case first ys None of Some i \<Rightarrow> upd_node i (\<lambda>x. x\<lparr>n_prev := final xs None\<rparr>) t1
      | None \<Rightarrow> Some (t1\<lparr>mt_tail := final xs None\<rparr>)) = Some t2" "same_data t1 t2" "seg (mt_nodes t2) None (xs @ ys) None"
    "mt_head t2 = mt_head t1" "mt_tail t2 = final (xs @ ys) None"
    using unlink_next [OF t1(3,4) l(2)] l(4) t1(6) by auto
  have s2: "s < length (mt_nodes t2)" using s(1) same_data_length t1(2) t2(2) by simp
  note u = upd_link [OF s2, of "\<lambda>x. x\<lparr>n_prev := None, n_next := None\<rparr>"]
  let ?t = "t2\<lparr>mt_nodes := (mt_nodes t2)[s := (mt_nodes t2 ! s)\<lparr>n_prev := None, n_next := None\<rparr>]\<rparr>"
  have "seg (mt_nodes ?t) None (xs @ ys) None" using t2(3) l(2) seg_frame [OF t2(3), of s] by simp
  then have "linked ?t (xs @ ys)" using t2 t1(5) l(2) by (simp add: linked_def)
  moreover have "unlink s t = Some ?t"
    using s t1(1) t2(1) u by (simp add: unlink_def Let_def)
  moreover have "same_data t2 ?t" using u by simp
  then have "same_data t ?t" by (rule same_data_trans [OF same_data_trans [OF t1(2) t2(2)]])
  ultimately show ?thesis by blast
qed

lemma push_front_linked:
  assumes "linked t ord" "s < length (mt_nodes t)" "s \<notin> set ord"
  shows "\<exists>t'. push_front s t = Some t' \<and> linked t' (s # ord) \<and> same_data t t'"
proof -
  note u = upd_link [OF assms(2), of "\<lambda>x. x\<lparr>n_prev := None, n_next := mt_head t\<rparr>"]
  define t1 where "t1 = t\<lparr>mt_nodes := (mt_nodes t)[s := (mt_nodes t ! s)\<lparr>n_prev := None, n_next := mt_head t\<rparr>]\<rparr>"
  have sg: "seg (mt_nodes t1) None ord None"
    using assms seg_frame unfolding linked_def t1_def by simp
  have n: "mt_nodes t1 ! s = (mt_nodes t ! s)\<lparr>n_prev := None, n_next := mt_head t\<rparr>" using assms(2) by (simp add: t1_def)
  show ?thesis
  proof (cases ord)
    case Nil
    then show ?thesis using assms u n
      by (intro exI [of _ "t1\<lparr>mt_head := Some s, mt_tail := Some s\<rparr>"])
         (simp add: push_front_def linked_def t1_def same_data_def)
  next
    case (Cons h ord')
    have h: "h < length (mt_nodes t1)" using sg Cons by simp
    note v = upd_link [OF h, of "\<lambda>x. x\<lparr>n_prev := Some s\<rparr>"]
    define t2 where "t2 = t1\<lparr>mt_nodes := (mt_nodes t1)[h := (mt_nodes t1 ! h)\<lparr>n_prev := Some s\<rparr>]\<rparr>"
    have "seg (mt_nodes t2) (Some s) (h # ord') None"
      unfolding t2_def using sg Cons assms(1) seg_set_prev [of "mt_nodes t1" None h ord' None "Some s"] by (simp add: linked_def)
    moreover have "mt_nodes t2 ! s = mt_nodes t1 ! s" using assms(3) Cons by (simp add: t2_def)
    moreover have "s < length (mt_nodes t2)" using assms(2) by (simp add: t1_def t2_def)
    moreover have "push_front s t = Some (t2\<lparr>mt_head := Some s\<rparr>)"
      using u v assms(1) Cons by (simp add: push_front_def t1_def [symmetric] t2_def linked_def final_def) (simp add: t1_def)
    ultimately show ?thesis
      using assms u v n Cons by (intro exI [of _ "t2\<lparr>mt_head := Some s\<rparr>"])
        (simp add: linked_def t1_def t2_def same_data_def)
  qed
qed

section \<open>Refinement\<close>

definition mac_inv :: "MacTable \<Rightarrow> nat list \<Rightarrow> bool" where
  "mac_inv t ord \<longleftrightarrow> linked t ord \<and>
     (\<forall>m s. mt_index t m = Some s \<longleftrightarrow> s \<in> set ord \<and> n_mac (mt_nodes t ! s) = m) \<and>
     distinct (mt_free t @ ord) \<and> set (mt_free t @ ord) = {..<length (mt_nodes t)} \<and>
     length ord \<le> mt_capacity t \<and> length (mt_nodes t) \<le> mt_capacity t"

definition entries :: "MacTable \<Rightarrow> nat list \<Rightarrow> (bytes \<times> MacEntry) list" where
  "entries t ord = map (\<lambda>s. (n_mac (mt_nodes t ! s), n_entry (mt_nodes t ! s))) ord"

lemma entries_same: "same_data t u \<Longrightarrow> \<forall>s \<in> set ord. s < length (mt_nodes t) \<Longrightarrow> entries u ord = entries t ord"
  using same_data_nth by (simp add: entries_def)

lemma mac_inv_bound: "mac_inv t ord \<Longrightarrow> s \<in> set ord \<Longrightarrow> s < length (mt_nodes t)"
  unfolding mac_inv_def by auto

lemma mac_inv_inj: "mac_inv t ord \<Longrightarrow> inj_on (\<lambda>s. n_mac (mt_nodes t ! s)) (set ord)"
  unfolding mac_inv_def inj_on_def by (metis option.inject)

lemma mac_inv_distinct: "mac_inv t ord \<Longrightarrow> distinct (map fst (entries t ord))"
  using mac_inv_inj by (auto simp: entries_def distinct_map mac_inv_def comp_def linked_def)

lemma mac_inv_card:
  assumes "mac_inv t ord"
  shows "card (dom (mt_index t)) = length ord"
proof -
  have "dom (mt_index t) = (\<lambda>s. n_mac (mt_nodes t ! s)) ` set ord" using assms by (auto simp: mac_inv_def dom_def)
  then show ?thesis using card_image [OF mac_inv_inj [OF assms]] assms by (simp add: mac_inv_def linked_def distinct_card)
qed

lemma mac_remove_inv:
  assumes inv: "mac_inv t ord"
  shows "\<exists>t' ord'. mac_remove m t = Some t' \<and> mac_inv t' ord' \<and> mt_capacity t' = mt_capacity t \<and> mt_ttl t' = mt_ttl t \<and>
    entries t' ord' = filter (\<lambda>(k, _). k \<noteq> m) (entries t ord)"
proof (cases "mt_index t m")
  case None
  then have "\<forall>s \<in> set ord. n_mac (mt_nodes t ! s) \<noteq> m" using inv unfolding mac_inv_def by (metis option.simps(3))
  then have "filter (\<lambda>(k, _). k \<noteq> m) (entries t ord) = entries t ord" by (auto simp: entries_def filter_id_conv)
  then show ?thesis using None inv by (intro exI [of _ t] exI [of _ ord]) (simp add: mac_remove_def)
next
  case (Some s)
  then have s: "s \<in> set ord" "n_mac (mt_nodes t ! s) = m" using inv unfolding mac_inv_def by metis+
  then obtain xs ys where ord: "ord = xs @ s # ys" using split_list by fastforce
  let ?t = "t\<lparr>mt_index := (mt_index t)(m := None)\<rparr>"
  have "linked ?t (xs @ s # ys)" using inv ord by (simp add: mac_inv_def linked_def)
  then obtain t1 where t1: "unlink s ?t = Some t1" "linked t1 (xs @ ys)" "same_data ?t t1"
    using unlink_linked by blast
  let ?u = "t1\<lparr>mt_free := mt_free t1 @ [s]\<rparr>"
  have ns: "n_mac (mt_nodes t1 ! i) = n_mac (mt_nodes t ! i) \<and> n_entry (mt_nodes t1 ! i) = n_entry (mt_nodes t ! i)"
    if "i \<in> set ord" for i using same_data_nth [OF t1(3), of i] mac_inv_bound [OF inv that] by simp
  have len: "length (mt_nodes t1) = length (mt_nodes t)" using same_data_length [OF t1(3)] by simp
  have other: "n_mac (mt_nodes t ! i) \<noteq> m" if "i \<in> set (xs @ ys)" for i
    using mac_inv_inj [OF inv] that ord s inv by (auto simp: inj_on_def mac_inv_def linked_def)
  have idx: "mt_index ?u k = Some i \<longleftrightarrow> i \<in> set (xs @ ys) \<and> n_mac (mt_nodes ?u ! i) = k" for k i
  proof -
    have "mt_index ?u k = Some i \<longleftrightarrow> k \<noteq> m \<and> i \<in> set ord \<and> n_mac (mt_nodes t ! i) = k"
      using t1(3) inv by (auto simp: same_data_def mac_inv_def)
    also have "\<dots> \<longleftrightarrow> i \<in> set (xs @ ys) \<and> n_mac (mt_nodes t ! i) = k" using other s(2) ord by auto
    also have "\<dots> \<longleftrightarrow> i \<in> set (xs @ ys) \<and> n_mac (mt_nodes ?u ! i) = k" using ns ord by auto
    finally show ?thesis .
  qed
  have fr: "mt_free ?u = mt_free t @ [s]" "mt_capacity ?u = mt_capacity t" "mt_ttl ?u = mt_ttl t" using t1(3) by (simp_all add: same_data_def)
  have "mac_inv ?u (xs @ ys)"
    unfolding mac_inv_def fr using idx t1(2) inv ord len by (auto simp: mac_inv_def linked_def)
  moreover have "entries ?u (xs @ ys) = filter (\<lambda>(k, _). k \<noteq> m) (entries t ord)"
    using ns other s(2) ord by (auto simp: entries_def filter_map comp_def filter_id_conv intro!: map_cong)
  moreover have "mac_remove m t = Some ?u" using Some t1(1) by (simp add: mac_remove_def)
  ultimately show ?thesis using fr by blast
qed

lemma filter_last_key:
  assumes "distinct (map fst (xs @ [(k, v)]))"
  shows "filter (\<lambda>(j, _). j \<noteq> k) (xs @ [(k, v)]) = xs"
  using assms by (auto simp: filter_id_conv image_iff)

lemma evict_tail_inv:
  assumes inv: "mac_inv t ord"
  shows "\<exists>t' ord'. evict_tail t = Some t' \<and> mac_inv t' ord' \<and> mt_capacity t' = mt_capacity t \<and> mt_ttl t' = mt_ttl t \<and>
    entries t' ord' = butlast (entries t ord)"
proof (cases ord rule: rev_cases)
  case Nil
  then show ?thesis using inv
    by (intro exI [of _ t] exI [of _ ord]) (simp add: evict_tail_def mac_inv_def linked_def entries_def)
next
  case (snoc xs s)
  have s: "mt_tail t = Some s" "s < length (mt_nodes t)"
    using inv snoc mac_inv_bound [OF inv, of s] by (simp_all add: mac_inv_def linked_def)
  have e: "entries t ord = entries t xs @ [(n_mac (mt_nodes t ! s), n_entry (mt_nodes t ! s))]"
    using snoc by (simp add: entries_def)
  have "filter (\<lambda>(k, _). k \<noteq> n_mac (mt_nodes t ! s)) (entries t ord) = butlast (entries t ord)"
    using filter_last_key mac_inv_distinct [OF inv] unfolding e by simp
  then show ?thesis using mac_remove_inv [OF inv, of "n_mac (mt_nodes t ! s)"] s by (simp add: evict_tail_def)
qed

lemma alloc_inv:
  assumes inv: "mac_inv t ord" and room: "length ord < mt_capacity t"
  shows "\<exists>s t'. alloc m e t = Some (s, t') \<and> s \<notin> set ord \<and> s < length (mt_nodes t') \<and> linked t' ord \<and>
    mt_index t' = mt_index t \<and> mt_capacity t' = mt_capacity t \<and> mt_ttl t' = mt_ttl t \<and>
    n_mac (mt_nodes t' ! s) = m \<and> n_entry (mt_nodes t' ! s) = e \<and>
    (\<forall>i \<in> set ord. mt_nodes t' ! i = mt_nodes t ! i) \<and>
    distinct (mt_free t' @ s # ord) \<and> set (mt_free t' @ s # ord) = {..<length (mt_nodes t')} \<and>
    length (mt_nodes t') \<le> mt_capacity t'"
proof (cases "mt_free t" rule: rev_cases)
  case Nil
  let ?n = "\<lparr>n_mac = m, n_entry = e, n_prev = None, n_next = None\<rparr>"
  let ?t = "t\<lparr>mt_nodes := mt_nodes t @ [?n]\<rparr>"
  have ord: "set ord = {..<length (mt_nodes t)}" "distinct ord" using inv Nil by (simp_all add: mac_inv_def)
  have len: "length (mt_nodes t) < mt_capacity t" using distinct_card [OF ord(2)] ord(1) room by simp
  have lk: "linked ?t ord" using inv seg_grow by (simp add: mac_inv_def linked_def)
  have al: "alloc m e t = Some (length (mt_nodes t), ?t)" using Nil by (simp add: alloc_def Let_def)
  have st: "set (mt_free ?t @ length (mt_nodes t) # ord) = {..<length (mt_nodes ?t)}"
    using ord(1) Nil by (simp add: lessThan_Suc)
  have nm: "length (mt_nodes t) \<notin> set ord" "\<forall>i \<in> set ord. (mt_nodes t @ [?n]) ! i = mt_nodes t ! i"
    using ord(1) by (simp_all add: nth_append)
  show ?thesis
    by (intro exI [of _ "length (mt_nodes t)"] exI [of _ ?t] conjI, rule al, rule nm, simp, rule lk)
       (use len st nm ord(2) Nil in simp_all)
next
  case (snoc fr s)
  let ?n = "\<lparr>n_mac = m, n_entry = e, n_prev = None, n_next = None\<rparr>"
  let ?t = "t\<lparr>mt_free := fr, mt_nodes := (mt_nodes t)[s := ?n]\<rparr>"
  have s: "s < length (mt_nodes t)" "s \<notin> set ord" "distinct (fr @ s # ord)" "set (fr @ s # ord) = {..<length (mt_nodes t)}"
    using inv snoc by (auto simp: mac_inv_def)
  have "linked ?t ord" using inv s(2) seg_frame by (simp add: mac_inv_def linked_def)
  moreover have "alloc m e t = Some (s, ?t)" using snoc s(1) by (simp add: alloc_def Let_def upd_node_def)
  moreover have "\<forall>i \<in> set ord. (mt_nodes t)[s := ?n] ! i = mt_nodes t ! i" using s(2) by (metis nth_list_update_neq)
  ultimately show ?thesis using s inv by (intro exI [of _ s] exI [of _ ?t]) (auto simp: mac_inv_def)
qed

lemma insert_inv:
  assumes inv: "mac_inv t ord" and room: "length ord < mt_capacity t" and fresh: "mt_index t m = None"
  shows "\<exists>s t2 t' ord'. alloc m e t = Some (s, t2) \<and> push_front s (t2\<lparr>mt_index := (mt_index t2)(m \<mapsto> s)\<rparr>) = Some t' \<and>
    mac_inv t' ord' \<and> mt_capacity t' = mt_capacity t \<and> mt_ttl t' = mt_ttl t \<and> entries t' ord' = (m, e) # entries t ord"
proof -
  obtain s t2 where a: "alloc m e t = Some (s, t2)" "s \<notin> set ord" "s < length (mt_nodes t2)" "linked t2 ord"
    "mt_index t2 = mt_index t" "mt_capacity t2 = mt_capacity t" "mt_ttl t2 = mt_ttl t"
    "n_mac (mt_nodes t2 ! s) = m" "n_entry (mt_nodes t2 ! s) = e" "\<forall>i \<in> set ord. mt_nodes t2 ! i = mt_nodes t ! i"
    "distinct (mt_free t2 @ s # ord)" "set (mt_free t2 @ s # ord) = {..<length (mt_nodes t2)}"
    "length (mt_nodes t2) \<le> mt_capacity t2"
    using alloc_inv [OF inv room, of m e] by blast
  let ?t = "t2\<lparr>mt_index := (mt_index t2)(m \<mapsto> s)\<rparr>"
  have "linked ?t ord" "s < length (mt_nodes ?t)" using a(3,4) by (simp_all add: linked_def)
  then obtain t' where t': "push_front s ?t = Some t'" "linked t' (s # ord)" "same_data ?t t'"
    using push_front_linked a(2) by blast
  have bound: "\<forall>i \<in> set (s # ord). i < length (mt_nodes t2)" using a(12) by auto
  have ns: "n_mac (mt_nodes t' ! i) = n_mac (mt_nodes t2 ! i) \<and> n_entry (mt_nodes t' ! i) = n_entry (mt_nodes t2 ! i)"
    if "i \<in> set (s # ord)" for i using same_data_nth [OF t'(3), of i] bspec [OF bound that] by simp
  have sel: "mt_free t' = mt_free t2" "mt_capacity t' = mt_capacity t2" "mt_ttl t' = mt_ttl t2" "mt_index t' = (mt_index t)(m \<mapsto> s)"
    "length (mt_nodes t') = length (mt_nodes t2)"
    using t'(3) a(5) same_data_length [OF t'(3)] by (simp_all add: same_data_def)
  have old: "n_mac (mt_nodes t ! i) \<noteq> m" if "i \<in> set ord" for i
    using inv fresh that unfolding mac_inv_def by (metis option.simps(3))
  have "mt_index t' k = Some i \<longleftrightarrow> i \<in> set (s # ord) \<and> n_mac (mt_nodes t' ! i) = k" for k i
  proof -
    have "mt_index t k = Some i \<longleftrightarrow> i \<in> set ord \<and> n_mac (mt_nodes t ! i) = k" using inv unfolding mac_inv_def by blast
    then show ?thesis using ns a(2,8,10) old sel(4) by (cases "k = m"; cases "i = s") auto
  qed
  then have "mac_inv t' (s # ord)"
    using t'(2) a(11-13) room sel a(6) unfolding mac_inv_def by (simp add: Suc_le_eq)
  moreover have "entries t' (s # ord) = (m, e) # entries t ord" using ns a(8-10) by (simp add: entries_def)
  ultimately show ?thesis using a(1,6,7) t'(1) sel by metis
qed

lemma refresh_inv:
  assumes inv: "mac_inv t ord" and s: "mt_index t m = Some s"
  shows "\<exists>t1 t' ord'. upd_node s (\<lambda>x. x\<lparr>n_entry := e\<rparr>) t = Some t1 \<and> move_to_front s t1 = Some t' \<and> mac_inv t' ord' \<and>
    mt_capacity t' = mt_capacity t \<and> mt_ttl t' = mt_ttl t \<and>
    entries t' ord' = (m, e) # filter (\<lambda>(k, _). k \<noteq> m) (entries t ord)"
proof -
  have so: "s \<in> set ord" "n_mac (mt_nodes t ! s) = m" using inv s unfolding mac_inv_def by metis+
  have sl: "s < length (mt_nodes t)" using mac_inv_bound [OF inv so(1)] .
  let ?t1 = "t\<lparr>mt_nodes := (mt_nodes t)[s := (mt_nodes t ! s)\<lparr>n_entry := e\<rparr>]\<rparr>"
  obtain xs ys where ord: "ord = xs @ s # ys" using so(1) split_list by fastforce
  have l1: "linked ?t1 (xs @ s # ys)" using inv ord seg_entry [of "mt_nodes t"] unfolding mac_inv_def linked_def by simp
  have n1: "n_mac (mt_nodes ?t1 ! i) = n_mac (mt_nodes t ! i)" "i \<noteq> s \<Longrightarrow> n_entry (mt_nodes ?t1 ! i) = n_entry (mt_nodes t ! i)" for i
    using sl by (cases "i = s"; simp)+
  have "\<exists>t'. move_to_front s ?t1 = Some t' \<and> linked t' (s # xs @ ys) \<and> same_data ?t1 t'"
  proof (cases xs)
    case Nil
    then show ?thesis using l1 sl by (intro exI [of _ ?t1]) (simp add: move_to_front_def linked_def)
  next
    case (Cons x xs')
    then have ne: "mt_head ?t1 \<noteq> Some s" using l1 by (auto simp: linked_def)
    obtain u where u: "unlink s ?t1 = Some u" "linked u (xs @ ys)" "same_data ?t1 u" using unlink_linked [OF l1] by blast
    have "s < length (mt_nodes u)" "s \<notin> set (xs @ ys)" using same_data_length [OF u(3)] sl l1 by (auto simp: linked_def)
    then show ?thesis using push_front_linked [OF u(2)] u ne same_data_trans [OF u(3)] by (auto simp: move_to_front_def)
  qed
  then obtain t' where t': "move_to_front s ?t1 = Some t'" "linked t' (s # xs @ ys)" "same_data ?t1 t'" by blast
  have ns: "n_mac (mt_nodes t' ! i) = n_mac (mt_nodes ?t1 ! i) \<and> n_entry (mt_nodes t' ! i) = n_entry (mt_nodes ?t1 ! i)"
    if "i \<in> set ord" for i using same_data_nth [OF t'(3), of i] mac_inv_bound [OF inv that] by simp
  have sel: "mt_free t' = mt_free t" "mt_capacity t' = mt_capacity t" "mt_ttl t' = mt_ttl t" "mt_index t' = mt_index t"
    "length (mt_nodes t') = length (mt_nodes t)" using t'(3) same_data_length [OF t'(3)] by (simp_all add: same_data_def)
  have perm: "set (s # xs @ ys) = set ord" "length (s # xs @ ys) = length ord" using ord by auto
  have "mt_index t' k = Some i \<longleftrightarrow> i \<in> set (s # xs @ ys) \<and> n_mac (mt_nodes t' ! i) = k" for k i
  proof -
    have "mt_index t k = Some i \<longleftrightarrow> i \<in> set ord \<and> n_mac (mt_nodes t ! i) = k" using inv unfolding mac_inv_def by blast
    then show ?thesis unfolding perm sel using ns [of i] n1 [of i] by auto
  qed
  then have "mac_inv t' (s # xs @ ys)"
    using inv t'(2) perm sel ord unfolding mac_inv_def by auto
  moreover have "n_mac (mt_nodes t ! i) \<noteq> m" if "i \<in> set (xs @ ys)" for i
    using mac_inv_inj [OF inv] that ord so inv by (auto simp: inj_on_def mac_inv_def linked_def)
  then have "entries t' (s # xs @ ys) = (m, e) # filter (\<lambda>(k, _). k \<noteq> m) (entries t ord)"
  proof -
    have "s \<notin> set (xs @ ys)" using inv ord by (auto simp: mac_inv_def linked_def)
    then have "(n_mac (mt_nodes t' ! i), n_entry (mt_nodes t' ! i)) = (n_mac (mt_nodes t ! i), n_entry (mt_nodes t ! i))"
      if "i \<in> set (xs @ ys)" for i
    proof -
      have "i \<noteq> s" "i \<in> set ord" using that \<open>s \<notin> set (xs @ ys)\<close> ord by auto
      then show ?thesis using ns [of i] n1 [of i] by simp
    qed
    then show ?thesis
      using \<open>\<And>i. i \<in> set (xs @ ys) \<Longrightarrow> n_mac (mt_nodes t ! i) \<noteq> m\<close> ns [OF so(1)] n1(1) [of s] sl so(2) ord
      by (simp add: entries_def filter_map comp_def filter_id_conv)
  qed
  ultimately show ?thesis using t'(1) sel sl by (intro exI [of _ ?t1] exI [of _ t'] exI [of _ "s # xs @ ys"]) (simp add: upd_node_def)
qed

lemma remove_all_inv:
  assumes "mac_inv t ord"
  shows "\<exists>t' ord'. remove_all ms t = Some t' \<and> mac_inv t' ord' \<and> mt_capacity t' = mt_capacity t \<and> mt_ttl t' = mt_ttl t \<and>
    entries t' ord' = filter (\<lambda>(k, _). k \<notin> set ms) (entries t ord)"
  using assms
proof (induction ms arbitrary: t ord)
  case Nil
  then show ?case by (intro exI [of _ t] exI [of _ ord]) (simp add: case_prod_unfold)
next
  case (Cons m ms)
  obtain t1 ord1 where t1: "mac_remove m t = Some t1" "mac_inv t1 ord1" "mt_capacity t1 = mt_capacity t" "mt_ttl t1 = mt_ttl t"
    "entries t1 ord1 = filter (\<lambda>(k, _). k \<noteq> m) (entries t ord)"
    using mac_remove_inv [OF Cons.prems] by blast
  obtain t2 ord2 where "remove_all ms t1 = Some t2" "mac_inv t2 ord2" "mt_capacity t2 = mt_capacity t1" "mt_ttl t2 = mt_ttl t1"
    "entries t2 ord2 = filter (\<lambda>(k, _). k \<notin> set ms) (entries t1 ord1)" using Cons.IH [OF t1(2)] by blast
  then show ?case using t1 by (intro exI [of _ t2] exI [of _ ord2]) (simp add: case_prod_unfold conj_commute)
qed

text \<open>The specification: entries with distinct keys, most recently learned first, and what learning does to them.\<close>

definition recency :: "nat \<Rightarrow> bytes \<Rightarrow> MacEntry \<Rightarrow> (bytes \<times> MacEntry) list \<Rightarrow> (bytes \<times> MacEntry) list" where
  "recency cap m e l = (m, e) # take (cap - 1) (filter (\<lambda>(k, _). k \<noteq> m) l)"

definition fresh_entry :: "nat \<Rightarrow> nat \<Rightarrow> MacEntry \<Rightarrow> bool" where
  "fresh_entry ttl now e \<longleftrightarrow> now - me_seen e \<le> ttl"

definition mac_rel :: "nat \<Rightarrow> nat \<Rightarrow> MacTable \<Rightarrow> (bytes \<times> MacEntry) list \<Rightarrow> bool" where
  "mac_rel cap ttl t l \<longleftrightarrow> mt_capacity t = cap \<and> mt_ttl t = ttl \<and> (\<exists>ord. mac_inv t ord \<and> l = entries t ord)"

lemma mac_relI: "mac_inv t ord \<Longrightarrow> mt_capacity t = cap \<Longrightarrow> mt_ttl t = ttl \<Longrightarrow> entries t ord = l \<Longrightarrow> mac_rel cap ttl t l"
  by (auto simp: mac_rel_def)

lemma mac_rel_new: "mac_rel cap ttl (mac_table_new cap ttl) []"
  unfolding mac_rel_def by (auto simp: mac_inv_def linked_def mac_table_new_def entries_def intro!: exI [of _ "[]"])

lemma mac_absent:
  assumes "mac_inv t ord" "mt_index t m = None"
  shows "m \<notin> fst ` set (entries t ord)"
proof -
  have "\<forall>s \<in> set ord. n_mac (mt_nodes t ! s) \<noteq> m" using assms unfolding mac_inv_def by (metis option.simps(3))
  then show ?thesis by (auto simp: entries_def)
qed

lemma entries_find:
  assumes "mac_inv t ord"
  shows "map_of (entries t ord) m = map_option (\<lambda>s. n_entry (mt_nodes t ! s)) (mt_index t m)"
proof (cases "mt_index t m")
  case None
  then show ?thesis using mac_absent [OF assms None] by (simp add: map_of_eq_None_iff)
next
  case (Some s)
  then have "(m, n_entry (mt_nodes t ! s)) \<in> set (entries t ord)" using assms by (auto simp: mac_inv_def entries_def)
  then show ?thesis using Some mac_inv_distinct [OF assms] by simp
qed

lemma learn_rel:
  assumes "mac_rel cap ttl t l" "is_learnable_source_mac m" "0 < cap"
  shows "\<exists>t'. learn m peer orig now t = Some t' \<and>
    mac_rel cap ttl t' (recency cap m \<lparr>me_peer = peer, me_seen = now, me_origin = orig\<rparr> l)"
proof -
  let ?e = "\<lparr>me_peer = peer, me_seen = now, me_origin = orig\<rparr>"
  obtain ord where t: "mac_inv t ord" "l = entries t ord" "mt_capacity t = cap" "mt_ttl t = ttl"
    using assms(1) by (auto simp: mac_rel_def)
  have le: "length l \<le> cap" using t by (simp add: mac_inv_def entries_def)
  show ?thesis
  proof (cases "mt_index t m")
    case (Some s)
    then have "(m, n_entry (mt_nodes t ! s)) \<in> set l" using t(1,2) by (auto simp: mac_inv_def entries_def)
    then have "length (filter (\<lambda>(k, _). k \<noteq> m) l) < length l" by (rule length_filter_less) simp
    then have "recency cap m ?e l = (m, ?e) # filter (\<lambda>(k, _). k \<noteq> m) l" using le by (simp add: recency_def)
    moreover obtain t1 t' ord' where "upd_node s (\<lambda>x. x\<lparr>n_entry := ?e\<rparr>) t = Some t1" "move_to_front s t1 = Some t'" "mac_inv t' ord'"
      "mt_capacity t' = cap" "mt_ttl t' = ttl" "entries t' ord' = (m, ?e) # filter (\<lambda>(k, _). k \<noteq> m) l"
      using refresh_inv [OF t(1) Some, of ?e] t(2-4) by auto
    ultimately show ?thesis using Some assms(2,3) t(3) by (intro exI [of _ t'] conjI mac_relI) (simp_all add: learn_def)
  next
    case None
    have keep: "filter (\<lambda>(k, _). k \<noteq> m) l = l"
      using mac_absent [OF t(1) None] t(2) by (auto simp: filter_id_conv image_iff)
    obtain t1 ord1 where t1: "(if card (dom (mt_index t)) \<ge> mt_capacity t then evict_tail t else Some t) = Some t1"
      "mac_inv t1 ord1" "mt_capacity t1 = cap" "mt_ttl t1 = ttl" "entries t1 ord1 = take (cap - 1) l"
    proof (cases "card (dom (mt_index t)) \<ge> mt_capacity t")
      case True
      then have "length l = cap" using mac_inv_card [OF t(1)] le t by (simp add: entries_def)
      then show ?thesis using evict_tail_inv [OF t(1)] True t that by (auto simp: butlast_conv_take)
    next
      case False
      then have "length l < cap" using mac_inv_card [OF t(1)] t by (simp add: entries_def)
      then show ?thesis using False t that [of t ord] by simp
    qed
    have "length (take (cap - 1) l) < cap" using assms(3) by simp
    then have room: "length ord1 < mt_capacity t1" using t1(3,5) by (metis entries_def length_map)
    have "map_of (entries t1 ord1) m = None"
      using keep t1(5) by (auto simp: map_of_eq_None_iff filter_id_conv dest!: in_set_takeD)
    then have "mt_index t1 m = None" using entries_find [OF t1(2)] by simp
    then obtain s t2 t' ord' where "alloc m ?e t1 = Some (s, t2)" "push_front s (t2\<lparr>mt_index := (mt_index t2)(m \<mapsto> s)\<rparr>) = Some t'"
      "mac_inv t' ord'" "mt_capacity t' = cap" "mt_ttl t' = ttl" "entries t' ord' = (m, ?e) # take (cap - 1) l"
      using insert_inv [OF t1(2) room, of m ?e] t1(3-5) by auto
    moreover from this(1,2) have "learn m peer orig now t = Some t'"
      using None assms(2,3) t(3) t1(1) by (simp add: learn_def)
    ultimately show ?thesis using keep by (intro exI [of _ t'] conjI mac_relI) (simp_all add: recency_def)
  qed
qed

lemma sweep_rel:
  assumes "mac_rel cap ttl t l" "set (iter (mt_index t)) = dom (mt_index t)"
  shows "\<exists>t'. mac_sweep iter now t = Some t' \<and> mac_rel cap ttl t' (filter (\<lambda>(_, e). fresh_entry ttl now e) l)"
proof -
  obtain ord where t: "mac_inv t ord" "l = entries t ord" "mt_capacity t = cap" "mt_ttl t = ttl"
    using assms(1) by (auto simp: mac_rel_def)
  let ?old = "\<lambda>m. now - me_seen (n_entry (mt_nodes t ! the (mt_index t m))) > mt_ttl t"
  have slot: "the (mt_index t m) < length (mt_nodes t)" if m: "m \<in> dom (mt_index t)" for m
  proof -
    obtain s where s: "mt_index t m = Some s" using m by blast
    then have "s \<in> set ord" using t(1) by (simp add: mac_inv_def)
    then show ?thesis using mac_inv_bound [OF t(1)] s by simp
  qed
  have "k \<notin> set (filter ?old (iter (mt_index t))) \<longleftrightarrow> fresh_entry ttl now e" if ke: "(k, e) \<in> set l" for k e
  proof -
    obtain s where s: "s \<in> set ord" "k = n_mac (mt_nodes t ! s)" "e = n_entry (mt_nodes t ! s)" using ke unfolding t(2) entries_def by auto
    then have "mt_index t k = Some s" using t(1) by (simp add: mac_inv_def)
    then show ?thesis using s(3) assms(2) t(4) by (auto simp: fresh_entry_def)
  qed
  then have "filter (\<lambda>(k, _). k \<notin> set (filter ?old (iter (mt_index t)))) l = filter (\<lambda>(_, e). fresh_entry ttl now e) l"
    by (intro filter_cong refl) auto
  moreover have "mac_sweep iter now t = remove_all (filter ?old (iter (mt_index t))) t"
    using slot assms(2) by (auto simp: mac_sweep_def Let_def not_le [symmetric])
  moreover obtain t' ord' where "remove_all (filter ?old (iter (mt_index t))) t = Some t'" "mac_inv t' ord'"
    "mt_capacity t' = cap" "mt_ttl t' = ttl" "entries t' ord' = filter (\<lambda>(k, _). k \<notin> set (filter ?old (iter (mt_index t)))) l"
    using remove_all_inv [OF t(1), of "filter ?old (iter (mt_index t))"] t(2-4) by blast
  ultimately show ?thesis by (intro exI [of _ t'] conjI mac_relI) simp_all
qed

section \<open>Properties\<close>

text \<open>C39: the MAC table implements a bounded recency list. Starting from the empty table, which stands for the
  empty list, no operation panics; learning a unicast address moves it to the front with its new
  entry and drops the least recently learned entry exactly when the table is full; other addresses
  are never learned; a lookup returns the entry of the address while it is fresh; and a sweep, in
  whatever order the hash map is iterated, removes exactly the entries that are not.\<close>

theorem mac_table_refines_recency_list:
  assumes "mac_rel cap ttl t l" "set (iter (mt_index t)) = dom (mt_index t)"
  shows "mac_rel cap ttl (mac_table_new cap ttl) [] \<and> length l \<le> cap \<and> distinct (map fst l) \<and>
    (\<exists>t'. learn m peer orig now t = Some t' \<and>
       mac_rel cap ttl t' (if is_learnable_source_mac m \<and> 0 < cap
                           then recency cap m \<lparr>me_peer = peer, me_seen = now, me_origin = orig\<rparr> l else l)) \<and>
    mac_lookup m now t = Some (case map_of l m of None \<Rightarrow> None | Some e \<Rightarrow> if fresh_entry ttl now e then Some e else None) \<and>
    (\<exists>t'. mac_sweep iter now t = Some t' \<and> mac_rel cap ttl t' (filter (\<lambda>(_, e). fresh_entry ttl now e) l))"
proof -
  obtain ord where t: "mac_inv t ord" "l = entries t ord" "mt_capacity t = cap" "mt_ttl t = ttl"
    using assms(1) by (auto simp: mac_rel_def)
  have "length l \<le> cap" "distinct (map fst l)" using t mac_inv_distinct [OF t(1)] by (simp_all add: mac_inv_def entries_def)
  moreover have "mac_lookup m now t = Some (case map_of l m of None \<Rightarrow> None | Some e \<Rightarrow> if fresh_entry ttl now e then Some e else None)"
  proof (cases "mt_index t m")
    case None
    then show ?thesis using entries_find [OF t(1), of m] t(2) by (simp add: mac_lookup_def)
  next
    case (Some s)
    then have "s < length (mt_nodes t)" using t(1) mac_inv_bound [OF t(1)] by (auto simp: mac_inv_def)
    then show ?thesis using Some entries_find [OF t(1), of m] t(2,4) by (simp add: mac_lookup_def fresh_entry_def Let_def)
  qed
  moreover have "\<exists>t'. learn m peer orig now t = Some t' \<and>
       mac_rel cap ttl t' (if is_learnable_source_mac m \<and> 0 < cap
                           then recency cap m \<lparr>me_peer = peer, me_seen = now, me_origin = orig\<rparr> l else l)"
    using learn_rel [OF assms(1)] assms(1) by (auto simp: learn_def mac_rel_def)
  ultimately show ?thesis using mac_rel_new sweep_rel [of cap ttl t l iter now] assms by blast
qed

theorem mac_table_refines_recency_list_witness:
  "\<exists>t'. learn [2, 0, 0, 0, 0, 1] 7 Peer 50 (mac_table_new 4 100) = Some t' \<and>
     mac_rel 4 100 t' [([2, 0, 0, 0, 0, 1], \<lparr>me_peer = 7, me_seen = 50, me_origin = Peer\<rparr>)]"
proof -
  have "is_learnable_source_mac [2, 0, 0, 0, 0, 1]" by code_simp
  moreover have "set ((\<lambda>_. []) (mt_index (mac_table_new 4 100))) = dom (mt_index (mac_table_new 4 100))"
    by (simp add: mac_table_new_def)
  ultimately show ?thesis
    using mac_table_refines_recency_list [OF mac_rel_new, of "\<lambda>_. []" 4 100 "[2, 0, 0, 0, 0, 1]" 7 Peer 50]
    by (simp add: recency_def)
qed

end
