(* ===== verification/Obf.thy ===== *)
theory Obf
  imports Prelude
begin

text \<open>
  The obfuscation envelope of \<^verbatim>\<open>crates/yip-obf/src/lib.rs\<close>: the junk generator, the keystream mask, the
  envelope and its inverse, and the length buckets of the traffic defence. SipHash-2-4 and BLAKE2s are the
  parameters \<open>sip\<close> and \<open>b2s\<close>; the nonce the source draws from the operating system is an argument.
\<close>

unbundle bit_operations_syntax

section \<open>Junk generator\<close>

definition NONCE_LEN :: nat where "NONCE_LEN = 8"

definition MIN_ENVELOPE :: nat where "MIN_ENVELOPE = NONCE_LEN + 3"

definition RDV_TYPE :: u8 where "RDV_TYPE = 5"

definition JUNK_TYPE :: u8 where "JUNK_TYPE = 6"

record XorShift64 =
  xs_state :: u64

definition ensure_nonzero :: "u64 \<Rightarrow> u64" where
  "ensure_nonzero seed = seed OR 1"

definition from_seed :: "u64 \<Rightarrow> XorShift64" where
  "from_seed seed = \<lparr>xs_state = ensure_nonzero seed\<rparr>"

definition next_u64 :: "XorShift64 \<Rightarrow> u64 \<times> XorShift64" where
  "next_u64 g =
     (let x = xs_state g;
          x = x XOR drop_bit 12 x;
          x = x XOR push_bit 25 x;
          x = x XOR drop_bit 27 x
      in (x * 0x2545F4914F6CDD1D, g\<lparr>xs_state := x\<rparr>))"

text \<open>\<open>hi - lo + 1\<close> wraps to 0 for the full range, and the remainder by 0 panics.\<close>

definition gen_range :: "u64 \<Rightarrow> u64 \<Rightarrow> XorShift64 \<Rightarrow> (u64 \<times> XorShift64) exec" where
  "gen_range lo hi_inclusive g =
     (if lo \<ge> hi_inclusive then Some (lo, g)
      else let span = hi_inclusive - lo + 1
           in if span = 0 then None
              else case next_u64 g of (v, g') \<Rightarrow> Some (lo + v mod span, g'))"

function xs_fill :: "nat \<Rightarrow> XorShift64 \<Rightarrow> bytes \<times> XorShift64" where
  "xs_fill n g =
     (if n = 0 then ([], g)
      else case next_u64 g of (v, g') \<Rightarrow>
             case xs_fill (n - 8) g' of (rest, g'') \<Rightarrow> (take n (le_bytes 8 (unat v)) @ rest, g''))"
  by auto
termination
  by (relation "measure fst") auto

section \<open>Envelope\<close>

definition DOMAIN :: bytes where
  "DOMAIN = map (of_nat \<circ> of_char) ''yip-obf-v1''"

definition derive_key :: "(bytes \<Rightarrow> bytes) \<Rightarrow> bytes \<Rightarrow> bytes" where
  "derive_key b2s psk = b2s (DOMAIN @ psk)"

text \<open>The loop of \<open>keystream\<close>: blocks are appended until \<open>n\<close> bytes are there.\<close>

function ks_loop :: "(bytes \<Rightarrow> bytes \<Rightarrow> u64) \<Rightarrow> bytes \<Rightarrow> bytes \<Rightarrow> nat \<Rightarrow> u64 \<Rightarrow> bytes \<Rightarrow> bytes" where
  "ks_loop sip key nonce n counter out =
     (if length out < n then ks_loop sip key nonce n (counter + 1) (out @ be64 (sip key (nonce @ be64 counter))) else out)"
  by auto
termination
  by (relation "measure (\<lambda>(sip, key, nonce, n, counter, out). n - length out)") auto

definition keystream :: "(bytes \<Rightarrow> bytes \<Rightarrow> u64) \<Rightarrow> bytes \<Rightarrow> bytes \<Rightarrow> nat \<Rightarrow> bytes" where
  "keystream sip key nonce n = take n (ks_loop sip key nonce n 0 [])"

text \<open>The loop of \<open>obfuscate_into\<close> over \<^verbatim>\<open>chunks_mut(8)\<close>.\<close>

function mask_chunks :: "(bytes \<Rightarrow> bytes \<Rightarrow> u64) \<Rightarrow> bytes \<Rightarrow> bytes \<Rightarrow> u64 \<Rightarrow> bytes \<Rightarrow> bytes" where
  "mask_chunks sip key nonce counter buf =
     (if buf = [] then []
      else map2 (XOR) (take 8 buf) (be64 (sip key (nonce @ be64 counter))) @
           mask_chunks sip key nonce (counter + 1) (drop 8 buf))"
  by auto
termination
  by (relation "measure (\<lambda>(sip, key, nonce, counter, buf). length buf)") auto

definition obfuscate_into ::
    "(bytes \<Rightarrow> bytes \<Rightarrow> u64) \<Rightarrow> bytes \<Rightarrow> bytes \<Rightarrow> u8 \<Rightarrow> bytes \<Rightarrow> nat \<Rightarrow> bool \<times> bytes" where
  "obfuscate_into sip nonce key ptype body pad_len =
     (if length body > 65535 then (False, [])
      else (True, nonce @ mask_chunks sip key nonce 0
                    ([ptype] @ be16 (of_nat (length body)) @ body @ replicate pad_len 0)))"

definition obfuscate ::
    "(bytes \<Rightarrow> bytes \<Rightarrow> u64) \<Rightarrow> bytes \<Rightarrow> bytes \<Rightarrow> u8 \<Rightarrow> bytes \<Rightarrow> nat \<Rightarrow> bytes option" where
  "obfuscate sip nonce key ptype body pad_len =
     (case obfuscate_into sip nonce key ptype body pad_len of (ok, out) \<Rightarrow> if ok then Some out else None)"

definition deobfuscate :: "(bytes \<Rightarrow> bytes \<Rightarrow> u64) \<Rightarrow> bytes \<Rightarrow> bytes \<Rightarrow> (u8 \<times> bytes) option" where
  "deobfuscate sip key dg =
     (if length dg < MIN_ENVELOPE then None
      else let nonce = take NONCE_LEN dg; masked = drop NONCE_LEN dg;
               region = map2 (XOR) masked (keystream sip key nonce (length masked))
           in do {
             ptype \<leftarrow> byte_at region 0;
             len \<leftarrow> slice region 1 3;
             body \<leftarrow> slice region 3 (3 + unat (un16 len));
             Some (ptype, body)
           })"

section \<open>Traffic defence\<close>

datatype TrafficDefensePreset = Off | Balanced | Paranoid

fun default_buckets :: "TrafficDefensePreset \<Rightarrow> nat list" where
  "default_buckets Off = []"
| "default_buckets Balanced = [256, 512, 1024, 1420]"
| "default_buckets Paranoid = [512, 1420]"

fun default_cover_interval_ms :: "TrafficDefensePreset \<Rightarrow> nat option" where
  "default_cover_interval_ms Off = None"
| "default_cover_interval_ms Balanced = Some 500"
| "default_cover_interval_ms Paranoid = Some 150"

fun default_cover_burst_max :: "TrafficDefensePreset \<Rightarrow> nat" where
  "default_cover_burst_max Off = 1"
| "default_cover_burst_max Balanced = 2"
| "default_cover_burst_max Paranoid = 4"

fun default_jitter_max_ms :: "TrafficDefensePreset \<Rightarrow> nat" where
  "default_jitter_max_ms Off = 0"
| "default_jitter_max_ms Balanced = 2"
| "default_jitter_max_ms Paranoid = 4"

fun scan_buckets :: "nat \<Rightarrow> nat \<Rightarrow> nat list \<Rightarrow> nat" where
  "scan_buckets raw budget [] = max budget raw"
| "scan_buckets raw budget (b # bs) =
     (if b \<ge> raw then if b \<le> budget then b else max budget raw else scan_buckets raw budget bs)"

definition round_to_bucket :: "nat \<Rightarrow> nat list \<Rightarrow> nat \<Rightarrow> nat" where
  "round_to_bucket raw_wire_len buckets max_budget =
     (if buckets = [] then raw_wire_len else scan_buckets raw_wire_len max_budget buckets)"

section \<open>Masking\<close>

declare ks_loop.simps [simp del] mask_chunks.simps [simp del] xs_fill.simps [simp del]

text \<open>The stream both loops produce, block by block.\<close>

function blocks :: "(bytes \<Rightarrow> bytes \<Rightarrow> u64) \<Rightarrow> bytes \<Rightarrow> bytes \<Rightarrow> u64 \<Rightarrow> nat \<Rightarrow> bytes" where
  "blocks sip key nonce counter n =
     (if n = 0 then [] else be64 (sip key (nonce @ be64 counter)) @ blocks sip key nonce (counter + 1) (n - 8))"
  by auto
termination
  by (relation "measure (\<lambda>(sip, key, nonce, counter, n). n)") auto

declare blocks.simps [simp del]

lemma ks_loop_blocks: "ks_loop sip key nonce n c out = out @ blocks sip key nonce c (n - length out)"
proof (induction sip key nonce n c out rule: ks_loop.induct)
  case (1 sip key nonce n c out)
  show ?case
  proof (cases "length out < n")
    case True
    then show ?thesis
      using 1 [OF True] by (simp add: ks_loop.simps [of sip key nonce n c out] blocks.simps [of sip key nonce c "n - length out"])
  qed (simp add: ks_loop.simps [of sip key nonce n c out] blocks.simps)
qed

lemma length_blocks: "n \<le> length (blocks sip key nonce c n)"
proof (induction n arbitrary: c rule: less_induct)
  case (less n)
  show ?case using less [of "n - 8" "c + 1"] by (cases "n = 0") (simp_all add: blocks.simps [of _ _ _ c n])
qed

lemma mask_chunks_blocks: "mask_chunks sip key nonce c buf = map2 (XOR) buf (blocks sip key nonce c (length buf))"
proof (induction sip key nonce c buf rule: mask_chunks.induct)
  case (1 sip key nonce c buf)
  show ?case
  proof (cases "buf = []")
    case True
    then show ?thesis by (simp add: mask_chunks.simps)
  next
    case False
    let ?b = "be64 (sip key (nonce @ be64 c))" and ?rest = "blocks sip key nonce (c + 1) (length buf - 8)"
    have "map2 (XOR) buf (?b @ ?rest) = map2 (XOR) (take 8 buf) ?b @ map2 (XOR) (drop 8 buf) ?rest"
      by (simp add: zip_append2)
    then show ?thesis
      using 1 [OF False] False
      by (simp add: mask_chunks.simps [of sip key nonce c buf] blocks.simps [of sip key nonce c "length buf"])
  qed
qed

lemma mask_keystream: "mask_chunks sip key nonce 0 buf = map2 (XOR) buf (keystream sip key nonce (length buf))"
proof -
  have "zip buf (take (length buf) xs) = zip buf xs" for xs :: bytes by (rule nth_equalityI) simp_all
  then show ?thesis by (simp add: mask_chunks_blocks keystream_def ks_loop_blocks)
qed

lemma length_keystream [simp]: "length (keystream sip key nonce n) = n"
  using length_blocks [of n sip key nonce 0] by (simp add: keystream_def ks_loop_blocks)

lemma map2_xor_twice: "length ks = length xs \<Longrightarrow> map2 (XOR) (map2 (XOR) xs ks) ks = (xs :: bytes)"
  by (rule nth_equalityI) (simp_all add: xor.assoc)

section \<open>Generator\<close>

lemma xor_eq_0: "(x :: u64) XOR y = 0 \<longleftrightarrow> x = y"
  by (auto simp: bit_eq_iff bit_xor_iff)

lemma xor_drop_nonzero: "0 < n \<Longrightarrow> (x :: u64) \<noteq> 0 \<Longrightarrow> x XOR drop_bit n x \<noteq> 0"
proof
  assume n: "0 < n" and x: "x \<noteq> 0" and eq: "x XOR drop_bit n x = 0"
  have "x = drop_bit n x" using eq by (simp only: xor_eq_0)
  from arg_cong [OF this, of unat] have "unat x = unat x div 2 ^ n" by (simp only: unat_drop_bit_eq) (simp only: drop_bit_eq_div)
  moreover have "0 < unat x" using x by (simp add: unat_gt_0)
  moreover have "(1 :: nat) < 2 ^ n" by (rule one_less_power) (use n in simp_all)
  then have "unat x div 2 ^ n < unat x" using calculation(2) by (rule div_less_dividend)
  ultimately show False by simp
qed

lemma xor_push_nonzero: "0 < n \<Longrightarrow> (x :: u64) \<noteq> 0 \<Longrightarrow> x XOR push_bit n x \<noteq> 0"
proof
  assume n: "0 < n" and x: "x \<noteq> 0" and eq: "x XOR push_bit n x = 0"
  have sx: "x = push_bit n x" using eq by (simp only: xor_eq_0)
  have "\<not> bit x i" for i
  proof (induction i rule: less_induct)
    case (less i)
    show ?case
    proof
      assume "bit x i"
      then have "bit (push_bit n x) i" using sx by simp
      then have "n \<le> i" "bit x (i - n)" by (simp_all add: bit_push_bit_iff)
      then show False using less [of "i - n"] n by simp
    qed
  qed
  then show False using x by (simp add: bit_eq_iff)
qed

lemma next_u64_state: "xs_state (snd (next_u64 g)) =
    (let x = xs_state g; x = x XOR drop_bit 12 x; x = x XOR push_bit 25 x in x XOR drop_bit 27 x)"
  by (simp only: next_u64_def Let_def snd_conv) (cases g, simp only: XorShift64.select_convs XorShift64.update_convs)

lemma next_u64_nonzero: "xs_state g \<noteq> 0 \<Longrightarrow> xs_state (snd (next_u64 g)) \<noteq> 0"
  unfolding next_u64_state Let_def by (intro xor_drop_nonzero xor_push_nonzero zero_less_numeral)

lemma ensure_nonzero_ok: "ensure_nonzero s \<noteq> 0"
proof
  assume "ensure_nonzero s = 0"
  then have "bit (s OR 1) 0 = bit (0 :: u64) 0" by (simp add: ensure_nonzero_def)
  then show False by (simp add: bit_or_iff)
qed

lemma range_offset:
  fixes lo hi v :: u64
  assumes "lo < hi" "hi - lo + 1 \<noteq> 0"
  shows "lo \<le> lo + v mod (hi - lo + 1) \<and> lo + v mod (hi - lo + 1) \<le> hi"
proof -
  let ?m = "v mod (hi - lo + 1)"
  have d: "unat (hi - lo) = unat hi - unat lo" using assms(1) by (simp add: unat_sub word_less_nat_alt word_le_nat_alt)
  have s: "unat (hi - lo + 1) = unat hi - unat lo + 1" using assms(2) d by (metis unat_eq_zero Suc_eq_plus1 add.commute plus_1_eq_Suc unatSuc)
  have m: "unat ?m \<le> unat hi - unat lo" using s mod_less_divisor [of "unat (hi - lo + 1)" "unat v"] by (simp add: unat_mod_distrib)
  have lt: "unat lo < unat hi" "unat hi < 2 ^ 64" using assms(1) unat_u64_less [of hi] by (simp_all add: word_less_nat_alt)
  have "unat (lo + ?m) = unat lo + unat ?m" using m lt by (subst unat_word_ariths) (simp add: unat_mod_distrib)
  then show ?thesis using m lt by (simp add: word_le_nat_alt)
qed

lemma full_span: "hi - lo + 1 = (0 :: u64) \<and> lo < hi \<longleftrightarrow> lo = 0 \<and> hi = - 1"
proof
  assume a: "hi - lo + 1 = 0 \<and> lo < hi"
  have "hi = lo - 1 + (hi - lo + 1)" by (simp add: algebra_simps)
  then have h: "hi = lo - 1" using a by simp
  show "lo = 0 \<and> hi = - 1"
  proof (cases "lo = 0")
    case False
    then have "lo - 1 < lo" by (simp add: word_less_nat_alt unat_gt_0 measure_unat)
    then show ?thesis using a h by simp
  qed (use h in simp)
qed (auto simp: word_neq_0_conv [symmetric])

section \<open>Buckets\<close>

lemma scan_buckets_exact:
  assumes "sorted bs" "raw \<le> budget"
  shows "raw \<le> scan_buckets raw budget bs \<and> scan_buckets raw budget bs \<le> budget \<and>
    scan_buckets raw budget bs \<in> insert budget (set bs) \<and> (\<forall>b \<in> set bs. raw \<le> b \<longrightarrow> scan_buckets raw budget bs \<le> b)"
  using assms by (induction bs) (auto simp: max_def)

lemma scan_buckets_mono: "sorted bs \<Longrightarrow> raw \<le> raw' \<Longrightarrow> raw' \<le> budget \<Longrightarrow> scan_buckets raw budget bs \<le> scan_buckets raw' budget bs"
proof (induction bs)
  case (Cons b bs)
  then show ?case using scan_buckets_exact [of bs raw' budget] by (auto simp: max_def)
qed simp

lemma obfuscate_opens:
  assumes "length nonce = 8"
  shows "if length body \<le> 65535
    then \<exists>dg. obfuscate sip nonce key ptype body pad_len = Some dg \<and> length dg = 11 + length body + pad_len \<and>
           take 8 dg = nonce \<and> deobfuscate sip key dg = Some (ptype, body)
    else obfuscate sip nonce key ptype body pad_len = None"
proof (cases "length body \<le> 65535")
  case True
  define plain where "plain = [ptype] @ be16 (of_nat (length body)) @ body @ replicate pad_len 0"
  let ?ks = "keystream sip key nonce (length plain)"
  have u: "unat (of_nat (length body) :: u16) = length body" using True by (simp add: unat_of_nat)
  have p: "length plain = 3 + length body + pad_len" "byte_at plain 0 = Some ptype"
    "slice plain 1 3 = Some (be16 (of_nat (length body)))" "slice plain 3 (3 + length body) = Some body"
    by (simp_all add: plain_def byte_at_def slice_def)
  have "obfuscate sip nonce key ptype body pad_len = Some (nonce @ map2 (XOR) plain ?ks)"
    using True by (simp add: obfuscate_def obfuscate_into_def flip: mask_keystream) (simp add: plain_def)
  moreover have len: "length (nonce @ map2 (XOR) plain ?ks) = 11 + length body + pad_len" using assms p(1) by simp
  moreover have "take 8 (nonce @ map2 (XOR) plain ?ks) = nonce" using assms by simp
  moreover have "deobfuscate sip key (nonce @ map2 (XOR) plain ?ks) = Some (ptype, body)"
  proof -
    have "take 8 (nonce @ xs) = nonce" "drop 8 (nonce @ xs) = xs" for xs using assms by simp_all
    moreover have "map2 (XOR) (map2 (XOR) plain ?ks) ?ks = plain" by (rule map2_xor_twice) simp
    ultimately show ?thesis
      using len p u by (simp add: deobfuscate_def MIN_ENVELOPE_def NONCE_LEN_def Let_def)
  qed
  ultimately show ?thesis using True by auto
qed (simp add: obfuscate_def obfuscate_into_def)

section \<open>Properties\<close>

text \<open>The envelope hides and returns its contents. For every keyed hash, key, type and padding a body of at most
  65535 bytes is wrapped into 11 more bytes than body and padding, starting with the nonce, and the
  envelope opens to exactly that type and body; a longer body is refused without a panic.\<close>

theorem obfuscate_roundtrip:
  assumes "length nonce = 8"
  shows "if length body \<le> 65535
    then \<exists>dg. obfuscate sip nonce key ptype body pad_len = Some dg \<and> length dg = 11 + length body + pad_len \<and>
           take 8 dg = nonce \<and> deobfuscate sip key dg = Some (ptype, body)
    else obfuscate sip nonce key ptype body pad_len = None"
  using assms by (rule obfuscate_opens)

theorem obfuscate_roundtrip_witness:
  "\<exists>dg. obfuscate (\<lambda>_ _. 7) (replicate 8 9) [1] 6 [10, 20] 3 = Some dg \<and> length dg = 16 \<and>
     deobfuscate (\<lambda>_ _. 7) [1] dg = Some (6, [10, 20])"
  using obfuscate_roundtrip [of "replicate 8 9" "[10, 20]" "\<lambda>_ _. 7" "[1]" 6 3] by auto


text \<open>With sorted buckets a datagram within the budget is padded to the smallest bucket that holds it and fits
  the budget, or to the budget when there is none; it is never truncated, never exceeds the budget, and
  longer datagrams are never padded to less than shorter ones.\<close>

theorem round_to_bucket_exact:
  assumes "sorted buckets" "buckets \<noteq> []" "raw \<le> raw'" "raw' \<le> budget"
  shows "raw \<le> round_to_bucket raw buckets budget \<and> round_to_bucket raw buckets budget \<le> budget \<and>
    round_to_bucket raw buckets budget \<in> insert budget (set buckets) \<and>
    (\<forall>b \<in> set buckets. raw \<le> b \<longrightarrow> round_to_bucket raw buckets budget \<le> b) \<and>
    round_to_bucket raw buckets budget \<le> round_to_bucket raw' buckets budget"
  using assms scan_buckets_exact [of buckets raw budget] scan_buckets_mono [of buckets raw raw' budget]
  by (simp add: round_to_bucket_def)

theorem round_to_bucket_exact_witness:
  "300 \<le> round_to_bucket 300 (default_buckets Balanced) 1400 \<and> round_to_bucket 300 (default_buckets Balanced) 1400 \<le> 512"
  using round_to_bucket_exact [of "default_buckets Balanced" 300 600 1400] by simp

text \<open>A generator that was seeded never reaches the state 0, from which it could not leave, and a draw from a
  range lies in it; only the full 64-bit range, whose span wraps to 0, panics.\<close>

theorem gen_range_in_range:
  assumes "xs_state g \<noteq> 0"
  shows "xs_state (from_seed s) \<noteq> 0 \<and>
    (if lo = 0 \<and> hi = - 1 then gen_range lo hi g = None
     else \<exists>v g'. gen_range lo hi g = Some (v, g') \<and> lo \<le> v \<and> v \<le> max lo hi \<and> xs_state g' \<noteq> 0)"
proof (cases "lo < hi \<and> hi - lo + 1 \<noteq> 0")
  case True
  obtain v g' where v: "next_u64 g = (v, g')" by fastforce
  have g': "xs_state g' \<noteq> 0" using next_u64_nonzero [OF assms] v by simp
  have "\<not> (lo = 0 \<and> hi = - 1)" using True by auto
  moreover have "lo \<le> lo + v mod (hi - lo + 1) \<and> lo + v mod (hi - lo + 1) \<le> hi" using True range_offset [of lo hi v] by blast
  ultimately show ?thesis using True v g' ensure_nonzero_ok by (auto simp: gen_range_def from_seed_def Let_def max_def)
next
  case False
  have full: "hi - lo + 1 = 0 \<and> lo < hi \<longleftrightarrow> lo = 0 \<and> hi = - 1" by (rule full_span)
  show ?thesis
  proof (cases "lo < hi")
    case True
    then show ?thesis using False full ensure_nonzero_ok by (simp add: gen_range_def from_seed_def Let_def)
  next
    case f: False
    then have "\<not> (lo = 0 \<and> hi = - 1)" using full by blast
    then show ?thesis using f assms ensure_nonzero_ok by (auto simp: gen_range_def from_seed_def max_def not_less)
  qed
qed

theorem gen_range_in_range_witness:
  "\<exists>v g'. gen_range 3 9 (from_seed 5) = Some (v, g') \<and> 3 \<le> v \<and> v \<le> 9 \<and> xs_state g' \<noteq> 0"
proof -
  have "xs_state (from_seed 5) \<noteq> 0" by (simp add: from_seed_def ensure_nonzero_ok)
  moreover have "max 3 9 = (9 :: u64)" by (simp add: max_def)
  ultimately show ?thesis using gen_range_in_range [of "from_seed 5" 0 3 9] by auto
qed

end
