(* ===== verification/Data_Plane.thy ===== *)
theory Data_Plane
  imports Daemon_Base Handshake_Msg Sent_Log Transport Retx Loss_Detect Plpmtu Mac_Table Obf
begin

text \<open>
  The data plane of \<^verbatim>\<open>bin/yipd/src/dataplane.rs\<close>: one peer's session, transport, codec and logs, driven by
  packets from the tunnel device, datagrams from the network and ticks. What is not under the source tree
  (SipHash, the AEAD, f32 arithmetic, the CPU, hash map order) is the environment \<open>E\<close>; socket
  addresses are an abstract type. The reused scratch buffers of the source are the returned values.
\<close>

section \<open>State\<close>

record ('f, 'g) dp_env =
  e_sip :: "bytes \<Rightarrow> bytes \<Rightarrow> u64"
  e_aead :: aead
  e_cpu :: cpu
  e_float :: "'f float_ops"
  e_size :: "'g size_ops"
  e_iter :: "(bytes \<rightharpoonup> nat) \<Rightarrow> bytes list"
  e_blake :: "bytes \<Rightarrow> bytes"

definition SENT_LOG_CAPACITY :: nat where "SENT_LOG_CAPACITY = 4096"

definition RETX_BUFFER_MAX :: nat where "RETX_BUFFER_MAX = 16384"

definition RETX_BUFFER_TTL_MS :: nat where "RETX_BUFFER_TTL_MS = 2000"

definition RETX_EXTRA_REPAIR :: nat where "RETX_EXTRA_REPAIR = 4"

definition FEEDBACK_INTERVAL_MS :: nat where "FEEDBACK_INTERVAL_MS = 30"

definition LOG_INTERVAL_MS :: nat where "LOG_INTERVAL_MS = 5000"

definition MAC_SWEEP_INTERVAL_MS :: nat where "MAC_SWEEP_INTERVAL_MS = 1000"

definition SINGLE_REMOTE_PEER_ID :: nat where "SINGLE_REMOTE_PEER_ID = 1"

definition LOCAL_TAP_PEER_ID :: nat where "LOCAL_TAP_PEER_ID = 0"

definition ETHERNET_HEADER_LEN :: nat where "ETHERNET_HEADER_LEN = 14"

definition ETHERNET_SOURCE_MAC_OFFSET :: nat where "ETHERNET_SOURCE_MAC_OFFSET = 6"

datatype TunnelMode = L3Tun | L2Tap

definition parse_device_kind :: "string \<Rightarrow> TunnelMode option" where
  "parse_device_kind v = (if v = ''tun'' then Some L3Tun else if v = ''tap'' then Some L2Tap else None)"

datatype 'addr Outcome =
    NoOutcome
  | TunWrite bytes
  | Send "'addr EgressDatagram list"
  | TunWriteThenSend bytes "'addr EgressDatagram list"

record ('f, 'g, 'addr) DataPlane =
  dp_session :: Session
  dp_raw_send_key :: bytes
  dp_raw_recv_key :: bytes
  dp_auth_key :: bytes
  dp_hp_key :: bytes
  dp_transport :: "('f, 'g) Transport"
  dp_codec :: Codec
  dp_conn_tag :: u64
  dp_l2 :: bool
  dp_peer_addr :: 'addr
  dp_sent_log :: SentLog
  dp_retx :: RetxBuffer
  dp_detector :: LossDetector
  dp_mac_table :: MacTable
  dp_last_loss_report_high :: u64
  dp_last_feedback_ms :: nat
  dp_last_log_ms :: nat
  dp_last_sweep_ms :: nat
  dp_obf_on :: bool
  dp_obf_key :: "bytes option"
  dp_feedback_interval_ms :: nat
  dp_arq_retx_count :: nat
  dp_plpmtu :: PlpmtuController

definition dataplane_new ::
    "('f, 'g) dp_env \<Rightarrow> Established \<Rightarrow> u64 \<Rightarrow> TunnelMode \<Rightarrow> 'addr \<Rightarrow> bool \<Rightarrow> u16 \<Rightarrow> ('f, 'g, 'addr) DataPlane" where
  "dataplane_new E established tag mode addr obf_on ssize =
     \<lparr>dp_session = es_session established,
      dp_raw_send_key = es_raw_send_key established, dp_raw_recv_key = es_raw_recv_key established,
      dp_auth_key = es_auth_key established, dp_hp_key = es_hp_key established,
      dp_transport = transport_new (e_float E) [] ssize,
      dp_codec = \<lparr>auth_key = es_auth_key established, hp_key = es_hp_key established\<rparr>,
      dp_conn_tag = tag, dp_l2 = (mode = L2Tap), dp_peer_addr = addr,
      dp_sent_log = sent_log_new SENT_LOG_CAPACITY, dp_retx = retx_new RETX_BUFFER_MAX RETX_BUFFER_TTL_MS,
      dp_detector = detector_new 5 SENT_LOG_CAPACITY,
      dp_mac_table = mac_table_new DEFAULT_MAC_TABLE_CAPACITY DEFAULT_MAC_TABLE_TTL_MS,
      dp_last_loss_report_high = 0, dp_last_feedback_ms = 0, dp_last_log_ms = 0, dp_last_sweep_ms = 0,
      dp_obf_on = obf_on,
      dp_obf_key = (if obf_on then Some (derive_key (e_blake E) (es_hp_key established)) else None),
      dp_feedback_interval_ms = FEEDBACK_INTERVAL_MS, dp_arq_retx_count = 0, dp_plpmtu = plpmtu_new\<rparr>"

definition set_peer_addr :: "'addr \<Rightarrow> ('f, 'g, 'addr) DataPlane \<Rightarrow> ('f, 'g, 'addr) DataPlane" where
  "set_peer_addr addr dp =
     (let dp' = (if dp_peer_addr dp \<noteq> addr
                 then case reset_to_floor (dp_plpmtu dp) of
                        (fl, pl) \<Rightarrow> dp\<lparr>dp_plpmtu := pl, dp_transport := tr_set_symbol_size fl (dp_transport dp)\<rparr>
                 else dp)
      in dp'\<lparr>dp_peer_addr := addr\<rparr>)"

definition dp_set_fec_repair_ratio :: "('f, 'g) dp_env \<Rightarrow> 'f \<Rightarrow> ('f, 'g, 'addr) DataPlane \<Rightarrow> ('f, 'g, 'addr) DataPlane" where
  "dp_set_fec_repair_ratio E r dp = dp\<lparr>dp_transport := set_fec_repair_ratio (e_float E) r (dp_transport dp)\<rparr>"

definition dp_set_shard :: "nat \<Rightarrow> nat \<Rightarrow> ('f, 'g, 'addr) DataPlane \<Rightarrow> ('f, 'g, 'addr) DataPlane" where
  "dp_set_shard shard_id num_shards dp = dp\<lparr>dp_transport := tr_set_shard shard_id num_shards (dp_transport dp)\<rparr>"

definition conn_tag_from_keys :: "bytes \<Rightarrow> bytes \<Rightarrow> u64" where
  "conn_tag_from_keys a h = un64 (take 8 (a @ h))"

definition fraction_f32 :: "'f float_ops \<Rightarrow> nat \<Rightarrow> nat \<Rightarrow> 'f" where
  "fraction_f32 F numerator denominator =
     (if denominator = 0 then f_zero F
      else clamp01 F (f_quotient F (min numerator 65535) (min denominator 65535)))"

definition source_mac_from_ethernet_frame :: "bytes \<Rightarrow> bytes option" where
  "source_mac_from_ethernet_frame inner =
     (if length inner < ETHERNET_HEADER_LEN then None
      else Some (take 6 (drop ETHERNET_SOURCE_MAC_OFFSET inner)))"

section \<open>Egress\<close>

definition learn_source ::
    "bytes \<Rightarrow> nat \<Rightarrow> LearnOrigin \<Rightarrow> nat \<Rightarrow> ('f, 'g, 'addr) DataPlane \<Rightarrow> ('f, 'g, 'addr) DataPlane exec" where
  "learn_source inner peer origin now dp =
     (if dp_l2 dp
      then case source_mac_from_ethernet_frame inner of
             None \<Rightarrow> Some dp
           | Some src_mac \<Rightarrow> map_option (\<lambda>t. dp\<lparr>dp_mac_table := t\<rparr>) (learn src_mac peer origin now (dp_mac_table dp))
      else Some dp)"

definition frame_data :: "('f, 'g) dp_env \<Rightarrow> ('f, 'g, 'addr) DataPlane \<Rightarrow> u64 \<Rightarrow> FlowClass \<Rightarrow> Symbol \<Rightarrow> bytes" where
  "frame_data E dp counter c symbol =
     packet_type Data # frame (e_sip E) (dp_codec dp) (symbol_to_frame (dp_conn_tag dp) symbol counter c)"

definition on_tun_packet ::
    "('f, 'g) dp_env \<Rightarrow> bytes \<Rightarrow> nat \<Rightarrow> ('f, 'g, 'addr) DataPlane \<Rightarrow>
     ('addr EgressDatagram list \<times> ('f, 'g, 'addr) DataPlane) exec" where
  "on_tun_packet E inner now dp0 = do {
     dp \<leftarrow> learn_source inner LOCAL_TAP_PEER_ID LocalTap now dp0;
     (case seal_into (e_aead E) (dp_session dp) inner of
        ((Inl _, _), s) \<Rightarrow> Some ([], dp\<lparr>dp_session := s\<rparr>)
      | ((Inr n, seal_buf), s) \<Rightarrow> do {
          ((c, symbols), tr) \<leftarrow> tr_encode (e_cpu E) (e_float E) (e_size E) seal_buf inner (dp_l2 dp) now (dp_transport dp);
          let counter = (of_nat n :: u64);
          let dp1 = dp\<lparr>dp_session := s, dp_transport := tr, dp_sent_log := sent_log_insert counter c (dp_sent_log dp)\<rparr>;
          let dp2 = (case symbols of
                       [] \<Rightarrow> dp1
                     | s0 # _ \<Rightarrow> dp1\<lparr>dp_retx := retx_put (dp_retx dp1) counter seal_buf c (object_id s0) now\<rparr>);
          Some (map (\<lambda>symbol. \<lparr>ed_fate = object_id symbol, ed_dst = dp_peer_addr dp,
                               ed_bytes = frame_data E dp counter c symbol\<rparr>) symbols, dp2)
        })
   }"

section \<open>Ingress: data\<close>

definition on_data ::
    "('f, 'g) dp_env \<Rightarrow> bytes \<Rightarrow> nat \<Rightarrow> ('f, 'g, 'addr) DataPlane \<Rightarrow> ('addr Outcome \<times> ('f, 'g, 'addr) DataPlane) exec" where
  "on_data E wire now dp =
     (case deframe (e_sip E) (dp_codec dp) wire of
        Inl _ \<Rightarrow> Some (NoOutcome, dp)
      | Inr f \<Rightarrow>
          (case frame_to_symbol f of
             None \<Rightarrow> Some (NoOutcome, dp)
           | Some (symbol, counter, c) \<Rightarrow>
               if \<not> check_replay (dp_session dp) (unat counter) then Some (NoOutcome, dp)
               else let dp1 = dp\<lparr>dp_detector := on_seen (dp_detector dp) (unat counter) now\<rparr>
               in (case tr_decode (e_cpu E) counter symbol c now (dp_transport dp1) of
                     None \<Rightarrow> None
                   | Some (None, tr) \<Rightarrow> Some (NoOutcome, dp1\<lparr>dp_transport := tr\<rparr>)
                   | Some (Some ciphertext, tr) \<Rightarrow>
                       let dp2 = dp1\<lparr>dp_transport := tr, dp_detector := on_delivered (dp_detector dp1) (unat counter)\<rparr>
                       in (case open_session (e_aead E) (dp_session dp2) (unat counter) ciphertext of
                             (Inl _, s) \<Rightarrow> Some (NoOutcome, dp2\<lparr>dp_session := s\<rparr>)
                           | (Inr inner, s) \<Rightarrow> do {
                               dp3 \<leftarrow> learn_source inner SINGLE_REMOTE_PEER_ID Peer now
                                 (dp2\<lparr>dp_session := s,
                                      dp_transport := tr_observe_ingress (e_size E) inner (dp_l2 dp2) now (dp_transport dp2)\<rparr>);
                               Some (TunWrite inner, dp3)
                             }))))"

section \<open>Ingress: control\<close>

definition attribute_missing :: "SentLog \<Rightarrow> u64 list \<Rightarrow> ClassCounts" where
  "attribute_missing l ms =
     foldl (\<lambda>n m. case sent_log_get l m of None \<Rightarrow> n | Some c \<Rightarrow> bump_count c n)
       \<lparr>cc_realtime = 0, cc_bulk = 0, cc_default = 0\<rparr> ms"

definition sent_counts :: "u64 \<Rightarrow> ('f, 'g, 'addr) DataPlane \<Rightarrow> ClassCounts \<times> ('f, 'g, 'addr) DataPlane" where
  "sent_counts high dp =
     (if high > dp_last_loss_report_high dp
      then let start = (if dp_last_loss_report_high dp = 0
                        then case sl_order (dp_sent_log dp) of [] \<Rightarrow> 0 | (c, _) # _ \<Rightarrow> c
                        else if dp_last_loss_report_high dp = - 1 then - 1 else dp_last_loss_report_high dp + 1)
           in (count_classes_in_range (dp_sent_log dp) start high, dp\<lparr>dp_last_loss_report_high := high\<rparr>)
      else (\<lparr>cc_realtime = count_class (dp_sent_log dp) Realtime, cc_bulk = count_class (dp_sent_log dp) Bulk,
             cc_default = count_class (dp_sent_log dp) Default\<rparr>, dp))"

definition observe_class ::
    "'f float_ops \<Rightarrow> FlowClass \<Rightarrow> nat \<Rightarrow> nat \<Rightarrow> ('f, 'g) Transport \<Rightarrow> 'f option \<times> ('f, 'g) Transport" where
  "observe_class F c missed sent tr =
     (if sent > 0 \<or> missed > 0
      then let fr = fraction_f32 F missed (max (max sent missed) 1)
           in (Some fr, tr_observe_loss F c fr tr)
      else (None, tr))"

definition is_severe :: "'f float_ops \<Rightarrow> 'f option \<Rightarrow> nat \<Rightarrow> bool" where
  "is_severe F fr sent \<longleftrightarrow> (case fr of None \<Rightarrow> False | Some f \<Rightarrow> f_le F (f_severe F) f) \<and> sent \<ge> 3"

definition blackhole_fallback :: "('f, 'g, 'addr) DataPlane \<Rightarrow> ('f, 'g, 'addr) DataPlane" where
  "blackhole_fallback dp =
     (case on_blackhole (dp_plpmtu dp) of
        (None, pl) \<Rightarrow> dp\<lparr>dp_plpmtu := pl\<rparr>
      | (Some fl, pl) \<Rightarrow> dp\<lparr>dp_plpmtu := pl, dp_transport := tr_set_symbol_size fl (dp_transport dp)\<rparr>)"

fun arq_retx ::
    "('f, 'g) dp_env \<Rightarrow> nat \<Rightarrow> u64 list \<Rightarrow> ('f, 'g, 'addr) DataPlane \<Rightarrow>
     ('addr EgressDatagram list \<times> ('f, 'g, 'addr) DataPlane) exec" where
  "arq_retx E now [] dp = Some ([], dp)"
| "arq_retx E now (m # ms) dp =
     (case retx_get (dp_retx dp) m now of
        None \<Rightarrow> arq_retx E now ms dp
      | Some (ct, c, oid) \<Rightarrow>
          if \<not> arq (params c) then arq_retx E now ms dp
          else do {
            (syms, tr) \<leftarrow> repair_object (e_cpu E) ct c oid RETX_EXTRA_REPAIR (dp_transport dp);
            (rest, dp') \<leftarrow> arq_retx E now ms
              (dp\<lparr>dp_arq_retx_count := sat_add (dp_arq_retx_count dp) 1, dp_transport := tr\<rparr>);
            Some (map (\<lambda>symbol. \<lparr>ed_fate = oid, ed_dst = dp_peer_addr dp, ed_bytes = frame_data E dp m c symbol\<rparr>) syms @ rest,
                  dp')
          })"

definition on_feedback ::
    "('f, 'g) dp_env \<Rightarrow> LossReport \<Rightarrow> nat \<Rightarrow> ('f, 'g, 'addr) DataPlane \<Rightarrow> ('addr Outcome \<times> ('f, 'g, 'addr) DataPlane) exec" where
  "on_feedback E rep now dp =
     (let missed = attribute_missing (dp_sent_log dp) (missing rep);
          (sent, dp1) = sent_counts (high_counter rep) dp;
          F = e_float E;
          (_, tr1) = observe_class F Realtime (cc_realtime missed) (cc_realtime sent) (dp_transport dp1);
          (frac_bulk, tr2) = observe_class F Bulk (cc_bulk missed) (cc_bulk sent) tr1;
          (frac_default, tr3) = observe_class F Default (cc_default missed) (cc_default sent) tr2;
          dp2 = dp1\<lparr>dp_transport := tr3\<rparr>;
          dp3 = (if is_severe F frac_default (cc_default sent) \<or> is_severe F frac_bulk (cc_bulk sent)
                 then blackhole_fallback dp2 else dp2)
      in map_option (\<lambda>(out, dp4). (if out = [] then NoOutcome else Send out, dp4)) (arq_retx E now (missing rep) dp3))"

definition control_packet :: "'addr \<Rightarrow> Sealed \<Rightarrow> 'addr EgressDatagram" where
  "control_packet addr sealed =
     \<lparr>ed_fate = 0, ed_dst = addr,
      ed_bytes = packet_type Control # be64 (of_nat (sd_counter sealed)) @ sd_ciphertext sealed\<rparr>"

definition on_control_frame ::
    "('f, 'g) dp_env \<Rightarrow> ControlFrame \<Rightarrow> nat \<Rightarrow> ('f, 'g, 'addr) DataPlane \<Rightarrow> ('addr Outcome \<times> ('f, 'g, 'addr) DataPlane) exec" where
  "on_control_frame E f now dp =
     (case f of
        Feedback rep \<Rightarrow> on_feedback E rep now dp
      | MtuProbe probe_id tsize _ \<Rightarrow>
          (case seal (e_aead E) (dp_session dp) (control_encode (MtuProbeAck probe_id tsize)) of
             (Inl _, s) \<Rightarrow> Some (NoOutcome, dp\<lparr>dp_session := s\<rparr>)
           | (Inr sealed, s) \<Rightarrow> Some (Send [control_packet (dp_peer_addr dp) sealed], dp\<lparr>dp_session := s\<rparr>))
      | MtuProbeAck probe_id accepted \<Rightarrow> do {
          (res, pl) \<leftarrow> on_ack (dp_plpmtu dp) probe_id accepted;
          let dp' = dp\<lparr>dp_plpmtu := pl\<rparr>;
          Some (NoOutcome, case res of
                             None \<Rightarrow> dp'
                           | Some new_sym \<Rightarrow> dp'\<lparr>dp_transport := tr_set_symbol_size new_sym (dp_transport dp')\<rparr>)
        })"

definition on_control ::
    "('f, 'g) dp_env \<Rightarrow> bytes \<Rightarrow> nat \<Rightarrow> ('f, 'g, 'addr) DataPlane \<Rightarrow> ('addr Outcome \<times> ('f, 'g, 'addr) DataPlane) exec" where
  "on_control E dg now dp =
     (if length dg < 9 then Some (NoOutcome, dp)
      else let counter = unat (un64 (take 8 (drop 1 dg))); ct = drop 9 dg
           in (case open_session (e_aead E) (dp_session dp) counter ct of
                 (Inl _, s) \<Rightarrow> Some (NoOutcome, dp\<lparr>dp_session := s\<rparr>)
               | (Inr plaintext, s) \<Rightarrow>
                   let dp1 = dp\<lparr>dp_session := s, dp_detector := on_delivered (on_seen (dp_detector dp) counter now) counter\<rparr>
                   in (case control_decode plaintext of
                         None \<Rightarrow> Some (NoOutcome, dp1)
                       | Some f \<Rightarrow> on_control_frame E f now dp1)))"

definition on_udp_datagram ::
    "('f, 'g) dp_env \<Rightarrow> bytes \<Rightarrow> nat \<Rightarrow> ('f, 'g, 'addr) DataPlane \<Rightarrow> ('addr Outcome \<times> ('f, 'g, 'addr) DataPlane) exec" where
  "on_udp_datagram E dg now dp =
     (case dg of
        [] \<Rightarrow> Some (NoOutcome, dp)
      | b # wire \<Rightarrow>
          if b = packet_type Data then on_data E wire now dp
          else if b = packet_type Control then on_control E dg now dp
          else Some (NoOutcome, dp))"

section \<open>Ticks\<close>

definition seal_control ::
    "('f, 'g) dp_env \<Rightarrow> ControlFrame \<Rightarrow> ('f, 'g, 'addr) DataPlane \<Rightarrow> 'addr EgressDatagram list option \<times> ('f, 'g, 'addr) DataPlane" where
  "seal_control E f dp =
     (case seal (e_aead E) (dp_session dp) (control_encode f) of
        (Inl _, s) \<Rightarrow> (None, dp\<lparr>dp_session := s\<rparr>)
      | (Inr sealed, s) \<Rightarrow> (Some [control_packet (dp_peer_addr dp) sealed], dp\<lparr>dp_session := s\<rparr>))"

definition dp_tick ::
    "('f, 'g) dp_env \<Rightarrow> nat \<Rightarrow> nat \<Rightarrow> ('f, 'g, 'addr) DataPlane \<Rightarrow>
     ('addr EgressDatagram list option \<times> ('f, 'g, 'addr) DataPlane) exec" where
  "dp_tick E v now dp0 = do {
     dp \<leftarrow> (if now - dp_last_sweep_ms dp0 \<ge> MAC_SWEEP_INTERVAL_MS
           then map_option (\<lambda>t. dp0\<lparr>dp_last_sweep_ms := now, dp_mac_table := t\<rparr>) (mac_sweep (e_iter E) now (dp_mac_table dp0))
           else Some dp0);
     let dp1 = (if now - dp_last_log_ms dp \<ge> LOG_INTERVAL_MS then dp\<lparr>dp_last_log_ms := now\<rparr> else dp);
     if now - dp_last_feedback_ms dp1 < dp_feedback_interval_ms dp1
     then do {
       (probe, pl) \<leftarrow> on_tick (dp_plpmtu dp1) now;
       let dp2 = dp1\<lparr>dp_plpmtu := pl\<rparr>;
       Some (case probe of
               None \<Rightarrow> (None, dp2)
             | Some (probe_id, tsize, pad_len) \<Rightarrow> seal_control E (MtuProbe probe_id tsize (replicate pad_len 0)) dp2)
     }
     else do {
       let dp2 = dp1\<lparr>dp_last_feedback_ms := now,
                     dp_feedback_interval_ms := (if dp_obf_on dp1 then jitter_ms v FEEDBACK_INTERVAL_MS else FEEDBACK_INTERVAL_MS)\<rparr>;
       let (rep, d) = report (dp_detector dp2) now;
       Some (seal_control E (Feedback rep) (dp2\<lparr>dp_detector := d\<rparr>))
     }
   }"

end
