(* ===== verification/Data_Plane_Inv.thy ===== *)
theory Data_Plane_Inv
  imports Data_Plane
begin

text \<open>
  The invariant of the data plane and its preservation by every event: no packet from the tunnel device,
  no datagram, no tick and no roaming makes \<^verbatim>\<open>bin/yipd/src/dataplane.rs\<close> panic, and every buffer stays bounded.
\<close>

section \<open>Invariant\<close>

definition mac_ok :: "MacTable \<Rightarrow> bool" where
  "mac_ok t \<longleftrightarrow> (\<exists>l. mac_rel DEFAULT_MAC_TABLE_CAPACITY DEFAULT_MAC_TABLE_TTL_MS t l)"

definition retx_ok :: "RetxBuffer \<Rightarrow> bool" where
  "retx_ok b \<longleftrightarrow> retx_inv b \<and> rb_max b = RETX_BUFFER_MAX \<and>
     (\<forall>c e. fst (rb_cache b) c = Some e \<longrightarrow> length (en_ciphertext e) \<le> 262144)"

definition log_ok :: "Session \<Rightarrow> SentLog \<Rightarrow> bool" where
  "log_ok s l \<longleftrightarrow> 0 < s_stride s \<and> s_send_counter s \<le> u64_max \<and> window_ok (s_replay s) \<and> log_inv l \<and> sl_capacity l = SENT_LOG_CAPACITY \<and>
     (\<forall>c \<in> fst ` set (sl_order l). unat c < s_send_counter s)"

definition dp_inv :: "('f, 'g, 'addr) DataPlane \<Rightarrow> bool" where
  "dp_inv dp \<longleftrightarrow> tr_inv (dp_transport dp) \<and> tr_symbol_size (dp_transport dp) \<noteq> 0 \<and> plpmtu_inv (dp_plpmtu dp) \<and>
     mac_ok (dp_mac_table dp) \<and> retx_ok (dp_retx dp) \<and> log_ok (dp_session dp) (dp_sent_log dp)"

lemma dp_invD:
  assumes "dp_inv dp"
  shows "tr_inv (dp_transport dp)" "tr_symbol_size (dp_transport dp) \<noteq> 0" "plpmtu_inv (dp_plpmtu dp)"
    "mac_ok (dp_mac_table dp)" "retx_ok (dp_retx dp)" "log_ok (dp_session dp) (dp_sent_log dp)"
  using assms by (simp_all add: dp_inv_def)

section \<open>Components\<close>

lemma mac_ok_learn: "mac_ok t \<Longrightarrow> \<exists>t'. learn m peer orig now t = Some t' \<and> mac_ok t'"
proof -
  assume "mac_ok t"
  then obtain l where l: "mac_rel DEFAULT_MAC_TABLE_CAPACITY DEFAULT_MAC_TABLE_TTL_MS t l" by (auto simp: mac_ok_def)
  show ?thesis
  proof (cases "is_learnable_source_mac m \<and> 0 < DEFAULT_MAC_TABLE_CAPACITY")
    case True
    then show ?thesis using learn_rel [OF l] unfolding mac_ok_def by blast
  next
    case False
    then show ?thesis using l by (auto simp: learn_def mac_ok_def mac_rel_def)
  qed
qed

lemma mac_ok_sweep: "mac_ok t \<Longrightarrow> set (iter (mt_index t)) = dom (mt_index t) \<Longrightarrow> \<exists>t'. mac_sweep iter now t = Some t' \<and> mac_ok t'"
  using sweep_rel unfolding mac_ok_def by blast

lemma retx_ok_put: "retx_ok b \<Longrightarrow> length ct \<le> 262144 \<Longrightarrow> retx_ok (retx_put b counter ct cl oid now)"
proof -
  assume b: "retx_ok b" and ct: "length ct \<le> 262144"
  let ?b' = "retx_put b counter ct cl oid now"
  have inv: "retx_inv b" using b by (simp add: retx_ok_def)
  have new: "fst (rb_cache ?b') counter = Some \<lparr>en_ciphertext = ct, en_class = cl, en_object_id = oid, inserted_ms = now\<rparr>"
    and old: "c \<noteq> counter \<Longrightarrow> fst (rb_cache ?b') c = None \<or> fst (rb_cache ?b') c = fst (rb_cache b) c" for c
    by (rule retx_put_facts [OF inv refl], assumption?)+
  have "length (en_ciphertext e) \<le> 262144" if "fst (rb_cache ?b') c = Some e" for c e
    using b ct that new old [of c] by (cases "c = counter") (auto simp: retx_ok_def)
  then show ?thesis using b retx_put_facts(1,2) [OF inv refl] by (simp add: retx_ok_def)
qed

lemma retx_ok_get: "retx_ok b \<Longrightarrow> retx_get b c now = Some (ct, cl, oid) \<Longrightarrow> length ct \<le> 262144"
  by (auto simp: retx_get_def retx_ok_def split: option.splits if_splits)

lemma log_ok_open: "log_ok s l \<Longrightarrow> open_session A s c ct = (res, s') \<Longrightarrow> log_ok s' l"
  by (auto simp: open_session_def log_ok_def guard.keeps split: if_splits option.splits prod.splits)

lemma log_ok_seal: "log_ok s l \<Longrightarrow> seal A s p = (res, s') \<Longrightarrow> log_ok s' l"
  by (fastforce simp: seal_def bump_def log_ok_def Let_def checked_add_def split: option.splits prod.splits if_splits sum.splits)

lemma seal_into_result:
  assumes "aead_ok A" "log_ok s l" "seal_into A s p = ((Inr n, buf), s')"
  shows "n = s_send_counter s" "n < u64_max" "length buf = length p + 16" "log_ok s' (sent_log_insert (of_nat n) c l)"
proof -
  obtain ct tag where ct: "aead_seal A (s_send_key s) (noise_nonce (s_send_counter s)) p = Some (ct, tag)" "buf = ct @ tag"
    "n = s_send_counter s" "bump s = Inr s'"
    using assms(3) by (auto simp: seal_into_def Let_def split: option.splits sum.splits)
  show n: "n = s_send_counter s" by (rule ct)
  have s': "s' = s\<lparr>s_send_counter := n + s_stride s\<rparr>" "n + s_stride s \<le> u64_max"
    using ct(3,4) by (auto simp: bump_def checked_add_def split: if_splits)
  show lt: "n < u64_max" using s'(2) assms(2) by (simp add: log_ok_def)
  show "length buf = length p + 16" using assms(1) ct(1,2) by (simp add: aead_ok_def)
  have u: "unat (of_nat n :: u64) = n" using lt by (simp add: unat_of_nat u64_max_def)
  then have "of_nat n \<notin> fst ` set (sl_order l)" using assms(2) n by (force simp: log_ok_def)
  note ins = insert_log [OF _ this, of c]
  have "set (sl_order (sent_log_insert (of_nat n) c l)) \<subseteq> insert (of_nat n, c) (set (sl_order l))"
    using ins assms(2) by (auto simp: log_ok_def dest: list.set_sel(2) [rotated] split: if_splits)
  moreover have "unat k < n + s_stride s" if "k \<in> fst ` set (sl_order l)" for k using that assms(2) n by (force simp: log_ok_def)
  ultimately show "log_ok s' (sent_log_insert (of_nat n) c l)"
    using ins s' assms(2) u by (fastforce simp: log_ok_def)
qed

lemma tr_inv_repair:
  assumes "tr_inv t" "length ct \<le> 262144"
  shows "\<exists>syms t'. repair_object p ct c oid n t = Some (syms, t') \<and> tr_inv t' \<and> tr_symbol_size t' = tr_symbol_size t"
proof -
  obtain syms where "build p ct (params_for t c) oid n = Some syms" using build_total [OF assms(2)] by blast
  then show ?thesis using assms(1) by (simp add: repair_object_def repair_with_id_def tr_inv_def)
qed

lemma tr_inv_ratio [inv_intros]: "tr_inv t \<Longrightarrow> tr_inv (set_fec_repair_ratio F r t)"
  by (simp add: tr_inv_def set_fec_repair_ratio_def)

lemma tr_inv_shard [inv_intros]: "tr_inv t \<Longrightarrow> tr_inv (tr_set_shard i n t)"
  by (simp add: tr_inv_def tr_set_shard_def)

lemma symbol_size_new [simp]: "tr_symbol_size (transport_new F rs s) = s"
  by (simp add: transport_new_def)

lemma symbol_size_loss [simp]: "tr_symbol_size (tr_observe_loss F c l t) = tr_symbol_size t"
  by (simp add: tr_observe_loss_def)

lemma observe_class_inv:
  "tr_inv t \<Longrightarrow> observe_class F c m s t = (fr, t') \<Longrightarrow> tr_inv t' \<and> tr_symbol_size t' = tr_symbol_size t"
  unfolding observe_class_def Let_def using tr_inv_loss [of t F c] symbol_size_loss [of F c _ t] by (cases "0 < s \<or> 0 < m") auto

lemma symbol_size_set [simp]: "tr_symbol_size (tr_set_symbol_size s t) = s"
  by (simp add: tr_set_symbol_size_def)

lemma symbol_size_ingress [simp]: "tr_symbol_size (tr_observe_ingress G inner l2 now t) = tr_symbol_size t"
  by (simp add: tr_observe_ingress_def)

section \<open>Events\<close>

lemma dp_inv_new:
  assumes "ssize \<noteq> 0" "0 < s_stride (es_session est)" "s_send_counter (es_session est) \<le> u64_max" "window_ok (s_replay (es_session est))"
  shows "dp_inv (dataplane_new E est tag mode addr obf ssize)"
proof -
  have "plpmtu_inv plpmtu_new" by (rule plpmtu_reach_inv [OF plpmtu_reach.init])
  moreover have "retx_ok (retx_new RETX_BUFFER_MAX RETX_BUFFER_TTL_MS)"
    using retx_new_inv by (simp add: retx_ok_def) (simp add: retx_new_def RETX_BUFFER_MAX_def)
  moreover have "log_inv (sent_log_new n)" "sl_capacity (sent_log_new n) = n" "sl_order (sent_log_new n) = []" for n
    by (simp_all add: sent_log_new_def log_inv_def)
  moreover have "mac_ok (mac_table_new DEFAULT_MAC_TABLE_CAPACITY DEFAULT_MAC_TABLE_TTL_MS)"
    unfolding mac_ok_def using mac_rel_new by blast
  ultimately show ?thesis using assms tr_inv_new by (simp add: dp_inv_def dataplane_new_def log_ok_def)
qed

lemma learn_source_total:
  assumes "mac_ok (dp_mac_table dp)"
  shows "\<exists>t. learn_source inner peer orig now dp = Some (dp\<lparr>dp_mac_table := t\<rparr>) \<and> mac_ok t"
proof (cases "dp_l2 dp \<and> source_mac_from_ethernet_frame inner \<noteq> None")
  case True
  then show ?thesis using mac_ok_learn [OF assms] by (fastforce simp: learn_source_def)
next
  case False
  then have "learn_source inner peer orig now dp = Some (dp\<lparr>dp_mac_table := dp_mac_table dp\<rparr>)" by (auto simp: learn_source_def)
  then show ?thesis using assms by blast
qed

lemma on_tun_total:
  assumes A: "aead_ok (e_aead E)" and inv: "dp_inv dp0" and len: "length inner \<le> 65535"
  shows "\<exists>out dp'. on_tun_packet E inner now dp0 = Some (out, dp') \<and> dp_inv dp'"
proof -
  note i = dp_invD [OF inv]
  obtain t where t: "learn_source inner LOCAL_TAP_PEER_ID LocalTap now dp0 = Some (dp0\<lparr>dp_mac_table := t\<rparr>)" "mac_ok t"
    using learn_source_total [OF i(4)] by blast
  obtain res buf s where s: "seal_into (e_aead E) (dp_session dp0) inner = ((res, buf), s)" by (metis surj_pair)
  show ?thesis
  proof (cases res)
    case (Inl e)
    then have "s = dp_session dp0" using s by (auto simp: seal_into_def Let_def bump_def split: option.splits sum.splits)
    then show ?thesis using t s Inl inv by (simp add: on_tun_packet_def dp_inv_def)
  next
    case (Inr n)
    note r = seal_into_result [OF A i(6) s [unfolded Inr]]
    have ct: "length buf \<le> 262144" using r(3) len by simp
    obtain c syms tr where tr: "tr_encode (e_cpu E) (e_float E) (e_size E) buf inner (dp_l2 dp0) now (dp_transport dp0) = Some ((c, syms), tr)"
      "tr_inv tr" "tr_symbol_size tr = tr_symbol_size (dp_transport dp0)"
      using tr_encode_total [OF i(1) ct i(2)] by blast
    show ?thesis
      using t s Inr tr i r(4) [of c] retx_ok_put [OF i(5) ct] by (cases syms) (simp_all add: on_tun_packet_def dp_inv_def Let_def)
  qed
qed

lemma on_data_total:
  assumes inv: "dp_inv dp"
  shows "\<exists>out dp'. on_data E wire now dp = Some (out, dp') \<and> dp_inv dp'"
proof (cases "\<exists>f symbol counter c. deframe (e_sip E) (dp_codec dp) wire = Inr f \<and> frame_to_symbol f = Some (symbol, counter, c) \<and>
    check_replay (dp_session dp) (unat counter)")
  case False
  then show ?thesis using inv by (auto simp: on_data_def split: sum.splits option.splits)
next
  case True
  then obtain f symbol counter c where f: "deframe (e_sip E) (dp_codec dp) wire = Inr f"
    "frame_to_symbol f = Some (symbol, counter, c)" "check_replay (dp_session dp) (unat counter)" by blast
  note i = dp_invD [OF inv]
  obtain res tr where tr: "tr_decode (e_cpu E) counter symbol c now (dp_transport dp) = Some (res, tr)" "tr_inv tr"
    "tr_symbol_size tr = tr_symbol_size (dp_transport dp)"
    using tr_decode_total [OF i(1)] by blast
  show ?thesis
  proof (cases res)
    case None
    then show ?thesis using f tr i by (simp add: on_data_def Let_def dp_inv_def)
  next
    case (Some ct)
    obtain out s where s: "open_session (e_aead E) (dp_session dp) (unat counter) ct = (out, s)" by fastforce
    have log: "log_ok s (dp_sent_log dp)" using log_ok_open [OF i(6) s] .
    show ?thesis
    proof (cases out)
      case (Inl e)
      then show ?thesis using f tr i s Some log by (simp add: on_data_def Let_def dp_inv_def)
    next
      case (Inr inner)
      let ?dp = "dp\<lparr>dp_detector := on_delivered (on_seen (dp_detector dp) (unat counter) now) (unat counter), dp_session := s,
          dp_transport := tr_observe_ingress (e_size E) inner (dp_l2 dp) now tr\<rparr>"
      have mac: "mac_ok (dp_mac_table ?dp)" using i(4) by simp
      obtain t where t: "learn_source inner SINGLE_REMOTE_PEER_ID Peer now ?dp = Some (?dp\<lparr>dp_mac_table := t\<rparr>)" "mac_ok t"
        using learn_source_total [OF mac] by blast
      then show ?thesis
        using f tr i s Some Inr log tr_inv_ingress [OF tr(2)] by (simp add: on_data_def Let_def dp_inv_def)
    qed
  qed
qed

lemma arq_total:
  assumes "dp_inv dp"
  shows "\<exists>out dp'. arq_retx E now ms dp = Some (out, dp') \<and> dp_inv dp'"
  using assms
proof (induction ms arbitrary: dp)
  case (Cons m ms)
  note i = dp_invD [OF Cons.prems]
  show ?case
  proof (cases "\<exists>ct c oid. retx_get (dp_retx dp) m now = Some (ct, c, oid) \<and> arq (params c)")
    case False
    then show ?thesis using Cons.IH [OF Cons.prems] by (auto split: option.splits)
  next
    case True
    then obtain ct c oid where g: "retx_get (dp_retx dp) m now = Some (ct, c, oid)" "arq (params c)" by blast
    obtain syms tr where tr: "repair_object (e_cpu E) ct c oid RETX_EXTRA_REPAIR (dp_transport dp) = Some (syms, tr)"
      "tr_inv tr" "tr_symbol_size tr = tr_symbol_size (dp_transport dp)"
      using tr_inv_repair [OF i(1) retx_ok_get [OF i(5) g(1)]] by blast
    have "dp_inv (dp\<lparr>dp_arq_retx_count := sat_add (dp_arq_retx_count dp) 1, dp_transport := tr\<rparr>)"
      using tr i by (simp add: dp_inv_def)
    then show ?thesis using Cons.IH g tr(1) by fastforce
  qed
qed simp

lemma blackhole_inv: "dp_inv dp \<Longrightarrow> dp_inv (blackhole_fallback dp)"
proof -
  assume inv: "dp_inv dp"
  obtain res pl where b: "on_blackhole (dp_plpmtu dp) = (res, pl)" by fastforce
  have pl: "plpmtu_inv pl" using plpmtu_step_total [OF dp_invD(3) [OF inv], of Blackhole] b by simp
  have "res = None \<or> res = Some 1120" using b by (auto simp: on_blackhole_def split: if_splits)
  then show ?thesis using inv b pl tr_inv_symbol_size by (auto simp: blackhole_fallback_def dp_inv_def)
qed

lemma on_feedback_total:
  assumes inv: "dp_inv dp"
  shows "\<exists>out dp'. on_feedback E rep now dp = Some (out, dp') \<and> dp_inv dp'"
proof -
  define missed where "missed = attribute_missing (dp_sent_log dp) (missing rep)"
  obtain sent dp1 where s: "sent_counts (high_counter rep) dp = (sent, dp1)" by fastforce
  have dp1: "dp_inv dp1" using s inv by (auto simp: sent_counts_def Let_def dp_inv_def split: if_splits)
  obtain f1 tr1 where t1: "observe_class (e_float E) Realtime (cc_realtime missed) (cc_realtime sent) (dp_transport dp1) = (f1, tr1)" by fastforce
  obtain f2 tr2 where t2: "observe_class (e_float E) Bulk (cc_bulk missed) (cc_bulk sent) tr1 = (f2, tr2)" by fastforce
  obtain f3 tr3 where t3: "observe_class (e_float E) Default (cc_default missed) (cc_default sent) tr2 = (f3, tr3)" by fastforce
  have tr3: "tr_inv tr3" "tr_symbol_size tr3 = tr_symbol_size (dp_transport dp1)"
    using observe_class_inv [OF dp_invD(1) [OF dp1] t1] observe_class_inv [OF _ t2] observe_class_inv [OF _ t3] by auto
  define dp2 where "dp2 = dp1\<lparr>dp_transport := tr3\<rparr>"
  define dp3 where "dp3 = (if is_severe (e_float E) f3 (cc_default sent) \<or> is_severe (e_float E) f2 (cc_bulk sent)
      then blackhole_fallback dp2 else dp2)"
  have "dp_inv dp2" using dp1 tr3 by (simp add: dp_inv_def dp2_def)
  then have "dp_inv dp3" by (simp add: dp3_def blackhole_inv)
  then obtain out dp4 where "arq_retx E now (missing rep) dp3 = Some (out, dp4)" "dp_inv dp4" using arq_total by blast
  then show ?thesis
    by (simp add: on_feedback_def s t1 t2 t3 missed_def [symmetric] dp2_def [symmetric] dp3_def [symmetric])
qed

lemma on_ack_total:
  assumes "plpmtu_inv c"
  shows "\<exists>res c'. on_ack c i a = Some (res, c') \<and> plpmtu_inv c' \<and> (res = None \<or> res = Some a \<and> a \<noteq> 0)"
proof (cases "pl_state c")
  case (Probing t n)
  have "t < 4" using plpmtu_inv_Probing [OF assms Probing] by simp
  moreover have "0 \<notin> set PLPMTU_LADDER" by code_simp
  ultimately have "PLPMTU_LADDER ! t \<noteq> 0" using nth_mem [of t PLPMTU_LADDER] by force
  then show ?thesis using on_ack_Probing [OF assms Probing, of i a] by (auto split: if_splits)
qed (use assms in \<open>simp add: on_ack_def\<close>)

lemma on_control_frame_total:
  assumes inv: "dp_inv dp"
  shows "\<exists>out dp'. on_control_frame E f now dp = Some (out, dp') \<and> dp_inv dp'"
proof (cases f)
  case (Feedback rep)
  then show ?thesis using on_feedback_total [OF inv] by (simp add: on_control_frame_def)
next
  case (MtuProbe i t p)
  obtain res s where s: "seal (e_aead E) (dp_session dp) (control_encode (MtuProbeAck i t)) = (res, s)" by fastforce
  have "dp_inv (dp\<lparr>dp_session := s\<rparr>)" using inv log_ok_seal [OF dp_invD(6) [OF inv] s] by (simp add: dp_inv_def)
  then show ?thesis using s MtuProbe by (cases res) (simp_all add: on_control_frame_def)
next
  case (MtuProbeAck i a)
  obtain res pl where r: "on_ack (dp_plpmtu dp) i a = Some (res, pl)" "plpmtu_inv pl" "res = None \<or> res = Some a \<and> a \<noteq> 0"
    using on_ack_total [OF dp_invD(3) [OF inv], of i a] by blast
  have "dp_inv (dp\<lparr>dp_plpmtu := pl\<rparr>)" using inv r(2) by (simp add: dp_inv_def)
  then show ?thesis
    using r MtuProbeAck tr_inv_symbol_size by (auto simp: on_control_frame_def Let_def dp_inv_def)
qed

lemma on_control_total:
  assumes inv: "dp_inv dp"
  shows "\<exists>out dp'. on_control E dg now dp = Some (out, dp') \<and> dp_inv dp'"
proof (cases "length dg < 9")
  case False
  let ?c = "unat (un64 (take 8 (drop 1 dg)))"
  obtain res s where s: "open_session (e_aead E) (dp_session dp) ?c (drop 9 dg) = (res, s)" by fastforce
  have "dp_inv (dp\<lparr>dp_session := s\<rparr>)" "dp_inv (dp\<lparr>dp_session := s, dp_detector := d\<rparr>)" for d
    using inv log_ok_open [OF dp_invD(6) [OF inv] s] by (simp_all add: dp_inv_def)
  then show ?thesis
    using s False by (cases res) (auto simp: on_control_def Let_def on_control_frame_total split: option.splits)
qed (use inv in \<open>simp add: on_control_def\<close>)

lemma on_udp_total:
  assumes inv: "dp_inv dp"
  shows "\<exists>out dp'. on_udp_datagram E dg now dp = Some (out, dp') \<and> dp_inv dp'"
  using on_data_total [OF inv] on_control_total [OF inv] inv unfolding on_udp_datagram_def by (cases dg) auto

lemma seal_control_inv:
  assumes inv: "dp_inv dp"
  shows "dp_inv (snd (seal_control E f dp))"
proof -
  obtain res s where s: "seal (e_aead E) (dp_session dp) (control_encode f) = (res, s)" by fastforce
  have "dp_inv (dp\<lparr>dp_session := s\<rparr>)" using inv log_ok_seal [OF dp_invD(6) [OF inv] s] by (simp add: dp_inv_def)
  then show ?thesis using s by (cases res) (simp_all add: seal_control_def)
qed

lemma tick_total:
  assumes inv: "dp_inv dp0" and iter: "set (e_iter E (mt_index (dp_mac_table dp0))) = dom (mt_index (dp_mac_table dp0))"
  shows "\<exists>out dp'. dp_tick E v now dp0 = Some (out, dp') \<and> dp_inv dp'"
proof -
  obtain dp where dp: "(if now - dp_last_sweep_ms dp0 \<ge> MAC_SWEEP_INTERVAL_MS
      then map_option (\<lambda>t. dp0\<lparr>dp_last_sweep_ms := now, dp_mac_table := t\<rparr>) (mac_sweep (e_iter E) now (dp_mac_table dp0))
      else Some dp0) = Some dp" "dp_inv dp"
  proof (cases "now - dp_last_sweep_ms dp0 \<ge> MAC_SWEEP_INTERVAL_MS")
    case True
    obtain t where "mac_sweep (e_iter E) now (dp_mac_table dp0) = Some t" "mac_ok t"
      using mac_ok_sweep [where iter = "e_iter E", OF dp_invD(4) [OF inv] iter] by blast
    then show ?thesis using that [of "dp0\<lparr>dp_last_sweep_ms := now, dp_mac_table := t\<rparr>"] True inv by (simp add: dp_inv_def)
  qed (use inv that in simp)
  define dp1 where "dp1 = (if now - dp_last_log_ms dp \<ge> LOG_INTERVAL_MS then dp\<lparr>dp_last_log_ms := now\<rparr> else dp)"
  have dp1: "dp_inv dp1" using dp(2) by (simp add: dp1_def dp_inv_def)
  show ?thesis
  proof (cases "now - dp_last_feedback_ms dp1 < dp_feedback_interval_ms dp1")
    case True
    obtain probe pl where p: "on_tick (dp_plpmtu dp1) now = Some (probe, pl)" "plpmtu_inv pl"
      using on_tick_inv [OF dp_invD(3) [OF dp1]] by blast
    have dp2: "dp_inv (dp1\<lparr>dp_plpmtu := pl\<rparr>)" using dp1 p(2) by (simp add: dp_inv_def)
    then show ?thesis
      using True p(1) dp(1) seal_control_inv [OF dp2, of E]
      by (cases probe) (auto simp: dp_tick_def dp1_def [symmetric] prod_eq_iff)
  next
    case False
    obtain rep d where r: "report (dp_detector dp1) now = (rep, d)" by fastforce
    define n where "n = (if dp_obf_on dp1 then jitter_ms v FEEDBACK_INTERVAL_MS else FEEDBACK_INTERVAL_MS)"
    define dp2 where "dp2 = dp1\<lparr>dp_last_feedback_ms := now, dp_feedback_interval_ms := n\<rparr>"
    have "dp_inv (dp2\<lparr>dp_detector := d\<rparr>)" using dp1 by (simp add: dp_inv_def dp2_def)
    moreover obtain out dp' where o: "seal_control E (Feedback rep) (dp2\<lparr>dp_detector := d\<rparr>) = (out, dp')" by fastforce
    ultimately have "dp_inv dp'" using seal_control_inv [of "dp2\<lparr>dp_detector := d\<rparr>" E "Feedback rep"] by simp
    moreover have "report (dp_detector dp2) now = (rep, d)" using r by (simp add: dp2_def)
    ultimately show ?thesis
      using False dp(1) o by (simp add: dp_tick_def dp1_def [symmetric] Let_def n_def [symmetric] dp2_def [symmetric])
  qed
qed

lemma set_peer_addr_inv: "dp_inv dp \<Longrightarrow> dp_inv (set_peer_addr addr dp)"
proof -
  assume inv: "dp_inv dp"
  have "plpmtu_inv (snd (reset_to_floor (dp_plpmtu dp)))" using plpmtu_step_total [OF dp_invD(3) [OF inv], of Roam] by simp
  then show ?thesis using inv tr_inv_symbol_size [of "dp_transport dp" 1120]
    by (simp add: set_peer_addr_def Let_def dp_inv_def reset_to_floor_def)
qed

section \<open>Reachable data planes\<close>

inductive dp_reach :: "('f, 'g) dp_env \<Rightarrow> ('f, 'g, 'addr) DataPlane \<Rightarrow> bool" for E where
  start: "ssize \<noteq> 0 \<Longrightarrow> 0 < s_stride (es_session est) \<Longrightarrow> s_send_counter (es_session est) \<le> u64_max \<Longrightarrow>
    window_ok (s_replay (es_session est)) \<Longrightarrow> dp_reach E (dataplane_new E est tag mode addr obf ssize)"
| tun: "dp_reach E dp \<Longrightarrow> length inner \<le> 65535 \<Longrightarrow> on_tun_packet E inner now dp = Some (out, dp') \<Longrightarrow> dp_reach E dp'"
| udp: "dp_reach E dp \<Longrightarrow> on_udp_datagram E dg now dp = Some (res, dp') \<Longrightarrow> dp_reach E dp'"
| tick: "dp_reach E dp \<Longrightarrow> set (e_iter E (mt_index (dp_mac_table dp))) = dom (mt_index (dp_mac_table dp)) \<Longrightarrow>
    dp_tick E v now dp = Some (sent, dp') \<Longrightarrow> dp_reach E dp'"
| roam: "dp_reach E dp \<Longrightarrow> dp_reach E (set_peer_addr addr dp)"
| ratio: "dp_reach E dp \<Longrightarrow> dp_reach E (dp_set_fec_repair_ratio E r dp)"
| shard: "dp_reach E dp \<Longrightarrow> dp_reach E (dp_set_shard i n dp)"

lemma dp_reach_inv: "dp_reach E dp \<Longrightarrow> aead_ok (e_aead E) \<Longrightarrow> dp_inv dp"
proof (induction rule: dp_reach.induct)
  case (start ssize est tag mode addr obf)
  then show ?case by (simp add: dp_inv_new)
next
  case (tun dp inner now out dp')
  then show ?case using on_tun_total [of E dp inner now] by auto
next
  case (udp dp dg now res dp')
  then show ?case using on_udp_total [of dp E dg now] by auto
next
  case (tick dp v now sent dp')
  then show ?case using tick_total [of dp E v now] by auto
next
  case (roam dp addr)
  then show ?case by (simp add: set_peer_addr_inv)
next
  case (ratio dp r)
  then show ?case by (auto simp: dp_inv_def dp_set_fec_repair_ratio_def tr_inv_ratio) (simp add: set_fec_repair_ratio_def)
next
  case (shard dp i n)
  then show ?case by (auto simp: dp_inv_def dp_set_shard_def tr_inv_shard) (simp add: tr_set_shard_def)
qed

lemma mac_rel_card: "mac_rel cap ttl t l \<Longrightarrow> card (dom (mt_index t)) \<le> cap"
proof -
  assume "mac_rel cap ttl t l"
  then obtain ord where o: "mac_inv t ord" "mt_capacity t = cap" by (auto simp: mac_rel_def)
  have "dom (mt_index t) \<subseteq> (\<lambda>s. n_mac (mt_nodes t ! s)) ` set ord" using o(1) by (auto simp: mac_inv_def)
  then have "card (dom (mt_index t)) \<le> card ((\<lambda>s. n_mac (mt_nodes t ! s)) ` set ord)" by (rule card_mono [rotated]) simp
  also have "\<dots> \<le> length ord" by (rule order_trans [OF card_image_le card_length]) simp
  finally show ?thesis using o by (simp add: mac_inv_def)
qed

text \<open>A concrete environment and the two ends of a session, for the examples.\<close>

definition sample_env :: "(f32, nat) dp_env" where
  "sample_env =
     \<lparr>e_sip = (\<lambda>k m. of_nat (sum_list (map unat (k @ m)))), e_aead = null_aead, e_cpu = scalar_cpu, e_float = f32_ops,
      e_size = \<lparr>of_size = id, ewma = max, above_large = (<) 1000, below_small = (>) 256\<rparr>,
      e_iter = (\<lambda>_. []), e_blake = take 16\<rparr>"

definition sample_end :: "u8 \<Rightarrow> u8 \<Rightarrow> Established" where
  "sample_end ks kr =
     \<lparr>es_session = \<lparr>s_send_key = replicate 32 ks, s_recv_key = replicate 32 kr, s_send_counter = 0, s_stride = 1, s_replay = replay_new\<rparr>,
      es_auth_key = replicate 16 3, es_hp_key = replicate 16 4,
      es_raw_send_key = replicate 32 ks, es_raw_recv_key = replicate 32 kr\<rparr>"

lemma sample_env_aead: "aead_ok (e_aead sample_env)"
  by (simp add: sample_env_def null_aead_ok)

lemma sample_reach: "ssize \<noteq> 0 \<Longrightarrow> dp_reach E (dataplane_new E (sample_end a b) tag mode addr obf ssize)"
  by (rule dp_reach.start) (simp_all add: sample_end_def u64_max_def replay_new_def)

section \<open>Properties\<close>

text \<open>C5: nothing makes the data plane panic, and its memory is bounded. In every state reachable by packets of at
  most 65535 bytes from the tunnel, arbitrary datagrams, ticks, roaming and reconfiguration, each further
  such event returns a result; the symbol size is never 0; and the sent log, the retransmit buffer,
  the MAC table and each class's reassembler hold at most 4096, 16384, 4096 and 256 entries.\<close>

theorem dataplane_never_panics:
  assumes "aead_ok (e_aead E)" "dp_reach E dp" "length inner \<le> 65535"
    and "set (e_iter E (mt_index (dp_mac_table dp))) = dom (mt_index (dp_mac_table dp))"
  shows "(\<exists>out dp'. on_tun_packet E inner now dp = Some (out, dp')) \<and> (\<exists>res dp'. on_udp_datagram E dg now dp = Some (res, dp')) \<and>
    (\<exists>sent dp'. dp_tick E v now dp = Some (sent, dp')) \<and> tr_symbol_size (dp_transport dp) \<noteq> 0 \<and>
    length (sl_order (dp_sent_log dp)) \<le> 4096 \<and> length (sl_map (dp_sent_log dp)) \<le> 4096 \<and> retx_len (dp_retx dp) \<le> 16384 \<and>
    card (dom (mt_index (dp_mac_table dp))) \<le> 4096 \<and>
    (\<forall>i re. tr_reassemblers (dp_transport dp) i = Some re \<longrightarrow> in_flight re \<le> 256)"
proof -
  have inv: "dp_inv dp" by (rule dp_reach_inv [OF assms(2,1)])
  note i = dp_invD [OF inv]
  have l: "log_inv (dp_sent_log dp)" "sl_capacity (dp_sent_log dp) = 4096" using i(6) by (simp_all add: log_ok_def SENT_LOG_CAPACITY_def)
  then have log: "length (sl_order (dp_sent_log dp)) \<le> 4096" "length (sl_map (dp_sent_log dp)) \<le> 4096"
    using log_inv_length [OF l(1)] by (simp_all add: log_inv_def)
  have retx: "retx_len (dp_retx dp) \<le> 16384"
    using i(5) fifo_inv_card [of _ "fst (rb_cache (dp_retx dp))" "snd (rb_cache (dp_retx dp))"]
    by (force simp: retx_ok_def retx_inv_def retx_len_def RETX_BUFFER_MAX_def fifo_inv_def split: prod.splits)
  have mac: "card (dom (mt_index (dp_mac_table dp))) \<le> 4096" using i(4) by (auto simp: mac_ok_def DEFAULT_MAC_TABLE_CAPACITY_def dest: mac_rel_card)
  have fec: "in_flight re \<le> 256" if "tr_reassemblers (dp_transport dp) j = Some re" for j re
    using i(1) that reach_inv [of re] by (auto simp: tr_inv_def reasm_inv_def in_flight_def)
  show ?thesis
    using on_tun_total [OF assms(1) inv assms(3)] on_udp_total [OF inv] tick_total [OF inv assms(4)] i(2) log retx mac fec by blast
qed

theorem dataplane_never_panics_witness:
  "\<exists>out dp'. on_tun_packet sample_env (replicate 2000 9) 5 (dataplane_new sample_env (sample_end 1 2) 7 L2Tap () True 1200) = Some (out, dp')"
proof -
  let ?dp = "dataplane_new sample_env (sample_end 1 2) 7 L2Tap () True 1200"
  have "mt_index (dp_mac_table ?dp) = Map.empty" "e_iter sample_env m = []" for m
    by (simp_all add: dataplane_new_def mac_table_new_def sample_env_def)
  then have "set (e_iter sample_env (mt_index (dp_mac_table ?dp))) = dom (mt_index (dp_mac_table ?dp))" by simp
  then show ?thesis
    using dataplane_never_panics [OF sample_env_aead sample_reach, of 1200 "replicate 2000 9" 1 2 7 L2Tap "()" True] by simp
qed

end
