(* ===== verification/Delivery.thy ===== *)
theory Delivery
  imports Data_Plane_Inv
begin

text \<open>
  From tunnel device to tunnel device: what the data plane of one peer hands to its tunnel when it receives, in any
  order and with losses and duplicates, the datagrams the data plane of the other peer produced for a
  packet. The composition of sealing, error correction, framing, replay protection and reassembly.
\<close>

section \<open>Sending\<close>

lemma seal_seal_into:
  "seal_into A s p = ((Inr n, buf), s') \<Longrightarrow> seal A s p = (Inr \<lparr>sd_counter = n, sd_ciphertext = buf\<rparr>, s')"
  by (auto simp: seal_into_def seal_def Let_def split: option.splits sum.splits)

text \<open>The geometry of an object of \<open>sz\<close> bytes in symbols of \<open>sy\<close> bytes.\<close>

lemma tun_sends:
  assumes A: "aead_ok (e_aead E)" and inv: "dp_inv a" and len: "length inner \<le> 65535"
    and fits: "length inner + 16 \<le> 254 * sy" "sy = unat (tr_symbol_size (dp_transport a))"
    and sends: "seal (e_aead E) (dp_session a) inner = (Inr sd, s')"
    and ct: "ct = sd_ciphertext sd" and k: "k = div_ceil (length ct) sy"
  shows "\<exists>c r d oid a'. length ct = length inner + 16 \<and> k < 255 \<and>
    on_tun_packet E inner now a = Some (map (\<lambda>i. \<lparr>ed_fate = oid, ed_dst = dp_peer_addr a,
      ed_bytes = frame_data E a (of_nat (sd_counter sd)) c
        (mk_symbol oid (of_nat (length ct)) (to_u8 (scheme_for (arq (params c)) r)) i (d i))\<rparr>) [0..<k + r], a') \<and>
    k + r \<le> 255 \<and> (\<forall>i < k + r. carries (scheme_for (arq (params c)) r) (padded ct k (min (length ct) sy)) (min (length ct) sy) (length ct) i (d i))"
proof -
  note i = dp_invD [OF inv]
  obtain t where t: "learn_source inner LOCAL_TAP_PEER_ID LocalTap now a = Some (a\<lparr>dp_mac_table := t\<rparr>)"
    using learn_source_total [OF i(4)] by blast
  have s: "seal_into (e_aead E) (dp_session a) inner = ((Inr (sd_counter sd), ct), s')"
    using sends ct by (auto simp: seal_into_def seal_def Let_def split: option.splits sum.splits prod.splits)
  have l: "length ct = length inner + 16" using seal_into_result(3) [OF A i(6) s] .
  have sy: "0 < sy" using i(2) fits(2) by (simp add: unat_gt_0)
  have k254: "k < 255" using div_ceil_le_iff [OF sy, of "length ct" 254] fits(1) l k by simp
  obtain c cls where c: "classify (e_size E) (tr_classifier (dp_transport a)) inner (dp_l2 a) now = (c, cls)" by fastforce
  have ct': "length ct \<le> 262144" "0 < length ct" using l len by simp_all
  let ?ps = "params_for (dp_transport a) c"
  have ps: "symbol_size ?ps = tr_symbol_size (dp_transport a)" "arq ?ps = arq (params c)" by (simp_all add: params_for_def)
  define oid where "oid = next_object_id (tr_encoder (dp_transport a))"
  obtain repair syms e where e: "build (e_cpu E) ct ?ps oid repair = Some syms"
    "tr_encode (e_cpu E) (e_float E) (e_size E) ct inner (dp_l2 a) now (dp_transport a) =
       Some ((c, syms), (dp_transport a)\<lparr>tr_classifier := cls, tr_encoder := e\<rparr>)"
    using tr_encode_build [OF c i(2) ct'(1)] unfolding oid_def by blast
  define r where "r = min repair (255 - k)"
  have kk: "k = div_ceil (length ct) (unat (symbol_size ?ps))" using k ps fits(2) by simp
  obtain d where d: "build (e_cpu E) ct ?ps oid repair =
      Some (map (\<lambda>i. mk_symbol oid (of_nat (length ct)) (to_u8 (scheme_for (arq (params c)) r)) i (d i)) [0..<k + r])"
    "\<And>i. i < k + r \<Longrightarrow> carries (scheme_for (arq (params c)) r) (padded ct k (min (length ct) sy)) (min (length ct) sy) (length ct) i (d i)"
    using build_symbols [OF ct'(2,1), of ?ps "e_cpu E" oid repair] k254 sy ps fits(2) unfolding r_def kk by auto
  have syms: "syms = map (\<lambda>i. mk_symbol oid (of_nat (length ct)) (to_u8 (scheme_for (arq (params c)) r)) i (d i)) [0..<k + r]"
    using e(1) d(1) by simp
  have "object_id (mk_symbol oid n sc i x) = oid" for n sc i x by (simp add: mk_symbol_def)
  then have "\<exists>a'. on_tun_packet E inner now a = Some (map (\<lambda>symbol. \<lparr>ed_fate = oid, ed_dst = dp_peer_addr a,
      ed_bytes = frame_data E a (of_nat (sd_counter sd)) c symbol\<rparr>) syms, a')"
    using t s e(2) syms by (auto simp: on_tun_packet_def Let_def frame_data_def)
  then show ?thesis using l k254 d(2) unfolding syms by (auto simp: comp_def r_def intro!: exI)
qed

section \<open>Receiving\<close>

fun dp_feed ::
    "('f, 'g) dp_env \<Rightarrow> ('f, 'g, 'addr) DataPlane \<Rightarrow> (bytes \<times> nat) list \<Rightarrow> ('addr Outcome list \<times> ('f, 'g, 'addr) DataPlane) exec" where
  "dp_feed E b [] = Some ([], b)"
| "dp_feed E b ((dg, now) # rest) = do {
     (res, b') \<leftarrow> on_udp_datagram E dg now b;
     (out, b'') \<leftarrow> dp_feed E b' rest;
     Some (res # out, b'')
   }"

text \<open>The receiver waits for an object: it has the symbols \<open>S\<close>, its window accepts the counter, and opening the
  reassembled ciphertext will succeed.\<close>

definition awaits ::
    "('f, 'g) dp_env \<Rightarrow> bytes \<Rightarrow> u64 \<Rightarrow> FlowClass \<Rightarrow> Scheme \<Rightarrow> bytes \<Rightarrow> nat \<Rightarrow> nat \<Rightarrow> nat set \<Rightarrow> ('f, 'g, 'addr) DataPlane \<Rightarrow> bool" where
  "awaits E inner ky c sch ct sy e S b \<longleftrightarrow> dp_inv b \<and> sy = unat (tr_symbol_size (dp_transport b)) \<and>
     window_ok (s_replay (dp_session b)) \<and> check_replay (dp_session b) (unat ky) \<and>
     open_session (e_aead E) (dp_session b) (unat ky) ct =
       (Inr inner, (dp_session b)\<lparr>s_replay := replay_commit (s_replay (dp_session b)) (unat ky)\<rparr>) \<and>
     (tmap (objects (reasm_for c (dp_transport b))) ky = None \<and> S = {} \<or>
      tracked sch ct (div_ceil (length ct) sy) (min (length ct) sy) e S ky (reasm_for c (dp_transport b)))"

lemma on_udp_data:
  assumes codec: "dp_codec b = dp_codec a" and p: "length (payload_id symbol) = 4"
  shows "on_udp_datagram E (frame_data E a ky c symbol) now b =
    (if \<not> check_replay (dp_session b) (unat ky) then Some (NoOutcome, b)
     else let dp1 = b\<lparr>dp_detector := on_seen (dp_detector b) (unat ky) now\<rparr>
     in (case tr_decode (e_cpu E) ky symbol c now (dp_transport dp1) of
           None \<Rightarrow> None
         | Some (None, tr) \<Rightarrow> Some (NoOutcome, dp1\<lparr>dp_transport := tr\<rparr>)
         | Some (Some ciphertext, tr) \<Rightarrow>
             let dp2 = dp1\<lparr>dp_transport := tr, dp_detector := on_delivered (dp_detector dp1) (unat ky)\<rparr>
             in (case open_session (e_aead E) (dp_session dp2) (unat ky) ciphertext of
                   (Inl _, s) \<Rightarrow> Some (NoOutcome, dp2\<lparr>dp_session := s\<rparr>)
                 | (Inr inner, s) \<Rightarrow> do {
                     dp3 \<leftarrow> learn_source inner SINGLE_REMOTE_PEER_ID Peer now
                       (dp2\<lparr>dp_session := s,
                            dp_transport := tr_observe_ingress (e_size E) inner (dp_l2 dp2) now (dp_transport dp2)\<rparr>);
                     Some (TunWrite inner, dp3)
                   })))"
proof -
  let ?f = "symbol_to_frame (dp_conn_tag a) symbol ky c"
  have "length (fr_payload_id ?f) = 4" using p by (simp add: symbol_to_frame_def)
  from deframe_frame [OF this] have "deframe (e_sip E) (dp_codec b) (frame (e_sip E) (dp_codec a) ?f) = Inr ?f" by (simp add: codec)
  then show ?thesis unfolding frame_data_def on_udp_datagram_def by (simp add: on_data_def)
qed

lemma awaits_step:
  assumes w: "awaits E inner ky c sch ct sy e S b" and codec: "dp_codec b = dp_codec a"
    and ct: "0 < length ct" "length ct \<le> 262144" "k = div_ceil (length ct) sy" "k < 255"
    and car: "carries sch (padded ct k (min (length ct) sy)) (min (length ct) sy) (length ct) i d" "i < 255" "sch = Pq \<longrightarrow> i < k + 2"
    and now: "now \<le> e" "S = {} \<Longrightarrow> e = sat_add now (deadline_ms (params c))"
  shows "\<exists>b'. on_udp_datagram E (frame_data E a ky c (mk_symbol oid (of_nat (length ct)) (to_u8 sch) i d)) now b =
      Some (if i \<notin> S \<and> card (insert i S) = k then TunWrite inner else NoOutcome, b') \<and> dp_codec b' = dp_codec b \<and> dp_inv b' \<and>
    (if i \<notin> S \<and> card (insert i S) = k then \<not> check_replay (dp_session b') (unat ky)
     else awaits E inner ky c sch ct sy e (insert i S) b')"
proof -
  let ?t = "dp_transport b" and ?L = "min (length ct) sy"
  let ?s = "mk_symbol oid (of_nat (length ct)) (to_u8 sch) i d" and ?hit = "i \<notin> S \<and> card (insert i S) = k"
  have aw: "dp_inv b" "sy = unat (tr_symbol_size ?t)" "window_ok (s_replay (dp_session b))" "check_replay (dp_session b) (unat ky)"
    "open_session (e_aead E) (dp_session b) (unat ky) ct =
       (Inr inner, (dp_session b)\<lparr>s_replay := replay_commit (s_replay (dp_session b)) (unat ky)\<rparr>)"
    using w by (simp_all add: awaits_def)
  note i = dp_invD [OF aw(1)]
  note re = reasm_for_reach [OF i(1), of c]
  have sy: "sy = unat (re_symbol_size (reasm_for c ?t))" "0 < sy" using re aw(2) i(2) by (simp_all add: unat_gt_0)
  have g: "geometry k ?L (length ct)" using geometry_new [OF ct(1,2) sy(2)] ct(3,4) by simp
  have st: "tmap (objects (reasm_for c ?t)) ky = None \<and> S = {} \<and> e = sat_add now (deadline_ms (params c)) \<or>
      tracked sch ct k ?L e S ky (reasm_for c ?t)"
    using w now(2) ct(3) by (auto simp: awaits_def)
  obtain r' where r': "push (e_cpu E) (reasm_for c ?t) ky ?s now (deadline_ms (params c)) = Some (if ?hit then Some ct else None, r')"
    "tracked sch ct k ?L e (insert i S) ky r'"
    using push_tracked [OF reach_inv g ct(3) refl sy car now(1) st] re by blast
  define tr where "tr = ?t\<lparr>tr_reassemblers := (tr_reassemblers ?t)(class_index c \<mapsto> r')\<rparr>"
  have dec: "tr_decode (e_cpu E) ky ?s c now ?t = Some (if ?hit then Some ct else None, tr)"
    using r'(1) by (simp add: tr_decode_push tr_def)
  have tr: "tr_inv tr" "tr_symbol_size tr = tr_symbol_size ?t" "reasm_for c tr = r'"
    using tr_decode_total [OF i(1), of "e_cpu E" ky ?s c now] dec by (auto simp: tr_def reasm_for_def)
  have pid: "length (payload_id ?s) = 4" by (simp add: mk_symbol_def pack_payload_id_def)
  note eq = on_udp_data [OF codec pid, of E ky c now]
  show ?thesis
  proof (cases ?hit)
    case False
    let ?b = "b\<lparr>dp_detector := on_seen (dp_detector b) (unat ky) now, dp_transport := tr\<rparr>"
    have "on_udp_datagram E (frame_data E a ky c ?s) now b = Some (NoOutcome, ?b)"
      using dec [unfolded if_not_P [OF False]] aw(4) by (simp add: eq Let_def)
    moreover have inv: "dp_inv ?b" using i tr by (simp add: dp_inv_def)
    moreover have "awaits E inner ky c sch ct sy e (insert i S) ?b"
      using inv aw tr r'(2) ct(3) by (simp add: awaits_def)
    ultimately show ?thesis using False by auto
  next
    case True
    let ?d = "b\<lparr>dp_detector := on_delivered (on_seen (dp_detector b) (unat ky) now) (unat ky),
        dp_session := (dp_session b)\<lparr>s_replay := replay_commit (s_replay (dp_session b)) (unat ky)\<rparr>,
        dp_transport := tr_observe_ingress (e_size E) inner (dp_l2 b) now tr\<rparr>"
    have mac: "mac_ok (dp_mac_table ?d)" using i(4) by simp
    obtain m where m: "learn_source inner SINGLE_REMOTE_PEER_ID Peer now ?d = Some (?d\<lparr>dp_mac_table := m\<rparr>)"
      using learn_source_total [OF mac] by blast
    have u: "on_udp_datagram E (frame_data E a ky c ?s) now b = Some (TunWrite inner, ?d\<lparr>dp_mac_table := m\<rparr>)"
      using True dec aw(4,5) m by (simp add: eq Let_def)
    moreover have "dp_inv (?d\<lparr>dp_mac_table := m\<rparr>)" using on_udp_total [OF aw(1), of E "frame_data E a ky c ?s" now] u by simp
    moreover have "\<not> check_replay (dp_session (?d\<lparr>dp_mac_table := m\<rparr>)) (unat ky)"
      using guard.refuses [OF aw(3)] aw(4) by (simp add: check_replay_def)
    ultimately show ?thesis using True by auto
  qed
qed

lemma deliveries_done: "finite S \<Longrightarrow> k \<le> card S \<Longrightarrow> deliveries k f S is = replicate (length is) None"
proof (induction "is" arbitrary: S)
  case (Cons i "is")
  then show ?case by (cases "i \<in> S") (auto simp: insert_absorb)
qed simp

lemma deliveries_once:
  "finite S \<Longrightarrow> card S < k \<Longrightarrow>
   length (filter (\<lambda>x. x \<noteq> None) (deliveries k f S is)) = (if k \<le> card (S \<union> set is) then 1 else 0)"
proof (induction "is" arbitrary: S)
  case (Cons i "is")
  show ?case
  proof (cases "i \<notin> S \<and> card (insert i S) = k")
    case True
    have "card (insert i S) \<le> card (S \<union> set (i # is))" using Cons.prems by (intro card_mono) auto
    then show ?thesis using True Cons.prems deliveries_done [of "insert i S" k f "is"] by simp
  next
    case False
    then have "card (insert i S) < k" using Cons.prems by (auto simp: card_insert_if)
    then show ?thesis using Cons.IH [of "insert i S"] Cons.prems False by auto
  qed
qed simp

definition outcome_of :: "bytes option \<Rightarrow> 'addr Outcome" where
  "outcome_of r = (case r of None \<Rightarrow> NoOutcome | Some inner \<Rightarrow> TunWrite inner)"

lemma feed_refused:
  assumes "\<not> check_replay (dp_session b) (unat ky)" "dp_codec b = dp_codec a" "\<forall>(dg, t) \<in> set arr. \<exists>s. dg = frame_data E a ky c s \<and> length (payload_id s) = 4"
  shows "dp_feed E b arr = Some (replicate (length arr) NoOutcome, b)"
  using assms(3)
proof (induction arr)
  case (Cons x arr)
  obtain dg t s where x: "x = (dg, t)" "dg = frame_data E a ky c s" "length (payload_id s) = 4" using Cons.prems by (cases x) auto
  then show ?case using Cons on_udp_data [OF assms(2) x(3)] assms(1) by auto
qed simp

lemma feed_awaits:
  fixes d :: "nat \<Rightarrow> bytes" and oid :: u16
  defines "dg \<equiv> \<lambda>E a ky c sch ct i. frame_data E a ky c (mk_symbol oid (of_nat (length ct)) (to_u8 sch) i (d i))"
  assumes "awaits E inner ky c sch ct sy e S b" "dp_codec b = dp_codec a" "finite S" "card S < k"
    and ct: "0 < length ct" "length ct \<le> 262144" "k = div_ceil (length ct) sy" "k < 255"
    and car: "\<And>i. i < n \<Longrightarrow> carries sch (padded ct k (min (length ct) sy)) (min (length ct) sy) (length ct) i (d i) \<and> i < 255 \<and> (sch = Pq \<longrightarrow> i < k + 2)"
    and arr: "\<forall>(i, t) \<in> set arr. i < n \<and> t \<le> e" "S = {} \<Longrightarrow> arr \<noteq> [] \<Longrightarrow> e = sat_add (snd (hd arr)) (deadline_ms (params c))"
  shows "\<exists>b'. dp_feed E b (map (\<lambda>(i, t). (dg E a ky c sch ct i, t)) arr) =
    Some (map outcome_of (deliveries k inner S (map fst arr)), b') \<and> dp_inv b'"
  using assms(2-5) arr
proof (induction arr arbitrary: b S)
  case Nil
  then show ?case by (auto simp: awaits_def)
next
  case (Cons x arr)
  obtain i t where x: "x = (i, t)" by (cases x)
  let ?hit = "i \<notin> S \<and> card (insert i S) = k"
  have it: "i < n" "t \<le> e" "S = {} \<Longrightarrow> e = sat_add t (deadline_ms (params c))" using Cons.prems(5,6) x by auto
  have c: "carries sch (padded ct k (min (length ct) sy)) (min (length ct) sy) (length ct) i (d i)" "i < 255" "sch = Pq \<longrightarrow> i < k + 2"
    using car [OF it(1)] by blast+
  obtain b' where b': "on_udp_datagram E (dg E a ky c sch ct i) t b = Some (if ?hit then TunWrite inner else NoOutcome, b')"
    "dp_codec b' = dp_codec b" "dp_inv b'"
    "if ?hit then \<not> check_replay (dp_session b') (unat ky) else awaits E inner ky c sch ct sy e (insert i S) b'"
    using awaits_step [OF Cons.prems(1,2) ct c it(2,3)] unfolding dg_def by blast
  show ?case
  proof (cases ?hit)
    case True
    have "\<forall>(g, t) \<in> set (map (\<lambda>(i, t). (dg E a ky c sch ct i, t)) arr). \<exists>s. g = frame_data E a ky c s \<and> length (payload_id s) = 4"
      by (auto simp: dg_def mk_symbol_def pack_payload_id_def)
    then have "dp_feed E b' (map (\<lambda>(i, t). (dg E a ky c sch ct i, t)) arr) = Some (replicate (length arr) NoOutcome, b')"
      using feed_refused [of b' ky a _ E c] b'(2,4) Cons.prems(2) True by simp
    moreover have "deliveries k inner (insert i S) (map fst arr) = replicate (length arr) None"
      using deliveries_done [of "insert i S" k] Cons.prems(3) True by simp
    ultimately show ?thesis using b'(1,3) True x by (simp add: outcome_of_def)
  next
    case False
    then have "card (insert i S) < k" using Cons.prems(3,4) by (auto simp: card_insert_if)
    moreover have "awaits E inner ky c sch ct sy e (insert i S) b'" "dp_codec b' = dp_codec a" using b'(2,4) False Cons.prems(2) by auto
    ultimately obtain b'' where "dp_feed E b' (map (\<lambda>(i, t). (dg E a ky c sch ct i, t)) arr) =
        Some (map outcome_of (deliveries k inner (insert i S) (map fst arr)), b'')" "dp_inv b''"
      using Cons.IH [of "insert i S" b'] Cons.prems(3,5) by auto
    then show ?thesis using b'(1) [unfolded if_not_P [OF False]] False x by (auto simp: outcome_of_def)
  qed
qed

section \<open>Between two peers\<close>

text \<open>Whether a class's reassembler at \<open>b\<close> has heard of an object.\<close>

definition unheard :: "u64 \<Rightarrow> ('f, 'g, 'addr) DataPlane \<Rightarrow> bool" where
  "unheard ky b \<longleftrightarrow> (\<forall>i re. tr_reassemblers (dp_transport b) i = Some re \<longrightarrow> table_get (objects re) ky = Some None)"

lemma unheard_fresh:
  assumes "unheard ky b" "tr_inv (dp_transport b)"
  shows "tmap (objects (reasm_for c (dp_transport b))) ky = None"
proof (cases "tr_reassemblers (dp_transport b) (class_index c)")
  case None
  have "table_get (objects (reassembler_new s n)) ky = Some None" for s n by (simp add: reassembler_new_def Let_def table_new_inv)
  moreover have "table_inv (objects (reassembler_new s n))" for s n using reach_inv [OF reasm_reach.start] by (simp add: reasm_inv_def)
  ultimately show ?thesis using None by (simp add: reasm_for_def)
next
  case (Some re)
  then have r: "table_get (objects re) ky = Some None" "reasm_reach re" using assms by (auto simp: unheard_def tr_inv_def)
  have "table_inv (objects re)" using reach_inv [OF r(2)] by (simp add: reasm_inv_def)
  then show ?thesis using Some r(1) by (simp add: reasm_for_def)
qed

lemma delivery:
  fixes E F :: "('f, 'g) dp_env" and a b :: "('f, 'g, 'addr) DataPlane"
  assumes "aead_ok (e_aead E)" "e_sip F = e_sip E" "e_aead F = e_aead E" "dp_reach E a" "dp_reach F b"
    and "dp_codec b = dp_codec a" "s_recv_key (dp_session b) = s_send_key (dp_session a)"
    and "tr_symbol_size (dp_transport b) = tr_symbol_size (dp_transport a)"
    and "seal (e_aead E) (dp_session a) inner = (Inr sd, s')" "check_replay (dp_session b) (sd_counter sd)"
    and "unheard (of_nat (sd_counter sd)) b"
    and "length inner \<le> 65535" "length inner + 16 \<le> 254 * unat (tr_symbol_size (dp_transport a))"
    and "k = div_ceil (length inner + 16) (unat (tr_symbol_size (dp_transport a)))"
  shows "\<exists>c out a'. on_tun_packet E inner now a = Some (out, a') \<and> k \<le> length out \<and>
    (\<forall>arr. (\<forall>(i, t) \<in> set arr. i < length out \<and> t \<le> sat_add (snd (hd arr)) (deadline_ms (params c))) \<longrightarrow>
       (\<exists>b'. dp_feed F b (map (\<lambda>(i, t). (ed_bytes (out ! i), t)) arr) =
               Some (map outcome_of (deliveries k inner {} (map fst arr)), b') \<and>
             length (filter (\<lambda>x. x \<noteq> None) (deliveries k inner {} (map fst arr))) = (if k \<le> card (fst ` set arr) then 1 else 0)))"
proof -
  have inv: "dp_inv a" "dp_inv b" using dp_reach_inv assms(1,3-5) by (metis, metis)
  define ky :: u64 where "ky = of_nat (sd_counter sd)"
  define ct where "ct = sd_ciphertext sd"
  let ?sy = "unat (tr_symbol_size (dp_transport a))"
  have s: "seal_into (e_aead E) (dp_session a) inner = ((Inr (sd_counter sd), ct), s')"
    using assms(9) by (auto simp: ct_def seal_into_def seal_def Let_def split: option.splits sum.splits prod.splits)
  have lt: "sd_counter sd < u64_max" "length ct = length inner + 16" using seal_into_result [OF assms(1) dp_invD(6) [OF inv(1)] s] by blast+
  have ky: "unat ky = sd_counter sd" using lt by (simp add: ky_def unat_of_nat u64_max_def)
  have k: "k = div_ceil (length ct) ?sy" using assms(14) lt(2) by simp
  obtain c r d oid a' where o: "k < 255" "k + r \<le> 255" "on_tun_packet E inner now a = Some (map (\<lambda>i. \<lparr>ed_fate = oid, ed_dst = dp_peer_addr a,
      ed_bytes = frame_data E a ky c (mk_symbol oid (of_nat (length ct)) (to_u8 (scheme_for (arq (params c)) r)) i (d i))\<rparr>) [0..<k + r], a')"
    "\<forall>i < k + r. carries (scheme_for (arq (params c)) r) (padded ct k (min (length ct) ?sy)) (min (length ct) ?sy) (length ct) i (d i)"
    using tun_sends [OF assms(1) inv(1) assms(12,13) refl assms(9) ct_def k] unfolding ky_def by blast
  let ?sch = "scheme_for (arq (params c)) r"
  let ?out = "map (\<lambda>i. \<lparr>ed_fate = oid, ed_dst = dp_peer_addr a,
      ed_bytes = frame_data E a ky c (mk_symbol oid (of_nat (length ct)) (to_u8 ?sch) i (d i))\<rparr>) [0..<k + r]"
  have fd: "frame_data E a = frame_data F a" by (intro ext) (simp add: frame_data_def assms(2))
  have k0: "0 < k" using k lt(2) div_ceil_pos [of ?sy "length ct"] dp_invD(2) [OF inv(1)] by (simp add: unat_gt_0)
  have car: "carries ?sch (padded ct k (min (length ct) ?sy)) (min (length ct) ?sy) (length ct) i (d i) \<and> i < 255 \<and> (?sch = Pq \<longrightarrow> i < k + 2)"
    if "i < k + r" for i using o(2,4) that by (auto simp: scheme_for_def split: if_splits)
  have op: "open_session (e_aead F) (dp_session b) (unat ky) ct =
      (Inr inner, (dp_session b)\<lparr>s_replay := replay_commit (s_replay (dp_session b)) (unat ky)\<rparr>)"
    using open_sealed [OF assms(1,7,9,10)] unfolding ky ct_def assms(3) .
  have aw: "awaits F inner ky c ?sch ct ?sy e {} b" for e
    using inv(2) assms(8,10,11) op unheard_fresh [OF _ dp_invD(1) [OF inv(2)], of ky c] dp_invD(6) [OF inv(2)] ky
    by (simp add: awaits_def ky_def [symmetric] log_ok_def)
  have "\<exists>b'. dp_feed F b (map (\<lambda>(i, t). (ed_bytes (?out ! i), t)) arr) = Some (map outcome_of (deliveries k inner {} (map fst arr)), b') \<and>
      length (filter (\<lambda>x. x \<noteq> None) (deliveries k inner {} (map fst arr))) = (if k \<le> card (fst ` set arr) then 1 else 0)"
    if arr: "\<forall>(i, t) \<in> set arr. i < length ?out \<and> t \<le> sat_add (snd (hd arr)) (deadline_ms (params c))" for arr
  proof -
    have eq: "map (\<lambda>(i, t). (ed_bytes (?out ! i), t)) arr =
        map (\<lambda>(i, t). (frame_data F a ky c (mk_symbol oid (of_nat (length ct)) (to_u8 ?sch) i (d i)), t)) arr"
      using arr fd by (auto simp del: upt_Suc)
    have "\<forall>(i, t) \<in> set arr. i < k + r \<and> t \<le> sat_add (snd (hd arr)) (deadline_ms (params c))" using arr by simp
    from feed_awaits [OF aw assms(6) _ _ _ _ k o(1) car this] k0 lt(2) assms(12)
    show ?thesis unfolding eq using deliveries_once [of "{}" k inner "map fst arr"] by auto
  qed
  then show ?thesis using o(3) by (intro exI [of _ c] exI [of _ ?out] exI [of _ a']) simp
qed

section \<open>Properties\<close>

text \<open>C2: a packet that enters the tunnel at one peer leaves it at the other exactly once, or not at all. Let two
  reachable data planes share the codec keys, the symbol size and the key of one direction, and let the
  receiver's replay window accept the sender's next counter and its reassemblers not know it. The sender
  turns a packet that fits 254 symbols into \<open>K\<close> or more datagrams. Whatever sequence of them arrives within
  the class's deadline after the first, in any order and with any repetitions, on whatever CPU, no
  datagram makes the receiver panic; the first arrival that completes \<open>K\<close> distinct ones hands the packet,
  unchanged, to the tunnel device; and no other arrival hands anything to it.\<close>

theorem tunnel_delivers_once:
  fixes E F :: "('f, 'g) dp_env" and a b :: "('f, 'g, 'addr) DataPlane"
  assumes "aead_ok (e_aead E)" "e_sip F = e_sip E" "e_aead F = e_aead E" "dp_reach E a" "dp_reach F b"
    and "dp_codec b = dp_codec a" "s_recv_key (dp_session b) = s_send_key (dp_session a)"
    and "tr_symbol_size (dp_transport b) = tr_symbol_size (dp_transport a)"
    and "seal (e_aead E) (dp_session a) inner = (Inr sd, s')" "check_replay (dp_session b) (sd_counter sd)"
    and "unheard (of_nat (sd_counter sd)) b"
    and "length inner \<le> 65535" "length inner + 16 \<le> 254 * unat (tr_symbol_size (dp_transport a))"
    and "k = div_ceil (length inner + 16) (unat (tr_symbol_size (dp_transport a)))"
  shows "\<exists>c out a'. on_tun_packet E inner now a = Some (out, a') \<and> k \<le> length out \<and>
    (\<forall>arr. (\<forall>(i, t) \<in> set arr. i < length out \<and> t \<le> sat_add (snd (hd arr)) (deadline_ms (params c))) \<longrightarrow>
       (\<exists>b'. dp_feed F b (map (\<lambda>(i, t). (ed_bytes (out ! i), t)) arr) =
               Some (map outcome_of (deliveries k inner {} (map fst arr)), b') \<and>
             length (filter (\<lambda>x. x \<noteq> None) (deliveries k inner {} (map fst arr))) = (if k \<le> card (fst ` set arr) then 1 else 0)))"
  by (rule delivery [OF assms])

theorem tunnel_delivers_once_witness:
  "\<exists>c out a'. on_tun_packet sample_env [9, 8, 7] 5 (dataplane_new sample_env (sample_end 1 2) 7 L3Tun () False 4) = Some (out, a') \<and>
     5 \<le> length out \<and> (\<exists>b'. dp_feed sample_env (dataplane_new sample_env (sample_end 2 1) 7 L3Tun () False 4)
       [(ed_bytes (out ! 3), 10), (ed_bytes (out ! 1), 11), (ed_bytes (out ! 1), 11), (ed_bytes (out ! 0), 12),
        (ed_bytes (out ! 2), 12), (ed_bytes (out ! 4), 13), (ed_bytes (out ! 0), 14)] =
       Some ([NoOutcome, NoOutcome, NoOutcome, NoOutcome, NoOutcome, TunWrite [9, 8, 7], NoOutcome], b'))"
proof -
  let ?a = "dataplane_new sample_env (sample_end 1 2) 7 L3Tun () False 4"
  let ?b = "dataplane_new sample_env (sample_end 2 1) 7 L3Tun () False 4"
  let ?sd = "\<lparr>sd_counter = 0, sd_ciphertext = [9, 8, 7] @ noise_nonce 0 @ replicate 4 0\<rparr>"
  let ?s = "(dp_session ?a)\<lparr>s_send_counter := 1\<rparr>"
  let ?arr = "[(3 :: nat, 10 :: nat), (1, 11), (1, 11), (0, 12), (2, 12), (4, 13), (0, 14)]"
  have nz: "(4 :: u16) \<noteq> 0" by simp
  have keys: "dp_codec ?b = dp_codec ?a" "s_recv_key (dp_session ?b) = s_send_key (dp_session ?a)"
    "tr_symbol_size (dp_transport ?b) = tr_symbol_size (dp_transport ?a)" "unat (tr_symbol_size (dp_transport ?a)) = 4"
    by (simp_all add: dataplane_new_def sample_end_def)
  have seal: "seal (e_aead sample_env) (dp_session ?a) [9, 8, 7] = (Inr ?sd, ?s)"
    by (simp add: sample_env_def dataplane_new_def sample_end_def seal_def null_aead_def noise_nonce_def bump_def checked_add_def u64_max_def le_bytes_def)
  have chk: "check_replay (dp_session ?b) (sd_counter ?sd)"
    by (simp add: dataplane_new_def sample_end_def replay_new_def check_replay_def replay_check_def new_with_profile_def)
  have fresh: "unheard (of_nat (sd_counter ?sd)) ?b" by (simp add: unheard_def dataplane_new_def transport_new_def)
  have k: "5 = div_ceil (length [9 :: u8, 8, 7] + 16) (unat (tr_symbol_size (dp_transport ?a)))"
    unfolding keys(4) by (simp add: div_ceil_def)
  have len: "length [9 :: u8, 8, 7] \<le> 65535" "length [9 :: u8, 8, 7] + 16 \<le> 254 * unat (tr_symbol_size (dp_transport ?a))"
    unfolding keys(4) by simp_all
  obtain c out a' where o: "on_tun_packet sample_env [9, 8, 7] 5 ?a = Some (out, a')" "5 \<le> length out"
    "\<And>arr. \<forall>(i, t) \<in> set arr. i < length out \<and> t \<le> sat_add (snd (hd arr)) (deadline_ms (params c)) \<Longrightarrow>
       \<exists>b'. dp_feed sample_env ?b (map (\<lambda>(i, t). (ed_bytes (out ! i), t)) arr) = Some (map outcome_of (deliveries 5 [9, 8, 7] {} (map fst arr)), b')"
    using tunnel_delivers_once [OF sample_env_aead refl refl sample_reach [OF nz] sample_reach [OF nz] keys(1-3) seal chk fresh len k, of 5] by blast
  have "10 \<le> deadline_ms (params c)" by (cases c) simp_all
  then have "\<forall>(i, t) \<in> set ?arr. i < length out \<and> t \<le> sat_add (snd (hd ?arr)) (deadline_ms (params c))"
    using o(2) by (auto simp: sat_add_def u64_max_def)
  from o(3) [OF this] obtain b' where "dp_feed sample_env ?b (map (\<lambda>(i, t). (ed_bytes (out ! i), t)) ?arr) =
      Some (map outcome_of (deliveries 5 [9, 8, 7] {} (map fst ?arr)), b')" ..
  moreover have "map outcome_of (deliveries 5 [9, 8, 7] {} (map fst ?arr)) =
      [NoOutcome, NoOutcome, NoOutcome, NoOutcome, NoOutcome, TunWrite [9, 8, 7], NoOutcome]"
    by (simp add: outcome_of_def)
  ultimately show ?thesis using o(1,2) by (auto simp del: dp_feed.simps)
qed

end
