(* ===== verification/Noise.thy ===== *)
theory Noise
  imports Handshake_Msg
begin

text \<open>
  The post-quantum hybrid handshake: \<^verbatim>\<open>Handshake\<close> of \<^verbatim>\<open>crates/yip-crypto/src/lib.rs\<close> and the step functions of
  \<^verbatim>\<open>bin/yipd/src/handshake.rs\<close> over it. The Noise implementation (snow) is the parameter \<open>N\<close>, ML-KEM-512 the
  parameter \<open>M\<close>, BLAKE2s \<open>b2s\<close>; the randomness they draw is an argument. What the code relies on
  are the named hypotheses \<open>snow_ok\<close> (the message flow of Noise IKpsk2 between matching keys) and \<open>kem_ok\<close>
  (decapsulation inverts encapsulation).
\<close>

unbundle bit_operations_syntax

section \<open>Parameters\<close>

record ('h, 'r) snow =
  sn_initiator :: "'r \<Rightarrow> bytes \<Rightarrow> bytes \<Rightarrow> 'h option"
  sn_responder :: "'r \<Rightarrow> bytes \<Rightarrow> 'h option"
  sn_write :: "nat \<Rightarrow> bytes \<Rightarrow> 'h \<Rightarrow> (bytes \<times> 'h) option"
  sn_read :: "nat \<Rightarrow> bytes \<Rightarrow> 'h \<Rightarrow> (bytes \<times> 'h) option"
  sn_set_psk :: "bytes \<Rightarrow> 'h \<Rightarrow> 'h option"
  sn_is_initiator :: "'h \<Rightarrow> bool"
  sn_remote_static :: "'h \<Rightarrow> bytes option"
  sn_hash :: "'h \<Rightarrow> bytes"
  sn_split :: "'h \<Rightarrow> bytes \<times> bytes"

record ('dk, 'r) kem =
  kem_keypair :: "'r \<Rightarrow> 'dk \<times> bytes"
  kem_encapsulate :: "'r \<Rightarrow> bytes \<Rightarrow> (bytes \<times> bytes) option"
  kem_decapsulate :: "'dk \<Rightarrow> bytes \<Rightarrow> bytes"

section \<open>Hybrid handshake\<close>

definition PQ_ENCAPS_KEY_LEN :: nat where "PQ_ENCAPS_KEY_LEN = 800"

definition PQ_SHARED_SECRET_LEN :: nat where "PQ_SHARED_SECRET_LEN = 32"

definition generate_pq_keypair :: "('dk, 'r) kem \<Rightarrow> 'r \<Rightarrow> bytes \<times> 'dk" where
  "generate_pq_keypair M rnd = (case kem_keypair M rnd of (dk, ek) \<Rightarrow> (ek, dk))"

text \<open>The 12-bit coefficients of the encoded key, three bytes for two of them.\<close>

fun coeffs_ok :: "bytes \<Rightarrow> bool" where
  "coeffs_ok (b0 # b1 # b2 # rest) =
     (let d0 = (ucast b0 :: u16) OR push_bit 8 (ucast b1 AND 0x0F);
          d1 = drop_bit 4 (ucast b1 :: u16) OR push_bit 4 (ucast b2)
      in d0 < 3329 \<and> d1 < 3329 \<and> coeffs_ok rest)"
| "coeffs_ok _ = True"

definition pq_encapsulate :: "('dk, 'r) kem \<Rightarrow> 'r \<Rightarrow> bytes \<Rightarrow> CryptoError + bytes \<times> bytes" where
  "pq_encapsulate M rnd ek =
     (if \<not> coeffs_ok (take 768 ek) then Inl Handshake
      else case kem_encapsulate M rnd ek of None \<Rightarrow> Inl Handshake | Some (ct, ss) \<Rightarrow> Inr (ct, ss))"

definition pq_decapsulate :: "('dk, 'r) kem \<Rightarrow> 'dk \<Rightarrow> bytes \<Rightarrow> bytes" where
  "pq_decapsulate M dk ct = kem_decapsulate M dk ct"

datatype 'dk HandshakePqRole =
    Initiator "'dk option" bytes
  | Responder "bytes option"

record ('h, 'dk) Handshake =
  hs_inner :: 'h
  hs_role :: "'dk HandshakePqRole"

definition hs_initiator ::
    "('h, 'r) snow \<Rightarrow> ('dk, 'r) kem \<Rightarrow> 'r \<Rightarrow> bytes \<Rightarrow> bytes \<Rightarrow> CryptoError + ('h, 'dk) Handshake" where
  "hs_initiator N M rnd local_private peer_public =
     (case sn_initiator N rnd local_private peer_public of
        None \<Rightarrow> Inl Handshake
      | Some h \<Rightarrow> (case generate_pq_keypair M rnd of (ek, dk) \<Rightarrow> Inr \<lparr>hs_inner = h, hs_role = Initiator (Some dk) ek\<rparr>))"

definition hs_responder :: "('h, 'r) snow \<Rightarrow> 'r \<Rightarrow> bytes \<Rightarrow> CryptoError + ('h, 'dk) Handshake" where
  "hs_responder N rnd local_private =
     (case sn_responder N rnd local_private of
        None \<Rightarrow> Inl Handshake
      | Some h \<Rightarrow> Inr \<lparr>hs_inner = h, hs_role = Responder None\<rparr>)"

text \<open>Both message operations return the handshake beside their result; snow writes into buffers of 4096 bytes.\<close>

definition write_message ::
    "('h, 'r) snow \<Rightarrow> bytes \<Rightarrow> ('h, 'dk) Handshake \<Rightarrow> (CryptoError + bytes) \<times> ('h, 'dk) Handshake" where
  "write_message N pl hs =
     (case hs_role hs of
        Initiator dk ek \<Rightarrow>
          (case sn_write N 4096 (ek @ pl) (hs_inner hs) of
             None \<Rightarrow> (Inl Handshake, hs)
           | Some (m, h) \<Rightarrow> (Inr m, hs\<lparr>hs_inner := h\<rparr>))
      | Responder None \<Rightarrow> (Inl Handshake, hs)
      | Responder (Some ct) \<Rightarrow>
          let hs' = hs\<lparr>hs_role := Responder None\<rparr>
          in (case sn_write N 4096 pl (hs_inner hs') of
                None \<Rightarrow> (Inl Handshake, hs')
              | Some (m, h) \<Rightarrow> (Inr (ct @ m), hs'\<lparr>hs_inner := h\<rparr>)))"

definition read_message ::
    "('h, 'r) snow \<Rightarrow> ('dk, 'r) kem \<Rightarrow> 'r \<Rightarrow> bytes \<Rightarrow> ('h, 'dk) Handshake \<Rightarrow> (CryptoError + bytes) \<times> ('h, 'dk) Handshake" where
  "read_message N M rnd msg hs =
     (case hs_role hs of
        Responder _ \<Rightarrow>
          (case sn_read N 4096 msg (hs_inner hs) of
             None \<Rightarrow> (Inl Handshake, hs)
           | Some (buf, h) \<Rightarrow>
               let hs1 = hs\<lparr>hs_inner := h\<rparr>
               in if length buf < PQ_ENCAPS_KEY_LEN then (Inl Handshake, hs1)
                  else (case pq_encapsulate M rnd (take PQ_ENCAPS_KEY_LEN buf) of
                          Inl e \<Rightarrow> (Inl e, hs1)
                        | Inr (ct, ss) \<Rightarrow>
                            (case sn_set_psk N ss h of
                               None \<Rightarrow> (Inl Handshake, hs1)
                             | Some h' \<Rightarrow> (Inr (drop PQ_ENCAPS_KEY_LEN buf),
                                           hs1\<lparr>hs_inner := h', hs_role := Responder (Some ct)\<rparr>))))
      | Initiator dk ek \<Rightarrow>
          (case slice msg 0 PQ_CIPHERTEXT_LEN of
             None \<Rightarrow> (Inl Handshake, hs)
           | Some ct \<Rightarrow>
               (case dk of
                  None \<Rightarrow> (Inl Handshake, hs)
                | Some k \<Rightarrow>
                    let hs1 = hs\<lparr>hs_role := Initiator None ek\<rparr>; ss = pq_decapsulate M k ct
                    in (case sn_set_psk N ss (hs_inner hs1) of
                          None \<Rightarrow> (Inl Handshake, hs1)
                        | Some h \<Rightarrow>
                            (case sn_read N 4096 (drop PQ_CIPHERTEXT_LEN msg) h of
                               None \<Rightarrow> (Inl Handshake, hs1\<lparr>hs_inner := h\<rparr>)
                             | Some (buf, h') \<Rightarrow> (Inr buf, hs1\<lparr>hs_inner := h'\<rparr>))))))"

definition raw_split_keys :: "('h, 'r) snow \<Rightarrow> ('h, 'dk) Handshake \<Rightarrow> bytes \<times> bytes" where
  "raw_split_keys N hs =
     (case sn_split N (hs_inner hs) of (k0, k1) \<Rightarrow> if sn_is_initiator N (hs_inner hs) then (k0, k1) else (k1, k0))"

definition channel_binding :: "('h, 'r) snow \<Rightarrow> ('h, 'dk) Handshake \<Rightarrow> bytes" where
  "channel_binding N hs = sn_hash N (hs_inner hs)"

definition remote_static :: "('h, 'r) snow \<Rightarrow> ('h, 'dk) Handshake \<Rightarrow> bytes option" where
  "remote_static N hs = sn_remote_static N (hs_inner hs)"

definition into_session :: "('h, 'r) snow \<Rightarrow> ('h, 'dk) Handshake \<Rightarrow> CryptoError + Session" where
  "into_session N hs = (case raw_split_keys N hs of (k_send, k_recv) \<Rightarrow> from_raw_keys k_send k_recv 0 1)"

section \<open>Step functions\<close>

text \<open>An I/O error carries a cryptographic error or says that the packet or the peer's key is wrong.\<close>

datatype hs_error = Crypto CryptoError | Unexpected_packet | No_remote_static

definition finish :: "('h, 'r) snow \<Rightarrow> (bytes \<Rightarrow> bytes) \<Rightarrow> ('h, 'dk) Handshake \<Rightarrow> hs_error + Established" where
  "finish N b2s hs =
     (let cb = channel_binding N hs; (raw_send, raw_recv) = raw_split_keys N hs
      in case into_session N hs of
           Inl e \<Rightarrow> Inl (Crypto e)
         | Inr s \<Rightarrow> (case derive_wire_keys b2s cb of (ak, hk) \<Rightarrow>
             Inr \<lparr>es_session = s, es_auth_key = ak, es_hp_key = hk, es_raw_send_key = raw_send, es_raw_recv_key = raw_recv\<rparr>))"

definition start_initiator ::
    "('h, 'r) snow \<Rightarrow> ('dk, 'r) kem \<Rightarrow> 'r \<Rightarrow> bytes \<Rightarrow> bytes \<Rightarrow> bytes \<Rightarrow> hs_error + ('h, 'dk) Handshake \<times> bytes" where
  "start_initiator N M rnd local_priv peer_pub pl =
     (case hs_initiator N M rnd local_priv peer_pub of
        Inl e \<Rightarrow> Inl (Crypto e)
      | Inr hs \<Rightarrow>
          (case write_message N pl hs of
             (Inl e, _) \<Rightarrow> Inl (Crypto e)
           | (Inr msg1, hs') \<Rightarrow> Inr (hs', packet_type HandshakeInit # msg1)))"

definition start_responder ::
    "('h, 'r) snow \<Rightarrow> ('dk, 'r) kem \<Rightarrow> (bytes \<Rightarrow> bytes) \<Rightarrow> 'r \<Rightarrow> bytes \<Rightarrow> bytes \<Rightarrow> bytes \<Rightarrow>
     hs_error + Established \<times> bytes \<times> bytes \<times> bytes" where
  "start_responder N M b2s rnd local_priv init_pkt resp_payload =
     (case hs_responder N rnd local_priv of
        Inl e \<Rightarrow> Inl (Crypto e)
      | Inr hs \<Rightarrow>
          if init_pkt = [] \<or> hd init_pkt \<noteq> packet_type HandshakeInit then Inl Unexpected_packet
          else (case read_message N M rnd (tl init_pkt) (hs :: ('h, 'dk) Handshake) of
                  (Inl e, _) \<Rightarrow> Inl (Crypto e)
                | (Inr initiator_payload, hs1) \<Rightarrow>
                    (case write_message N resp_payload hs1 of
                       (Inl e, _) \<Rightarrow> Inl (Crypto e)
                     | (Inr msg2, hs2) \<Rightarrow>
                         (case remote_static N hs2 of
                            None \<Rightarrow> Inl No_remote_static
                          | Some rs \<Rightarrow>
                              (case finish N b2s hs2 of
                                 Inl e \<Rightarrow> Inl e
                               | Inr est \<Rightarrow> Inr (est, packet_type HandshakeResp # msg2, rs, initiator_payload))))))"

definition read_response ::
    "('h, 'r) snow \<Rightarrow> ('dk, 'r) kem \<Rightarrow> (bytes \<Rightarrow> bytes) \<Rightarrow> 'r \<Rightarrow> bytes \<Rightarrow> ('h, 'dk) Handshake \<Rightarrow>
     hs_error + Established \<times> bytes" where
  "read_response N M b2s rnd resp_pkt hs =
     (if resp_pkt = [] \<or> hd resp_pkt \<noteq> packet_type HandshakeResp then Inl Unexpected_packet
      else (case read_message N M rnd (tl resp_pkt) hs of
              (Inl e, _) \<Rightarrow> Inl (Crypto e)
            | (Inr responder_payload, hs1) \<Rightarrow>
                (case finish N b2s hs1 of
                   Inl e \<Rightarrow> Inl e
                 | Inr est \<Rightarrow> Inr (est, responder_payload))))"

section \<open>Documented behaviour of the parameters\<close>

text \<open>Noise IKpsk2: for 32-byte private keys an initiator who knows the responder's public key and that responder
  exchange two messages; each payload that fits arrives unchanged, the responder learns the
  initiator's public key from the first message, and when both have set the same pre-shared key before
  the second one, they end with the same handshake hash and the same pair of 32-byte keys.\<close>

definition snow_ok :: "('h, 'r) snow \<Rightarrow> (bytes \<Rightarrow> bytes) \<Rightarrow> bool" where
  "snow_ok N pub \<longleftrightarrow>
     (\<forall>r r' a b p q. length a = 32 \<longrightarrow> length b = 32 \<longrightarrow> length p + 100 \<le> 4096 \<longrightarrow> length q + 100 \<le> 4096 \<longrightarrow>
       (\<exists>i0 r0 m1 i1 r1. sn_initiator N r a (pub b) = Some i0 \<and> sn_responder N r' b = Some r0 \<and>
          sn_write N 4096 p i0 = Some (m1, i1) \<and> sn_read N 4096 m1 r0 = Some (p, r1) \<and>
          (\<forall>ss. length ss = 32 \<longrightarrow>
             (\<exists>i2 r2 m2 i3 r3. sn_set_psk N ss i1 = Some i2 \<and> sn_set_psk N ss r1 = Some r2 \<and>
                sn_write N 4096 q r2 = Some (m2, r3) \<and> sn_read N 4096 m2 i2 = Some (q, i3) \<and>
                sn_is_initiator N i3 \<and> \<not> sn_is_initiator N r3 \<and> sn_remote_static N r3 = Some (pub a) \<and>
                sn_hash N i3 = sn_hash N r3 \<and> sn_split N i3 = sn_split N r3 \<and>
                length (fst (sn_split N i3)) = 32 \<and> length (snd (sn_split N i3)) = 32))))"

text \<open>ML-KEM-512: a generated encapsulation key has 800 bytes and valid coefficients, encapsulation to it succeeds with
  a 768-byte ciphertext and a 32-byte secret, and the decapsulation key recovers the secret.\<close>

definition kem_ok :: "('dk, 'r) kem \<Rightarrow> bool" where
  "kem_ok M \<longleftrightarrow>
     (\<forall>r r' dk ek. kem_keypair M r = (dk, ek) \<longrightarrow> length ek = 800 \<and> coeffs_ok (take 768 ek) \<and>
       (\<exists>ct ss. kem_encapsulate M r' ek = Some (ct, ss) \<and> length ct = 768 \<and> length ss = 32 \<and> kem_decapsulate M dk ct = ss))"

section \<open>Agreement\<close>

text \<open>The two ends of a session.\<close>

definition paired :: "Established \<Rightarrow> Established \<Rightarrow> bool" where
  "paired i r \<longleftrightarrow> es_auth_key i = es_auth_key r \<and> es_hp_key i = es_hp_key r \<and>
     s_send_key (es_session i) = s_recv_key (es_session r) \<and> s_send_key (es_session r) = s_recv_key (es_session i) \<and>
     es_raw_send_key i = es_raw_recv_key r \<and> es_raw_send_key r = es_raw_recv_key i"

definition fresh_session :: "Session \<Rightarrow> bool" where
  "fresh_session s \<longleftrightarrow> length (s_send_key s) = 32 \<and> length (s_recv_key s) = 32 \<and>
     s_send_counter s = 0 \<and> s_stride s = 1 \<and> s_replay s = replay_new"

lemma finish_ok:
  assumes "sn_split N (hs_inner hs) = (k0, k1)" "length k0 = 32" "length k1 = 32"
  shows "\<exists>e. finish N b2s hs = Inr e \<and> fresh_session (es_session e) \<and>
    (es_auth_key e, es_hp_key e) = derive_wire_keys b2s (sn_hash N (hs_inner hs)) \<and>
    (es_raw_send_key e, es_raw_recv_key e) = (if sn_is_initiator N (hs_inner hs) then (k0, k1) else (k1, k0)) \<and>
    s_send_key (es_session e) = es_raw_send_key e \<and> s_recv_key (es_session e) = es_raw_recv_key e"
  using assms
  by (auto simp: finish_def into_session_def raw_split_keys_def channel_binding_def from_raw_keys_def fresh_session_def Let_def
      split: prod.splits)

lemma handshake_flow:
  fixes N :: "('h, 'r) snow" and M :: "('dk, 'r) kem"
  assumes N: "snow_ok N pub" and M: "kem_ok M" and len: "length a = 32" "length b = 32" "length pl + 900 \<le> 4096" "length q + 100 \<le> 4096"
  shows "\<exists>hs pkt est_r resp est_i.
    start_initiator N M rnd a (pub b) pl = Inr (hs, pkt) \<and> start_responder N M b2s rnd' b pkt q = Inr (est_r, resp, pub a, pl) \<and>
    read_response N M b2s rnd'' resp hs = Inr (est_i, q) \<and>
    paired est_i est_r \<and> fresh_session (es_session est_i) \<and> fresh_session (es_session est_r)"
proof -
  obtain dk ek where ek: "kem_keypair M rnd = (dk, ek)" by fastforce
  obtain ct ss where kem: "length ek = 800" "coeffs_ok (take 768 ek)" "kem_encapsulate M rnd' ek = Some (ct, ss)"
    "length ct = 768" "length ss = 32" "kem_decapsulate M dk ct = ss"
    using M ek unfolding kem_ok_def by blast
  have fit: "length (ek @ pl) + 100 \<le> 4096" using len(3) kem(1) by simp
  obtain i0 r0 m1 i1 r1 where n1: "sn_initiator N rnd a (pub b) = Some i0" "sn_responder N rnd' b = Some r0"
    "sn_write N 4096 (ek @ pl) i0 = Some (m1, i1)" "sn_read N 4096 m1 r0 = Some (ek @ pl, r1)"
    "\<And>ss. length ss = 32 \<Longrightarrow> \<exists>i2 r2 m2 i3 r3. sn_set_psk N ss i1 = Some i2 \<and> sn_set_psk N ss r1 = Some r2 \<and>
       sn_write N 4096 q r2 = Some (m2, r3) \<and> sn_read N 4096 m2 i2 = Some (q, i3) \<and>
       sn_is_initiator N i3 \<and> \<not> sn_is_initiator N r3 \<and> sn_remote_static N r3 = Some (pub a) \<and>
       sn_hash N i3 = sn_hash N r3 \<and> sn_split N i3 = sn_split N r3 \<and>
       length (fst (sn_split N i3)) = 32 \<and> length (snd (sn_split N i3)) = 32"
    using N [unfolded snow_ok_def, rule_format, OF len(1,2) fit len(4), of rnd rnd'] by blast
  obtain i2 r2 m2 i3 r3 where n2: "sn_set_psk N ss i1 = Some i2" "sn_set_psk N ss r1 = Some r2"
    "sn_write N 4096 q r2 = Some (m2, r3)" "sn_read N 4096 m2 i2 = Some (q, i3)"
    "sn_is_initiator N i3" "\<not> sn_is_initiator N r3" "sn_remote_static N r3 = Some (pub a)" "sn_hash N i3 = sn_hash N r3"
    "sn_split N i3 = sn_split N r3" "length (fst (sn_split N i3)) = 32" "length (snd (sn_split N i3)) = 32"
    using n1(5) [OF kem(5)] by blast
  obtain k0 k1 where k: "sn_split N i3 = (k0, k1)" "sn_split N r3 = (k0, k1)" "length k0 = 32" "length k1 = 32"
    using n2(9-11) by (metis fst_conv snd_conv surj_pair)
  let ?hs = "\<lparr>hs_inner = i1, hs_role = Initiator (Some dk) ek\<rparr>"
  let ?i = "\<lparr>hs_inner = i3, hs_role = Initiator (None :: 'dk option) ek\<rparr>"
  let ?r = "\<lparr>hs_inner = r3, hs_role = Responder None :: 'dk HandshakePqRole\<rparr>"
  have init: "start_initiator N M rnd a (pub b) pl = Inr (?hs, packet_type HandshakeInit # m1)"
    using n1 ek by (simp add: start_initiator_def hs_initiator_def generate_pq_keypair_def write_message_def)
  obtain er where er: "finish N b2s ?r = Inr er" "fresh_session (es_session er)"
    "(es_auth_key er, es_hp_key er) = derive_wire_keys b2s (sn_hash N r3)" "es_raw_send_key er = k1" "es_raw_recv_key er = k0"
    "s_send_key (es_session er) = k1" "s_recv_key (es_session er) = k0"
    using finish_ok [of N ?r k0 k1 b2s] k n2(6) by auto
  obtain ei where ei: "finish N b2s ?i = Inr ei" "fresh_session (es_session ei)"
    "(es_auth_key ei, es_hp_key ei) = derive_wire_keys b2s (sn_hash N i3)" "es_raw_send_key ei = k0" "es_raw_recv_key ei = k1"
    "s_send_key (es_session ei) = k0" "s_recv_key (es_session ei) = k1"
    using finish_ok [of N ?i k0 k1 b2s] k n2(5) by auto
  have resp: "start_responder N M b2s rnd' b (packet_type HandshakeInit # m1) q = Inr (er, packet_type HandshakeResp # ct @ m2, pub a, pl)"
    using n1 n2 kem er(1)
    by (simp add: start_responder_def hs_responder_def read_message_def write_message_def pq_encapsulate_def PQ_ENCAPS_KEY_LEN_def
        Let_def remote_static_def)
  have "read_response N M b2s rnd'' (packet_type HandshakeResp # ct @ m2) ?hs = Inr (ei, q)"
    using n2 kem ei(1) by (simp add: read_response_def read_message_def PQ_CIPHERTEXT_LEN_def slice_def Let_def pq_decapsulate_def)
  moreover have "(es_auth_key ei, es_hp_key ei) = (es_auth_key er, es_hp_key er)" using er(3) ei(3) n2(8) by simp
  then have "paired ei er" using er(4-) ei(4-) by (simp add: paired_def)
  ultimately show ?thesis using init resp er(2) ei(2) by blast
qed

section \<open>Properties\<close>

text \<open>C6: the handshake establishes matching sessions. For every Noise and ML-KEM implementation that behaves as
  documented, an initiation to the responder's public key is answered, the answer completes the
  initiator, both payloads arrive unchanged, the responder learns the initiator's public key, both sides
  derive the same codec keys, each side's send key is the other's receive key, and both sessions have
  32-byte keys and start at counter 0 with an empty replay window.\<close>

theorem handshake_agrees:
  assumes "snow_ok N pub" "kem_ok M" "length a = 32" "length b = 32" "length pl + 900 \<le> 4096" "length q + 100 \<le> 4096"
  shows "\<exists>hs pkt est_r resp est_i.
    start_initiator N M rnd a (pub b) pl = Inr (hs, pkt) \<and> start_responder N M b2s rnd' b pkt q = Inr (est_r, resp, pub a, pl) \<and>
    read_response N M b2s rnd'' resp hs = Inr (est_i, q) \<and>
    paired est_i est_r \<and> fresh_session (es_session est_i) \<and> fresh_session (es_session est_r)"
  by (rule handshake_flow [OF assms])

text \<open>An instance of the parameters: messages in the clear and constant keys.\<close>

definition null_snow :: "(bool \<times> bytes \<times> bytes \<times> bytes, unit) snow" where
  "null_snow =
     \<lparr>sn_initiator = (\<lambda>_ a b. Some (True, a, b, [])), sn_responder = (\<lambda>_ b. Some (False, b, [], [])),
      sn_write = (\<lambda>_ p (i, a, rs, psk). Some (if i then a @ p else p, (i, a, rs, psk))),
      sn_read = (\<lambda>_ m (i, a, rs, psk). Some (if i then m else drop 32 m, (i, a, if i then rs else take 32 m, psk))),
      sn_set_psk = (\<lambda>ss (i, a, rs, psk). Some (i, a, rs, ss)), sn_is_initiator = fst,
      sn_remote_static = (\<lambda>(i, a, rs, psk). Some rs), sn_hash = (\<lambda>(i, a, rs, psk). psk),
      sn_split = (\<lambda>_. (replicate 32 1, replicate 32 2))\<rparr>"

definition null_kem :: "(unit, unit) kem" where
  "null_kem = \<lparr>kem_keypair = (\<lambda>_. ((), replicate 800 0)), kem_encapsulate = (\<lambda>_ ek. Some (replicate 768 0, replicate 32 7)),
     kem_decapsulate = (\<lambda>_ _. replicate 32 7)\<rparr>"

lemma null_snow_ok: "snow_ok null_snow id"
  unfolding snow_ok_def
proof (intro allI impI)
  fix r r' :: unit and a b p q :: bytes
  assume a: "length a = 32"
  let ?i = "\<lambda>ss. (True, a, b, ss)" and ?r = "\<lambda>ss. (False, b, a, ss)"
  show "\<exists>i0 r0 m1 i1 r1. sn_initiator null_snow r a (id b) = Some i0 \<and> sn_responder null_snow r' b = Some r0 \<and>
      sn_write null_snow 4096 p i0 = Some (m1, i1) \<and> sn_read null_snow 4096 m1 r0 = Some (p, r1) \<and>
      (\<forall>ss. length ss = 32 \<longrightarrow>
         (\<exists>i2 r2 m2 i3 r3. sn_set_psk null_snow ss i1 = Some i2 \<and> sn_set_psk null_snow ss r1 = Some r2 \<and>
            sn_write null_snow 4096 q r2 = Some (m2, r3) \<and> sn_read null_snow 4096 m2 i2 = Some (q, i3) \<and>
            sn_is_initiator null_snow i3 \<and> \<not> sn_is_initiator null_snow r3 \<and> sn_remote_static null_snow r3 = Some (id a) \<and>
            sn_hash null_snow i3 = sn_hash null_snow r3 \<and> sn_split null_snow i3 = sn_split null_snow r3 \<and>
            length (fst (sn_split null_snow i3)) = 32 \<and> length (snd (sn_split null_snow i3)) = 32))"
  proof (rule exI [of _ "?i []"], rule exI [of _ "(False, b, [], [])"], rule exI [of _ "a @ p"], rule exI [of _ "?i []"],
      rule exI [of _ "?r []"], intro conjI allI impI)
    fix ss :: bytes
    assume "length ss = 32"
    show "\<exists>i2 r2 m2 i3 r3. sn_set_psk null_snow ss (?i []) = Some i2 \<and> sn_set_psk null_snow ss (?r []) = Some r2 \<and>
        sn_write null_snow 4096 q r2 = Some (m2, r3) \<and> sn_read null_snow 4096 m2 i2 = Some (q, i3) \<and>
        sn_is_initiator null_snow i3 \<and> \<not> sn_is_initiator null_snow r3 \<and> sn_remote_static null_snow r3 = Some (id a) \<and>
        sn_hash null_snow i3 = sn_hash null_snow r3 \<and> sn_split null_snow i3 = sn_split null_snow r3 \<and>
        length (fst (sn_split null_snow i3)) = 32 \<and> length (snd (sn_split null_snow i3)) = 32"
      by (rule exI [of _ "?i ss"], rule exI [of _ "?r ss"], rule exI [of _ q], rule exI [of _ "?i ss"], rule exI [of _ "?r ss"])
        (simp add: null_snow_def)
  qed (use a in \<open>simp_all add: null_snow_def\<close>)
qed

lemma null_kem_ok: "kem_ok null_kem"
proof -
  have "coeffs_ok (replicate (3 * n) 0)" for n
  proof (induction n)
    case (Suc n)
    have "replicate (3 * Suc n) (0 :: u8) = 0 # 0 # 0 # replicate (3 * n) 0" by (simp add: eval_nat_numeral)
    then show ?case using Suc by simp
  qed simp
  from this [of 256] have "coeffs_ok (replicate 768 0)" by simp
  moreover have "take 768 (replicate 800 (0 :: u8)) = replicate 768 0" by (simp only: take_replicate) simp
  ultimately show ?thesis by (simp only: kem_ok_def null_kem_def kem.select_convs length_replicate prod.inject) simp
qed

theorem handshake_agrees_witness:
  "\<exists>hs pkt est_r resp est_i.
    start_initiator null_snow null_kem () (replicate 32 5) (replicate 32 6) [1, 2] = Inr (hs, pkt) \<and>
    start_responder null_snow null_kem id () (replicate 32 6) pkt [3] = Inr (est_r, resp, replicate 32 5, [1, 2]) \<and>
    read_response null_snow null_kem id () resp hs = Inr (est_i, [3]) \<and> paired est_i est_r"
proof -
  have "length (replicate 32 (5 :: u8)) = 32" "length (replicate 32 (6 :: u8)) = 32" "length [1 :: u8, 2] + 900 \<le> 4096" "length [3 :: u8] + 100 \<le> 4096"
    by simp_all
  from handshake_agrees [OF null_snow_ok null_kem_ok this, of "()" id "()" "()"] show ?thesis unfolding id_apply by blast
qed

end
