(* ===== verification/Rlnc.thy ===== *)
theory Rlnc
  imports Rs
begin

text \<open>
  Random linear network coding of \<^verbatim>\<open>crates/yip-transport/src/rlnc.rs\<close>: the seeded encoder, the decoder that
  keeps an echelon form of what it has received, and the back substitution that returns the source
  symbols.
\<close>

unbundle bit_operations_syntax

section \<open>Encoder\<close>

text \<open>The generator returns the output and the advanced state.\<close>

definition splitmix32 :: "u32 \<Rightarrow> u32 \<times> u32" where
  "splitmix32 state =
     (let state = state + 0x9e3779b9; z = state;
          z = (z XOR drop_bit 16 z) * 0x85ebca6b;
          z = (z XOR drop_bit 13 z) * 0xc2b2ae35
      in (z XOR drop_bit 16 z, state))"

definition scale_row :: "u8 \<Rightarrow> bytes \<Rightarrow> bytes" where
  "scale_row c row = (if c = 1 then row else if c = 0 then replicate (length row) 0 else map (mul c) row)"

record RlncEncoder =
  enc_window :: nat
  enc_symbols :: "bytes list"
  enc_symbol_len :: nat

definition rlnc_encoder_new :: "nat \<Rightarrow> RlncEncoder" where
  "rlnc_encoder_new w = \<lparr>enc_window = w, enc_symbols = [], enc_symbol_len = 0\<rparr>"

definition push_source :: "RlncEncoder \<Rightarrow> bytes \<Rightarrow> RlncEncoder exec" where
  "push_source e s =
     (if \<not> length (enc_symbols e) < enc_window e then None
      else if enc_symbols e = [] then Some (e\<lparr>enc_symbol_len := length s, enc_symbols := [s]\<rparr>)
      else if length s \<noteq> enc_symbol_len e then None
      else Some (e\<lparr>enc_symbols := enc_symbols e @ [s]\<rparr>))"

text \<open>One draw of all \<open>n\<close> coefficients, four bytes per generator output; the flag tells that all were zero.\<close>

fun draw_bytes :: "nat \<Rightarrow> nat \<Rightarrow> bytes \<Rightarrow> nat list \<Rightarrow> bytes \<times> bool \<Rightarrow> bytes \<times> bool" where
  "draw_bytes n i bs [] st = st"
| "draw_bytes n i bs (j # js) (co, all_zero) =
     draw_bytes n i bs js
       (if i + j < n then (co[i + j := bs ! j], all_zero \<and> bs ! j = 0) else (co, all_zero))"

fun draw_round :: "nat \<Rightarrow> nat list \<Rightarrow> u32 \<Rightarrow> bytes \<times> bool \<Rightarrow> (bytes \<times> bool) \<times> u32" where
  "draw_round n [] s st = (st, s)"
| "draw_round n (i # is) s st =
     (case splitmix32 s of (r, s') \<Rightarrow> draw_round n is s' (draw_bytes n i (le_bytes 4 (unat r)) [0, 1, 2, 3] st))"

fun draw_coeffs :: "nat \<Rightarrow> nat \<Rightarrow> u32 \<Rightarrow> bytes \<Rightarrow> bytes" where
  "draw_coeffs 0 n s co = co"
| "draw_coeffs (Suc tries) n s co =
     (case draw_round n (map (\<lambda>q. 4 * q) [0..<div_ceil n 4]) s (co, True) of
        ((co', all_zero), s') \<Rightarrow> if \<not> all_zero then co' else draw_coeffs tries n s' co')"

definition produce_coded_symbol :: "cpu \<Rightarrow> RlncEncoder \<Rightarrow> u32 \<Rightarrow> (bytes \<times> bytes) exec" where
  "produce_coded_symbol p e seed =
     (let n = length (enc_symbols e)
      in if n = 0 then Some (replicate (enc_window e) 0, replicate (enc_symbol_len e) 0)
         else let co = draw_coeffs 16 n seed (replicate (enc_window e) 0);
                  co = (if \<forall>c \<in> set (take n co). c = 0 then co[0 := 1] else co)
              in map_option (Pair co)
                   (accumulate_nonzero p (zip co (enc_symbols e)) (replicate (enc_symbol_len e) 0)))"

section \<open>Decoder\<close>

record RlncDecoder =
  dec_window :: nat
  dec_symbol_len :: nat
  echelon :: "bytes list"
  coeff_matrix :: "bytes list"
  has_row :: "bool list"
  dec_rank :: nat

definition rlnc_decoder_new :: "nat \<Rightarrow> nat \<Rightarrow> RlncDecoder" where
  "rlnc_decoder_new w len =
     \<lparr>dec_window = w, dec_symbol_len = len, echelon = replicate w (replicate len 0),
      coeff_matrix = replicate w (replicate w 0), has_row = replicate w False, dec_rank = 0\<rparr>"

definition is_complete :: "RlncDecoder \<Rightarrow> bool" where
  "is_complete d \<longleftrightarrow> dec_rank d = dec_window d"

text \<open>Subtract \<open>c\<close> times pivot row \<open>col\<close> from the current coefficients.\<close>

definition cancel_coeffs :: "u8 \<Rightarrow> nat \<Rightarrow> bytes \<Rightarrow> bytes \<Rightarrow> bytes" where
  "cancel_coeffs c col row co =
     take col co @ [0] @
     map (\<lambda>(t, q). if q \<noteq> 0 then t XOR mul c q else t) (zip (drop (col + 1) co) (drop (col + 1) row))"

definition normalize_coeffs :: "u8 \<Rightarrow> nat \<Rightarrow> bytes \<Rightarrow> bytes" where
  "normalize_coeffs i col co = take col co @ [1] @ map (\<lambda>x. mul x i) (drop (col + 1) co)"

fun eliminate :: "cpu \<Rightarrow> RlncDecoder \<Rightarrow> nat list \<Rightarrow> bytes \<Rightarrow> bytes \<Rightarrow> (bool \<times> RlncDecoder) exec" where
  "eliminate p d [] co cd = Some (False, d)"
| "eliminate p d (col # cols) co cd =
     (let c = co ! col
      in if c = 0 then eliminate p d cols co cd
         else if has_row d ! col
         then case mul_add_row p c (echelon d ! col) cd of
                None \<Rightarrow> None
              | Some cd' \<Rightarrow> eliminate p d cols (cancel_coeffs c col (coeff_matrix d ! col) co) cd'
         else case inv c of
                None \<Rightarrow> None
              | Some i \<Rightarrow>
                  Some (True, d\<lparr>coeff_matrix := (coeff_matrix d)[col := normalize_coeffs i col co],
                                echelon := (echelon d)[col := scale_row i cd],
                                has_row := (has_row d)[col := True], dec_rank := dec_rank d + 1\<rparr>))"

definition consume_coded_symbol :: "cpu \<Rightarrow> RlncDecoder \<Rightarrow> bytes \<Rightarrow> bytes \<Rightarrow> (bool \<times> RlncDecoder) exec" where
  "consume_coded_symbol p d coeffs coded =
     (if is_complete d then Some (False, d)
      else if length coeffs \<noteq> dec_window d \<or> length coded \<noteq> dec_symbol_len d then Some (False, d)
      else eliminate p d [0..<dec_window d] coeffs coded)"

fun back_substitute :: "cpu \<Rightarrow> RlncDecoder \<Rightarrow> nat \<Rightarrow> bytes list \<Rightarrow> bytes list exec" where
  "back_substitute p d 0 syms = Some syms"
| "back_substitute p d (Suc i) syms =
     (case accumulate_nonzero p (zip (drop (i + 1) (coeff_matrix d ! i)) (drop (i + 1) syms)) (echelon d ! i) of
        None \<Rightarrow> None
      | Some s \<Rightarrow> back_substitute p d i (syms[i := s]))"

definition extract_source_symbols :: "cpu \<Rightarrow> RlncDecoder \<Rightarrow> bytes list option exec" where
  "extract_source_symbols p d =
     (if \<not> is_complete d then Some None
      else map_option Some
        (back_substitute p d (dec_window d) (replicate (dec_window d) (replicate (dec_symbol_len d) 0))))"

section \<open>Consistency with the source\<close>

text \<open>A coefficient vector with the combination of the source symbols it stands for.\<close>

definition combination :: "bytes list \<Rightarrow> nat \<Rightarrow> bytes \<Rightarrow> bytes \<Rightarrow> bool" where
  "combination src L co cd \<longleftrightarrow>
     length co = length src \<and> length cd = L \<and>
     (\<forall>b<L. Gf (cd ! b) = (\<Sum>i<length src. Gf (co ! i) * Gf (src ! i ! b)))"

lemma gf_double: "(a :: gf) + a = 0"
proof -
  have "Gf (byte a XOR byte a) = Gf (byte a) + Gf (byte a)" by (rule Gf_simps)
  then show ?thesis by (simp add: Gf_simps)
qed

lemma combination_add:
  assumes "combination src L co cd" "combination src L co2 cd2"
    and "length co' = length src" "\<And>i. i < length src \<Longrightarrow> Gf (co' ! i) = Gf (co ! i) + Gf c * Gf (co2 ! i)"
    and "length cd' = L" "\<And>b. b < L \<Longrightarrow> Gf (cd' ! b) = Gf (cd ! b) + Gf c * Gf (cd2 ! b)"
  shows "combination src L co' cd'"
  unfolding combination_def
proof (intro conjI allI impI)
  fix b assume b: "b < L"
  have "Gf (cd' ! b) = (\<Sum>i<length src. Gf (co ! i) * Gf (src ! i ! b)) + Gf c * (\<Sum>i<length src. Gf (co2 ! i) * Gf (src ! i ! b))"
    using assms(1,2) assms(6) [OF b] b by (simp add: combination_def)
  also have "\<dots> = (\<Sum>i<length src. Gf (co' ! i) * Gf (src ! i ! b))"
    using assms(4) by (simp add: sum_distrib_left sum.distrib [symmetric] algebra_simps)
  finally show "Gf (cd' ! b) = (\<Sum>i<length src. Gf (co' ! i) * Gf (src ! i ! b))" .
qed (use assms in auto)

lemma combination_scale:
  assumes "combination src L co cd"
    and "length co' = length src" "\<And>i. i < length src \<Longrightarrow> Gf (co' ! i) = Gf c * Gf (co ! i)"
    and "length cd' = L" "\<And>b. b < L \<Longrightarrow> Gf (cd' ! b) = Gf c * Gf (cd ! b)"
  shows "combination src L co' cd'"
  using assms by (auto simp: combination_def sum_distrib_left algebra_simps intro!: sum.cong)

lemma cancel_coeffs_facts:
  assumes "length co = w" "length row = w" "col < w" "row ! col = 1" "\<forall>j<col. row ! j = 0" "c = co ! col"
  shows "length (cancel_coeffs c col row co) = w"
    "i < w \<Longrightarrow> Gf (cancel_coeffs c col row co ! i) = Gf (co ! i) + Gf c * Gf (row ! i)"
    "j < col \<Longrightarrow> cancel_coeffs c col row co ! j = co ! j" "cancel_coeffs c col row co ! col = 0"
proof -
  let ?r = "cancel_coeffs c col row co"
  show "length ?r = w" using assms(1-3) by (simp add: cancel_coeffs_def)
  show j: "?r ! j = co ! j" if "j < col" for j using that assms(1,3) by (simp add: cancel_coeffs_def nth_append)
  show c: "?r ! col = 0" using assms(1,3) by (simp add: cancel_coeffs_def nth_append)
  show "Gf (?r ! i) = Gf (co ! i) + Gf c * Gf (row ! i)" if "i < w"
  proof -
    consider "i < col" | "i = col" | "col < i" by linarith
    then show ?thesis
    proof cases
      case 1
      then show ?thesis using j assms(5) by (simp add: Gf_simps)
    next
      case 2
      then show ?thesis using c assms(4,6) gf_double by (simp add: Gf_simps)
    next
      case 3
      then have "?r ! i = (if row ! i \<noteq> 0 then co ! i XOR mul c (row ! i) else co ! i)"
        using assms(1-3) that by (simp add: cancel_coeffs_def nth_append nth_Cons' Suc_diff_Suc)
      then show ?thesis by (simp add: Gf_simps)
    qed
  qed
qed

lemma normalize_coeffs_facts:
  assumes "length co = w" "col < w" "\<forall>j<col. co ! j = 0" "inv (co ! col) = Some i"
  shows "length (normalize_coeffs i col co) = w" "k < w \<Longrightarrow> Gf (normalize_coeffs i col co ! k) = Gf i * Gf (co ! k)"
    "normalize_coeffs i col co ! col = 1" "j < col \<Longrightarrow> normalize_coeffs i col co ! j = 0"
proof -
  let ?r = "normalize_coeffs i col co"
  have i: "co ! col \<noteq> 0" "Gf i = inverse (Gf (co ! col))" using assms(4) by (simp_all add: inv_Some_iff)
  have nz: "Gf (co ! col) \<noteq> 0" using i(1) Gf_eq_iff [of _ 0] by (simp add: Gf_simps)
  show "length ?r = w" using assms(1,2) by (simp add: normalize_coeffs_def)
  show c: "?r ! col = 1" using assms(1,2) by (simp add: normalize_coeffs_def nth_append)
  show j: "?r ! j = 0" if "j < col" for j using that assms(1-3) by (simp add: normalize_coeffs_def nth_append)
  show "Gf (?r ! k) = Gf i * Gf (co ! k)" if "k < w"
  proof -
    consider "k < col" | "k = col" | "col < k" by linarith
    then show ?thesis
    proof cases
      case 1
      then show ?thesis using j assms(3) by (simp add: Gf_simps)
    next
      case 2
      then show ?thesis using c i(2) nz by (simp add: Gf_simps)
    next
      case 3
      then have "?r ! k = mul (co ! k) i"
        using assms(1,2) that by (simp add: normalize_coeffs_def nth_append nth_Cons' Suc_diff_Suc)
      then show ?thesis by (simp add: Gf_simps)
    qed
  qed
qed

lemma scale_row_facts: "length (scale_row c row) = length row" "b < length row \<Longrightarrow> Gf (scale_row c row ! b) = Gf c * Gf (row ! b)"
  by (simp_all add: scale_row_def Gf_simps)

section \<open>Decoder invariant\<close>

definition rlnc_inv :: "bytes list \<Rightarrow> nat \<Rightarrow> RlncDecoder \<Rightarrow> bool" where
  "rlnc_inv src L d \<longleftrightarrow>
     dec_window d = length src \<and> dec_symbol_len d = L \<and> length (has_row d) = length src \<and>
     length (coeff_matrix d) = length src \<and> length (echelon d) = length src \<and>
     dec_rank d = length (filter id (has_row d)) \<and>
     (\<forall>col < length src. has_row d ! col \<longrightarrow>
        combination src L (coeff_matrix d ! col) (echelon d ! col) \<and>
        coeff_matrix d ! col ! col = 1 \<and> (\<forall>j<col. coeff_matrix d ! col ! j = 0))"

lemma filter_id_update: "i < length bs \<Longrightarrow> \<not> bs ! i \<Longrightarrow> length (filter id (bs[i := True])) = length (filter id bs) + 1"
  by (induction bs arbitrary: i) (auto simp: nth_Cons split: nat.splits)

lemma all_filter_id: "length (filter id bs) = length bs \<Longrightarrow> i < length bs \<Longrightarrow> bs ! i"
  by (metis (full_types) id_apply length_filter_less nat_neq_iff nth_mem)

text \<open>A coefficient vector in the span of the rows received so far.\<close>

definition spanned :: "RlncDecoder \<Rightarrow> bytes \<Rightarrow> bool" where
  "spanned d co \<longleftrightarrow> (\<exists>a. \<forall>j < dec_window d.
     Gf (co ! j) = (\<Sum>col | col < dec_window d \<and> has_row d ! col. a col * Gf (coeff_matrix d ! col ! j)))"

lemma spanned_zero: "\<forall>j < dec_window d. co ! j = 0 \<Longrightarrow> spanned d co"
  unfolding spanned_def by (rule exI [of _ "\<lambda>_. 0"]) (simp add: Gf_simps)

lemma spanned_add:
  assumes "spanned d co'" "col < dec_window d" "has_row d ! col"
    and "\<And>j. j < dec_window d \<Longrightarrow> Gf (co' ! j) = Gf (co ! j) + c * Gf (coeff_matrix d ! col ! j)"
  shows "spanned d co"
proof -
  let ?R = "{col. col < dec_window d \<and> has_row d ! col}"
  obtain a where a: "\<And>j. j < dec_window d \<Longrightarrow> Gf (co' ! j) = (\<Sum>k\<in>?R. a k * Gf (coeff_matrix d ! k ! j))"
    using assms(1) unfolding spanned_def by blast
  have "Gf (co ! j) = (\<Sum>k\<in>?R. (a(col := a col + c)) k * Gf (coeff_matrix d ! k ! j))" if j: "j < dec_window d" for j
  proof -
    have "Gf (co ! j) = Gf (co' ! j) + c * Gf (coeff_matrix d ! col ! j)"
      using assms(4) [OF j] gf_double [of "c * Gf (coeff_matrix d ! col ! j)"] by (simp only: add.assoc add_0_right)
    then show ?thesis
      using assms(2,3) a [OF j] by (simp add: sum.remove [of ?R col] algebra_simps)
  qed
  then show ?thesis unfolding spanned_def by blast
qed

lemma eliminate_inv:
  assumes "rlnc_inv src L d" "combination src L co cd" "col \<le> length src" "\<forall>j<col. co ! j = 0"
  shows "\<exists>grew d'. eliminate p d [col..<length src] co cd = Some (grew, d') \<and> rlnc_inv src L d' \<and>
    dec_rank d' = dec_rank d + (if grew then 1 else 0) \<and> (\<not> grew \<longrightarrow> d' = d \<and> spanned d co)"
  using assms(2-4)
proof (induction "length src - col" arbitrary: col co cd)
  case 0
  then have "spanned d co" using assms(1) by (intro spanned_zero) (simp add: rlnc_inv_def)
  then show ?case using assms(1) 0 by (intro exI [of _ False] exI [of _ d]) simp
next
  case (Suc n)
  then have col: "col < length src" "[col..<length src] = col # [Suc col..<length src]" "n = length src - Suc col"
    by (simp_all add: upt_conv_Cons)
  have len: "length co = length src" "length cd = L" using Suc.prems(1) by (simp_all add: combination_def)
  show ?case
  proof (cases "co ! col = 0")
    case True
    then have "\<forall>j<Suc col. co ! j = 0" using Suc.prems(3) by (auto simp: less_Suc_eq)
    then show ?thesis using Suc.hyps(1) [OF col(3) Suc.prems(1)] col True by simp
  next
    case nz: False
    show ?thesis
    proof (cases "has_row d ! col")
      case True
      have row: "combination src L (coeff_matrix d ! col) (echelon d ! col)" "coeff_matrix d ! col ! col = 1"
        "\<forall>j<col. coeff_matrix d ! col ! j = 0" using assms(1) True col(1) by (auto simp: rlnc_inv_def)
      have rl: "length (coeff_matrix d ! col) = length src" "length (echelon d ! col) = L" using row(1) by (simp_all add: combination_def)
      note cc = cancel_coeffs_facts [OF len(1) rl(1) col(1) row(2,3) refl]
      let ?co = "cancel_coeffs (co ! col) col (coeff_matrix d ! col) co"
      let ?cd = "mul_slice_into cd (echelon d ! col) (co ! col)"
      have "combination src L ?co ?cd"
        by (rule combination_add [OF Suc.prems(1) row(1), of ?co "co ! col"])
          (use cc len rl in \<open>simp_all add: mul_slice_into_nth Gf_simps\<close>)
      moreover have "\<forall>j<Suc col. ?co ! j = 0" using cc(3,4) Suc.prems(3) by (auto simp: less_Suc_eq)
      moreover have "eliminate p d [col..<length src] co cd = eliminate p d [Suc col..<length src] ?co ?cd"
        using col(2) nz True mul_add_row_Some [of "echelon d ! col" cd p "co ! col"] len rl by (simp add: Let_def)
      moreover have "spanned d co" if "spanned d ?co"
        by (rule spanned_add [OF that _ True, where c = "Gf (co ! col)"]) (use assms(1) col(1) cc(2) in \<open>simp_all add: rlnc_inv_def\<close>)
      ultimately show ?thesis using Suc.hyps(1) [OF col(3), of ?co ?cd] col(1) by fastforce
    next
      case False
      obtain i where i: "inv (co ! col) = Some i" using nz inv_Some_iff [of "co ! col" "byte (inverse (Gf (co ! col)))"] by auto
      note nc = normalize_coeffs_facts [OF len(1) col(1) Suc.prems(3) i]
      have comb: "combination src L (normalize_coeffs i col co) (scale_row i cd)"
        by (rule combination_scale [OF Suc.prems(1), of _ i]) (use nc len scale_row_facts in simp_all)
      let ?d = "d\<lparr>coeff_matrix := (coeff_matrix d)[col := normalize_coeffs i col co],
        echelon := (echelon d)[col := scale_row i cd], has_row := (has_row d)[col := True], dec_rank := dec_rank d + 1\<rparr>"
      have "rlnc_inv src L ?d"
        using assms(1) comb nc col(1) filter_id_update [of col "has_row d"] False
        by (auto simp: rlnc_inv_def nth_list_update)
      then show ?thesis using col(2) nz False i by (intro exI [of _ True] exI [of _ ?d]) (simp add: Let_def)
    qed
  qed
qed

lemma consume_inv:
  assumes "rlnc_inv src L d" "combination src L co cd \<or> length co \<noteq> length src \<or> length cd \<noteq> L"
  shows "\<exists>grew d'. consume_coded_symbol p d co cd = Some (grew, d') \<and> rlnc_inv src L d' \<and>
    dec_rank d' = dec_rank d + (if grew then 1 else 0) \<and>
    (\<not> grew \<longrightarrow> d' = d \<and> (is_complete d \<or> length co \<noteq> length src \<or> length cd \<noteq> L \<or> spanned d co))"
proof (cases "is_complete d \<or> length co \<noteq> length src \<or> length cd \<noteq> L")
  case True
  then show ?thesis using assms(1)
    by (intro exI [of _ False] exI [of _ d]) (auto simp: consume_coded_symbol_def rlnc_inv_def)
next
  case False
  then have "consume_coded_symbol p d co cd = eliminate p d [0..<length src] co cd"
    using assms(1) by (simp add: consume_coded_symbol_def rlnc_inv_def)
  then show ?thesis using eliminate_inv [OF assms(1), of co cd 0 p] assms(2) False by auto
qed

lemma rlnc_new_inv: "rlnc_inv src L (rlnc_decoder_new (length src) L)"
  by (simp add: rlnc_inv_def rlnc_decoder_new_def)

lemma sum_split_unit:
  assumes "i < n" "Gf (co ! i) = 1" "\<forall>j<i. Gf (co ! j) = 0"
  shows "(\<Sum>j<n. Gf (co ! j) * f j) = f i + (\<Sum>j = Suc i..<n. Gf (co ! j) * f j)"
proof -
  have "{..<n} = {..<i} \<union> {i} \<union> {Suc i..<n}" using assms(1) by auto
  then have "(\<Sum>j<n. Gf (co ! j) * f j) = (\<Sum>j\<in>{..<i}. Gf (co ! j) * f j) + Gf (co ! i) * f i + (\<Sum>j = Suc i..<n. Gf (co ! j) * f j)"
    using sum.union_disjoint [of "{..<i}" "{Suc i..<n}" "\<lambda>j. Gf (co ! j) * f j"] by (simp add: ac_simps disjoint_iff)
  then show ?thesis using assms(2,3) by simp
qed

lemma accumulate_nonzero_tail:
  assumes "length co = n" "length syms = n" "\<forall>j. i < j \<and> j < n \<longrightarrow> length (syms ! j) = length dst" "i < n"
  shows "\<exists>s. accumulate_nonzero p (zip (drop (i + 1) co) (drop (i + 1) syms)) dst = Some s \<and> length s = length dst \<and>
    (\<forall>b < length dst. Gf (s ! b) = Gf (dst ! b) + (\<Sum>j = Suc i..<n. Gf (co ! j) * Gf (syms ! j ! b)))"
proof -
  let ?z = "zip (drop (i + 1) co) (drop (i + 1) syms)"
  have "\<forall>(c, s) \<in> set ?z. length s = length dst"
    using assms by (auto simp: in_set_conv_nth)
  then have "\<forall>(c, s) \<in> set (filter (\<lambda>(c, src). c \<noteq> 0) ?z). length s = length dst" by auto
  from accumulate_Some [OF this, of p] obtain s where s: "accumulate_nonzero p ?z dst = Some s" "length s = length dst"
    "\<forall>b < length dst. Gf (s ! b) = Gf (dst ! b) + (\<Sum>(c, src)\<leftarrow>?z. Gf c * Gf (src ! b))"
    by (auto simp: accumulate_nonzero_def sum_list_filter_zero)
  have "(\<Sum>(c, src)\<leftarrow>?z. Gf c * Gf (src ! b)) = (\<Sum>j = Suc i..<n. Gf (co ! j) * Gf (syms ! j ! b))" for b
  proof -
    have "(\<Sum>(c, src)\<leftarrow>?z. Gf c * Gf (src ! b)) = (\<Sum>k<n - Suc i. Gf (co ! (Suc i + k)) * Gf (syms ! (Suc i + k) ! b))"
      using assms(1,2) by (simp add: sum_list_sum_nth atLeast0LessThan)
    also have "\<dots> = (\<Sum>j = Suc i..<n. Gf (co ! j) * Gf (syms ! j ! b))"
      using sum.shift_bounds_nat_ivl [of "\<lambda>j. Gf (co ! j) * Gf (syms ! j ! b)" 0 "Suc i" "n - Suc i"] assms(4)
      by (simp add: atLeast0LessThan add.commute)
    finally show ?thesis .
  qed
  then show ?thesis using s by auto
qed

lemma back_substitute_recovers:
  assumes inv: "rlnc_inv src L d" "\<forall>s \<in> set src. length s = L" "\<forall>col < length src. has_row d ! col"
    and "i \<le> length src" "length syms = length src" "\<forall>j. i \<le> j \<and> j < length src \<longrightarrow> syms ! j = src ! j"
  shows "back_substitute p d i syms = Some src"
  using assms(4-)
proof (induction i arbitrary: syms)
  case 0
  then have "syms = src" by (intro nth_equalityI) simp_all
  then show ?case by simp
next
  case (Suc i)
  let ?n = "length src" and ?co = "coeff_matrix d ! i" and ?e = "echelon d ! i"
  have i: "i < ?n" using Suc.prems(1) by simp
  have row: "combination src L ?co ?e" "?co ! i = 1" "\<forall>j<i. ?co ! j = 0" using inv i by (auto simp: rlnc_inv_def)
  have len: "length ?co = ?n" "length ?e = L" using row(1) by (simp_all add: combination_def)
  have tl: "\<forall>j. i < j \<and> j < ?n \<longrightarrow> length (syms ! j) = length ?e" using Suc.prems(3) inv(2) len by simp
  obtain s where s: "accumulate_nonzero p (zip (drop (i + 1) ?co) (drop (i + 1) syms)) ?e = Some s" "length s = L"
    "\<forall>b<L. Gf (s ! b) = Gf (?e ! b) + (\<Sum>j = Suc i..<?n. Gf (?co ! j) * Gf (syms ! j ! b))"
    using accumulate_nonzero_tail [OF len(1) Suc.prems(2) tl i, of p] len(2) by auto
  have "s = src ! i"
  proof (rule nth_equalityI)
    show "length s = length (src ! i)" using s(2) inv(2) i by simp
    fix b assume "b < length s"
    then have b: "b < L" using s(2) by simp
    have e: "Gf (?e ! b) = Gf (src ! i ! b) + (\<Sum>j = Suc i..<?n. Gf (?co ! j) * Gf (src ! j ! b))"
      using row b sum_split_unit [OF i, of ?co "\<lambda>j. Gf (src ! j ! b)"] by (simp add: combination_def Gf_simps)
    have "(\<Sum>j = Suc i..<?n. Gf (?co ! j) * Gf (syms ! j ! b)) = (\<Sum>j = Suc i..<?n. Gf (?co ! j) * Gf (src ! j ! b))"
      using Suc.prems(3) by (intro sum.cong) simp_all
    then have "Gf (s ! b) = Gf (src ! i ! b)" using s(3) b e by (simp add: add.assoc gf_double)
    then show "s ! b = src ! i ! b" by simp
  qed
  then have "\<forall>j. i \<le> j \<and> j < ?n \<longrightarrow> syms[i := s] ! j = src ! j"
    using Suc.prems(2,3) by (auto simp: nth_list_update le_less_Suc_eq Suc_le_eq)
  then show ?case using Suc.IH [of "syms[i := s]"] Suc.prems(1,2) s(1) by simp
qed

lemma extract_recovers:
  assumes inv: "rlnc_inv src L d" "\<forall>s \<in> set src. length s = L" "is_complete d"
  shows "extract_source_symbols p d = Some (Some src)"
proof -
  have w: "dec_window d = length src" "dec_symbol_len d = L" "length (has_row d) = length src"
    using inv(1) by (simp_all add: rlnc_inv_def)
  have "length (filter id (has_row d)) = length (has_row d)"
    using inv by (simp add: rlnc_inv_def is_complete_def)
  then have rows: "\<forall>col < length src. has_row d ! col" using all_filter_id w(3) by metis
  have "back_substitute p d (length src) (replicate (length src) (replicate L 0)) = Some src"
    by (rule back_substitute_recovers [OF inv(1,2) rows]) auto
  then show ?thesis using inv(3) w by (simp add: extract_source_symbols_def)
qed

section \<open>Encoder\<close>

definition encoder_inv :: "RlncEncoder \<Rightarrow> bool" where
  "encoder_inv e \<longleftrightarrow> length (enc_symbols e) \<le> enc_window e \<and> (\<forall>s \<in> set (enc_symbols e). length s = enc_symbol_len e)"

lemma push_source_inv: "encoder_inv e \<Longrightarrow> push_source e s = Some e' \<Longrightarrow> encoder_inv e'"
  by (auto simp: push_source_def encoder_inv_def split: if_splits)

lemma length_draw_bytes: "length (fst (draw_bytes n i bs js st)) = length (fst st)"
  by (induction n i bs js st rule: draw_bytes.induct) auto

lemma length_draw_round: "length (fst (fst (draw_round n is s st))) = length (fst st)"
  by (induction n "is" s st rule: draw_round.induct) (auto simp: length_draw_bytes split: prod.splits)

lemma length_draw_coeffs: "length (draw_coeffs t n s co) = length co"
proof (induction t n s co rule: draw_coeffs.induct)
  case (2 t n s co)
  obtain co' z s' where r: "draw_round n (map (\<lambda>q. 4 * q) [0..<div_ceil n 4]) s (co, True) = ((co', z), s')"
    by (metis surj_pair)
  then have "length co' = length co" using length_draw_round [of n _ s "(co, True)"] by (metis fst_conv)
  then show ?case using 2 r by simp
qed simp

lemma produce_combination:
  assumes inv: "encoder_inv e" "length (enc_symbols e) = enc_window e"
  shows "\<exists>co cd. produce_coded_symbol p e seed = Some (co, cd) \<and> combination (enc_symbols e) (enc_symbol_len e) co cd \<and>
    (enc_symbols e \<noteq> [] \<longrightarrow> (\<exists>c \<in> set co. c \<noteq> 0))"
proof (cases "enc_symbols e = []")
  case True
  then show ?thesis using inv(2) by (auto simp: produce_coded_symbol_def combination_def Gf_simps)
next
  case False
  let ?n = "length (enc_symbols e)"
  define d where "d = draw_coeffs 16 ?n seed (replicate (enc_window e) 0)"
  define co where "co = (if \<forall>c \<in> set (take ?n d). c = 0 then d[0 := 1] else d)"
  have len: "length d = ?n" "length co = ?n" by (simp_all add: d_def co_def length_draw_coeffs inv(2))
  have nz: "\<exists>c \<in> set co. c \<noteq> 0"
  proof (cases "\<forall>c \<in> set (take ?n d). c = 0")
    case True
    then have "co ! 0 = 1" "0 < length co" using len False by (simp_all add: co_def)
    then show ?thesis by (metis nth_mem one_neq_zero)
  next
    case F: False
    then show ?thesis using len by (auto simp: co_def)
  qed
  have "\<forall>(c, s) \<in> set (filter (\<lambda>(c, src). c \<noteq> 0) (zip co (enc_symbols e))). length s = length (replicate (enc_symbol_len e) (0 :: u8))"
    using inv(1) by (auto simp: encoder_inv_def dest: set_zip_rightD)
  from accumulate_Some [OF this, of p] obtain cd where cd:
    "accumulate_nonzero p (zip co (enc_symbols e)) (replicate (enc_symbol_len e) 0) = Some cd" "length cd = enc_symbol_len e"
    "\<forall>b < enc_symbol_len e. Gf (cd ! b) = (\<Sum>(c, src)\<leftarrow>zip co (enc_symbols e). Gf c * Gf (src ! b))"
    by (auto simp: accumulate_nonzero_def sum_list_filter_zero Gf_simps)
  have "combination (enc_symbols e) (enc_symbol_len e) co cd"
    using cd len by (simp add: combination_def sum_list_sum_nth atLeast0LessThan)
  moreover have "produce_coded_symbol p e seed = Some (co, cd)"
    using False cd(1) by (simp add: produce_coded_symbol_def Let_def d_def [symmetric] co_def [symmetric])
  ultimately show ?thesis using nz by blast
qed

section \<open>Coding a window\<close>

fun push_all :: "RlncEncoder \<Rightarrow> bytes list \<Rightarrow> RlncEncoder exec" where
  "push_all e [] = Some e"
| "push_all e (s # ss) = (case push_source e s of None \<Rightarrow> None | Some e' \<Rightarrow> push_all e' ss)"

lemma push_all_snoc:
  assumes "length xs + length ys \<le> w" "\<forall>s \<in> set xs \<union> set ys. length s = L" "xs \<noteq> []"
  shows "push_all \<lparr>enc_window = w, enc_symbols = xs, enc_symbol_len = L\<rparr> ys =
    Some \<lparr>enc_window = w, enc_symbols = xs @ ys, enc_symbol_len = L\<rparr>"
  using assms by (induction ys arbitrary: xs) (auto simp: push_source_def)

lemma push_all_new:
  assumes "src \<noteq> []" "\<forall>s \<in> set src. length s = L"
  shows "push_all (rlnc_encoder_new (length src)) src = Some \<lparr>enc_window = length src, enc_symbols = src, enc_symbol_len = L\<rparr>"
proof -
  obtain s ss where src: "src = s # ss" using assms(1) by (cases src) auto
  then show ?thesis
    using push_all_snoc [of "[s]" ss "length src" L] assms(2) by (simp add: push_source_def rlnc_encoder_new_def)
qed

text \<open>A receiver that is fed any number of coded symbols of \<open>e\<close>, drawn from any seeds.\<close>

inductive rlnc_rx :: "cpu \<Rightarrow> cpu \<Rightarrow> RlncEncoder \<Rightarrow> RlncDecoder \<Rightarrow> bool" for p q e where
  new: "rlnc_rx p q e (rlnc_decoder_new (enc_window e) (enc_symbol_len e))"
| receive: "rlnc_rx p q e d \<Longrightarrow> produce_coded_symbol p e seed = Some (co, cd) \<Longrightarrow>
    consume_coded_symbol q d co cd = Some (grew, d') \<Longrightarrow> rlnc_rx p q e d'"

lemma rlnc_rx_inv:
  assumes e: "encoder_inv e" "length (enc_symbols e) = enc_window e"
  shows "rlnc_rx p q e d \<Longrightarrow> rlnc_inv (enc_symbols e) (enc_symbol_len e) d"
proof (induction rule: rlnc_rx.induct)
  case new
  show ?case using rlnc_new_inv [of "enc_symbols e"] e(2) by simp
next
  case (receive d seed co cd grew d')
  have "combination (enc_symbols e) (enc_symbol_len e) co cd"
    using produce_combination [OF e, of p seed] receive.hyps(2) by auto
  then show ?case using consume_inv [OF receive.IH, of co cd q] receive.hyps(3) by auto
qed

section \<open>Properties\<close>

text \<open>C29: random linear network coding delivers the source window. For a window of symbols of equal length, encoder
  and decoder never panic on any seeds and any CPUs; a received symbol raises the rank by one, unless
  the rank is already full or its coefficients are a linear combination of those received before; and as soon as the rank is full, and not before, the decoder returns
  exactly the symbols that were pushed.\<close>

theorem rlnc_recovers:
  assumes "src \<noteq> []" "\<forall>s \<in> set src. length s = L" "push_all (rlnc_encoder_new (length src)) src = Some e"
    and "rlnc_rx p q e d"
  shows "\<exists>co cd grew d'. produce_coded_symbol p e seed = Some (co, cd) \<and> consume_coded_symbol q d co cd = Some (grew, d') \<and>
    dec_rank d' = dec_rank d + (if grew then 1 else 0) \<and> dec_rank d' \<le> length src \<and>
    (\<not> grew \<longrightarrow> dec_rank d = length src \<or> spanned d co) \<and>
    extract_source_symbols q d = Some (if dec_rank d = length src then Some src else None)"
proof -
  have e: "e = \<lparr>enc_window = length src, enc_symbols = src, enc_symbol_len = L\<rparr>"
    using assms(3) push_all_new [OF assms(1,2)] by simp
  have einv: "encoder_inv e" "length (enc_symbols e) = enc_window e" using assms(2) by (simp_all add: e encoder_inv_def)
  have inv: "rlnc_inv src L d" using rlnc_rx_inv [OF einv assms(4)] by (simp add: e)
  obtain co cd where pr: "produce_coded_symbol p e seed = Some (co, cd)" "combination src L co cd"
    using produce_combination [OF einv, of p seed] by (auto simp: e)
  obtain grew d' where cs: "consume_coded_symbol q d co cd = Some (grew, d')" "rlnc_inv src L d'"
    "dec_rank d' = dec_rank d + (if grew then 1 else 0)"
    "\<not> grew \<longrightarrow> is_complete d \<or> length co \<noteq> length src \<or> length cd \<noteq> L \<or> spanned d co"
    using consume_inv [OF inv, of co cd q] pr(2) by blast
  have "\<not> grew \<longrightarrow> dec_rank d = length src \<or> spanned d co"
    using cs(4) pr(2) inv by (auto simp: combination_def is_complete_def rlnc_inv_def)
  moreover
  have "dec_rank d' \<le> length src" using cs(2) length_filter_le [of id "has_row d'"] by (simp add: rlnc_inv_def)
  moreover have "extract_source_symbols q d = Some (if dec_rank d = length src then Some src else None)"
  proof (cases "is_complete d")
    case True
    then show ?thesis using extract_recovers [OF inv assms(2)] inv by (simp add: is_complete_def rlnc_inv_def)
  next
    case False
    then show ?thesis using inv by (simp add: extract_source_symbols_def is_complete_def rlnc_inv_def)
  qed
  ultimately show ?thesis using pr(1) cs by blast
qed

theorem rlnc_recovers_witness:
  "\<exists>e. push_all (rlnc_encoder_new 2) [[5], [7]] = Some e \<and>
    extract_source_symbols scalar_cpu (rlnc_decoder_new (enc_window e) (enc_symbol_len e)) = Some None"
proof -
  let ?src = "[[5], [7]] :: bytes list"
  have len: "?src \<noteq> []" "\<forall>s \<in> set ?src. length s = 1" by simp_all
  obtain e where e: "push_all (rlnc_encoder_new (length ?src)) ?src = Some e" using push_all_new [OF len] by blast
  let ?d = "rlnc_decoder_new (enc_window e) (enc_symbol_len e)"
  have "dec_rank ?d = 0" by (simp add: rlnc_decoder_new_def)
  then have "extract_source_symbols scalar_cpu ?d = Some None"
    using rlnc_recovers [OF len e rlnc_rx.new, of scalar_cpu 7 scalar_cpu] by auto
  moreover have "length ?src = 2" by simp
  ultimately show ?thesis using e by (intro exI [of _ e]) (simp only: simp_thms)
qed

end
