(* ===== verification/Spsc.thy ===== *)
theory Spsc
  imports Prelude
begin

unbundle bit_operations_syntax

text \<open>
  The single-producer single-consumer ring of \<^verbatim>\<open>crates/yip-io/src/spsc.rs\<close>. The two threads
  interleave at the granularity of their accesses to shared memory: every operation is cut into the
  steps between two such accesses, and the program counters \<open>prod_pc\<close> and \<open>cons_pc\<close> hold the local
  variables of the call in progress. A load with acquire ordering of the other side's counter need not
  see the newest value: it returns any value the other side has published since the last one
  this side saw. The sequence counters are 64-bit words and wrap.

  A slot is \<^const>\<open>None\<close> while it is uninitialised or moved out of. Reading such a slot
  and leaving the slot array are the undefined behaviour and the panic that \<^const>\<open>None\<close> stands for
  in the result of a step.
\<close>

section \<open>State\<close>

datatype 'a prod_pc =
    P_idle
  | P_load 'a u64
  | P_write 'a u64
  | P_store 'a u64

datatype 'a cons_pc =
    C_idle
  | C_load u64
  | C_read u64
  | C_store u64 'a
  | D_load u64 u64
  | D_read u64 u64 u64 "'a list"
  | D_store u64 u64 "'a list"
  | E_load u64

record 'a spsc =
  sp_head :: u64
  sp_tail :: u64
  sp_slots :: "'a option list"
  sp_cached_tail :: u64
  sp_cached_head :: u64
  sp_prod :: "'a prod_pc"
  sp_cons :: "'a cons_pc"

datatype 'a event =
    Pushed 'a
  | Full 'a
  | Popped "'a option"
  | Drained "'a list"
  | Emptiness bool

definition is_power_of_two :: "u64 \<Rightarrow> bool" where
  "is_power_of_two w \<longleftrightarrow> length (filter (bit w) [0..<64]) = 1"

definition spsc_pair :: "u64 \<Rightarrow> 'a spsc exec" where
  "spsc_pair cap =
     (if cap > 0 \<and> is_power_of_two cap
      then Some \<lparr>sp_head = 0, sp_tail = 0, sp_slots = replicate (unat cap) None, sp_cached_tail = 0, sp_cached_head = 0,
                 sp_prod = P_idle, sp_cons = C_idle\<rparr>
      else None)"

definition slot_idx :: "u64 \<Rightarrow> u64 \<Rightarrow> nat" where
  "slot_idx cap n = unat (n AND (cap - 1))"

section \<open>Producer\<close>

definition push_start :: "u64 \<Rightarrow> 'a \<Rightarrow> 'a spsc \<Rightarrow> 'a spsc" where
  "push_start cap x s =
     (let head = sp_head s; tail = sp_cached_tail s
      in if head - tail \<ge> cap then s\<lparr>sp_prod := P_load x head\<rparr> else s\<lparr>sp_prod := P_write x head\<rparr>)"

definition push_load :: "u64 \<Rightarrow> u64 \<Rightarrow> 'a \<Rightarrow> u64 \<Rightarrow> 'a spsc \<Rightarrow> 'a event option \<times> 'a spsc" where
  "push_load cap seen x head s =
     (let s1 = s\<lparr>sp_cached_tail := seen\<rparr>
      in if head - seen \<ge> cap then (Some (Full x), s1\<lparr>sp_prod := P_idle\<rparr>) else (None, s1\<lparr>sp_prod := P_write x head\<rparr>))"

definition push_write :: "u64 \<Rightarrow> 'a \<Rightarrow> u64 \<Rightarrow> 'a spsc \<Rightarrow> 'a spsc exec" where
  "push_write cap x head s =
     (let idx = slot_idx cap head
      in if idx < length (sp_slots s) then Some (s\<lparr>sp_slots := (sp_slots s)[idx := Some x], sp_prod := P_store x head\<rparr>) else None)"

definition push_store :: "'a \<Rightarrow> u64 \<Rightarrow> 'a spsc \<Rightarrow> 'a event \<times> 'a spsc" where
  "push_store x head s = (Pushed x, s\<lparr>sp_head := head + 1, sp_prod := P_idle\<rparr>)"

section \<open>Consumer\<close>

definition take_slot :: "u64 \<Rightarrow> u64 \<Rightarrow> 'a spsc \<Rightarrow> ('a \<times> 'a spsc) exec" where
  "take_slot cap n s =
     (let idx = slot_idx cap n
      in if idx < length (sp_slots s)
         then (case sp_slots s ! idx of None \<Rightarrow> None | Some x \<Rightarrow> Some (x, s\<lparr>sp_slots := (sp_slots s)[idx := None]\<rparr>))
         else None)"

definition pop_start :: "'a spsc \<Rightarrow> 'a spsc" where
  "pop_start s =
     (let tail = sp_tail s; head = sp_cached_head s
      in if head = tail then s\<lparr>sp_cons := C_load tail\<rparr> else s\<lparr>sp_cons := C_read tail\<rparr>)"

definition pop_load :: "u64 \<Rightarrow> u64 \<Rightarrow> 'a spsc \<Rightarrow> 'a event option \<times> 'a spsc" where
  "pop_load seen tail s =
     (let s1 = s\<lparr>sp_cached_head := seen\<rparr>
      in if seen = tail then (Some (Popped None), s1\<lparr>sp_cons := C_idle\<rparr>) else (None, s1\<lparr>sp_cons := C_read tail\<rparr>))"

definition pop_read :: "u64 \<Rightarrow> u64 \<Rightarrow> 'a spsc \<Rightarrow> 'a spsc exec" where
  "pop_read cap tail s = (case take_slot cap tail s of None \<Rightarrow> None | Some (x, s1) \<Rightarrow> Some (s1\<lparr>sp_cons := C_store tail x\<rparr>))"

definition pop_store :: "u64 \<Rightarrow> 'a \<Rightarrow> 'a spsc \<Rightarrow> 'a event \<times> 'a spsc" where
  "pop_store tail x s = (Popped (Some x), s\<lparr>sp_tail := tail + 1, sp_cons := C_idle\<rparr>)"

text \<open>Once \<^verbatim>\<open>drain_batch\<close> has its view of the head it knows how many slots to read.\<close>

definition drain_count :: "u64 \<Rightarrow> u64 \<Rightarrow> 'a spsc \<Rightarrow> 'a event option \<times> 'a spsc" where
  "drain_count maxn tail s =
     (let to_drain = min (sp_cached_head s - tail) maxn
      in if to_drain = 0 then (Some (Drained []), s\<lparr>sp_cons := C_idle\<rparr>) else (None, s\<lparr>sp_cons := D_read tail to_drain 0 []\<rparr>))"

definition drain_start :: "u64 \<Rightarrow> 'a spsc \<Rightarrow> 'a event option \<times> 'a spsc" where
  "drain_start maxn s =
     (if maxn = 0 then (Some (Drained []), s)
      else let tail = sp_tail s
           in if sp_cached_head s - tail < maxn then (None, s\<lparr>sp_cons := D_load maxn tail\<rparr>) else drain_count maxn tail s)"

definition drain_load :: "u64 \<Rightarrow> u64 \<Rightarrow> u64 \<Rightarrow> 'a spsc \<Rightarrow> 'a event option \<times> 'a spsc" where
  "drain_load seen maxn tail s = drain_count maxn tail (s\<lparr>sp_cached_head := seen\<rparr>)"

definition drain_read :: "u64 \<Rightarrow> u64 \<Rightarrow> u64 \<Rightarrow> u64 \<Rightarrow> 'a list \<Rightarrow> 'a spsc \<Rightarrow> 'a spsc exec" where
  "drain_read cap tail n i out s =
     (case take_slot cap (tail + i) s of
        None \<Rightarrow> None
      | Some (x, s1) \<Rightarrow>
          Some (s1\<lparr>sp_cons := (if i + 1 < n then D_read tail n (i + 1) (out @ [x]) else D_store tail n (out @ [x]))\<rparr>))"

definition drain_store :: "u64 \<Rightarrow> u64 \<Rightarrow> 'a list \<Rightarrow> 'a spsc \<Rightarrow> 'a event \<times> 'a spsc" where
  "drain_store tail n out s = (Drained out, s\<lparr>sp_tail := tail + n, sp_cons := C_idle\<rparr>)"

definition empty_start :: "'a spsc \<Rightarrow> 'a spsc" where
  "empty_start s = s\<lparr>sp_cons := E_load (sp_tail s)\<rparr>"

definition empty_load :: "u64 \<Rightarrow> u64 \<Rightarrow> 'a spsc \<Rightarrow> 'a event \<times> 'a spsc" where
  "empty_load seen tail s = (Emptiness (seen = tail), s\<lparr>sp_cached_head := seen, sp_cons := C_idle\<rparr>)"

text \<open>What \<^verbatim>\<open>RingBuffer::drop\<close> drops: the items pushed and never popped.\<close>

definition drop_ring :: "u64 \<Rightarrow> 'a spsc \<Rightarrow> 'a list exec" where
  "drop_ring cap s =
     those (map (\<lambda>i. let idx = slot_idx cap (sp_tail s + of_nat i) in if idx < length (sp_slots s) then sp_slots s ! idx else None)
                [0..<unat (sp_head s - sp_tail s)])"

section \<open>Interleavings\<close>

text \<open>The values an acquire load may return.\<close>

definition may_see :: "u64 \<Rightarrow> u64 \<Rightarrow> u64 \<Rightarrow> bool" where
  "may_see current seen_before seen \<longleftrightarrow> current - seen \<le> current - seen_before"

inductive spsc_step :: "u64 \<Rightarrow> 'a spsc \<Rightarrow> 'a event option \<Rightarrow> 'a spsc exec \<Rightarrow> bool" where
  p_call: "sp_prod s = P_idle \<Longrightarrow> spsc_step cap s None (Some (push_start cap x s))"
| p_load: "sp_prod s = P_load x h \<Longrightarrow> may_see (sp_tail s) (sp_cached_tail s) seen \<Longrightarrow> push_load cap seen x h s = (e, s') \<Longrightarrow>
    spsc_step cap s e (Some s')"
| p_write: "sp_prod s = P_write x h \<Longrightarrow> spsc_step cap s None (push_write cap x h s)"
| p_store: "sp_prod s = P_store x h \<Longrightarrow> push_store x h s = (e, s') \<Longrightarrow> spsc_step cap s (Some e) (Some s')"
| c_pop: "sp_cons s = C_idle \<Longrightarrow> spsc_step cap s None (Some (pop_start s))"
| c_load: "sp_cons s = C_load t \<Longrightarrow> may_see (sp_head s) (sp_cached_head s) seen \<Longrightarrow> pop_load seen t s = (e, s') \<Longrightarrow>
    spsc_step cap s e (Some s')"
| c_read: "sp_cons s = C_read t \<Longrightarrow> spsc_step cap s None (pop_read cap t s)"
| c_store: "sp_cons s = C_store t x \<Longrightarrow> pop_store t x s = (e, s') \<Longrightarrow> spsc_step cap s (Some e) (Some s')"
| d_call: "sp_cons s = C_idle \<Longrightarrow> drain_start maxn s = (e, s') \<Longrightarrow> spsc_step cap s e (Some s')"
| d_load: "sp_cons s = D_load maxn t \<Longrightarrow> may_see (sp_head s) (sp_cached_head s) seen \<Longrightarrow> drain_load seen maxn t s = (e, s') \<Longrightarrow>
    spsc_step cap s e (Some s')"
| d_read: "sp_cons s = D_read t n i out \<Longrightarrow> spsc_step cap s None (drain_read cap t n i out s)"
| d_store: "sp_cons s = D_store t n out \<Longrightarrow> drain_store t n out s = (e, s') \<Longrightarrow> spsc_step cap s (Some e) (Some s')"
| e_call: "sp_cons s = C_idle \<Longrightarrow> spsc_step cap s None (Some (empty_start s))"
| e_load: "sp_cons s = E_load t \<Longrightarrow> may_see (sp_head s) (sp_cached_head s) seen \<Longrightarrow> empty_load seen t s = (e, s') \<Longrightarrow>
    spsc_step cap s (Some e) (Some s')"

inductive spsc_run :: "u64 \<Rightarrow> 'a event list \<Rightarrow> 'a spsc \<Rightarrow> bool" for cap where
  start: "spsc_pair cap = Some s \<Longrightarrow> spsc_run cap [] s"
| silent: "spsc_run cap es s \<Longrightarrow> spsc_step cap s None (Some s') \<Longrightarrow> spsc_run cap es s'"
| event: "spsc_run cap es s \<Longrightarrow> spsc_step cap s (Some e) (Some s') \<Longrightarrow> spsc_run cap (es @ [e]) s'"

fun pushed :: "'a event list \<Rightarrow> 'a list" where
  "pushed [] = []"
| "pushed (Pushed x # es) = x # pushed es"
| "pushed (_ # es) = pushed es"

fun popped :: "'a event list \<Rightarrow> 'a list" where
  "popped [] = []"
| "popped (Popped (Some x) # es) = x # popped es"
| "popped (Drained xs # es) = xs @ popped es"
| "popped (_ # es) = popped es"

section \<open>Whole calls\<close>

text \<open>An operation that runs without the other side interfering sees the newest counters.\<close>

definition spsc_push :: "u64 \<Rightarrow> 'a \<Rightarrow> 'a spsc \<Rightarrow> (('a + unit) \<times> 'a spsc) exec" where
  "spsc_push cap x s =
     (let s1 = push_start cap x s;
          (e, s2) = (case sp_prod s1 of P_load y h \<Rightarrow> push_load cap (sp_tail s1) y h s1 | _ \<Rightarrow> (None, s1))
      in case e of
           Some _ \<Rightarrow> Some (Inl x, s2)
         | None \<Rightarrow> (case push_write cap x (sp_head s) s2 of
                      None \<Rightarrow> None
                    | Some s3 \<Rightarrow> Some (Inr (), snd (push_store x (sp_head s) s3))))"

definition spsc_pop :: "u64 \<Rightarrow> 'a spsc \<Rightarrow> ('a option \<times> 'a spsc) exec" where
  "spsc_pop cap s =
     (let s1 = pop_start s;
          (e, s2) = (case sp_cons s1 of C_load t \<Rightarrow> pop_load (sp_head s1) t s1 | _ \<Rightarrow> (None, s1))
      in case e of
           Some _ \<Rightarrow> Some (None, s2)
         | None \<Rightarrow> (case pop_read cap (sp_tail s) s2 of
                      None \<Rightarrow> None
                    | Some s3 \<Rightarrow> (case sp_cons s3 of C_store t x \<Rightarrow> Some (Some x, snd (pop_store t x s3)) | _ \<Rightarrow> None)))"

text \<open>Dropping the consumer pops until the ring is empty.\<close>

partial_function (option) drop_consumer :: "u64 \<Rightarrow> 'a spsc \<Rightarrow> 'a spsc exec" where
  "drop_consumer cap s =
     (case spsc_pop cap s of
        None \<Rightarrow> None
      | Some (None, s') \<Rightarrow> Some s'
      | Some (Some _, s') \<Rightarrow> drop_consumer cap s')"

section \<open>Counters and slots\<close>

lemma power_of_two: "is_power_of_two w \<Longrightarrow> \<exists>k < 64. w = 2 ^ k"
proof -
  assume "is_power_of_two w"
  then obtain k where k: "filter (bit w) [0..<64] = [k]" by (auto simp: is_power_of_two_def length_Suc_conv)
  have i: "i < 64 \<and> bit w i \<longleftrightarrow> i = k" for i using arg_cong [OF k, of set] by auto
  have "w = 2 ^ k"
  proof (rule bit_word_eqI)
    fix n assume "n < LENGTH(64)"
    then show "bit w n = bit (2 ^ k :: u64) n" using i [of n] i [of k] by (simp add: bit_exp_iff eq_commute)
  qed
  then show ?thesis using i [of k] by blast
qed

lemma unat_power_of_two:
  assumes "k < 64"
  shows "unat (2 ^ k :: u64) = 2 ^ k"
proof -
  have "(2 :: nat) ^ k < 2 ^ 64" using assms by (intro power_strict_increasing) simp_all
  moreover have "(2 ^ k :: u64) = of_nat (2 ^ k)" by simp
  ultimately show ?thesis by (simp only: unat_of_nat) simp
qed

lemma unat_diff_of_nat:
  assumes "b \<le> a" "a - b < 2 ^ 64"
  shows "unat (of_nat a - of_nat b :: u64) = a - b"
proof -
  have "of_nat a - of_nat b = (of_nat (a - b) :: u64)" using assms(1) by (simp add: of_nat_diff)
  then show ?thesis using assms(2) by (simp add: unat_of_nat)
qed

lemma slot_idx_mod:
  assumes "cap = 2 ^ k" "k < 64"
  shows "slot_idx cap (of_nat j) = j mod 2 ^ k"
proof -
  have "of_nat j AND (cap - 1) = take_bit k (of_nat j :: u64)" unfolding assms(1) by (simp add: take_bit_eq_mask mask_eq_exp_minus_1)
  then have "slot_idx cap (of_nat j) = take_bit k (take_bit 64 j)" by (simp add: slot_idx_def unsigned_take_bit_eq unsigned_of_nat)
  also have "\<dots> = take_bit k j" using assms(2) by (simp only: take_bit_take_bit)
  finally show ?thesis by (simp add: take_bit_eq_mod)
qed

lemma window_inj:
  assumes "lo \<le> i" "i < lo + n" "lo \<le> j" "j < lo + n" "i mod n = j mod (n :: nat)"
  shows "i = j"
  using assms mod_near [of i n j] mod_near [of j n i] by (cases "i \<le> j") auto

definition slots_ok :: "nat \<Rightarrow> nat \<Rightarrow> 'a list \<Rightarrow> 'a option list \<Rightarrow> bool" where
  "slots_ok n lo full slots \<longleftrightarrow> length slots = n \<and>
     (\<forall>j. lo \<le> j \<longrightarrow> j < lo + n \<longrightarrow> slots ! (j mod n) = (if j < length full then Some (full ! j) else None))"

lemma slots_ok_write:
  assumes "slots_ok n lo full slots" "lo \<le> length full" "length full < lo + n"
  shows "slots_ok n lo (full @ [x]) (slots[length full mod n := Some x])" "slots ! (length full mod n) = None"
proof -
  have "0 < n" using assms by auto
  have "slots[length full mod n := Some x] ! (j mod n) = (if j < length (full @ [x]) then Some ((full @ [x]) ! j) else None)"
    if j: "lo \<le> j" "j < lo + n" for j
  proof (cases "j = length full")
    case True
    then show ?thesis using assms \<open>0 < n\<close> by (simp add: slots_ok_def)
  next
    case False
    then have "j mod n \<noteq> length full mod n" using j assms(2,3) window_inj [of lo j n "length full"] by blast
    then show ?thesis using assms(1) j False by (auto simp: slots_ok_def nth_append)
  qed
  then show "slots_ok n lo (full @ [x]) (slots[length full mod n := Some x])" using assms(1) by (simp add: slots_ok_def)
  show "slots ! (length full mod n) = None" using assms by (auto simp: slots_ok_def)
qed

lemma slots_ok_take:
  assumes "slots_ok n lo full slots" "lo < length full" "length full \<le> lo + n"
  shows "slots ! (lo mod n) = Some (full ! lo)" "slots_ok n (Suc lo) full (slots[lo mod n := None])"
proof -
  have n: "0 < n" using assms by auto
  show "slots ! (lo mod n) = Some (full ! lo)" using assms n by (auto simp: slots_ok_def)
  have "slots[lo mod n := None] ! (j mod n) = (if j < length full then Some (full ! j) else None)"
    if j: "Suc lo \<le> j" "j < Suc lo + n" for j
  proof (cases "j = lo + n")
    case True
    then show ?thesis using assms n by (simp add: slots_ok_def)
  next
    case False
    then have "j mod n \<noteq> lo mod n" using j window_inj [of lo j n lo] by auto
    then show ?thesis using assms(1) j False by (auto simp: slots_ok_def)
  qed
  then show "slots_ok n (Suc lo) full (slots[lo mod n := None])" using assms(1) by (simp add: slots_ok_def)
qed

section \<open>Invariant\<close>

text \<open>\<open>ps\<close> are the items pushed so far and \<open>qs\<close> the items popped so far; \<open>ct\<close> and \<open>ch\<close> count what the cached
  counters stand for. \<open>ahead\<close> is how many items the consumer has read and not yet
  released, \<open>written\<close> what the producer has written and not yet published.\<close>

fun ahead :: "'a cons_pc \<Rightarrow> nat" where
  "ahead (C_store _ _) = 1"
| "ahead (D_read _ _ i _) = unat i"
| "ahead (D_store _ n _) = unat n"
| "ahead _ = 0"

fun written :: "'a prod_pc \<Rightarrow> 'a list" where
  "written (P_store x _) = [x]"
| "written _ = []"

fun prod_ok :: "nat \<Rightarrow> nat \<Rightarrow> nat \<Rightarrow> 'a prod_pc \<Rightarrow> bool" where
  "prod_ok n h ct P_idle \<longleftrightarrow> True"
| "prod_ok n h ct (P_load _ head) \<longleftrightarrow> head = of_nat h"
| "prod_ok n h ct (P_write _ head) \<longleftrightarrow> head = of_nat h \<and> h < ct + n"
| "prod_ok n h ct (P_store _ head) \<longleftrightarrow> head = of_nat h \<and> h < ct + n"

fun cons_ok :: "'a list \<Rightarrow> nat \<Rightarrow> nat \<Rightarrow> 'a cons_pc \<Rightarrow> bool" where
  "cons_ok ps t ch C_idle \<longleftrightarrow> True"
| "cons_ok ps t ch (C_load tail) \<longleftrightarrow> tail = of_nat t"
| "cons_ok ps t ch (C_read tail) \<longleftrightarrow> tail = of_nat t \<and> t < ch"
| "cons_ok ps t ch (C_store tail x) \<longleftrightarrow> tail = of_nat t \<and> t < ch \<and> x = ps ! t"
| "cons_ok ps t ch (D_load m tail) \<longleftrightarrow> tail = of_nat t"
| "cons_ok ps t ch (D_read tail m i out) \<longleftrightarrow>
     tail = of_nat t \<and> unat i < unat m \<and> t + unat m \<le> ch \<and> out = take (unat i) (drop t ps)"
| "cons_ok ps t ch (D_store tail m out) \<longleftrightarrow> tail = of_nat t \<and> t + unat m \<le> ch \<and> out = take (unat m) (drop t ps)"
| "cons_ok ps t ch (E_load tail) \<longleftrightarrow> tail = of_nat t"

definition spsc_at :: "nat \<Rightarrow> 'a list \<Rightarrow> 'a list \<Rightarrow> nat \<Rightarrow> nat \<Rightarrow> 'a spsc \<Rightarrow> bool" where
  "spsc_at n ps qs ct ch s \<longleftrightarrow>
     sp_head s = of_nat (length ps) \<and> sp_tail s = of_nat (length qs) \<and> sp_cached_tail s = of_nat ct \<and> sp_cached_head s = of_nat ch \<and>
     ct \<le> length qs \<and> length qs \<le> ch \<and> ch \<le> length ps \<and> length ps \<le> ct + n \<and> take (length qs) ps = qs \<and>
     slots_ok n (length qs + ahead (sp_cons s)) (ps @ written (sp_prod s)) (sp_slots s) \<and>
     prod_ok n (length ps) ct (sp_prod s) \<and> cons_ok ps (length qs) ch (sp_cons s)"

definition spsc_inv :: "u64 \<Rightarrow> 'a list \<Rightarrow> 'a list \<Rightarrow> 'a spsc \<Rightarrow> bool" where
  "spsc_inv cap ps qs s \<longleftrightarrow> (\<exists>ct ch. spsc_at (unat cap) ps qs ct ch s)"

lemma may_see_of_nat:
  assumes "may_see (of_nat a) (of_nat b) seen" "b \<le> a" "a - b < 2 ^ 64"
  shows "\<exists>c. b \<le> c \<and> c \<le> a \<and> seen = of_nat c"
proof (intro exI conjI)
  let ?d = "unat (of_nat a - seen)"
  have d: "?d \<le> a - b" using assms unat_diff_of_nat [OF assms(2,3)] by (simp add: may_see_def word_le_nat_alt)
  then show "b \<le> a - ?d" "a - ?d \<le> a" using assms(2) by simp_all
  have "of_nat (a - ?d) = (of_nat a - of_nat ?d :: u64)" using d assms(2) by (simp add: of_nat_diff)
  then show "seen = of_nat (a - ?d)" by simp
qed

lemma spsc_at_bounds:
  assumes "spsc_at n ps qs ct ch s"
  shows "length qs \<le> length ps" "length ps - ct \<le> n" "length qs - ct \<le> n" "length ps - ch \<le> n" "ch - length qs \<le> n"
  using assms by (auto simp: spsc_at_def)

lemma ahead_le:
  assumes "cons_ok ps t ch c" "t \<le> ch"
  shows "t + ahead c \<le> ch"
  using assms by (cases c) auto

section \<open>Steps of the producer\<close>

lemma push_start_inv:
  assumes "spsc_at n ps qs ct ch s" "sp_prod s = P_idle" "n = unat cap" "n < 2 ^ 64"
  shows "spsc_at n ps qs ct ch (push_start cap x s)"
proof -
  have "unat (sp_head s - sp_cached_tail s) = length ps - ct"
    using assms(1,4) unat_diff_of_nat [of ct "length ps"] by (auto simp: spsc_at_def)
  then show ?thesis using assms by (auto simp: spsc_at_def push_start_def Let_def word_le_nat_alt)
qed

lemma push_load_inv:
  assumes "spsc_at n ps qs ct ch s" "sp_prod s = P_load x h" "may_see (sp_tail s) (sp_cached_tail s) seen"
    "push_load cap seen x h s = (e, s')" "n = unat cap" "n < 2 ^ 64"
  shows "\<exists>ct'. spsc_at n ps qs ct' ch s'" "e = None \<or> e = Some (Full x)"
proof -
  obtain c where c: "ct \<le> c" "c \<le> length qs" "seen = of_nat c"
    using may_see_of_nat [of "length qs" ct seen] assms spsc_at_bounds(3) [OF assms(1)] by (auto simp: spsc_at_def)
  have "unat (of_nat (length ps) - of_nat c :: u64) = length ps - c"
    using c assms(1,6) by (intro unat_diff_of_nat) (auto simp: spsc_at_def)
  then have "spsc_at n ps qs c ch s'"
    using assms c by (auto simp: spsc_at_def push_load_def Let_def word_le_nat_alt split: if_splits)
  then show "\<exists>ct'. spsc_at n ps qs ct' ch s'" ..
  show "e = None \<or> e = Some (Full x)" using assms(4) by (auto simp: push_load_def Let_def split: if_splits)
qed

lemma push_write_inv:
  assumes "spsc_at n ps qs ct ch s" "sp_prod s = P_write x h" "cap = 2 ^ k" "k < 64" "n = 2 ^ k"
  shows "\<exists>s'. push_write cap x h s = Some s' \<and> spsc_at n ps qs ct ch s'" "sp_slots s ! slot_idx cap h = None"
proof -
  let ?lo = "length qs + ahead (sp_cons s)"
  have h: "slot_idx cap h = length ps mod n" using assms slot_idx_mod [OF assms(3,4)] by (simp add: spsc_at_def)
  have lo: "?lo \<le> ch" using ahead_le assms(1) unfolding spsc_at_def by blast
  have ok: "slots_ok n ?lo ps (sp_slots s)" "?lo \<le> length ps" "length ps < ?lo + n"
    using assms(1,2) lo by (auto simp: spsc_at_def)
  have "length ps mod n < length (sp_slots s)" using ok by (auto simp: slots_ok_def)
  then show "\<exists>s'. push_write cap x h s = Some s' \<and> spsc_at n ps qs ct ch s'"
    using assms(1,2) slots_ok_write(1) [OF ok, of x] unfolding push_write_def Let_def h by (simp add: spsc_at_def)
  show "sp_slots s ! slot_idx cap h = None" unfolding h by (rule slots_ok_write(2) [OF ok])
qed

lemma push_store_inv:
  assumes "spsc_at n ps qs ct ch s" "sp_prod s = P_store x h" "push_store x h s = (e, s')"
  shows "spsc_at n (ps @ [x]) qs ct ch s'" "e = Pushed x"
  using assms by (cases "sp_cons s"; auto simp: spsc_at_def push_store_def nth_append)+

section \<open>Steps of the consumer\<close>

lemma consumer_view:
  assumes "spsc_at n ps qs ct ch s" "n < 2 ^ 64"
  shows "unat (sp_cached_head s - of_nat (length qs)) = ch - length qs" "of_nat ch = (of_nat (length qs) :: u64) \<longleftrightarrow> ch = length qs"
proof -
  have *: "unat (of_nat ch - of_nat (length qs) :: u64) = ch - length qs"
    using assms by (intro unat_diff_of_nat) (auto simp: spsc_at_def)
  then show "unat (sp_cached_head s - of_nat (length qs)) = ch - length qs" using assms(1) by (simp add: spsc_at_def)
  show "of_nat ch = (of_nat (length qs) :: u64) \<longleftrightarrow> ch = length qs" using * assms(1) by (auto simp: spsc_at_def)
qed

lemma consumer_sees:
  assumes "spsc_at n ps qs ct ch s" "may_see (sp_head s) (sp_cached_head s) seen" "n < 2 ^ 64"
  shows "\<exists>c. ch \<le> c \<and> c \<le> length ps \<and> seen = of_nat c"
  using may_see_of_nat [of "length ps" ch seen] assms spsc_at_bounds(4) [OF assms(1)] by (auto simp: spsc_at_def)

lemma set_cached_head:
  assumes "spsc_at n ps qs ct ch s" "ch \<le> c" "c \<le> length ps" "ahead (sp_cons s) = 0"
  shows "spsc_at n ps qs ct c (s\<lparr>sp_cached_head := of_nat c, sp_cons := C_idle\<rparr>)"
  using assms by (simp add: spsc_at_def)

lemma slot_taken:
  assumes "spsc_at n ps qs ct ch s" "lo = length qs + ahead (sp_cons s)" "lo < ch" "cap = 2 ^ k" "k < 64" "n = 2 ^ k"
  shows "\<exists>sl. take_slot cap (of_nat lo) s = Some (ps ! lo, s\<lparr>sp_slots := sl\<rparr>) \<and> slots_ok n (Suc lo) (ps @ written (sp_prod s)) sl"
proof -
  let ?full = "ps @ written (sp_prod s)"
  have w: "length (written (sp_prod s)) \<le> 1" by (cases "sp_prod s") simp_all
  have "length ?full \<le> lo + n" using assms(1,2) by (cases "sp_prod s") (auto simp: spsc_at_def)
  then have ok: "slots_ok n lo ?full (sp_slots s)" "lo < length ?full" "length ?full \<le> lo + n"
    using assms(1-3) by (auto simp: spsc_at_def)
  have idx: "slot_idx cap (of_nat lo) = lo mod n" using slot_idx_mod [OF assms(4,5)] assms(6) by simp
  have "lo mod n < length (sp_slots s)" using ok by (auto simp: slots_ok_def)
  moreover have "?full ! lo = ps ! lo" using assms(1,3) by (auto simp: spsc_at_def nth_append)
  ultimately show ?thesis using slots_ok_take [OF ok] unfolding take_slot_def Let_def idx
    by (intro exI [of _ "(sp_slots s)[lo mod n := None]"]) simp
qed

lemma pop_start_inv:
  assumes "spsc_at n ps qs ct ch s" "sp_cons s = C_idle" "n < 2 ^ 64"
  shows "spsc_at n ps qs ct ch (pop_start s)"
  using assms consumer_view(2) [OF assms(1,3)] by (auto simp: spsc_at_def pop_start_def Let_def)

lemma pop_load_inv:
  assumes "spsc_at n ps qs ct ch s" "sp_cons s = C_load t" "may_see (sp_head s) (sp_cached_head s) seen" "pop_load seen t s = (e, s')" "n < 2 ^ 64"
  shows "\<exists>ch'. spsc_at n ps qs ct ch' s'" "e = None \<or> e = Some (Popped None)"
proof -
  obtain c where c: "ch \<le> c" "c \<le> length ps" "seen = of_nat c" using consumer_sees assms by blast
  from set_cached_head [OF assms(1) c(1,2)] assms(2) have i: "spsc_at n ps qs ct c (s\<lparr>sp_cached_head := of_nat c, sp_cons := C_idle\<rparr>)" by simp
  show "\<exists>ch'. spsc_at n ps qs ct ch' s'" using assms c i consumer_view(2) [OF i assms(5)]
    by (auto simp: pop_load_def Let_def spsc_at_def split: if_splits)
  show "e = None \<or> e = Some (Popped None)" using assms(4) by (auto simp: pop_load_def Let_def split: if_splits)
qed

lemma pop_read_inv:
  assumes "spsc_at n ps qs ct ch s" "sp_cons s = C_read t" "cap = 2 ^ k" "k < 64" "n = 2 ^ k"
  shows "\<exists>s'. pop_read cap t s = Some s' \<and> spsc_at n ps qs ct ch s'"
proof -
  have t: "t = of_nat (length qs)" "length qs < ch" using assms(1,2) by (auto simp: spsc_at_def)
  obtain sl where "take_slot cap t s = Some (ps ! length qs, s\<lparr>sp_slots := sl\<rparr>)" "slots_ok n (Suc (length qs)) (ps @ written (sp_prod s)) sl"
    using slot_taken [OF assms(1) _ _ assms(3-5), of "length qs"] assms(2) t by auto
  then show ?thesis using assms(1,2) by (simp add: pop_read_def spsc_at_def)
qed

lemma pop_store_inv:
  assumes "spsc_at n ps qs ct ch s" "sp_cons s = C_store t x" "pop_store t x s = (e, s')"
  shows "spsc_at n ps (qs @ [x]) ct ch s'" "e = Popped (Some x)"
proof -
  have "length qs < length ps" "take (length qs) ps = qs" "x = ps ! length qs" using assms(1,2) by (auto simp: spsc_at_def)
  then have "take (Suc (length qs)) ps = qs @ [x]" by (simp add: take_Suc_conv_app_nth)
  then show "spsc_at n ps (qs @ [x]) ct ch s'" using assms by (auto simp: spsc_at_def pop_store_def)
  show "e = Popped (Some x)" using assms(3) by (simp add: pop_store_def)
qed

lemma drain_count_inv:
  assumes "spsc_at n ps qs ct ch s" "ahead (sp_cons s) = 0" "t = of_nat (length qs)" "drain_count maxn t s = (e, s')" "n < 2 ^ 64"
  shows "spsc_at n ps qs ct ch s'" "e = None \<or> e = Some (Drained [])"
proof -
  let ?d = "min (sp_cached_head s - t) maxn"
  have "unat ?d \<le> ch - length qs"
    using consumer_view(1) [OF assms(1,5)] assms(3) by (simp add: min_def word_le_nat_alt)
  then have d: "length qs + unat ?d \<le> ch" using assms(1) by (auto simp: spsc_at_def)
  show "spsc_at n ps qs ct ch s'"
  proof (cases "?d = 0")
    case True
    then show ?thesis using assms(1,2,4) by (auto simp: spsc_at_def drain_count_def Let_def)
  next
    case False
    then have "unat ?d \<noteq> 0" by (simp add: unat_eq_0)
    then show ?thesis using assms(1-4) d False by (auto simp: spsc_at_def drain_count_def Let_def)
  qed
  show "e = None \<or> e = Some (Drained [])" using assms(4) by (auto simp: drain_count_def Let_def split: if_splits)
qed

lemma drain_start_inv:
  assumes "spsc_at n ps qs ct ch s" "sp_cons s = C_idle" "drain_start maxn s = (e, s')" "n < 2 ^ 64"
  shows "spsc_at n ps qs ct ch s'" "e = None \<or> e = Some (Drained [])"
proof -
  have t: "sp_tail s = of_nat (length qs)" using assms(1) by (simp add: spsc_at_def)
  have a: "ahead (sp_cons s) = 0" using assms(2) by simp
  have "spsc_at n ps qs ct ch s' \<and> (e = None \<or> e = Some (Drained []))"
  proof (cases "maxn = 0 \<or> \<not> sp_cached_head s - sp_tail s < maxn")
    case True
    then show ?thesis using assms(1,3) drain_count_inv [OF assms(1) a t _ assms(4)]
      by (cases "maxn = 0") (simp_all add: drain_start_def Let_def)
  next
    case False
    then show ?thesis using assms(1-3) by (auto simp: drain_start_def Let_def spsc_at_def)
  qed
  then show "spsc_at n ps qs ct ch s'" "e = None \<or> e = Some (Drained [])" by blast+
qed

lemma drain_load_inv:
  assumes "spsc_at n ps qs ct ch s" "sp_cons s = D_load maxn t" "may_see (sp_head s) (sp_cached_head s) seen"
    "drain_load seen maxn t s = (e, s')" "n < 2 ^ 64"
  shows "\<exists>ch'. spsc_at n ps qs ct ch' s'" "e = None \<or> e = Some (Drained [])"
proof -
  obtain c where c: "ch \<le> c" "c \<le> length ps" "seen = of_nat c" using consumer_sees assms by blast
  have at: "spsc_at n ps qs ct c (s\<lparr>sp_cached_head := seen\<rparr>)" using assms(1,2) c by (simp add: spsc_at_def)
  have "ahead (sp_cons (s\<lparr>sp_cached_head := seen\<rparr>)) = 0" "t = of_nat (length qs)" using assms(1,2) by (simp_all add: spsc_at_def)
  from drain_count_inv [OF at this assms(4) [unfolded drain_load_def] assms(5)]
  show "\<exists>ch'. spsc_at n ps qs ct ch' s'" "e = None \<or> e = Some (Drained [])" by blast+
qed

lemma drain_read_inv:
  assumes "spsc_at n ps qs ct ch s" "sp_cons s = D_read t m i out" "cap = 2 ^ k" "k < 64" "n = 2 ^ k"
  shows "\<exists>s'. drain_read cap t m i out s = Some s' \<and> spsc_at n ps qs ct ch s'"
proof -
  let ?lo = "length qs + unat i"
  have t: "t = of_nat (length qs)" "unat i < unat m" "length qs + unat m \<le> ch" "out = take (unat i) (drop (length qs) ps)" "ch \<le> length ps"
    using assms(1,2) by (auto simp: spsc_at_def)
  have ti: "t + i = of_nat ?lo" using t(1) by simp
  obtain sl where s: "take_slot cap (t + i) s = Some (ps ! ?lo, s\<lparr>sp_slots := sl\<rparr>)" "slots_ok n (Suc ?lo) (ps @ written (sp_prod s)) sl"
    using slot_taken [OF assms(1) _ _ assms(3-5), of ?lo] assms(2) t unfolding ti by auto
  have i: "unat (i + 1) = Suc (unat i)" using t(2) unat_u64_less [of m] by (simp add: unat_word_ariths)
  have out: "out @ [ps ! ?lo] = take (Suc (unat i)) (drop (length qs) ps)"
    using t by (simp add: take_Suc_conv_app_nth)
  show ?thesis
  proof (cases "i + 1 < m")
    case True
    then show ?thesis using assms(1,2) s i out by (simp add: drain_read_def spsc_at_def word_less_nat_alt)
  next
    case False
    then have "unat m = Suc (unat i)" using t(2) i by (simp add: word_less_nat_alt)
    then show ?thesis using assms(1,2) s False out by (simp add: drain_read_def spsc_at_def)
  qed
qed

lemma drain_store_inv:
  assumes "spsc_at n ps qs ct ch s" "sp_cons s = D_store t m out" "drain_store t m out s = (e, s')"
  shows "spsc_at n ps (qs @ out) ct ch s'" "e = Drained out"
proof -
  have o: "length qs + unat m \<le> length ps" "take (length qs) ps = qs" "out = take (unat m) (drop (length qs) ps)" using assms(1,2) by (auto simp: spsc_at_def)
  then have "take (length qs + unat m) ps = qs @ out" "length out = unat m" by (simp_all add: take_add)
  then show "spsc_at n ps (qs @ out) ct ch s'" using assms by (auto simp: spsc_at_def drain_store_def)
  show "e = Drained out" using assms(3) by (simp add: drain_store_def)
qed

lemma empty_load_inv:
  assumes "spsc_at n ps qs ct ch s" "sp_cons s = E_load t" "may_see (sp_head s) (sp_cached_head s) seen" "empty_load seen t s = (e, s')" "n < 2 ^ 64"
  shows "\<exists>ch'. spsc_at n ps qs ct ch' s'" "e = Emptiness (seen = t)"
proof -
  obtain c where c: "ch \<le> c" "c \<le> length ps" "seen = of_nat c" using consumer_sees assms by blast
  from set_cached_head [OF assms(1) c(1,2)] assms(2,4) c(3) show "\<exists>ch'. spsc_at n ps qs ct ch' s'" by (auto simp: empty_load_def)
  show "e = Emptiness (seen = t)" using assms(4) by (simp add: empty_load_def)
qed

section \<open>Runs\<close>

abbreviation ev :: "'a event option \<Rightarrow> 'a event list" where
  "ev e \<equiv> case_option [] (\<lambda>e. [e]) e"

lemma pushed_append: "pushed (es @ fs) = pushed es @ pushed fs"
  by (induction es rule: pushed.induct) simp_all

lemma popped_append: "popped (es @ fs) = popped es @ popped fs"
  by (induction es rule: popped.induct) simp_all

lemma spsc_invI: "spsc_at (unat cap) ps qs ct ch s \<Longrightarrow> spsc_inv cap ps qs s"
  unfolding spsc_inv_def by blast

lemma spsc_step_inv:
  assumes "spsc_step cap s e r" "spsc_inv cap ps qs s" "cap = 2 ^ k" "k < 64"
  shows "\<exists>s'. r = Some s' \<and> spsc_inv cap (ps @ pushed (ev e)) (qs @ popped (ev e)) s'"
proof -
  have n: "unat cap = 2 ^ k" "unat cap < 2 ^ 64" using assms(3,4) unat_u64_less [of cap] by (simp_all add: unat_power_of_two)
  obtain ct ch where at: "spsc_at (unat cap) ps qs ct ch s" using assms(2) by (auto simp: spsc_inv_def)
  from assms(1) show ?thesis
  proof cases
    case (p_call x) then show ?thesis using push_start_inv [OF at _ refl n(2)] by (auto intro: spsc_invI)
  next
    case (p_load x h seen s') then show ?thesis using push_load_inv [OF at p_load(2,3,4) refl n(2)] by (auto intro: spsc_invI)
  next
    case (p_write x h) then show ?thesis using push_write_inv(1) [OF at _ assms(3,4) n(1)] by (auto intro: spsc_invI)
  next
    case (p_store x h e' s') then show ?thesis using push_store_inv [OF at p_store(3,4)] by (auto intro: spsc_invI)
  next
    case c_pop then show ?thesis using pop_start_inv [OF at _ n(2)] by (auto intro: spsc_invI)
  next
    case (c_load t seen s') then show ?thesis using pop_load_inv [OF at c_load(2,3,4) n(2)] by (auto intro: spsc_invI)
  next
    case (c_read t) then show ?thesis using pop_read_inv [OF at _ assms(3,4) n(1)] by (auto intro: spsc_invI)
  next
    case (c_store t x e' s') then show ?thesis using pop_store_inv [OF at c_store(3,4)] by (auto intro: spsc_invI)
  next
    case (d_call m s') then show ?thesis using drain_start_inv [OF at d_call(2,3) n(2)] by (auto intro: spsc_invI)
  next
    case (d_load m t seen s') then show ?thesis using drain_load_inv [OF at d_load(2,3,4) n(2)] by (auto intro: spsc_invI)
  next
    case (d_read t m i out) then show ?thesis using drain_read_inv [OF at _ assms(3,4) n(1)] by (auto intro: spsc_invI)
  next
    case (d_store t m out e' s') then show ?thesis using drain_store_inv [OF at d_store(3,4)] by (auto intro: spsc_invI)
  next
    case e_call then show ?thesis using at by (auto simp: spsc_inv_def spsc_at_def empty_start_def)
  next
    case (e_load t seen e' s') then show ?thesis using empty_load_inv [OF at e_load(3,4,5) n(2)] by (auto intro: spsc_invI)
  qed
qed

lemma spsc_pair_inv:
  assumes "spsc_pair cap = Some s"
  shows "\<exists>k < 64. cap = 2 ^ k" "spsc_inv cap [] [] s"
proof -
  show "\<exists>k < 64. cap = 2 ^ k" using assms power_of_two by (auto simp: spsc_pair_def split: if_splits)
  have "spsc_at (unat cap) [] [] 0 0 s" using assms by (auto simp: spsc_pair_def spsc_at_def slots_ok_def split: if_splits)
  then show "spsc_inv cap [] [] s" unfolding spsc_inv_def by blast
qed

lemma spsc_run_inv: "spsc_run cap es s \<Longrightarrow> (\<exists>k < 64. cap = 2 ^ k) \<and> spsc_inv cap (pushed es) (popped es) s"
proof (induction rule: spsc_run.induct)
  case (start s) then show ?case using spsc_pair_inv [OF start] by simp
next
  case (silent es s s') then show ?case using spsc_step_inv [OF silent(2)] by fastforce
next
  case (event es s e s') then show ?case using spsc_step_inv [OF event(2)] by (fastforce simp: pushed_append popped_append)
qed

text \<open>Calls that do not overlap see the newest counters: they fail only on a full or an empty ring.\<close>

lemma push_exact:
  assumes "spsc_inv cap ps qs s" "sp_prod s = P_idle" "cap = 2 ^ k" "k < 64"
  shows "\<exists>s'. spsc_push cap x s = Some (if length ps - length qs < unat cap then Inr () else Inl x, s')"
proof -
  have n: "unat cap = 2 ^ k" "unat cap < 2 ^ 64" using assms(3,4) unat_u64_less [of cap] by (simp_all add: unat_power_of_two)
  obtain ct ch where at: "spsc_at (unat cap) ps qs ct ch s" using assms(1) by (auto simp: spsc_inv_def)
  have d: "unat (sp_head s - sp_cached_tail s) = length ps - ct" "unat (sp_head s - sp_tail s) = length ps - length qs" "ct \<le> length qs"
    using at n(2) unat_diff_of_nat [of ct "length ps"] unat_diff_of_nat [of "length qs" "length ps"] by (auto simp: spsc_at_def)
  have idx: "slot_idx cap (sp_head s) < length (sp_slots s)"
    using slot_idx_mod [OF assms(3,4)] at n(1) by (simp add: spsc_at_def slots_ok_def)
  show ?thesis
  proof (cases "length ps - ct < unat cap")
    case True
    then show ?thesis using d idx
      by (auto simp: spsc_push_def push_start_def push_write_def push_store_def Let_def word_le_nat_alt)
  next
    case False
    then show ?thesis using d idx
      by (auto simp: spsc_push_def push_start_def push_load_def push_write_def push_store_def Let_def word_le_nat_alt)
  qed
qed

lemma pop_loads:
  assumes "spsc_at n ps qs ct ch s" "sp_cons s = C_load t" "n < 2 ^ 64"
  shows "\<exists>ch'. spsc_at n ps qs ct ch' (snd (pop_load (sp_head s) t s))" "fst (pop_load (sp_head s) t s) \<noteq> None \<longleftrightarrow> length qs = length ps"
proof -
  have "may_see (sp_head s) (sp_cached_head s) (sp_head s)" by (simp add: may_see_def)
  from pop_load_inv(1) [OF assms(1,2) this _ assms(3)]
  show "\<exists>ch'. spsc_at n ps qs ct ch' (snd (pop_load (sp_head s) t s))" by (metis prod.collapse)
  have "spsc_at n ps qs ct (length ps) (s\<lparr>sp_cached_head := sp_head s, sp_cons := C_idle\<rparr>)"
    using set_cached_head [OF assms(1), of "length ps"] assms(1,2) by (auto simp: spsc_at_def)
  from consumer_view(2) [OF this assms(3)] show "fst (pop_load (sp_head s) t s) \<noteq> None \<longleftrightarrow> length qs = length ps"
    using assms(1,2) by (auto simp: pop_load_def Let_def spsc_at_def)
qed

lemma pop_reads:
  assumes "spsc_at n ps qs ct ch s" "sp_cons s = C_read t" "cap = 2 ^ k" "k < 64" "n = 2 ^ k"
  shows "\<exists>s3. pop_read cap t s = Some s3 \<and> sp_cons s3 = C_store t (ps ! length qs) \<and>
    spsc_at n ps (qs @ [ps ! length qs]) ct ch (snd (pop_store t (ps ! length qs) s3)) \<and> sp_prod s3 = sp_prod s \<and> length qs < length ps"
proof -
  obtain s3 where s3: "pop_read cap t s = Some s3" "spsc_at n ps qs ct ch s3" using pop_read_inv [OF assms] by blast
  then obtain x where c: "sp_cons s3 = C_store t x" "sp_prod s3 = sp_prod s"
    by (auto simp: pop_read_def take_slot_def Let_def split: option.splits if_splits)
  then have x: "x = ps ! length qs" "length qs < length ps" using s3(2) by (auto simp: spsc_at_def)
  with pop_store_inv(1) [OF s3(2) c(1)] s3 c show ?thesis by (metis prod.collapse)
qed

lemma pop_exact:
  assumes "spsc_inv cap ps qs s" "sp_cons s = C_idle" "cap = 2 ^ k" "k < 64"
  shows "\<exists>s'. spsc_pop cap s = Some (if length qs < length ps then Some (ps ! length qs) else None, s') \<and>
    spsc_inv cap ps (if length qs < length ps then qs @ [ps ! length qs] else qs) s' \<and> sp_cons s' = C_idle \<and> sp_prod s' = sp_prod s"
proof -
  have n: "unat cap = 2 ^ k" "unat cap < 2 ^ 64" using assms(3,4) unat_u64_less [of cap] by (simp_all add: unat_power_of_two)
  obtain ct ch where at: "spsc_at (unat cap) ps qs ct ch s" using assms(1) by (auto simp: spsc_inv_def)
  have le: "length qs \<le> length ps" using at by (auto simp: spsc_at_def)
  have at1: "spsc_at (unat cap) ps qs ct ch (pop_start s)" by (rule pop_start_inv [OF at assms(2) n(2)])
  consider (load) "sp_cons (pop_start s) = C_load (sp_tail s)" | (read) "sp_cons (pop_start s) = C_read (sp_tail s)"
    by (cases "sp_cached_head s = sp_tail s") (auto simp: pop_start_def Let_def)
  moreover have prod: "sp_prod (pop_start s) = sp_prod s" by (simp add: pop_start_def Let_def)
  ultimately show ?thesis
  proof cases
    case read
    from pop_reads [OF at1 this assms(3,4) n(1)] show ?thesis
      using read prod by (auto simp: spsc_pop_def Let_def pop_store_def intro: spsc_invI)
  next
    case load
    let ?l = "pop_load (sp_head (pop_start s)) (sp_tail s) (pop_start s)"
    obtain ch' where at2: "spsc_at (unat cap) ps qs ct ch' (snd ?l)" and e: "fst ?l \<noteq> None \<longleftrightarrow> length qs = length ps"
      using pop_loads [OF at1 load n(2)] by blast
    have pc: "sp_cons (snd ?l) = (if fst ?l = None then C_read (sp_tail s) else C_idle)" "sp_prod (snd ?l) = sp_prod s"
      by (auto simp: pop_load_def Let_def pop_start_def)
    show ?thesis
    proof (cases "fst ?l")
      case None
      then have "sp_cons (snd ?l) = C_read (sp_tail s)" using pc by simp
      from pop_reads [OF at2 this assms(3,4) n(1)] show ?thesis
        using load None pc(2) by (cases ?l) (auto simp: spsc_pop_def Let_def pop_store_def intro: spsc_invI)
    next
      case (Some e')
      then show ?thesis using load e pc at2 by (cases ?l) (auto simp: spsc_pop_def Let_def intro: spsc_invI)
    qed
  qed
qed

lemma drop_consumer_empties:
  assumes "spsc_inv cap ps qs s" "sp_cons s = C_idle" "cap = 2 ^ k" "k < 64"
  shows "\<exists>s'. drop_consumer cap s = Some s' \<and> spsc_inv cap ps ps s' \<and> sp_cons s' = C_idle \<and> sp_prod s' = sp_prod s"
  using assms(1,2)
proof (induction "length ps - length qs" arbitrary: qs s)
  case 0
  have "qs = ps" using 0(1,2) by (auto simp: spsc_inv_def spsc_at_def)
  with pop_exact [OF 0(2,3) assms(3,4)] show ?case by (subst drop_consumer.simps) auto
next
  case (Suc m)
  obtain s' where s': "spsc_pop cap s = Some (Some (ps ! length qs), s')" "spsc_inv cap ps (qs @ [ps ! length qs]) s'" "sp_cons s' = C_idle" "sp_prod s' = sp_prod s"
  proof -
    have "length qs < length ps" using Suc(2) by simp
    with that pop_exact [OF Suc(3,4) assms(3,4)] show ?thesis by auto
  qed
  from Suc(1) [OF _ s'(2,3)] Suc(2) s'(4) show ?case by (subst drop_consumer.simps) (auto simp: s'(1))
qed

lemma drop_ring_exact:
  assumes "spsc_inv cap ps qs s" "sp_prod s = P_idle" "sp_cons s = C_idle" "cap = 2 ^ k" "k < 64"
  shows "drop_ring cap s = Some (drop (length qs) ps)"
proof -
  have n: "unat cap = 2 ^ k" "unat cap < 2 ^ 64" using assms(4,5) unat_u64_less [of cap] by (simp_all add: unat_power_of_two)
  obtain ct ch where at: "spsc_at (unat cap) ps qs ct ch s" using assms(1) by (auto simp: spsc_inv_def)
  have d: "unat (sp_head s - sp_tail s) = length ps - length qs" "length ps \<le> length qs + unat cap" "sp_tail s = of_nat (length qs)"
    and sl: "slots_ok (unat cap) (length qs) ps (sp_slots s)"
    using at n(2) assms(2,3) unat_diff_of_nat [of "length qs" "length ps"] by (auto simp: spsc_at_def)
  have "slot_idx cap (sp_tail s + of_nat i) < length (sp_slots s) \<and> sp_slots s ! slot_idx cap (sp_tail s + of_nat i) = Some (ps ! (length qs + i))"
    if "i < length ps - length qs" for i
    using that sl d(2) n(1) slot_idx_mod [OF assms(4,5), of "length qs + i"] unfolding d(3) by (simp add: slots_ok_def)
  then have "drop_ring cap s = Some (map (\<lambda>i. ps ! (length qs + i)) [0..<length ps - length qs])"
    unfolding drop_ring_def d(1) by (intro those_map_cong) (simp add: Let_def)
  also have "map (\<lambda>i. ps ! (length qs + i)) [0..<length ps - length qs] = drop (length qs) ps" by (rule nth_equalityI) simp_all
  finally show ?thesis .
qed

text \<open>C18: under every interleaving of the two threads, even when a thread reads the other's counter late, the ring is
  a first-in first-out queue: what has been popped and drained is a prefix of what has been pushed, at most \<open>CAP\<close> items lie
  between them, no step reads an uninitialised or moved-out slot, and the producer only writes
  into empty slots. A call that sees the newest counters pushes unless the ring is full and pops the
  oldest item unless it is empty, dropping the ring drops exactly the items left and dropping the
  consumer empties it, although the counters wrap around.\<close>

theorem spsc_fifo:
  assumes "spsc_run cap es s"
  shows "\<exists>q. pushed es = popped es @ q \<and> length q \<le> unat cap \<and>
     (\<forall>e r. spsc_step cap s e r \<longrightarrow> r \<noteq> None) \<and>
     (\<forall>x h. sp_prod s = P_write x h \<longrightarrow> sp_slots s ! slot_idx cap h = None) \<and>
     (sp_prod s = P_idle \<longrightarrow> (\<forall>x. \<exists>s'. spsc_push cap x s = Some (if length q < unat cap then Inr () else Inl x, s'))) \<and>
     (sp_cons s = C_idle \<longrightarrow> (\<exists>s'. spsc_pop cap s = Some (case q of [] \<Rightarrow> None | x # _ \<Rightarrow> Some x, s'))) \<and>
     (sp_prod s = P_idle \<longrightarrow> sp_cons s = C_idle \<longrightarrow>
        drop_ring cap s = Some q \<and> (\<exists>s'. drop_consumer cap s = Some s' \<and> drop_ring cap s' = Some []))"
proof -
  let ?ps = "pushed es" and ?qs = "popped es"
  let ?q = "drop (length ?qs) ?ps"
  obtain k where k: "cap = 2 ^ k" "k < 64" and inv: "spsc_inv cap ?ps ?qs s" using spsc_run_inv [OF assms] by blast
  obtain ct ch where at: "spsc_at (unat cap) ?ps ?qs ct ch s" using inv by (auto simp: spsc_inv_def)
  have "?ps = ?qs @ ?q" "length ?q \<le> unat cap" using at append_take_drop_id [of "length ?qs" ?ps] by (auto simp: spsc_at_def)
  moreover have "\<forall>e r. spsc_step cap s e r \<longrightarrow> r \<noteq> None" using spsc_step_inv [OF _ inv k] by blast
  moreover have "\<forall>x h. sp_prod s = P_write x h \<longrightarrow> sp_slots s ! slot_idx cap h = None"
    using push_write_inv(2) [OF at _ k] k by (simp add: unat_power_of_two)
  moreover have "sp_prod s = P_idle \<longrightarrow> (\<forall>x. \<exists>s'. spsc_push cap x s = Some (if length ?q < unat cap then Inr () else Inl x, s'))"
    using push_exact [OF inv _ k] by simp
  moreover have "(case ?q of [] \<Rightarrow> None | x # _ \<Rightarrow> Some x) = (if length ?qs < length ?ps then Some (?ps ! length ?qs) else None)"
    by (cases "length ?qs < length ?ps") (simp_all flip: Cons_nth_drop_Suc)
  then have "sp_cons s = C_idle \<longrightarrow> (\<exists>s'. spsc_pop cap s = Some (case ?q of [] \<Rightarrow> None | x # _ \<Rightarrow> Some x, s'))"
    using pop_exact [OF inv _ k] by auto
  moreover have "sp_prod s = P_idle \<longrightarrow> sp_cons s = C_idle \<longrightarrow>
      drop_ring cap s = Some ?q \<and> (\<exists>s'. drop_consumer cap s = Some s' \<and> drop_ring cap s' = Some [])"
    using drop_ring_exact [OF inv _ _ k] drop_consumer_empties [OF inv _ k] drop_ring_exact [OF _ _ _ k, of ?ps ?ps] by fastforce
  ultimately show ?thesis by blast
qed

theorem spsc_fifo_witness:
  "\<exists>s. spsc_run 2 [Pushed (7 :: nat)] s \<and> sp_prod s = P_idle \<and> sp_cons s = C_idle \<and> drop_ring 2 s = Some [7] \<and>
     (\<exists>s'. spsc_pop 2 s = Some (Some 7, s'))"
proof -
  let ?s0 = "\<lparr>sp_head = 0, sp_tail = 0, sp_slots = [None, None], sp_cached_tail = 0, sp_cached_head = 0, sp_prod = P_idle, sp_cons = C_idle\<rparr> :: nat spsc"
  let ?s1 = "?s0\<lparr>sp_prod := P_write 7 0\<rparr>"
  let ?s2 = "?s0\<lparr>sp_slots := [Some 7, None], sp_prod := P_store 7 0\<rparr>"
  let ?s3 = "?s0\<lparr>sp_head := 1, sp_slots := [Some 7, None]\<rparr>"
  have "is_power_of_two 2" by code_simp
  moreover have "replicate 2 None = [None, None]" by (simp add: eval_nat_numeral)
  ultimately have "spsc_pair 2 = Some ?s0" by (simp add: spsc_pair_def)
  then have r: "spsc_run 2 [] ?s0" by (rule spsc_run.start)
  have "?s1 = push_start 2 7 ?s0" by (simp add: push_start_def Let_def)
  then have "spsc_step 2 ?s0 None (Some ?s1)" using p_call [of ?s0 2 7] by simp
  from spsc_run.silent [OF r this] have r: "spsc_run 2 [] ?s1" .
  have "push_write 2 7 0 ?s1 = Some ?s2" by (simp add: push_write_def slot_idx_def)
  then have "spsc_step 2 ?s1 None (Some ?s2)" using p_write [of ?s1 7 0 2] by simp
  from spsc_run.silent [OF r this] have r: "spsc_run 2 [] ?s2" .
  have "spsc_step 2 ?s2 (Some (Pushed 7)) (Some ?s3)" by (rule p_store) (simp_all add: push_store_def)
  from spsc_run.event [OF r this] have r: "spsc_run 2 [Pushed 7] ?s3" by simp
  from spsc_fifo [OF r] show ?thesis using r by (intro exI [of _ ?s3]) auto
qed

end
