(* ===== verification/Mesh_Codec.thy ===== *)
theory Mesh_Codec
  imports Codecs
begin

text \<open>
  The signed objects of the mesh and their wire formats: certificates and root sets of
  \<^verbatim>\<open>crates/yip-membership/src/cert.rs\<close>, directory records of \<^verbatim>\<open>record.rs\<close> and gossip messages of
  \<^verbatim>\<open>gossip.rs\<close>. A decoder's cursor \<^verbatim>\<open>pos\<close> is represented by the bytes from it on. An encoder is
  partial: a collection too long for its 16-bit count panics. Ed25519 and BLAKE2s are the parameters
  \<open>ed\<close> (verification under a key, which also parses the key), \<open>sg\<close> (signing) and \<open>b2s\<close> (a hash of a given length).
\<close>

section \<open>Cursors\<close>

named_theorems parse_simps "what the parsers accept"

definition take_n :: "nat \<Rightarrow> bytes \<Rightarrow> (bytes \<times> bytes) option" where
  "take_n n b = (if n \<le> length b then Some (take n b, drop n b) else None)"

fun take_u8 :: "bytes \<Rightarrow> (u8 \<times> bytes) option" where
  "take_u8 [] = None"
| "take_u8 (x # b) = Some (x, b)"

definition take_count :: "bytes \<Rightarrow> (nat \<times> bytes) option" where
  "take_count b = do { (x, r) \<leftarrow> take_n 2 b; Some (unat (un16 x), r) }"

definition take_u64 :: "bytes \<Rightarrow> (u64 \<times> bytes) option" where
  "take_u64 b = do { (x, r) \<leftarrow> take_n 8 b; Some (un64 x, r) }"

definition put_count :: "nat \<Rightarrow> bytes exec" where
  "put_count n = (if n \<le> 65535 then Some (be16 (of_nat n)) else None)"

fun take_many :: "(bytes \<Rightarrow> ('a \<times> bytes) option) \<Rightarrow> nat \<Rightarrow> bytes \<Rightarrow> ('a list \<times> bytes) option" where
  "take_many p 0 b = Some ([], b)"
| "take_many p (Suc n) b = do { (x, b1) \<leftarrow> p b; (xs, b2) \<leftarrow> take_many p n b1; Some (x # xs, b2) }"

fun put_many :: "('a \<Rightarrow> bytes exec) \<Rightarrow> 'a list \<Rightarrow> bytes exec" where
  "put_many f [] = Some []"
| "put_many f (x # xs) = do { a \<leftarrow> f x; b \<leftarrow> put_many f xs; Some (a @ b) }"

lemma take_n_iff [parse_simps]: "take_n n b = Some (x, r) \<longleftrightarrow> length x = n \<and> b = x @ r"
  by (auto simp: take_n_def)

lemma take_u8_iff [parse_simps]: "take_u8 b = Some (x, r) \<longleftrightarrow> b = x # r"
  by (cases b) auto

lemma take_count_iff [parse_simps]: "take_count b = Some (n, r) \<longleftrightarrow> n \<le> 65535 \<and> b = be16 (of_nat n) @ r"
proof
  assume "take_count b = Some (n, r)"
  then obtain x where x: "length x = 2" "b = x @ r" "n = unat (un16 x)"
    by (auto simp: take_count_def take_n_iff bind_eq_Some_conv)
  then show "n \<le> 65535 \<and> b = be16 (of_nat n) @ r" using unat_u16_less [of "un16 x"] by (simp add: be16_un16)
next
  assume *: "n \<le> 65535 \<and> b = be16 (of_nat n) @ r"
  then have "unat (of_nat n :: u16) = n" by (simp add: unat_of_nat)
  with * show "take_count b = Some (n, r)" by (simp add: take_count_def take_n_def codec_simps)
qed

lemma take_u64_iff [parse_simps]: "take_u64 b = Some (w, r) \<longleftrightarrow> b = be64 w @ r"
proof
  assume "take_u64 b = Some (w, r)"
  then show "b = be64 w @ r" by (auto simp: take_u64_def take_n_iff bind_eq_Some_conv be64_un64)
next
  assume "b = be64 w @ r"
  then show "take_u64 b = Some (w, r)" by (simp add: take_u64_def take_n_def codec_simps)
qed

lemma put_count_iff [parse_simps]: "put_count n = Some e \<longleftrightarrow> n \<le> 65535 \<and> e = be16 (of_nat n)"
  by (auto simp: put_count_def)

text \<open>The contract of a self-delimiting format: the parser accepts exactly the encodings of the
  admissible values and leaves the rest of the buffer.\<close>

locale prefix_codec =
  fixes ok :: "'a \<Rightarrow> bool" and enc :: "'a \<Rightarrow> bytes exec" and dec :: "bytes \<Rightarrow> ('a \<times> bytes) option"
  assumes one_iff: "dec b = Some (x, r) \<longleftrightarrow> ok x \<and> (\<exists>e. enc x = Some e \<and> b = e @ r)"
begin

lemma many_iff: "take_many dec n b = Some (xs, r) \<longleftrightarrow> length xs = n \<and> list_all ok xs \<and> (\<exists>e. put_many enc xs = Some e \<and> b = e @ r)"
proof (induction n arbitrary: b xs)
  case 0
  then show ?case by auto
next
  case (Suc n)
  show ?case
    by (cases xs) (auto simp: bind_eq_Some_conv one_iff Suc)
qed

end

section \<open>Addresses\<close>

datatype SocketAddr =
    SocketV4 bytes u16
  | SocketV6 bytes u16 u32 u32

fun put_addr :: "SocketAddr \<Rightarrow> bytes" where
  "put_addr (SocketV4 ip port) = 4 # ip @ be16 port"
| "put_addr (SocketV6 ip port _ _) = 6 # ip @ be16 port"

definition take_addr :: "bytes \<Rightarrow> (SocketAddr \<times> bytes) option" where
  "take_addr b = do {
     (fam, r) \<leftarrow> take_u8 b;
     if fam = 4 then do { (ip, r1) \<leftarrow> take_n 4 r; (p, r2) \<leftarrow> take_n 2 r1; Some (SocketV4 ip (un16 p), r2) }
     else if fam = 6 then do { (ip, r1) \<leftarrow> take_n 16 r; (p, r2) \<leftarrow> take_n 2 r1; Some (SocketV6 ip (un16 p) 0 0, r2) }
     else None }"

text \<open>The addresses a decoder can produce carry no flow information and no scope.\<close>

fun addr_ok :: "SocketAddr \<Rightarrow> bool" where
  "addr_ok (SocketV4 ip _) \<longleftrightarrow> length ip = 4"
| "addr_ok (SocketV6 ip _ flow scope) \<longleftrightarrow> length ip = 16 \<and> flow = 0 \<and> scope = 0"

lemma be16_iff: "length x = 2 \<and> un16 x = w \<longleftrightarrow> x = be16 w"
  using be16_un16 [of x] by (auto simp: codec_simps)

lemma take_addr_iff [parse_simps]: "take_addr b = Some (a, r) \<longleftrightarrow> addr_ok a \<and> b = put_addr a @ r"
proof
  assume "take_addr b = Some (a, r)"
  then show "addr_ok a \<and> b = put_addr a @ r"
    by (auto simp: take_addr_def bind_eq_Some_conv parse_simps be16_un16 split: if_splits)
next
  assume "addr_ok a \<and> b = put_addr a @ r"
  then show "take_addr b = Some (a, r)"
    by (cases a) (auto simp: take_addr_def take_n_def codec_simps)
qed

interpretation addr_codec: prefix_codec addr_ok "\<lambda>a. Some (put_addr a)" take_addr
  by unfold_locales (auto simp: take_addr_iff)

section \<open>Certificates\<close>

record Cert =
  c_version :: u8
  c_member_pubkey :: bytes
  c_member_sign_pubkey :: bytes
  c_network_id :: bytes
  c_not_before :: u64
  c_not_after :: u64
  c_tags :: "(u8 \<times> bytes) list"
  c_ca_sig :: bytes

datatype CertError = BadSig | Expired | NotYetValid | WrongNetwork | WrongMember

fun put_tag :: "u8 \<times> bytes \<Rightarrow> bytes exec" where
  "put_tag (tag, v) = do { len \<leftarrow> put_count (length v); Some (tag # len @ v) }"

definition cert_signing_body :: "Cert \<Rightarrow> bytes exec" where
  "cert_signing_body c = do {
     count \<leftarrow> put_count (length (c_tags c));
     tags \<leftarrow> put_many put_tag (c_tags c);
     Some (c_version c # c_member_pubkey c @ c_member_sign_pubkey c @ c_network_id c @
           be64 (c_not_before c) @ be64 (c_not_after c) @ count @ tags) }"

definition cert_encode :: "Cert \<Rightarrow> bytes exec" where
  "cert_encode c = do { body \<leftarrow> cert_signing_body c; Some (body @ c_ca_sig c) }"

definition take_tag :: "bytes \<Rightarrow> ((u8 \<times> bytes) \<times> bytes) option" where
  "take_tag b = do { (tag, r) \<leftarrow> take_u8 b; (len, r1) \<leftarrow> take_count r; (v, r2) \<leftarrow> take_n len r1; Some ((tag, v), r2) }"

definition cert_decode :: "bytes \<Rightarrow> Cert option" where
  "cert_decode buf = do {
     (version, r) \<leftarrow> take_u8 buf;
     (member_pubkey, r) \<leftarrow> take_n 32 r;
     (member_sign_pubkey, r) \<leftarrow> take_n 32 r;
     (network_id, r) \<leftarrow> take_n 16 r;
     (not_before, r) \<leftarrow> take_u64 r;
     (not_after, r) \<leftarrow> take_u64 r;
     (tag_count, r) \<leftarrow> take_count r;
     (tags, r) \<leftarrow> take_many take_tag tag_count r;
     (ca_sig, r) \<leftarrow> take_n 64 r;
     if r \<noteq> [] then None
     else Some \<lparr>c_version = version, c_member_pubkey = member_pubkey, c_member_sign_pubkey = member_sign_pubkey,
                c_network_id = network_id, c_not_before = not_before, c_not_after = not_after, c_tags = tags, c_ca_sig = ca_sig\<rparr> }"

definition verify_any :: "(bytes \<Rightarrow> bytes \<Rightarrow> bytes \<Rightarrow> bool) \<Rightarrow> bytes \<Rightarrow> bytes \<Rightarrow> bytes list \<Rightarrow> bool" where
  "verify_any ed body sig_bytes ca_pubkeys = list_ex (\<lambda>pk. ed pk body sig_bytes) ca_pubkeys"

definition verify_cert ::
    "(bytes \<Rightarrow> bytes \<Rightarrow> bytes \<Rightarrow> bool) \<Rightarrow> Cert \<Rightarrow> bytes list \<Rightarrow> bytes \<Rightarrow> bytes \<Rightarrow> nat \<Rightarrow> nat \<Rightarrow> (CertError + unit) exec" where
  "verify_cert ed c ca_pubkeys network_id member_pubkey now skew = do {
     body \<leftarrow> cert_signing_body c;
     Some (if \<not> verify_any ed body (c_ca_sig c) ca_pubkeys then Inl BadSig
           else if c_member_pubkey c \<noteq> member_pubkey then Inl WrongMember
           else if c_network_id c \<noteq> network_id then Inl WrongNetwork
           else if unat (c_not_before c) > sat_add now skew then Inl NotYetValid
           else if now \<ge> sat_add (unat (c_not_after c)) skew then Inl Expired
           else Inr ()) }"

section \<open>Root sets\<close>

record RootSet =
  rs_roots :: "(bytes \<times> SocketAddr) list"
  rs_version :: u64
  rs_ca_sig :: bytes

definition put_root :: "bytes \<times> SocketAddr \<Rightarrow> bytes exec" where
  "put_root r = (case r of (pk, addr) \<Rightarrow> Some (pk @ put_addr addr))"

definition rootset_signing_body :: "RootSet \<Rightarrow> bytes exec" where
  "rootset_signing_body r = do {
     count \<leftarrow> put_count (length (rs_roots r));
     roots \<leftarrow> put_many put_root (rs_roots r);
     Some (be64 (rs_version r) @ count @ roots) }"

definition rootset_encode :: "RootSet \<Rightarrow> bytes exec" where
  "rootset_encode r = do { body \<leftarrow> rootset_signing_body r; Some (body @ rs_ca_sig r) }"

definition take_root :: "bytes \<Rightarrow> ((bytes \<times> SocketAddr) \<times> bytes) option" where
  "take_root b = do { (pk, r) \<leftarrow> take_n 32 b; (addr, r1) \<leftarrow> take_addr r; Some ((pk, addr), r1) }"

definition rootset_decode :: "bytes \<Rightarrow> RootSet option" where
  "rootset_decode buf = do {
     (version, r) \<leftarrow> take_u64 buf;
     (count, r) \<leftarrow> take_count r;
     (roots, r) \<leftarrow> take_many take_root count r;
     (ca_sig, r) \<leftarrow> take_n 64 r;
     if r \<noteq> [] then None else Some \<lparr>rs_roots = roots, rs_version = version, rs_ca_sig = ca_sig\<rparr> }"

definition verify_rootset :: "(bytes \<Rightarrow> bytes \<Rightarrow> bytes \<Rightarrow> bool) \<Rightarrow> RootSet \<Rightarrow> bytes list \<Rightarrow> bool exec" where
  "verify_rootset ed r ca_pubkeys = do { body \<leftarrow> rootset_signing_body r; Some (verify_any ed body (rs_ca_sig r) ca_pubkeys) }"

section \<open>Directory records\<close>

definition node_id :: "(nat \<Rightarrow> bytes \<Rightarrow> bytes) \<Rightarrow> bytes \<Rightarrow> bytes" where
  "node_id b2s pubkey = b2s 16 (map (of_nat \<circ> of_char) ''yip-rdv-v1'' @ pubkey)"

definition node_addr :: "(nat \<Rightarrow> bytes \<Rightarrow> bytes) \<Rightarrow> bytes \<Rightarrow> bytes" where
  "node_addr b2s pubkey = 0xfd # b2s 15 (map (of_nat \<circ> of_char) ''yip-addr-v1'' @ pubkey)"

record Record =
  r_node_id :: bytes
  r_cert :: Cert
  r_endpoints :: "SocketAddr list"
  r_seq :: u64
  r_sig :: bytes

definition record_signing_body :: "Record \<Rightarrow> bytes exec" where
  "record_signing_body r = do {
     cert_bytes \<leftarrow> cert_encode (r_cert r);
     cert_len \<leftarrow> put_count (length cert_bytes);
     endpoint_count \<leftarrow> put_count (length (r_endpoints r));
     endpoints \<leftarrow> put_many (\<lambda>a. Some (put_addr a)) (r_endpoints r);
     Some (r_node_id r @ cert_len @ cert_bytes @ endpoint_count @ endpoints @ be64 (r_seq r)) }"

definition record_encode :: "Record \<Rightarrow> bytes exec" where
  "record_encode r = do { body \<leftarrow> record_signing_body r; Some (body @ r_sig r) }"

definition record_decode :: "bytes \<Rightarrow> Record option" where
  "record_decode buf = do {
     (nid, r) \<leftarrow> take_n 16 buf;
     (cert_len, r) \<leftarrow> take_count r;
     (cert_bytes, r) \<leftarrow> take_n cert_len r;
     cert \<leftarrow> cert_decode cert_bytes;
     (endpoint_count, r) \<leftarrow> take_count r;
     (endpoints, r) \<leftarrow> take_many take_addr endpoint_count r;
     (sequence, r) \<leftarrow> take_u64 r;
     (signature, r) \<leftarrow> take_n 64 r;
     if r \<noteq> [] then None
     else Some \<lparr>r_node_id = nid, r_cert = cert, r_endpoints = endpoints, r_seq = sequence, r_sig = signature\<rparr> }"

definition record_verify ::
    "(bytes \<Rightarrow> bytes \<Rightarrow> bytes \<Rightarrow> bool) \<Rightarrow> (nat \<Rightarrow> bytes \<Rightarrow> bytes) \<Rightarrow> Record \<Rightarrow> bytes list \<Rightarrow> bytes \<Rightarrow> nat \<Rightarrow> nat \<Rightarrow>
     (CertError + unit) exec" where
  "record_verify ed b2s r ca_pubkeys network_id now skew = do {
     v \<leftarrow> verify_cert ed (r_cert r) ca_pubkeys network_id (c_member_pubkey (r_cert r)) now skew;
     case v of
       Inl e \<Rightarrow> Some (Inl e)
     | Inr _ \<Rightarrow> do {
         body \<leftarrow> record_signing_body r;
         Some (if \<not> ed (c_member_sign_pubkey (r_cert r)) body (r_sig r) then Inl BadSig
               else if r_node_id r \<noteq> node_id b2s (c_member_pubkey (r_cert r)) then Inl WrongMember
               else Inr ()) } }"

section \<open>Gossip messages\<close>

datatype GossipMsg =
    Digest "(bytes \<times> u64) list"
  | PullRequest "bytes list"
  | Records "Record list"

definition put_entry :: "bytes \<times> u64 \<Rightarrow> bytes exec" where
  "put_entry e = (case e of (nid, sequence) \<Rightarrow> Some (nid @ be64 sequence))"

definition put_framed :: "Record \<Rightarrow> bytes exec" where
  "put_framed r = do { buf \<leftarrow> record_encode r; len \<leftarrow> put_count (length buf); Some (len @ buf) }"

fun gossip_encode :: "GossipMsg \<Rightarrow> bytes exec" where
  "gossip_encode (Digest entries) = do { count \<leftarrow> put_count (length entries); body \<leftarrow> put_many put_entry entries; Some (0 # count @ body) }"
| "gossip_encode (PullRequest ids) = do { count \<leftarrow> put_count (length ids); body \<leftarrow> put_many Some ids; Some (1 # count @ body) }"
| "gossip_encode (Records recs) = do { count \<leftarrow> put_count (length recs); body \<leftarrow> put_many put_framed recs; Some (2 # count @ body) }"

definition take_entry :: "bytes \<Rightarrow> ((bytes \<times> u64) \<times> bytes) option" where
  "take_entry b = do { (nid, r) \<leftarrow> take_n 16 b; (sequence, r1) \<leftarrow> take_u64 r; Some ((nid, sequence), r1) }"

definition take_framed :: "bytes \<Rightarrow> (Record \<times> bytes) option" where
  "take_framed b = do { (len, r) \<leftarrow> take_count b; (sub, r1) \<leftarrow> take_n len r; rec \<leftarrow> record_decode sub; Some (rec, r1) }"

definition gossip_decode :: "bytes \<Rightarrow> GossipMsg option" where
  "gossip_decode buf = do {
     (tag, rest) \<leftarrow> take_u8 buf;
     if tag = 0 then do {
       (count, r) \<leftarrow> take_count rest; (entries, r) \<leftarrow> take_many take_entry count r; if r \<noteq> [] then None else Some (Digest entries) }
     else if tag = 1 then do {
       (count, r) \<leftarrow> take_count rest; (ids, r) \<leftarrow> take_many (take_n 16) count r; if r \<noteq> [] then None else Some (PullRequest ids) }
     else if tag = 2 then do {
       (count, r) \<leftarrow> take_count rest; (recs, r) \<leftarrow> take_many take_framed count r; if r \<noteq> [] then None else Some (Records recs) }
     else None }"

section \<open>Exactness of the formats\<close>

text \<open>The values the types of the source and the 16-bit counts admit.\<close>

definition cert_ok :: "Cert \<Rightarrow> bool" where
  "cert_ok c \<longleftrightarrow> length (c_member_pubkey c) = 32 \<and> length (c_member_sign_pubkey c) = 32 \<and> length (c_network_id c) = 16 \<and>
     length (c_tags c) \<le> 65535 \<and> list_all (\<lambda>(_, v). length v \<le> 65535) (c_tags c) \<and> length (c_ca_sig c) = 64"

definition rootset_ok :: "RootSet \<Rightarrow> bool" where
  "rootset_ok r \<longleftrightarrow> length (rs_roots r) \<le> 65535 \<and> list_all (\<lambda>(pk, a). length pk = 32 \<and> addr_ok a) (rs_roots r) \<and> length (rs_ca_sig r) = 64"

definition record_ok :: "Record \<Rightarrow> bool" where
  "record_ok r \<longleftrightarrow> length (r_node_id r) = 16 \<and> cert_ok (r_cert r) \<and> length (the (cert_encode (r_cert r))) \<le> 65535 \<and>
     length (r_endpoints r) \<le> 65535 \<and> list_all addr_ok (r_endpoints r) \<and> length (r_sig r) = 64"

definition framed_ok :: "Record \<Rightarrow> bool" where
  "framed_ok r \<longleftrightarrow> record_ok r \<and> length (the (record_encode r)) \<le> 65535"

fun gossip_ok :: "GossipMsg \<Rightarrow> bool" where
  "gossip_ok (Digest entries) \<longleftrightarrow> length entries \<le> 65535 \<and> list_all (\<lambda>(nid, _). length nid = 16) entries"
| "gossip_ok (PullRequest ids) \<longleftrightarrow> length ids \<le> 65535 \<and> list_all (\<lambda>nid. length nid = 16) ids"
| "gossip_ok (Records recs) \<longleftrightarrow> length recs \<le> 65535 \<and> list_all framed_ok recs"

interpretation tag_codec: prefix_codec "\<lambda>(_, v). length v \<le> 65535" put_tag take_tag
proof
  fix b r and x :: "u8 \<times> bytes"
  show "take_tag b = Some (x, r) \<longleftrightarrow> (case x of (_, v) \<Rightarrow> length v \<le> 65535) \<and> (\<exists>e. put_tag x = Some e \<and> b = e @ r)"
    by (cases x) (auto simp: take_tag_def bind_eq_Some_conv parse_simps)
qed

interpretation root_codec: prefix_codec "\<lambda>(pk, a). length pk = 32 \<and> addr_ok a" put_root take_root
proof
  fix b r and x :: "bytes \<times> SocketAddr"
  show "take_root b = Some (x, r) \<longleftrightarrow> (case x of (pk, a) \<Rightarrow> length pk = 32 \<and> addr_ok a) \<and> (\<exists>e. put_root x = Some e \<and> b = e @ r)"
    by (cases x) (auto simp: take_root_def put_root_def bind_eq_Some_conv parse_simps)
qed

interpretation entry_codec: prefix_codec "\<lambda>(nid, _). length nid = 16" put_entry take_entry
proof
  fix b r and x :: "bytes \<times> u64"
  show "take_entry b = Some (x, r) \<longleftrightarrow> (case x of (nid, _) \<Rightarrow> length nid = 16) \<and> (\<exists>e. put_entry x = Some e \<and> b = e @ r)"
    by (cases x) (auto simp: take_entry_def put_entry_def bind_eq_Some_conv parse_simps)
qed

interpretation id_codec: prefix_codec "\<lambda>nid. length nid = 16" Some "take_n 16"
  by unfold_locales (auto simp: parse_simps)

lemma cert_iff: "cert_decode b = Some c \<longleftrightarrow> cert_ok c \<and> cert_encode c = Some b"
  by (cases c) (auto simp: cert_decode_def cert_encode_def cert_signing_body_def cert_ok_def bind_eq_Some_conv parse_simps tag_codec.many_iff split: if_splits)

lemma rootset_iff: "rootset_decode b = Some r \<longleftrightarrow> rootset_ok r \<and> rootset_encode r = Some b"
  by (cases r) (auto simp: rootset_decode_def rootset_encode_def rootset_signing_body_def rootset_ok_def bind_eq_Some_conv parse_simps
      root_codec.many_iff split: if_splits)

lemma record_iff: "record_decode b = Some r \<longleftrightarrow> record_ok r \<and> record_encode r = Some b"
  by (cases r) (auto simp: record_decode_def record_encode_def record_signing_body_def record_ok_def bind_eq_Some_conv parse_simps
      addr_codec.many_iff cert_iff split: if_splits)

interpretation framed_codec: prefix_codec framed_ok put_framed take_framed
  by unfold_locales (auto simp: take_framed_def put_framed_def framed_ok_def bind_eq_Some_conv parse_simps record_iff)

lemma gossip_iff: "gossip_decode b = Some m \<longleftrightarrow> gossip_ok m \<and> gossip_encode m = Some b"
  by (cases m; cases b) (auto simp: gossip_decode_def bind_eq_Some_conv parse_simps entry_codec.many_iff id_codec.many_iff framed_codec.many_iff split: if_splits)

lemma put_many_total: "list_all (\<lambda>x. f x \<noteq> None) xs \<Longrightarrow> put_many f xs \<noteq> None"
  by (induction xs) auto

lemma put_tags_total: "list_all (\<lambda>(_, v). length v \<le> 65535) ts \<Longrightarrow> put_many put_tag ts \<noteq> None"
  by (rule put_many_total) (auto simp: list_all_iff put_count_def)

lemma put_addrs_total: "put_many (\<lambda>a. Some (put_addr a)) xs \<noteq> None"
  by (rule put_many_total) (auto simp: list_all_iff)

lemma cert_body_total: "cert_ok c \<Longrightarrow> \<exists>e. cert_signing_body c = Some e"
  using put_tags_total [of "c_tags c"] by (auto simp: cert_ok_def cert_signing_body_def put_count_def)

lemma cert_encodes: "cert_ok c \<Longrightarrow> \<exists>e. cert_encode c = Some e"
  using cert_body_total [of c] by (auto simp: cert_encode_def)

lemma record_body_total: "record_ok r \<Longrightarrow> \<exists>e. record_signing_body r = Some e"
  using cert_encodes [of "r_cert r"] put_addrs_total [of "r_endpoints r"] by (auto simp: record_ok_def record_signing_body_def put_count_def)

lemma record_encodes: "record_ok r \<Longrightarrow> \<exists>e. record_encode r = Some e"
  using record_body_total [of r] by (auto simp: record_encode_def)

lemma verify_cert_total: "cert_ok c \<Longrightarrow> \<exists>v. verify_cert ed c cas net pk now skew = Some v"
  using cert_body_total [of c] by (auto simp: verify_cert_def)

lemma record_verify_total: "record_ok r \<Longrightarrow> record_verify ed b2s r cas net now skew \<noteq> None"
  using verify_cert_total [of "r_cert r" ed cas net "c_member_pubkey (r_cert r)" now skew] record_body_total [of r]
  by (auto simp: record_verify_def record_ok_def split: sum.splits)

interpretation cert_codec: canonical_codec cert_ok "\<lambda>c. the (cert_encode c)" cert_decode
  using cert_encodes by unfold_locales (auto simp: cert_iff)

interpretation record_codec: canonical_codec record_ok "\<lambda>r. the (record_encode r)" record_decode
  using record_encodes by unfold_locales (auto simp: record_iff)

text \<open>What is signed determines every signed field.\<close>

lemma cert_body_inj:
  assumes "cert_ok c" "cert_ok d" "cert_signing_body c = cert_signing_body d" "c_ca_sig c = c_ca_sig d"
  shows "c = d"
  using assms by (intro cert_codec.enc_inj) (simp_all add: cert_encode_def)

lemma record_body_inj:
  assumes "record_ok r" "record_ok s" "record_signing_body r = record_signing_body s" "r_sig r = r_sig s"
  shows "r = s"
  using assms by (intro record_codec.enc_inj) (simp_all add: record_encode_def)

text \<open>C26: the formats of the mesh are exact. A certificate, root set, record or gossip message is decoded from
  a byte string if and only if it is admissible and the string is its encoding, so that no two byte strings stand for the same
  object and no bytes trail; two admissible records whose signed bytes agree differ at most in the signature, and so do two certificates; verifying a decoded record
  never panics.\<close>

theorem mesh_codecs_exact:
  "(cert_decode b = Some c \<longleftrightarrow> cert_ok c \<and> cert_encode c = Some b) \<and>
   (rootset_decode b = Some rs \<longleftrightarrow> rootset_ok rs \<and> rootset_encode rs = Some b) \<and>
   (record_decode b = Some r \<longleftrightarrow> record_ok r \<and> record_encode r = Some b) \<and>
   (gossip_decode b = Some m \<longleftrightarrow> gossip_ok m \<and> gossip_encode m = Some b) \<and>
   (cert_ok c \<and> cert_ok d \<and> cert_signing_body c = cert_signing_body d \<longrightarrow> d = c\<lparr>c_ca_sig := c_ca_sig d\<rparr>) \<and>
   (record_ok r \<and> record_ok s \<and> record_signing_body r = record_signing_body s \<longrightarrow> s = r\<lparr>r_sig := r_sig s\<rparr>) \<and>
   (record_decode b = Some r \<longrightarrow> record_verify ed b2s r cas net now skew \<noteq> None)"
proof -
  have "d = c\<lparr>c_ca_sig := c_ca_sig d\<rparr>" if "cert_ok c" "cert_ok d" "cert_signing_body c = cert_signing_body d"
    using that by (intro cert_body_inj) (auto simp: cert_ok_def cert_signing_body_def)
  moreover have "s = r\<lparr>r_sig := r_sig s\<rparr>" if "record_ok r" "record_ok s" "record_signing_body r = record_signing_body s"
    using that by (intro record_body_inj) (auto simp: record_ok_def record_signing_body_def)
  ultimately show ?thesis using record_verify_total by (auto simp: cert_iff rootset_iff record_iff gossip_iff)
qed

definition sample_cert :: Cert where
  "sample_cert = \<lparr>c_version = 1, c_member_pubkey = replicate 32 3, c_member_sign_pubkey = replicate 32 4, c_network_id = replicate 16 7,
     c_not_before = 100, c_not_after = 200, c_tags = [(1, [10, 11])], c_ca_sig = replicate 64 0\<rparr>"

definition sample_record :: Record where
  "sample_record = \<lparr>r_node_id = replicate 16 9, r_cert = sample_cert, r_endpoints = [SocketV4 [10, 0, 0, 1] 51820], r_seq = 6, r_sig = replicate 64 1\<rparr>"

lemma sample_cert_ok: "cert_ok sample_cert"
  by (simp add: cert_ok_def sample_cert_def)

lemma sample_record_ok: "record_ok sample_record"
proof -
  have "length (the (cert_encode sample_cert)) = 168"
    by (simp add: cert_encode_def cert_signing_body_def sample_cert_def put_count_def codec_simps)
  then show ?thesis using sample_cert_ok by (simp add: record_ok_def sample_record_def)
qed

theorem mesh_codecs_exact_witness:
  "\<exists>b. record_encode sample_record = Some b \<and> record_decode b = Some sample_record \<and>
     record_verify (\<lambda>_ _ _. True) (\<lambda>_ _. []) sample_record [] [] 150 300 \<noteq> None"
proof -
  obtain b where b: "record_encode sample_record = Some b" using record_encodes [OF sample_record_ok] ..
  have "record_decode b = Some sample_record" "record_decode b = Some sample_record \<longrightarrow> record_verify (\<lambda>_ _ _. True) (\<lambda>_ _. []) sample_record [] [] 150 300 \<noteq> None"
    using mesh_codecs_exact [of b sample_cert undefined sample_record undefined sample_cert sample_record "\<lambda>_ _ _. True" "\<lambda>_ _. []" "[]" "[]" 150 300]
      b sample_record_ok by blast+
  with b show ?thesis by blast
qed

end
