(* ===== verification/Mesh_Directory.thy ===== *)
theory Mesh_Directory
  imports Mesh_Codec Daemon_Base
begin

text \<open>
  The member directory of \<^verbatim>\<open>bin/yipd/src/membership.rs\<close>: the verified records every node gossips, the index by mesh
  address, and the anti-entropy protocol. The environment carries Ed25519 and BLAKE2s, the
  configured clock skew and the iteration order of the hash map, which its library does not specify.
  A record that cannot be encoded makes its verification panic, so the operations are partial.
\<close>

section \<open>State\<close>

record mesh_env =
  me_ed :: "bytes \<Rightarrow> bytes \<Rightarrow> bytes \<Rightarrow> bool"
  me_sign :: "bytes \<Rightarrow> bytes \<Rightarrow> bytes"
  me_b2s :: "nat \<Rightarrow> bytes \<Rightarrow> bytes"
  me_skew :: nat
  me_iter :: "(bytes \<rightharpoonup> Record) \<Rightarrow> bytes list"

definition GOSSIP_INTERVAL_MS :: nat where "GOSSIP_INTERVAL_MS = 5000"

definition MAX_GOSSIP_RECORDS_PER_REPLY :: nat where "MAX_GOSSIP_RECORDS_PER_REPLY = 32"

definition MAX_GOSSIP_DIGEST_ENTRIES :: nat where "MAX_GOSSIP_DIGEST_ENTRIES = 40"

definition INITIAL_SEQ :: u64 where "INITIAL_SEQ = 0"

record MemberInfo =
  mi_pubkey :: bytes
  mi_endpoints :: "SocketAddr list"

record Membership =
  m_directory :: "bytes \<rightharpoonup> Record"
  m_by_addr :: "bytes \<rightharpoonup> bytes"
  m_ca_pubkeys :: "bytes list"
  m_network_id :: bytes
  m_roots :: RootSet
  m_own_node_id :: bytes
  m_own_cert :: Cert
  m_own_endpoints :: "SocketAddr list"
  m_sign_priv :: bytes
  m_last_digest_ms :: "nat option"
  m_digest_ms :: nat

definition build_signed_record :: "mesh_env \<Rightarrow> Cert \<Rightarrow> SocketAddr list \<Rightarrow> u64 \<Rightarrow> bytes \<Rightarrow> Record exec" where
  "build_signed_record E cert endpoints sequence sign_priv = do {
     let r = \<lparr>r_node_id = node_id (me_b2s E) (c_member_pubkey cert), r_cert = cert, r_endpoints = endpoints, r_seq = sequence,
              r_sig = replicate 64 0\<rparr>;
     body \<leftarrow> record_signing_body r;
     Some (r\<lparr>r_sig := me_sign E sign_priv body\<rparr>) }"

section \<open>Indices\<close>

definition insert_record :: "mesh_env \<Rightarrow> Record \<Rightarrow> Membership \<Rightarrow> Membership" where
  "insert_record E rec m =
     m\<lparr>m_by_addr := (m_by_addr m)(node_addr (me_b2s E) (c_member_pubkey (r_cert rec)) \<mapsto> r_node_id rec),
       m_directory := (m_directory m)(r_node_id rec \<mapsto> rec)\<rparr>"

definition insert_if_newer :: "mesh_env \<Rightarrow> Record \<Rightarrow> Membership \<Rightarrow> bool \<times> Membership" where
  "insert_if_newer E rec m =
     (case m_directory m (r_node_id rec) of
        Some existing \<Rightarrow> if r_seq rec \<le> r_seq existing then (False, m) else (True, insert_record E rec m)
      | None \<Rightarrow> (True, insert_record E rec m))"

definition evict :: "mesh_env \<Rightarrow> bytes \<Rightarrow> Membership \<Rightarrow> bool \<times> Membership" where
  "evict E nid m =
     (case m_directory m nid of
        Some rec \<Rightarrow>
          (True, m\<lparr>m_directory := (m_directory m)(nid := None),
                   m_by_addr := (m_by_addr m)(node_addr (me_b2s E) (c_member_pubkey (r_cert rec)) := None)\<rparr>)
      | None \<Rightarrow> (False, m))"

fun expired_ids :: "mesh_env \<Rightarrow> nat \<Rightarrow> Membership \<Rightarrow> bytes list \<Rightarrow> bytes list exec" where
  "expired_ids E now m [] = Some []"
| "expired_ids E now m (nid # ids) =
     (case m_directory m nid of
        None \<Rightarrow> expired_ids E now m ids
      | Some rec \<Rightarrow>
          if nid = m_own_node_id m then expired_ids E now m ids
          else do {
            v \<leftarrow> verify_cert (me_ed E) (r_cert rec) (m_ca_pubkeys m) (m_network_id m) (c_member_pubkey (r_cert rec)) now (me_skew E);
            rest \<leftarrow> expired_ids E now m ids;
            Some (case v of Inl _ \<Rightarrow> nid # rest | Inr _ \<Rightarrow> rest) })"

definition sweep_expired :: "mesh_env \<Rightarrow> nat \<Rightarrow> Membership \<Rightarrow> (bool \<times> Membership) exec" where
  "sweep_expired E now m = do {
     gone \<leftarrow> expired_ids E now m (me_iter E (m_directory m));
     Some (foldl (\<lambda>(changed, m) nid. case evict E nid m of (e, m') \<Rightarrow> (changed \<or> e, m')) (False, m) gone) }"

section \<open>Own record\<close>

definition membership_new ::
    "mesh_env \<Rightarrow> bytes list \<Rightarrow> bytes \<Rightarrow> Cert \<Rightarrow> bytes \<Rightarrow> RootSet \<Rightarrow> SocketAddr list \<Rightarrow> Membership exec" where
  "membership_new E ca_pubkeys network own_cert own_sign_priv roots own_endpoints = do {
     own_record \<leftarrow> build_signed_record E own_cert own_endpoints INITIAL_SEQ own_sign_priv;
     Some (insert_record E own_record
       \<lparr>m_directory = Map.empty, m_by_addr = Map.empty, m_ca_pubkeys = ca_pubkeys, m_network_id = network, m_roots = roots,
        m_own_node_id = node_id (me_b2s E) (c_member_pubkey own_cert), m_own_cert = own_cert, m_own_endpoints = own_endpoints,
        m_sign_priv = own_sign_priv, m_last_digest_ms = None, m_digest_ms = GOSSIP_INTERVAL_MS\<rparr>) }"

definition sat_succ :: "u64 \<Rightarrow> u64" where
  "sat_succ w = (if w = -1 then w else w + 1)"

definition update_own_cert :: "mesh_env \<Rightarrow> Cert \<Rightarrow> Membership \<Rightarrow> (Record \<times> Membership) exec" where
  "update_own_cert E new_cert m = do {
     let m1 = m\<lparr>m_own_cert := new_cert\<rparr>;
     let next_seq = (case m_directory m1 (m_own_node_id m1) of Some r \<Rightarrow> sat_succ (r_seq r) | None \<Rightarrow> INITIAL_SEQ);
     rec \<leftarrow> build_signed_record E new_cert (m_own_endpoints m1) next_seq (m_sign_priv m1);
     Some (rec, insert_record E rec m1) }"

definition sign_registration :: "mesh_env \<Rightarrow> u64 \<Rightarrow> Membership \<Rightarrow> Record exec" where
  "sign_registration E sequence m = build_signed_record E (m_own_cert m) (m_own_endpoints m) sequence (m_sign_priv m)"

record RegistrationSigner =
  sr_own_cert :: Cert
  sr_own_endpoints :: "SocketAddr list"
  sr_sign_priv :: bytes

definition registration_signer :: "Membership \<Rightarrow> RegistrationSigner" where
  "registration_signer m = \<lparr>sr_own_cert = m_own_cert m, sr_own_endpoints = m_own_endpoints m, sr_sign_priv = m_sign_priv m\<rparr>"

definition signer_sign :: "mesh_env \<Rightarrow> u64 \<Rightarrow> RegistrationSigner \<Rightarrow> Record exec" where
  "signer_sign E sequence s = build_signed_record E (sr_own_cert s) (sr_own_endpoints s) sequence (sr_sign_priv s)"

definition own_cert_bytes :: "Membership \<Rightarrow> bytes exec" where
  "own_cert_bytes m = cert_encode (m_own_cert m)"

section \<open>Verification and lookup\<close>

definition trust_anchors :: "Membership \<Rightarrow> bytes list" where
  "trust_anchors m = foldl (\<lambda>cas (pk, _). if pk \<in> set cas then cas else cas @ [pk]) (m_ca_pubkeys m) (rs_roots (m_roots m))"

definition verify_record :: "mesh_env \<Rightarrow> Record \<Rightarrow> nat \<Rightarrow> Membership \<Rightarrow> bool exec" where
  "verify_record E r now m = do {
     v \<leftarrow> record_verify (me_ed E) (me_b2s E) r (trust_anchors m) (m_network_id m) now (me_skew E);
     Some (\<not> isl v) }"

definition member_verify_cert :: "mesh_env \<Rightarrow> Cert \<Rightarrow> bytes \<Rightarrow> nat \<Rightarrow> Membership \<Rightarrow> bool exec" where
  "member_verify_cert E cert static_key now m = do {
     v \<leftarrow> verify_cert (me_ed E) cert (m_ca_pubkeys m) (m_network_id m) static_key now (me_skew E);
     Some (\<not> isl v) }"

definition resolve :: "bytes \<Rightarrow> Membership \<Rightarrow> MemberInfo option" where
  "resolve addr m = do {
     nid \<leftarrow> m_by_addr m addr;
     rec \<leftarrow> m_directory m nid;
     Some \<lparr>mi_pubkey = c_member_pubkey (r_cert rec), mi_endpoints = r_endpoints rec\<rparr> }"

definition member_or_admitted_cert_valid :: "mesh_env \<Rightarrow> bytes \<Rightarrow> nat option \<Rightarrow> nat \<Rightarrow> Membership \<Rightarrow> bool exec" where
  "member_or_admitted_cert_valid E pubkey admitted_not_after now m =
     (if list_ex (\<lambda>(pk, _). pk = pubkey) (rs_roots (m_roots m)) then Some True
      else case m_directory m (node_id (me_b2s E) pubkey) of
             Some rec \<Rightarrow> member_verify_cert E (r_cert rec) pubkey now m
           | None \<Rightarrow> Some (case admitted_not_after of Some not_after \<Rightarrow> now \<le> sat_add not_after (me_skew E) | None \<Rightarrow> False))"

definition member_cert_valid :: "mesh_env \<Rightarrow> bytes \<Rightarrow> nat \<Rightarrow> Membership \<Rightarrow> bool exec" where
  "member_cert_valid E pubkey now m = member_or_admitted_cert_valid E pubkey None now m"

section \<open>Anti-entropy\<close>

definition ingest_record :: "mesh_env \<Rightarrow> Record \<Rightarrow> nat \<Rightarrow> Membership \<Rightarrow> (bool \<times> Membership) exec" where
  "ingest_record E rec now m = do {
     (changed, m1) \<leftarrow> sweep_expired E now m;
     v \<leftarrow> verify_record E rec now m1;
     Some (if v then case insert_if_newer E rec m1 of (c, m2) \<Rightarrow> (changed \<or> c, m2) else (changed, m1)) }"

function chunks :: "nat \<Rightarrow> 'a list \<Rightarrow> 'a list list" where
  "chunks n xs = (if n = 0 \<or> xs = [] then [] else take n xs # chunks n (drop n xs))"
  by pat_completeness auto
termination by (relation "measure (\<lambda>(n, xs). length xs)") auto

declare chunks.simps [simp del]

fun ingest_all :: "mesh_env \<Rightarrow> nat \<Rightarrow> Record list \<Rightarrow> Membership \<Rightarrow> Membership exec" where
  "ingest_all E now [] m = Some m"
| "ingest_all E now (r # rs) m = do { (_, m1) \<leftarrow> ingest_record E r now m; ingest_all E now rs m1 }"

definition have_enough :: "bytes \<Rightarrow> u64 \<Rightarrow> Membership \<Rightarrow> bool" where
  "have_enough nid sequence m = (case m_directory m nid of Some existing \<Rightarrow> r_seq existing \<ge> sequence | None \<Rightarrow> False)"

fun on_gossip :: "mesh_env \<Rightarrow> GossipMsg \<Rightarrow> nat \<Rightarrow> Membership \<Rightarrow> (GossipMsg list \<times> Membership) exec" where
  "on_gossip E (Digest entries) now m =
     (let want = map fst (filter (\<lambda>(nid, sequence). \<not> have_enough nid sequence m) entries)
      in Some (if want = [] then [] else [PullRequest want], m))"
| "on_gossip E (PullRequest ids) now m =
     (let recs = List.map_filter (m_directory m) ids
      in Some (map Records (chunks MAX_GOSSIP_RECORDS_PER_REPLY recs), m))"
| "on_gossip E (Records recs) now m = map_option (\<lambda>m1. ([], m1)) (ingest_all E now recs m)"

definition digest_entries :: "mesh_env \<Rightarrow> Membership \<Rightarrow> (bytes \<times> u64) list" where
  "digest_entries E m = List.map_filter (\<lambda>nid. map_option (\<lambda>r. (nid, r_seq r)) (m_directory m nid)) (me_iter E (m_directory m))"

definition tick_digest :: "mesh_env \<Rightarrow> nat \<Rightarrow> nat \<Rightarrow> bool \<Rightarrow> Membership \<Rightarrow> GossipMsg list \<times> Membership" where
  "tick_digest E v now_ms obf_on m =
     (if (case m_last_digest_ms m of Some t \<Rightarrow> now_ms - t < m_digest_ms m | None \<Rightarrow> False) then ([], m)
      else (map Digest (chunks MAX_GOSSIP_DIGEST_ENTRIES (digest_entries E m)),
            m\<lparr>m_last_digest_ms := Some now_ms,
              m_digest_ms := (if obf_on then jitter_ms v GOSSIP_INTERVAL_MS else GOSSIP_INTERVAL_MS)\<rparr>))"

section \<open>Sweeping\<close>

definition cert_valid :: "mesh_env \<Rightarrow> nat \<Rightarrow> Membership \<Rightarrow> Record \<Rightarrow> bool" where
  "cert_valid E now m r \<longleftrightarrow>
     verify_cert (me_ed E) (r_cert r) (m_ca_pubkeys m) (m_network_id m) (c_member_pubkey (r_cert r)) now (me_skew E) = Some (Inr ())"

definition expired_at :: "mesh_env \<Rightarrow> nat \<Rightarrow> Membership \<Rightarrow> bytes \<Rightarrow> bool" where
  "expired_at E now m nid \<longleftrightarrow> (\<exists>r. m_directory m nid = Some r \<and> nid \<noteq> m_own_node_id m \<and> \<not> cert_valid E now m r)"

definition swept :: "mesh_env \<Rightarrow> (bytes \<Rightarrow> bool) \<Rightarrow> Membership \<Rightarrow> Membership" where
  "swept E gone m = m\<lparr>m_directory := (\<lambda>nid. if gone nid then None else m_directory m nid),
     m_by_addr := (\<lambda>a. if \<exists>nid r. gone nid \<and> m_directory m nid = Some r \<and> node_addr (me_b2s E) (c_member_pubkey (r_cert r)) = a
                       then None else m_by_addr m a)\<rparr>"

text \<open>What holds of every record: it has an encoding and is filed under the identifier it carries, which is that of its key.\<close>

definition dir_ok :: "mesh_env \<Rightarrow> Membership \<Rightarrow> bool" where
  "dir_ok E m \<longleftrightarrow> finite (dom (m_directory m)) \<and>
     (\<forall>nid r. m_directory m nid = Some r \<longrightarrow>
        framed_ok r \<and> r_node_id r = nid \<and> nid = node_id (me_b2s E) (c_member_pubkey (r_cert r)))"

definition iter_ok :: "mesh_env \<Rightarrow> bool" where
  "iter_ok E \<longleftrightarrow> (\<forall>d. finite (dom d) \<longrightarrow> distinct (me_iter E d) \<and> set (me_iter E d) = dom d)"

lemma framed_cert_ok: "framed_ok r \<Longrightarrow> cert_ok (r_cert r)" "framed_ok r \<Longrightarrow> record_ok r"
  by (simp_all add: framed_ok_def record_ok_def)

lemma expired_ids_eq:
  assumes "dir_ok E m"
  shows "expired_ids E now m ids = Some (filter (expired_at E now m) ids)"
proof (induction ids)
  case (Cons nid ids)
  show ?case
  proof (cases "m_directory m nid")
    case (Some r)
    then have "cert_ok (r_cert r)" using assms by (auto simp: dir_ok_def framed_cert_ok)
    then obtain v where "verify_cert (me_ed E) (r_cert r) (m_ca_pubkeys m) (m_network_id m) (c_member_pubkey (r_cert r)) now (me_skew E) = Some v"
      using verify_cert_total by blast
    then show ?thesis using Some Cons by (cases v) (auto simp: expired_at_def cert_valid_def)
  qed (simp add: Cons expired_at_def)
qed simp

lemma evict_swept: "\<exists>b. evict E nid m = (b, swept E (\<lambda>k. k = nid) m)"
proof (cases "m_directory m nid")
  case None
  then have "swept E (\<lambda>k. k = nid) m = m" by (cases m) (auto simp: swept_def fun_eq_iff)
  then show ?thesis using None by (intro exI [of _ False]) (simp add: evict_def)
next
  case (Some r)
  then show ?thesis by (auto simp: evict_def swept_def fun_eq_iff)
qed

lemma swept_swept: "swept E p (swept E q m) = swept E (\<lambda>k. p k \<or> q k) m"
  by (cases m) (auto simp: swept_def fun_eq_iff)

lemma evict_all: "\<exists>c. foldl (\<lambda>(changed, m) nid. case evict E nid m of (e, m') \<Rightarrow> (changed \<or> e, m')) (b, m) gone = (c, swept E (\<lambda>k. k \<in> set gone) m)"
proof (induction gone arbitrary: b m)
  case Nil
  have "swept E (\<lambda>k. k \<in> set []) m = m" by (cases m) (simp add: swept_def)
  then show ?case by simp
next
  case (Cons nid gone)
  obtain e where e: "evict E nid m = (e, swept E (\<lambda>k. k = nid) m)" using evict_swept by blast
  have "(\<lambda>k. k \<in> set gone \<or> k = nid) = (\<lambda>k. k \<in> set (nid # gone))" by auto
  then show ?case using Cons [of "b \<or> e" "swept E (\<lambda>k. k = nid) m"] by (simp add: e swept_swept)
qed

lemma sweep_expired_eq:
  assumes "dir_ok E m" "iter_ok E"
  shows "\<exists>c. sweep_expired E now m = Some (c, swept E (expired_at E now m) m)"
proof -
  have "(\<lambda>k. k \<in> set (filter (expired_at E now m) (me_iter E (m_directory m)))) = expired_at E now m"
    using assms by (auto simp: iter_ok_def dir_ok_def expired_at_def fun_eq_iff)
  then show ?thesis
    using evict_all [of E False m "filter (expired_at E now m) (me_iter E (m_directory m))"] by (simp add: sweep_expired_def expired_ids_eq [OF assms(1)])
qed

lemma dir_ok_swept: "dir_ok E m \<Longrightarrow> dir_ok E (swept E p m)"
proof -
  assume a: "dir_ok E m"
  have "dom (m_directory (swept E p m)) \<subseteq> dom (m_directory m)" by (auto simp: swept_def split: if_splits)
  then show ?thesis using a by (auto simp: dir_ok_def swept_def intro: finite_subset split: if_splits)
qed

lemma dir_ok_insert: "dir_ok E m \<Longrightarrow> framed_ok r \<Longrightarrow> r_node_id r = node_id (me_b2s E) (c_member_pubkey (r_cert r)) \<Longrightarrow> dir_ok E (insert_record E r m)"
  by (auto simp: dir_ok_def insert_record_def)

section \<open>Ingesting\<close>

lemma record_verify_Inr:
  assumes "record_verify ed b2s r cas net now skew = Some (Inr ())"
  shows "verify_cert ed (r_cert r) cas net (c_member_pubkey (r_cert r)) now skew = Some (Inr ())"
    "r_node_id r = node_id b2s (c_member_pubkey (r_cert r))" "\<exists>body. record_signing_body r = Some body \<and> ed (c_member_sign_pubkey (r_cert r)) body (r_sig r)"
proof -
  obtain v where v: "verify_cert ed (r_cert r) cas net (c_member_pubkey (r_cert r)) now skew = Some v"
    using assms by (auto simp: record_verify_def bind_eq_Some_conv)
  then obtain u where u: "v = Inr u" using assms by (cases v) (simp_all add: record_verify_def)
  then show "verify_cert ed (r_cert r) cas net (c_member_pubkey (r_cert r)) now skew = Some (Inr ())" using v by simp
  show "r_node_id r = node_id b2s (c_member_pubkey (r_cert r))" "\<exists>body. record_signing_body r = Some body \<and> ed (c_member_sign_pubkey (r_cert r)) body (r_sig r)"
    using assms v u by (auto simp: record_verify_def bind_eq_Some_conv split: if_splits)
qed

lemma verify_recordD:
  assumes "verify_record E r now m = Some True"
  shows "record_verify (me_ed E) (me_b2s E) r (trust_anchors m) (m_network_id m) now (me_skew E) = Some (Inr ())"
  using assms by (auto simp: verify_record_def bind_eq_Some_conv isl_def) (metis old.unit.exhaust sum.exhaust_sel)

text \<open>The operations never touch the trust anchors.\<close>

definition same_config :: "Membership \<Rightarrow> Membership \<Rightarrow> bool" where
  "same_config m m' \<longleftrightarrow> m_ca_pubkeys m' = m_ca_pubkeys m \<and> m_network_id m' = m_network_id m \<and> m_roots m' = m_roots m \<and>
     m_own_node_id m' = m_own_node_id m"

lemma same_config_simps [simp]: "same_config m m" "same_config m (swept E p m)" "same_config m (insert_record E r m)"
  by (simp_all add: same_config_def swept_def insert_record_def)

lemma same_config_trans: "same_config a b \<Longrightarrow> same_config b c \<Longrightarrow> same_config a c"
  by (simp add: same_config_def)

lemma same_config_cong:
  assumes "same_config m m'"
  shows "trust_anchors m' = trust_anchors m" "cert_valid E now m' r = cert_valid E now m r" "verify_record E r now m' = verify_record E r now m"
  using assms by (simp_all add: same_config_def trust_anchors_def cert_valid_def verify_record_def)

lemma insert_if_newer_eq:
  "snd (insert_if_newer E r m) = (if (\<forall>x. m_directory m (r_node_id r) = Some x \<longrightarrow> r_seq x < r_seq r) then insert_record E r m else m)"
  by (auto simp: insert_if_newer_def not_le split: option.splits)

lemma ingest_eq:
  assumes "dir_ok E m" "iter_ok E" "framed_ok r"
  shows "\<exists>c m'. ingest_record E r now m = Some (c, m') \<and> dir_ok E m' \<and> same_config m m' \<and>
    m' = (let m1 = swept E (expired_at E now m) m
          in if verify_record E r now m = Some True \<and> (\<forall>x. m_directory m1 (r_node_id r) = Some x \<longrightarrow> r_seq x < r_seq r) then insert_record E r m1 else m1)"
proof -
  let ?m1 = "swept E (expired_at E now m) m"
  obtain c where c: "sweep_expired E now m = Some (c, ?m1)" using sweep_expired_eq [OF assms(1,2)] by blast
  obtain v where v: "verify_record E r now m = Some v"
    using record_verify_total [OF framed_cert_ok(2) [OF assms(3)], of "me_ed E" "me_b2s E" "trust_anchors m" "m_network_id m" now "me_skew E"]
    by (auto simp: verify_record_def)
  have v1: "verify_record E r now ?m1 = Some v" using v same_config_cong(3) [of m ?m1] by simp
  have ok: "dir_ok E ?m1" by (rule dir_ok_swept [OF assms(1)])
  have ins: "v \<Longrightarrow> dir_ok E (insert_record E r ?m1)"
    using dir_ok_insert [OF ok assms(3)] record_verify_Inr(2) [OF verify_recordD [of E r now m]] v by simp
  have sc: "same_config m (insert_record E r ?m1)" by (rule same_config_trans [of m ?m1]) simp_all
  show ?thesis
    using c v v1 ok ins sc insert_if_newer_eq [of E r ?m1] by (cases v; cases "insert_if_newer E r ?m1") (auto simp: ingest_record_def Let_def)
qed

lemma swept_directory [simp]: "m_directory (swept E p m) nid = (if p nid then None else m_directory m nid)"
  by (simp add: swept_def)

definition kept :: "mesh_env \<Rightarrow> nat \<Rightarrow> Membership \<Rightarrow> bytes \<Rightarrow> Record \<Rightarrow> bool" where
  "kept E now m nid r \<longleftrightarrow> nid = m_own_node_id m \<or> cert_valid E now m r"

lemma kept_not_expired: "m_directory m nid = Some r \<Longrightarrow> kept E now m nid r \<Longrightarrow> \<not> expired_at E now m nid"
  by (auto simp: kept_def expired_at_def)

lemma kept_config: "same_config m m' \<Longrightarrow> kept E now m' nid r = kept E now m nid r"
  using same_config_cong(2) [of m m'] by (simp add: kept_def same_config_def)

lemma ingest_directory:
  assumes "dir_ok E m" "iter_ok E" "framed_ok r" "ingest_record E r now m = Some (c, m')"
  shows "m_directory m' nid =
    (if nid = r_node_id r \<and> verify_record E r now m = Some True \<and>
        (\<forall>x. \<not> expired_at E now m nid \<longrightarrow> m_directory m nid = Some x \<longrightarrow> r_seq x < r_seq r) then Some r
     else if expired_at E now m nid then None else m_directory m nid)"
  using ingest_eq [OF assms(1-3), of now] assms(4) by (auto simp: Let_def insert_record_def)

lemma ingest_all_total:
  assumes "dir_ok E m" "iter_ok E" "list_all framed_ok rs"
  shows "\<exists>m'. ingest_all E now rs m = Some m' \<and> dir_ok E m' \<and> same_config m m'"
  using assms(1,3)
proof (induction rs arbitrary: m)
  case (Cons r rs)
  obtain c m1 where m1: "ingest_record E r now m = Some (c, m1)" "dir_ok E m1" "same_config m m1"
    using ingest_eq [OF Cons(2) assms(2)] Cons(3) by fastforce
  obtain m2 where "ingest_all E now rs m1 = Some m2" "dir_ok E m2" "same_config m1 m2" using Cons(1) [OF m1(2)] Cons(3) by auto
  then show ?case using m1 same_config_trans by auto
qed simp

lemma ingest_all_step:
  assumes "dir_ok E m" "iter_ok E" "list_all framed_ok (r # rs)" "ingest_all E now (r # rs) m = Some m'"
  obtains c m1 where "ingest_record E r now m = Some (c, m1)" "ingest_all E now rs m1 = Some m'" "dir_ok E m1" "same_config m m1" "framed_ok r" "list_all framed_ok rs"
  using assms ingest_eq [OF assms(1,2), of r now] by fastforce

lemma ingest_keeps:
  assumes "dir_ok E m" "iter_ok E" "list_all framed_ok rs" "ingest_all E now rs m = Some m'"
    and "m_directory m nid = Some x" "kept E now m nid x" "\<forall>r \<in> set rs. r_node_id r = nid \<longrightarrow> r_seq r \<le> r_seq x"
  shows "m_directory m' nid = Some x"
  using assms(1,3-)
proof (induction rs arbitrary: m)
  case (Cons r rs)
  obtain c m1 where m1: "ingest_record E r now m = Some (c, m1)" "ingest_all E now rs m1 = Some m'" "dir_ok E m1" "same_config m m1" "framed_ok r" "list_all framed_ok rs"
    using ingest_all_step [OF Cons(2) assms(2) Cons(3,4)] .
  have "m_directory m1 nid = Some x"
    using ingest_directory [OF Cons(2) assms(2) m1(5,1), of nid] Cons(5,7) kept_not_expired [OF Cons(5,6)] by auto
  then show ?case using Cons(1) [OF m1(3,6,2)] Cons(6,7) kept_config [OF m1(4)] by simp
qed simp

lemma ingest_gets:
  assumes "dir_ok E m" "iter_ok E" "list_all framed_ok rs" "ingest_all E now rs m = Some m'"
    and "r \<in> set rs" "r_node_id r = nid" "\<forall>x \<in> set rs. r_node_id x = nid \<longrightarrow> x = r"
    and "verify_record E r now m = Some True" "cert_valid E now m r" "\<forall>x. m_directory m nid = Some x \<longrightarrow> r_seq x < r_seq r"
  shows "m_directory m' nid = Some r"
  using assms(1,3-)
proof (induction rs arbitrary: m)
  case (Cons y rs)
  obtain c m1 where m1: "ingest_record E y now m = Some (c, m1)" "ingest_all E now rs m1 = Some m'" "dir_ok E m1" "same_config m m1" "framed_ok y" "list_all framed_ok rs"
    using ingest_all_step [OF Cons(2) assms(2) Cons(3,4)] .
  note d = ingest_directory [OF Cons(2) assms(2) m1(5,1), of nid]
  note sc = same_config_cong(2) [OF m1(4), of E now r] same_config_cong(3) [OF m1(4), of E r now]
  show ?case
  proof (cases "y = r")
    case True
    then have "m_directory m1 nid = Some r" using d Cons(6,8,10) by auto
    then show ?thesis using ingest_keeps [OF m1(3) assms(2) m1(6,2)] Cons(7,9) sc by (auto simp: kept_def)
  next
    case False
    then have y: "r_node_id y \<noteq> nid" "r \<in> set rs" using Cons(5,7) by auto
    have "\<forall>x \<in> set rs. r_node_id x = nid \<longrightarrow> x = r" using Cons(7) by simp
    moreover have "verify_record E r now m1 = Some True" "cert_valid E now m1 r" using sc Cons(8,9) by simp_all
    moreover have "\<forall>x. m_directory m1 nid = Some x \<longrightarrow> r_seq x < r_seq r" using d Cons(10) y(1) by (auto split: if_splits)
    ultimately show ?thesis by (rule Cons(1) [OF m1(3,6,2) y(2) Cons(6)])
  qed
qed simp

lemma ingest_only:
  assumes "dir_ok E m" "iter_ok E" "list_all framed_ok rs" "ingest_all E now rs m = Some m'" "m_directory m' nid = Some x"
  shows "m_directory m nid = Some x \<or> (x \<in> set rs \<and> verify_record E x now m = Some True)"
  using assms(1,3-)
proof (induction rs arbitrary: m)
  case (Cons y rs)
  obtain c m1 where m1: "ingest_record E y now m = Some (c, m1)" "ingest_all E now rs m1 = Some m'" "dir_ok E m1" "same_config m m1" "framed_ok y" "list_all framed_ok rs"
    using ingest_all_step [OF Cons(2) assms(2) Cons(3,4)] .
  from Cons(1) [OF m1(3,6,2) Cons(5)] show ?case
    using ingest_directory [OF Cons(2) assms(2) m1(5,1), of nid] same_config_cong(3) [OF m1(4), of E x now] by (auto split: if_splits)
qed simp

section \<open>One round of anti-entropy\<close>

text \<open>A message as the other node decodes it, and a node that answers a sequence of messages.\<close>

definition transmit :: "GossipMsg \<Rightarrow> GossipMsg option" where
  "transmit msg = do { b \<leftarrow> gossip_encode msg; gossip_decode b }"

fun serve :: "mesh_env \<Rightarrow> nat \<Rightarrow> GossipMsg list \<Rightarrow> Membership \<Rightarrow> (GossipMsg list \<times> Membership) exec" where
  "serve E now [] m = Some ([], m)"
| "serve E now (g # gs) m = do {
     msg \<leftarrow> transmit g;
     (out, m1) \<leftarrow> on_gossip E msg now m;
     (outs, m2) \<leftarrow> serve E now gs m1;
     Some (out @ outs, m2) }"

definition sync :: "mesh_env \<Rightarrow> mesh_env \<Rightarrow> nat \<Rightarrow> nat \<Rightarrow> bool \<Rightarrow> nat \<Rightarrow> Membership \<Rightarrow> Membership \<Rightarrow> (GossipMsg list \<times> Membership \<times> Membership) exec" where
  "sync EA EB v now_ms obf_on now a b = do {
     let (digests, a1) = tick_digest EA v now_ms obf_on a;
     (pulls, b1) \<leftarrow> serve EB now digests b;
     (replies, a2) \<leftarrow> serve EA now pulls a1;
     (_, b2) \<leftarrow> serve EB now replies b1;
     Some (pulls, a2, b2) }"

lemma transmit_ok: "gossip_ok g \<Longrightarrow> transmit g = Some g"
proof -
  assume g: "gossip_ok g"
  have "gossip_encode g \<noteq> None"
  proof (cases g)
    case (Digest es)
    have "put_many put_entry es \<noteq> None" by (rule put_many_total) (auto simp: list_all_iff put_entry_def)
    then show ?thesis using g Digest by (auto simp: put_count_def)
  next
    case (PullRequest ids)
    have "put_many Some ids \<noteq> None" by (rule put_many_total) (auto simp: list_all_iff)
    then show ?thesis using g PullRequest by (auto simp: put_count_def)
  next
    case (Records recs)
    have "put_framed r \<noteq> None" if "r \<in> set recs" for r
      using that g Records record_encodes [of r] by (auto simp: put_framed_def framed_ok_def list_all_iff put_count_def)
    then have "put_many put_framed recs \<noteq> None" by (intro put_many_total) (auto simp: list_all_iff)
    then show ?thesis using g Records by (auto simp: put_count_def)
  qed
  then show ?thesis using g gossip_iff [of _ g] by (auto simp: transmit_def)
qed

lemma concat_chunks: "0 < n \<Longrightarrow> concat (chunks n xs) = xs"
  by (induction n xs rule: chunks.induct) (subst chunks.simps, auto)

lemma chunks_bounded: "c \<in> set (chunks n xs) \<Longrightarrow> length c \<le> n \<and> set c \<subseteq> set xs"
proof (induction n xs rule: chunks.induct)
  case (1 n xs)
  then show ?case by (subst (asm) (2) chunks.simps) (auto split: if_splits dest: in_set_takeD in_set_dropD)
qed

lemma serve_digests:
  assumes "\<forall>d \<in> set ds. gossip_ok (Digest d)"
  shows "\<exists>pulls. serve E now (map Digest ds) m = Some (map PullRequest pulls, m) \<and>
    concat pulls = map fst (filter (\<lambda>(nid, sequence). \<not> have_enough nid sequence m) (concat ds)) \<and>
    (\<forall>p \<in> set pulls. p \<noteq> [] \<and> (\<exists>d \<in> set ds. length p \<le> length d))"
  using assms
proof (induction ds)
  case (Cons d ds)
  let ?w = "map fst (filter (\<lambda>(nid, sequence). \<not> have_enough nid sequence m) d)"
  obtain pulls where p: "serve E now (map Digest ds) m = Some (map PullRequest pulls, m)"
    "concat pulls = map fst (filter (\<lambda>(nid, sequence). \<not> have_enough nid sequence m) (concat ds))"
    "\<forall>p \<in> set pulls. p \<noteq> [] \<and> (\<exists>d \<in> set ds. length p \<le> length d)" using Cons by auto
  have "length ?w \<le> length d" by simp
  then show ?case using p Cons(2) by (intro exI [of _ "(if ?w = [] then [] else [?w]) @ pulls"]) (auto simp: transmit_ok Let_def)
qed simp

lemma serve_pulls:
  assumes "\<forall>p \<in> set ps. gossip_ok (PullRequest p)"
  shows "serve E now (map PullRequest ps) m =
    Some (concat (map (\<lambda>p. map Records (chunks MAX_GOSSIP_RECORDS_PER_REPLY (List.map_filter (m_directory m) p))) ps), m)"
  using assms by (induction ps) (auto simp: transmit_ok Let_def)

lemma serve_records:
  assumes "dir_ok E m" "iter_ok E" "\<forall>r \<in> set rs. gossip_ok (Records r)"
  shows "\<exists>m'. serve E now (map Records rs) m = Some ([], m') \<and> ingest_all E now (concat rs) m = Some m' \<and> dir_ok E m' \<and> same_config m m'"
  using assms(1,3)
proof (induction rs arbitrary: m)
  case (Cons r rs)
  obtain m1 where m1: "ingest_all E now r m = Some m1" "dir_ok E m1" "same_config m m1"
    using ingest_all_total [OF Cons(2) assms(2), of r] Cons(3) by auto
  obtain m2 where m2: "serve E now (map Records rs) m1 = Some ([], m2)" "ingest_all E now (concat rs) m1 = Some m2" "dir_ok E m2" "same_config m1 m2"
    using Cons(1) [OF m1(2)] Cons(3) by auto
  have "ingest_all E now (r @ s) m = Option.bind (ingest_all E now r m) (ingest_all E now s)" for s
  proof (induction r arbitrary: m)
    case (Cons x r)
    then show ?case by (cases "ingest_record E x now m") auto
  qed simp
  then show ?case using m1 m2 Cons(3) same_config_trans by (auto simp: transmit_ok)
qed simp

definition newer :: "Record option \<Rightarrow> Record option \<Rightarrow> Record option" where
  "newer x y = (case x of None \<Rightarrow> y | Some r \<Rightarrow> (case y of None \<Rightarrow> x | Some q \<Rightarrow> if r_seq q < r_seq r then x else y))"

lemma trust_anchors_ca: "set (m_ca_pubkeys m) \<subseteq> set (trust_anchors m)"
proof -
  have "set cas \<subseteq> set (foldl (\<lambda>cas (pk, _). if pk \<in> set cas then cas else cas @ [pk]) cas rs)" for cas and rs :: "(bytes \<times> SocketAddr) list"
  proof (induction rs arbitrary: cas)
    case (Cons r rs)
    obtain pk ad where "r = (pk, ad)" by (cases r)
    then show ?case using Cons [of "cas @ [pk]"] Cons [of cas] by simp
  qed simp
  then show ?thesis by (simp add: trust_anchors_def)
qed

lemma record_verify_mono:
  assumes "record_verify ed b2s r cas net now skew = Some (Inr ())" "set cas \<subseteq> set cas'"
  shows "record_verify ed b2s r cas' net now skew = Some (Inr ())"
proof -
  have "verify_cert ed (r_cert r) cas' net (c_member_pubkey (r_cert r)) now skew = Some (Inr ())"
    using record_verify_Inr(1) [OF assms(1)] assms(2) by (auto simp: verify_cert_def verify_any_def list_ex_iff bind_eq_Some_conv split: if_splits)
  then show ?thesis using assms(1) record_verify_Inr(1) [OF assms(1)] by (simp add: record_verify_def)
qed

lemma set_map_filter_dir: "set (List.map_filter f xs) = {y. \<exists>x \<in> set xs. f x = Some y}"
proof (induction xs)
  case (Cons x xs)
  then show ?case by (cases "f x") (auto simp: map_filter_simps)
qed (simp add: map_filter_simps)

lemma digest_entries_set:
  assumes "dir_ok E m" "iter_ok E"
  shows "set (digest_entries E m) = {(nid, r_seq r) | nid r. m_directory m nid = Some r}"
proof -
  have "set (me_iter E (m_directory m)) = dom (m_directory m)" using assms by (simp add: dir_ok_def iter_ok_def)
  then show ?thesis unfolding digest_entries_def set_map_filter_dir by auto
qed

lemma dir_ok_nid: "dir_ok E m \<Longrightarrow> m_directory m nid = Some r \<Longrightarrow> length nid = 16 \<and> framed_ok r \<and> r_node_id r = nid"
  by (auto simp: dir_ok_def framed_ok_def record_ok_def)

lemma digest_ok:
  assumes "dir_ok E m" "iter_ok E" "d \<in> set (chunks MAX_GOSSIP_DIGEST_ENTRIES (digest_entries E m))"
  shows "gossip_ok (Digest d)" "length d \<le> 40"
proof -
  from chunks_bounded [OF assms(3)] have d: "length d \<le> 40" "set d \<subseteq> set (digest_entries E m)" by (simp_all add: MAX_GOSSIP_DIGEST_ENTRIES_def)
  then show "length d \<le> 40" by simp
  have "length nid = 16" if "(nid, q) \<in> set d" for nid q
    using that d(2) digest_entries_set [OF assms(1,2)] dir_ok_nid [OF assms(1)] by auto
  then show "gossip_ok (Digest d)" using d(1) by (auto simp: list_all_iff)
qed

lemma wanted_set:
  assumes "dir_ok E m" "iter_ok E"
  shows "set (map fst (filter (\<lambda>(nid, sequence). \<not> have_enough nid sequence b) (digest_entries E m))) =
    {nid. \<exists>r. m_directory m nid = Some r \<and> \<not> have_enough nid (r_seq r) b}"
proof -
  have "set (map fst (filter (\<lambda>(nid, sequence). \<not> have_enough nid sequence b) (digest_entries E m))) =
      fst ` {e \<in> {(nid, r_seq r) | nid r. m_directory m nid = Some r}. case e of (nid, sequence) \<Rightarrow> \<not> have_enough nid sequence b}"
    by (simp only: set_map set_filter digest_entries_set [OF assms])
  also have "\<dots> = {nid. \<exists>r. m_directory m nid = Some r \<and> \<not> have_enough nid (r_seq r) b}" by (force simp: image_iff)
  finally show ?thesis .
qed

lemma reply_ok:
  assumes "dir_ok E m" "recs \<in> set (chunks MAX_GOSSIP_RECORDS_PER_REPLY (List.map_filter (m_directory m) ids))"
  shows "gossip_ok (Records recs)"
proof -
  from chunks_bounded [OF assms(2)] have d: "length recs \<le> 32" "set recs \<subseteq> set (List.map_filter (m_directory m) ids)"
    by (simp_all add: MAX_GOSSIP_RECORDS_PER_REPLY_def)
  have "framed_ok r" if "r \<in> set recs" for r
  proof -
    from that d(2) obtain nid where "m_directory m nid = Some r" unfolding set_map_filter_dir by blast
    then show ?thesis using dir_ok_nid [OF assms(1)] by blast
  qed
  then show ?thesis using d(1) by (simp add: list_all_iff)
qed

lemma serve_round:
  assumes "dir_ok EA a" "iter_ok EA" "m_directory a1 = m_directory a"
  shows "\<exists>pulls recs. serve EB now (map Digest (chunks MAX_GOSSIP_DIGEST_ENTRIES (digest_entries EA a))) b = Some (map PullRequest pulls, b) \<and>
    serve EA now (map PullRequest pulls) a1 = Some (map Records recs, a1) \<and> (\<forall>r \<in> set recs. gossip_ok (Records r)) \<and>
    set (concat recs) = {r. \<exists>nid. m_directory a nid = Some r \<and> \<not> have_enough nid (r_seq r) b} \<and>
    (pulls = [] \<longleftrightarrow> (\<forall>nid r. m_directory a nid = Some r \<longrightarrow> have_enough nid (r_seq r) b))"
proof -
  let ?ds = "chunks MAX_GOSSIP_DIGEST_ENTRIES (digest_entries EA a)"
  let ?groups = "\<lambda>pulls. concat (map (\<lambda>p. chunks MAX_GOSSIP_RECORDS_PER_REPLY (List.map_filter (m_directory a) p)) pulls)"
  have "\<forall>d \<in> set ?ds. gossip_ok (Digest d)" using digest_ok(1) [OF assms(1,2)] by blast
  from serve_digests [OF this, of EB now b] obtain pulls where p: "serve EB now (map Digest ?ds) b = Some (map PullRequest pulls, b)"
    "concat pulls = map fst (filter (\<lambda>(nid, sequence). \<not> have_enough nid sequence b) (concat ?ds))"
    "\<forall>p \<in> set pulls. p \<noteq> [] \<and> (\<exists>d \<in> set ?ds. length p \<le> length d)" by (elim exE conjE)
  have "0 < MAX_GOSSIP_DIGEST_ENTRIES" "0 < MAX_GOSSIP_RECORDS_PER_REPLY" by (simp_all add: MAX_GOSSIP_DIGEST_ENTRIES_def MAX_GOSSIP_RECORDS_PER_REPLY_def)
  note cc = this [THEN concat_chunks]
  have w: "set (concat pulls) = {nid. \<exists>r. m_directory a nid = Some r \<and> \<not> have_enough nid (r_seq r) b}"
    unfolding p(2) cc(1) by (rule wanted_set [OF assms(1,2)])
  have "gossip_ok (PullRequest p)" if "p \<in> set pulls" for p
  proof -
    obtain d where "d \<in> set ?ds" "length p \<le> length d" using p(3) \<open>p \<in> set pulls\<close> by blast
    then have "length p \<le> 40" using digest_ok(2) [OF assms(1,2)] by (meson order_trans)
    moreover have "length nid = 16" if "nid \<in> set p" for nid
    proof -
      have "nid \<in> set (concat pulls)" using that \<open>p \<in> set pulls\<close> by auto
      then show ?thesis unfolding w using dir_ok_nid [OF assms(1)] by blast
    qed
    ultimately show ?thesis by (simp add: list_all_iff)
  qed
  then have s: "serve EA now (map PullRequest pulls) a1 = Some (map Records (?groups pulls), a1)"
    using serve_pulls [of pulls EA now a1] assms(3) by (simp add: map_concat comp_def)
  have "concat (?groups pulls) = List.map_filter (m_directory a) (concat pulls)"
    by (induction pulls) (simp_all add: cc map_filter_def)
  then have "set (concat (?groups pulls)) = {r. \<exists>nid \<in> set (concat pulls). m_directory a nid = Some r}" by (simp only: set_map_filter_dir)
  then have set: "set (concat (?groups pulls)) = {r. \<exists>nid. m_directory a nid = Some r \<and> \<not> have_enough nid (r_seq r) b}" unfolding w by auto
  have "\<forall>r \<in> set (?groups pulls). gossip_ok (Records r)" using reply_ok [OF assms(1)] by auto
  moreover have "pulls = [] \<longleftrightarrow> set (concat pulls) = {}" using p(3) by (cases pulls) auto
  then have "pulls = [] \<longleftrightarrow> (\<forall>nid r. m_directory a nid = Some r \<longrightarrow> have_enough nid (r_seq r) b)" unfolding w by auto
  ultimately show ?thesis using p(1) s set by (intro exI [of _ pulls] exI [of _ "?groups pulls"]) simp
qed

end
