(* ===== verification/Mesh_Gossip.thy ===== *)
theory Mesh_Gossip
  imports Mesh_Directory "HOL-Library.List_Lexorder"
begin

text \<open>
  What gossip achieves: a round of anti-entropy makes one directory the join of two, no message
  puts an unverified record into a directory, and the index by address stays in step with it.
\<close>

section \<open>Reachable directories\<close>

inductive dir_reach :: "mesh_env \<Rightarrow> Membership \<Rightarrow> bool" for E where
  start: "membership_new E cas net cert priv roots eps = Some m \<Longrightarrow> (\<And>nid r. m_directory m nid = Some r \<Longrightarrow> framed_ok r) \<Longrightarrow> dir_reach E m"
| gossip: "dir_reach E m \<Longrightarrow> gossip_ok g \<Longrightarrow> on_gossip E g now m = Some (out, m') \<Longrightarrow> dir_reach E m'"
| learn: "dir_reach E m \<Longrightarrow> framed_ok r \<Longrightarrow> ingest_record E r now m = Some (c, m') \<Longrightarrow> dir_reach E m'"
| renew: "dir_reach E m \<Longrightarrow> c_member_pubkey cert = c_member_pubkey (m_own_cert m) \<Longrightarrow> update_own_cert E cert m = Some (r, m') \<Longrightarrow>
    framed_ok r \<Longrightarrow> dir_reach E m'"
| tick: "dir_reach E m \<Longrightarrow> tick_digest E v now_ms obf_on m = (gs, m') \<Longrightarrow> dir_reach E m'"

text \<open>The keys of the records that passed verification in the course of a run, the own key among them.\<close>

fun gossip_records :: "GossipMsg \<Rightarrow> Record list" where
  "gossip_records (Records rs) = rs"
| "gossip_records _ = []"

definition admitted_keys :: "mesh_env \<Rightarrow> Record list \<Rightarrow> nat \<Rightarrow> Membership \<Rightarrow> bytes set" where
  "admitted_keys E rs now m = (\<lambda>r. c_member_pubkey (r_cert r)) ` set (filter (\<lambda>r. verify_record E r now m = Some True) rs)"

inductive dir_run :: "mesh_env \<Rightarrow> bytes set \<Rightarrow> Membership \<Rightarrow> bool" for E where
  start: "membership_new E cas net cert priv roots eps = Some m \<Longrightarrow> (\<And>nid r. m_directory m nid = Some r \<Longrightarrow> framed_ok r) \<Longrightarrow>
    dir_run E {c_member_pubkey cert} m"
| gossip: "dir_run E K m \<Longrightarrow> gossip_ok g \<Longrightarrow> on_gossip E g now m = Some (out, m') \<Longrightarrow> dir_run E (K \<union> admitted_keys E (gossip_records g) now m) m'"
| learn: "dir_run E K m \<Longrightarrow> framed_ok r \<Longrightarrow> ingest_record E r now m = Some (c, m') \<Longrightarrow> dir_run E (K \<union> admitted_keys E [r] now m) m'"
| renew: "dir_run E K m \<Longrightarrow> c_member_pubkey cert = c_member_pubkey (m_own_cert m) \<Longrightarrow> update_own_cert E cert m = Some (r, m') \<Longrightarrow>
    framed_ok r \<Longrightarrow> dir_run E K m'"
| tick: "dir_run E K m \<Longrightarrow> tick_digest E v now_ms obf_on m = (gs, m') \<Longrightarrow> dir_run E K m'"

lemma dir_reach_run: "dir_reach E m \<longleftrightarrow> (\<exists>K. dir_run E K m)"
proof
  show "dir_reach E m \<Longrightarrow> \<exists>K. dir_run E K m"
    by (induction rule: dir_reach.induct) (metis dir_run.start, (metis dir_run.gossip, metis dir_run.learn, metis dir_run.renew, metis dir_run.tick))
next
  assume "\<exists>K. dir_run E K m"
  then obtain K where "dir_run E K m" ..
  then show "dir_reach E m"
    by (induction rule: dir_run.induct) (metis dir_reach.start, (metis dir_reach.gossip, metis dir_reach.learn, metis dir_reach.renew, metis dir_reach.tick))
qed

text \<open>Every record but the own one was verified when it came in.\<close>

definition authentic :: "mesh_env \<Rightarrow> Membership \<Rightarrow> bool" where
  "authentic E m \<longleftrightarrow> (\<forall>nid r. m_directory m nid = Some r \<longrightarrow> nid \<noteq> m_own_node_id m \<longrightarrow> (\<exists>t. verify_record E r t m = Some True))"

text \<open>No two of the keys \<open>K\<close> share the truncated hash that is their identifier or the one in their address.\<close>

definition distinct_ids :: "mesh_env \<Rightarrow> bytes set \<Rightarrow> bool" where
  "distinct_ids E K \<longleftrightarrow> inj_on (node_id (me_b2s E)) K \<and> inj_on (node_addr (me_b2s E)) K"

definition index_ok :: "mesh_env \<Rightarrow> bytes set \<Rightarrow> Membership \<Rightarrow> bool" where
  "index_ok E K m \<longleftrightarrow> (\<forall>nid r. m_directory m nid = Some r \<longrightarrow> c_member_pubkey (r_cert r) \<in> K) \<and>
     (\<forall>a nid. m_by_addr m a = Some nid \<longleftrightarrow> (\<exists>r. m_directory m nid = Some r \<and> node_addr (me_b2s E) (c_member_pubkey (r_cert r)) = a))"

definition own_ok :: "mesh_env \<Rightarrow> Membership \<Rightarrow> bool" where
  "own_ok E m \<longleftrightarrow> m_own_node_id m = node_id (me_b2s E) (c_member_pubkey (m_own_cert m)) \<and> m_directory m (m_own_node_id m) \<noteq> None"

text \<open>The steps by which a directory changes.\<close>

lemma index_ok_insert:
  assumes "index_ok E K m" "dir_ok E m" "distinct_ids E K" "r_node_id r = node_id (me_b2s E) (c_member_pubkey (r_cert r))" "c_member_pubkey (r_cert r) \<in> K"
  shows "index_ok E K (insert_record E r m)"
proof -
  have same: "c_member_pubkey (r_cert x) = c_member_pubkey (r_cert r) \<longleftrightarrow> nid = r_node_id r"
    "node_addr (me_b2s E) (c_member_pubkey (r_cert x)) = node_addr (me_b2s E) (c_member_pubkey (r_cert r)) \<longleftrightarrow> nid = r_node_id r"
    if "m_directory m nid = Some x" for nid x
  proof -
    have k: "c_member_pubkey (r_cert x) \<in> K" "nid = node_id (me_b2s E) (c_member_pubkey (r_cert x))"
      using that assms(1,2) by (auto simp: index_ok_def dir_ok_def)
    show "c_member_pubkey (r_cert x) = c_member_pubkey (r_cert r) \<longleftrightarrow> nid = r_node_id r"
      using k assms(3-5) by (auto simp: distinct_ids_def dest: inj_onD)
    then show "node_addr (me_b2s E) (c_member_pubkey (r_cert x)) = node_addr (me_b2s E) (c_member_pubkey (r_cert r)) \<longleftrightarrow> nid = r_node_id r"
      using k assms(3,5) by (auto simp: distinct_ids_def dest: inj_onD)
  qed
  have "(m_by_addr (insert_record E r m) a = Some nid) \<longleftrightarrow>
      (\<exists>x. m_directory (insert_record E r m) nid = Some x \<and> node_addr (me_b2s E) (c_member_pubkey (r_cert x)) = a)" for a nid
    using assms(1) same(2) by (auto simp: insert_record_def index_ok_def)
  then show ?thesis using assms(1,5) by (auto simp: index_ok_def insert_record_def)
qed

lemma index_ok_swept:
  assumes "index_ok E K m" "dir_ok E m" "distinct_ids E K"
  shows "index_ok E K (swept E p m)"
proof -
  have same: "nid = nid'" if "m_directory m nid = Some x" "m_directory m nid' = Some y"
      "node_addr (me_b2s E) (c_member_pubkey (r_cert x)) = node_addr (me_b2s E) (c_member_pubkey (r_cert y))" for nid nid' x y
  proof -
    have "c_member_pubkey (r_cert x) = c_member_pubkey (r_cert y)"
      using that assms(1,3) by (auto simp: index_ok_def distinct_ids_def dest: inj_onD)
    then show ?thesis using that assms(2) unfolding dir_ok_def by metis
  qed
  have "(m_by_addr (swept E p m) a = Some nid) \<longleftrightarrow> (\<exists>x. m_directory (swept E p m) nid = Some x \<and> node_addr (me_b2s E) (c_member_pubkey (r_cert x)) = a)" for a nid
    using assms(1) same by (auto simp: swept_def index_ok_def)
  then show ?thesis using assms(1) by (auto simp: index_ok_def split: if_splits)
qed

text \<open>What the handlers of remote input keep, for the keys \<open>A\<close> of the records that are verified on the way.\<close>

definition mesh_step :: "mesh_env \<Rightarrow> bytes set \<Rightarrow> Membership \<Rightarrow> Membership \<Rightarrow> bool" where
  "mesh_step E A m m' \<longleftrightarrow> dir_ok E m' \<and> same_config m m' \<and> m_own_cert m' = m_own_cert m \<and>
     (authentic E m \<longrightarrow> authentic E m') \<and> (own_ok E m \<longrightarrow> own_ok E m') \<and>
     (\<forall>K. A \<subseteq> K \<longrightarrow> distinct_ids E K \<longrightarrow> index_ok E K m \<longrightarrow> index_ok E K m')"

lemma index_ok_mono: "index_ok E K m \<Longrightarrow> K \<subseteq> L \<Longrightarrow> index_ok E L m"
  unfolding index_ok_def by blast

lemma distinct_ids_mono: "distinct_ids E L \<Longrightarrow> K \<subseteq> L \<Longrightarrow> distinct_ids E K"
  unfolding distinct_ids_def by (blast intro: inj_on_subset)

lemma ingest_mesh_step:
  assumes "dir_ok E m" "iter_ok E" "framed_ok r" "ingest_record E r now m = Some (c, m')"
  shows "mesh_step E (admitted_keys E [r] now m) m m'"
proof -
  let ?m1 = "swept E (expired_at E now m) m"
  let ?ins = "verify_record E r now m = Some True \<and> (\<forall>x. m_directory ?m1 (r_node_id r) = Some x \<longrightarrow> r_seq x < r_seq r)"
  have m': "m' = (if ?ins then insert_record E r ?m1 else ?m1)" and ok: "dir_ok E m'" and sc: "same_config m m'"
  proof -
    obtain c2 m2 where "ingest_record E r now m = Some (c2, m2)" "dir_ok E m2" "same_config m m2" "m2 = (if ?ins then insert_record E r ?m1 else ?m1)"
      using ingest_eq [OF assms(1-3), of now] unfolding Let_def by blast
    then show "m' = (if ?ins then insert_record E r ?m1 else ?m1)" "dir_ok E m'" "same_config m m'" using assms(4) by simp_all
  qed
  note d = ingest_directory [OF assms]
  have own: "m_own_cert m' = m_own_cert m" "m_own_node_id m' = m_own_node_id m" unfolding m' by (simp_all add: insert_record_def swept_def)
  have "authentic E m'" if "authentic E m"
    using that own(2) d same_config_cong(3) [OF sc] by (auto simp: authentic_def split: if_splits)
  moreover have "own_ok E m'" if "own_ok E m"
    using that own d [of "m_own_node_id m"] by (auto simp: own_ok_def expired_at_def)
  moreover have "index_ok E K m'" if K: "admitted_keys E [r] now m \<subseteq> K" "distinct_ids E K" "index_ok E K m" for K
  proof -
    have 1: "index_ok E K ?m1" by (rule index_ok_swept [OF K(3) assms(1) K(2)])
    have "index_ok E K (insert_record E r ?m1)" if "?ins"
      using index_ok_insert [OF 1 dir_ok_swept [OF assms(1)] K(2)] record_verify_Inr(2) [OF verify_recordD [of E r now m]] that K(1)
      by (simp add: admitted_keys_def)
    then show ?thesis using 1 unfolding m' by simp
  qed
  ultimately show ?thesis using ok sc own(1) unfolding mesh_step_def by blast
qed

lemma mesh_step_refl: "dir_ok E m \<Longrightarrow> mesh_step E {} m m"
  by (simp add: mesh_step_def)

lemma mesh_step_trans:
  assumes "mesh_step E A a b" "mesh_step E B b c"
  shows "mesh_step E (A \<union> B) a c"
  using assms same_config_trans [of a b c] unfolding mesh_step_def by simp

lemma admitted_keys_Cons: "same_config m m' \<Longrightarrow> admitted_keys E (r # rs) now m = admitted_keys E [r] now m \<union> admitted_keys E rs now m'"
  using same_config_cong(3) [of m m'] by (auto simp: admitted_keys_def)

lemma ingest_all_mesh_step:
  assumes "dir_ok E m" "iter_ok E" "list_all framed_ok rs" "ingest_all E now rs m = Some m'"
  shows "mesh_step E (admitted_keys E rs now m) m m'"
  using assms(1,3,4)
proof (induction rs arbitrary: m)
  case Nil
  then show ?case by (simp add: mesh_step_refl admitted_keys_def)
next
  case (Cons r rs)
  obtain c m1 where m1: "ingest_record E r now m = Some (c, m1)" "ingest_all E now rs m1 = Some m'" "dir_ok E m1" "framed_ok r" "list_all framed_ok rs"
    using ingest_all_step [OF Cons(2) assms(2) Cons(3,4)] by metis
  note step = ingest_mesh_step [OF Cons(2) assms(2) m1(4,1)]
  then have sc: "same_config m m1" by (simp add: mesh_step_def)
  from mesh_step_trans [OF step Cons(1) [OF m1(3,5,2)]] show ?case using admitted_keys_Cons [OF sc, of E r rs now] by simp
qed

lemma on_gossip_step:
  assumes "dir_ok E m" "iter_ok E" "gossip_ok g"
  shows "\<exists>out m'. on_gossip E g now m = Some (out, m') \<and> mesh_step E (admitted_keys E (gossip_records g) now m) m m'"
proof (cases g)
  case (Records recs)
  then have "list_all framed_ok recs" using assms(3) by simp
  then obtain m' where "ingest_all E now recs m = Some m'" "mesh_step E (admitted_keys E recs now m) m m'"
    using ingest_all_total [OF assms(1,2)] ingest_all_mesh_step [OF assms(1,2)] by blast
  then show ?thesis using Records by simp
qed (use assms(1) mesh_step_refl in \<open>simp_all add: Let_def admitted_keys_def\<close>)

lemma build_signed_record_facts:
  "build_signed_record E cert eps q priv = Some r \<Longrightarrow> r_node_id r = node_id (me_b2s E) (c_member_pubkey cert) \<and> r_cert r = cert"
  by (auto simp: build_signed_record_def Let_def bind_eq_Some_conv)

lemma dir_run_step:
  assumes "mesh_step E A m m'" "dir_ok E m \<and> authentic E m \<and> own_ok E m \<and> c_member_pubkey (m_own_cert m) \<in> K \<and> (distinct_ids E K \<longrightarrow> index_ok E K m)"
  shows "dir_ok E m' \<and> authentic E m' \<and> own_ok E m' \<and> c_member_pubkey (m_own_cert m') \<in> K \<union> A \<and>
    (distinct_ids E (K \<union> A) \<longrightarrow> index_ok E (K \<union> A) m')"
  using assms index_ok_mono [of E K m "K \<union> A"] distinct_ids_mono [of E "K \<union> A" K] unfolding mesh_step_def by auto

lemma dir_run_inv:
  assumes "dir_run E K m" "iter_ok E"
  shows "dir_ok E m \<and> authentic E m \<and> own_ok E m \<and> c_member_pubkey (m_own_cert m) \<in> K \<and> (distinct_ids E K \<longrightarrow> index_ok E K m)"
  using assms(1)
proof induction
  case (start cas net cert priv roots eps m)
  then obtain r where r: "build_signed_record E cert eps INITIAL_SEQ priv = Some r"
    "m = insert_record E r \<lparr>m_directory = Map.empty, m_by_addr = Map.empty, m_ca_pubkeys = cas, m_network_id = net, m_roots = roots,
        m_own_node_id = node_id (me_b2s E) (c_member_pubkey cert), m_own_cert = cert, m_own_endpoints = eps,
        m_sign_priv = priv, m_last_digest_ms = None, m_digest_ms = GOSSIP_INTERVAL_MS\<rparr>"
    by (auto simp: membership_new_def bind_eq_Some_conv)
  note f = build_signed_record_facts [OF r(1)]
  have "framed_ok r" using start(2) [of "r_node_id r" r] r(2) by (simp add: insert_record_def)
  then show ?case using f r(2)
    by (auto simp: dir_ok_def authentic_def own_ok_def index_ok_def insert_record_def)
next
  case (gossip K m g now out m')
  then have "mesh_step E (admitted_keys E (gossip_records g) now m) m m'" using on_gossip_step [of E m g now] assms(2) by auto
  then show ?case by (rule dir_run_step [OF _ gossip(4)])
next
  case (learn K m r now c m')
  then have "mesh_step E (admitted_keys E [r] now m) m m'" using ingest_mesh_step assms(2) by blast
  then show ?case by (rule dir_run_step [OF _ learn(4)])
next
  case (renew K m cert r m')
  let ?m1 = "m\<lparr>m_own_cert := cert\<rparr>"
  obtain q where "build_signed_record E cert (m_own_endpoints m) q (m_sign_priv m) = Some r" and m': "m' = insert_record E r ?m1"
    using renew(3) by (auto simp: update_own_cert_def Let_def bind_eq_Some_conv)
  note f = build_signed_record_facts [OF this(1)]
  have own: "r_node_id r = m_own_node_id m" using f renew(2,5) by (simp add: own_ok_def)
  have ok: "dir_ok E ?m1" using renew(5) by (simp add: dir_ok_def)
  have "dir_ok E m'" unfolding m' using dir_ok_insert [OF ok renew(4)] f by simp
  moreover have "authentic E m'" using renew(5) own unfolding m' by (auto simp: authentic_def insert_record_def verify_record_def trust_anchors_def)
  moreover have "own_ok E m'" using renew(2,5) own unfolding m' by (simp add: own_ok_def insert_record_def)
  moreover have key: "c_member_pubkey cert \<in> K" "m_own_cert m' = cert" using renew(2,5) by (simp_all add: m' insert_record_def)
  moreover have "index_ok E K m'" if "distinct_ids E K"
  proof -
    have "index_ok E K ?m1" using renew(5) that by (simp add: index_ok_def)
    from index_ok_insert [OF this ok that] f key(1) show ?thesis unfolding m' by simp
  qed
  ultimately show ?case by simp
next
  case (tick K m v now_ms obf_on gs m')
  then have "m_directory m' = m_directory m" "m_by_addr m' = m_by_addr m" "m_own_cert m' = m_own_cert m" "same_config m m'"
    by (auto simp: tick_digest_def same_config_def split: if_splits)
  then show ?case using tick(3) same_config_cong(3) [of m m' E]
    by (auto simp: dir_ok_def authentic_def own_ok_def index_ok_def same_config_def)
qed

lemma dir_reach_inv:
  assumes "dir_reach E m" "iter_ok E"
  shows "dir_ok E m \<and> authentic E m \<and> own_ok E m"
  using assms dir_run_inv unfolding dir_reach_run by blast

section \<open>Convergence\<close>

definition digest_due :: "nat \<Rightarrow> Membership \<Rightarrow> bool" where
  "digest_due now_ms m \<longleftrightarrow> (case m_last_digest_ms m of Some t \<Rightarrow> m_digest_ms m \<le> now_ms - t | None \<Rightarrow> True)"

definition verified_for :: "mesh_env \<Rightarrow> nat \<Rightarrow> Membership \<Rightarrow> Record \<Rightarrow> bool" where
  "verified_for E now m r \<longleftrightarrow> record_verify (me_ed E) (me_b2s E) r (m_ca_pubkeys m) (m_network_id m) now (me_skew E) = Some (Inr ())"

definition all_verified :: "mesh_env \<Rightarrow> nat \<Rightarrow> Membership \<Rightarrow> (bytes \<rightharpoonup> Record) \<Rightarrow> bool" where
  "all_verified E now m d \<longleftrightarrow> (\<forall>nid r. d nid = Some r \<longrightarrow> verified_for E now m r)"

definition all_kept :: "mesh_env \<Rightarrow> nat \<Rightarrow> Membership \<Rightarrow> bool" where
  "all_kept E now m \<longleftrightarrow> (\<forall>nid r. m_directory m nid = Some r \<longrightarrow> kept E now m nid r)"

lemma verified_for_facts:
  assumes "verified_for E now m r"
  shows "verify_record E r now m = Some True" "cert_valid E now m r"
  using record_verify_mono [OF assms [unfolded verified_for_def] trust_anchors_ca [of m]] record_verify_Inr(1) [OF assms [unfolded verified_for_def]]
  by (simp_all add: verify_record_def cert_valid_def)

lemma tick_digest_due:
  assumes "digest_due now_ms m"
  shows "\<exists>m'. tick_digest E v now_ms obf_on m = (map Digest (chunks MAX_GOSSIP_DIGEST_ENTRIES (digest_entries E m)), m') \<and>
    m_directory m' = m_directory m"
  using assms by (auto simp: tick_digest_def digest_due_def split: option.splits)

lemma sync_round:
  assumes "dir_ok EA a" "dir_ok EB b" "iter_ok EA" "iter_ok EB" "digest_due now_ms a"
    and ver: "all_verified EB now b (m_directory a)" and kept: "all_kept EB now b"
  shows "\<exists>pulls a' b'. sync EA EB v now_ms obf_on now a b = Some (pulls, a', b') \<and> m_directory a' = m_directory a \<and>
    (\<forall>nid. m_directory b' nid = newer (m_directory a nid) (m_directory b nid)) \<and> dir_ok EB b' \<and> same_config b b' \<and>
    (pulls = [] \<longleftrightarrow> (\<forall>nid r. m_directory a nid = Some r \<longrightarrow> have_enough nid (r_seq r) b)) \<and> (pulls = [] \<longrightarrow> b' = b)"
proof -
  obtain a1 where a1: "tick_digest EA v now_ms obf_on a = (map Digest (chunks MAX_GOSSIP_DIGEST_ENTRIES (digest_entries EA a)), a1)"
    "m_directory a1 = m_directory a" using tick_digest_due [OF assms(5)] by blast
  obtain pulls recs where p: "serve EB now (map Digest (chunks MAX_GOSSIP_DIGEST_ENTRIES (digest_entries EA a))) b = Some (map PullRequest pulls, b)"
    "serve EA now (map PullRequest pulls) a1 = Some (map Records recs, a1)" "\<forall>r \<in> set recs. gossip_ok (Records r)"
    "set (concat recs) = {r. \<exists>nid. m_directory a nid = Some r \<and> \<not> have_enough nid (r_seq r) b}"
    "pulls = [] \<longleftrightarrow> (\<forall>nid r. m_directory a nid = Some r \<longrightarrow> have_enough nid (r_seq r) b)"
    using serve_round [OF assms(1,3) a1(2), of EB now b] by (elim exE conjE)
  obtain b' where b': "serve EB now (map Records recs) b = Some ([], b')" "ingest_all EB now (concat recs) b = Some b'" "dir_ok EB b'" "same_config b b'"
    using serve_records [OF assms(2,4) p(3)] by blast
  have fr: "list_all framed_ok (concat recs)" using p(3) by (auto simp: list_all_iff)
  have "m_directory b' nid = newer (m_directory a nid) (m_directory b nid)" for nid
  proof -
    have rid: "m_directory a k = Some r \<Longrightarrow> r_node_id r = k" for k r using dir_ok_nid [OF assms(1)] by blast
    have get: "m_directory b' nid = Some r" if "m_directory a nid = Some r" "\<forall>x. m_directory b nid = Some x \<longrightarrow> r_seq x < r_seq r" for r
    proof (rule ingest_gets [OF assms(2,4) fr b'(2)])
      have "\<not> have_enough nid (r_seq r) b" using that(2) by (auto simp: have_enough_def split: option.splits)
      then show "r \<in> set (concat recs)" using p(4) that(1) by blast
      show "\<forall>x \<in> set (concat recs). r_node_id x = nid \<longrightarrow> x = r" unfolding p(4) using rid that(1) by fastforce
    qed (use that rid ver verified_for_facts in \<open>auto simp: all_verified_def\<close>)
    have keep: "m_directory b' nid = Some x" if "m_directory b nid = Some x" "\<forall>r. m_directory a nid = Some r \<longrightarrow> r_seq r \<le> r_seq x" for x
      by (rule ingest_keeps [OF assms(2,4) fr b'(2) that(1) kept [unfolded all_kept_def, rule_format, OF that(1)]]) (use p(4) rid that(2) in auto)
    have none: "m_directory b' nid = None" if "m_directory a nid = None" "m_directory b nid = None"
    proof (rule ccontr)
      assume "m_directory b' nid \<noteq> None"
      then obtain x where x: "m_directory b' nid = Some x" by blast
      then have "r_node_id x = nid" using dir_ok_nid [OF b'(3)] by blast
      moreover have "x \<in> set (concat recs)" using ingest_only [OF assms(2,4) fr b'(2) x] that(2) by simp
      ultimately show False unfolding p(4) using rid that(1) by fastforce
    qed
    show ?thesis using get keep none by (cases "m_directory a nid"; cases "m_directory b nid") (auto simp: newer_def not_less)
  qed
  moreover have "b' = b" if "pulls = []" using that p(2) b'(1) by simp
  ultimately show ?thesis using a1 p(1,2,5) b' by (simp add: sync_def)
qed

text \<open>C7: one round of anti-entropy joins the directories. When a node's digest is due, the digest, the requests it draws
  and the replies, each encoded and decoded on the way, leave the other node with the newer record of every
  member that either of them knew, provided the records still verify; the first node's directory is
  unchanged, and its next digest draws no request.\<close>

theorem gossip_joins:
  assumes "dir_reach EA a" "dir_reach EB b" "iter_ok EA" "iter_ok EB" "digest_due now_ms a"
    and ver: "all_verified EB now b (m_directory a)" and kept: "all_kept EB now b"
  shows "\<exists>pulls a' b'. sync EA EB v now_ms obf_on now a b = Some (pulls, a', b') \<and> m_directory a' = m_directory a \<and>
    (\<forall>nid. m_directory b' nid = newer (m_directory a nid) (m_directory b nid)) \<and>
    (\<forall>v' now_ms' obf_on'. digest_due now_ms' a' \<longrightarrow> (\<exists>a''. sync EA EB v' now_ms' obf_on' now a' b' = Some ([], a'', b')))"
proof -
  have ok: "dir_ok EA a" "dir_ok EB b" using dir_reach_inv assms(1-4) by blast+
  obtain pulls a' b' where s: "sync EA EB v now_ms obf_on now a b = Some (pulls, a', b')" "m_directory a' = m_directory a"
    "\<forall>nid. m_directory b' nid = newer (m_directory a nid) (m_directory b nid)" "dir_ok EB b'" "same_config b b'"
    using sync_round [OF ok assms(3-)] by blast
  have a': "dir_ok EA a'" using ok(1) s(2) by (simp add: dir_ok_def)
  have ver': "all_verified EB now b' (m_directory a')"
    using ver s(2,5) by (simp add: all_verified_def verified_for_def same_config_def)
  have kept': "all_kept EB now b'"
    unfolding all_kept_def
  proof (intro allI impI)
    fix nid r
    assume that: "m_directory b' nid = Some r"
    have "m_directory a nid = Some r \<or> m_directory b nid = Some r"
      using that s(3) by (auto simp: newer_def split: option.splits if_splits)
    then show "kept EB now b' nid r"
      using ver kept verified_for_facts(2) [of EB now b r] kept_config [OF s(5), of EB now nid r] by (auto simp: kept_def all_kept_def all_verified_def)
  qed
  have enough: "have_enough nid (r_seq r) b'" if "m_directory a' nid = Some r" for nid r
    using that s(2,3) by (auto simp: newer_def have_enough_def split: option.splits if_splits)
  have "\<exists>a''. sync EA EB v' t' o' now a' b' = Some ([], a'', b')" if "digest_due t' a'" for v' t' o'
    using sync_round [OF a' s(4) assms(3,4) that ver' kept', of v' o'] enough by blast
  then show ?thesis using s(1-3) by blast
qed

section \<open>A sample mesh\<close>

text \<open>Members \<open>3\<close> and \<open>5\<close> are certified by the key \<open>t\<close>; all records are signed under the key \<open>4\<close>.\<close>

definition sample_key :: "u8 \<Rightarrow> bytes" where "sample_key k = replicate 32 k"

definition sample_mesh :: "u8 \<Rightarrow> mesh_env" where
  "sample_mesh t = \<lparr>me_ed = (\<lambda>pk body _. pk = sample_key 4 \<or> (pk = sample_key t \<and> take 32 (drop 1 body) \<in> {sample_key 3, sample_key 5})),
     me_sign = (\<lambda>_ _. replicate 64 1), me_b2s = (\<lambda>n x. take n (rev x)), me_skew = 0, me_iter = (\<lambda>d. sorted_list_of_set (dom d))\<rparr>"

definition member_cert :: "u8 \<Rightarrow> Cert" where
  "member_cert k = \<lparr>c_version = 1, c_member_pubkey = sample_key k, c_member_sign_pubkey = sample_key 4, c_network_id = replicate 16 7,
     c_not_before = 100, c_not_after = 200, c_tags = [], c_ca_sig = replicate 64 0\<rparr>"

definition member_record :: "u8 \<Rightarrow> Record" where
  "member_record k = \<lparr>r_node_id = replicate 16 k, r_cert = member_cert k, r_endpoints = [], r_seq = 0, r_sig = replicate 64 1\<rparr>"

definition member_node :: "(bytes \<times> SocketAddr) list \<Rightarrow> u8 \<Rightarrow> Membership" where
  "member_node roots k = \<lparr>m_directory = [replicate 16 k \<mapsto> member_record k], m_by_addr = [0xfd # replicate 15 k \<mapsto> replicate 16 k],
     m_ca_pubkeys = [sample_key 8], m_network_id = replicate 16 7, m_roots = \<lparr>rs_roots = roots, rs_version = 0, rs_ca_sig = []\<rparr>,
     m_own_node_id = replicate 16 k, m_own_cert = member_cert k, m_own_endpoints = [], m_sign_priv = [], m_last_digest_ms = None, m_digest_ms = 5000\<rparr>"

lemma sample_ids: "node_id (me_b2s (sample_mesh t)) (sample_key k) = replicate 16 k" "node_addr (me_b2s (sample_mesh t)) (sample_key k) = 0xfd # replicate 15 k"
  by (simp_all add: node_id_def node_addr_def sample_mesh_def sample_key_def)

lemma member_pubkey [simp]: "c_member_pubkey (member_cert k) = sample_key k"
  by (simp add: member_cert_def)

lemma sample_iter: "iter_ok (sample_mesh t)"
  by (simp add: iter_ok_def sample_mesh_def)

lemma member_cert_body: "cert_signing_body (member_cert k) =
    Some (1 # sample_key k @ sample_key 4 @ replicate 16 7 @ be64 100 @ be64 200 @ be16 0)"
  by (simp add: cert_signing_body_def member_cert_def put_count_def)

lemma member_cert_ok: "cert_ok (member_cert k)" "length (the (cert_encode (member_cert k))) = 163"
  by (simp_all add: cert_ok_def cert_encode_def member_cert_body) (simp_all add: member_cert_def sample_key_def codec_simps)

lemma member_record_body: "\<exists>body. record_signing_body (member_record k\<lparr>r_sig := x\<rparr>) = Some body \<and> length body = 191"
proof -
  obtain e where e: "cert_encode (member_cert k) = Some e" "length e = 163" using cert_encodes [OF member_cert_ok(1) [of k]] member_cert_ok(2) [of k] by auto
  then show ?thesis by (simp add: record_signing_body_def member_record_def put_count_def codec_simps)
qed

lemma member_record_ok: "framed_ok (member_record k)"
proof -
  have "record_ok (member_record k)" using member_cert_ok by (simp add: record_ok_def member_record_def)
  moreover obtain body where "record_signing_body (member_record k) = Some body" "length body = 191"
    using member_record_body [of "r_sig (member_record k)" k] by auto
  ultimately show ?thesis by (simp add: framed_ok_def record_encode_def) (simp add: member_record_def)
qed

lemma member_node_run: "dir_run (sample_mesh t) {c_member_pubkey (member_cert k)} (member_node roots k)"
proof (rule dir_run.start)
  obtain body where "record_signing_body (member_record k\<lparr>r_sig := replicate 64 0\<rparr>) = Some body" using member_record_body by blast
  then have "build_signed_record (sample_mesh t) (member_cert k) [] INITIAL_SEQ [] = Some (member_record k)"
    by (simp add: build_signed_record_def INITIAL_SEQ_def sample_ids Let_def member_record_def) (simp add: sample_mesh_def)
  then show "membership_new (sample_mesh t) [sample_key 8] (replicate 16 7) (member_cert k) [] \<lparr>rs_roots = roots, rs_version = 0, rs_ca_sig = []\<rparr> [] =
      Some (member_node roots k)"
    by (simp add: membership_new_def insert_record_def member_node_def GOSSIP_INTERVAL_MS_def) (simp add: member_record_def sample_ids)
  show "framed_ok r" if "m_directory (member_node roots k) nid = Some r" for nid r
    using that member_record_ok by (auto simp: member_node_def split: if_splits)
qed

lemma member_node_reach: "dir_reach (sample_mesh t) (member_node roots k)"
  unfolding dir_reach_run using member_node_run by blast

lemma sample_verify:
  assumes "k \<in> {3, 5}" "sample_key t \<in> set cas"
  shows "record_verify (me_ed (sample_mesh t)) (me_b2s (sample_mesh t)) (member_record k) cas (replicate 16 7) 150 0 = Some (Inr ())"
proof -
  obtain body where "record_signing_body (member_record k) = Some body"
    using member_record_body [of "r_sig (member_record k)" k] by auto
  moreover have "verify_any (me_ed (sample_mesh t)) (1 # sample_key k @ sample_key 4 @ replicate 16 7 @ be64 100 @ be64 200 @ be16 0) (replicate 64 0) cas"
    using assms by (auto simp: verify_any_def list_ex_iff sample_mesh_def sample_key_def)
  then have "verify_cert (me_ed (sample_mesh t)) (member_cert k) cas (replicate 16 7) (sample_key k) 150 0 = Some (Inr ())"
    by (simp add: verify_cert_def member_cert_body) (simp add: member_cert_def sat_add_def u64_max_def)
  ultimately show ?thesis
    by (simp add: record_verify_def member_record_def sample_ids) (simp add: member_cert_def sample_mesh_def)
qed

theorem gossip_joins_witness:
  "\<exists>pulls a' b'. sync (sample_mesh 8) (sample_mesh 8) 0 0 False 150 (member_node [] 3) (member_node [] 5) = Some (pulls, a', b') \<and>
     m_directory b' (replicate 16 3) = Some (member_record 3) \<and> m_directory b' (replicate 16 5) = Some (member_record 5)"
proof -
  have e: "me_skew (sample_mesh 8) = 0" by (simp add: sample_mesh_def)
  have due: "digest_due 0 (member_node [] 3)" by (simp add: digest_due_def member_node_def)
  have ver: "all_verified (sample_mesh 8) 150 (member_node [] 5) (m_directory (member_node [] 3))"
    using sample_verify [of 3 8 "[sample_key 8]"] by (auto simp: all_verified_def verified_for_def member_node_def e split: if_splits)
  have kept: "all_kept (sample_mesh 8) 150 (member_node [] 5)" by (auto simp: all_kept_def kept_def member_node_def split: if_splits)
  obtain pulls a' b' where *: "sync (sample_mesh 8) (sample_mesh 8) 0 0 False 150 (member_node [] 3) (member_node [] 5) = Some (pulls, a', b')"
    "\<forall>nid. m_directory b' nid = newer (m_directory (member_node [] 3) nid) (m_directory (member_node [] 5) nid)"
    using gossip_joins [OF member_node_reach member_node_reach sample_iter sample_iter due ver kept, where v = 0 and obf_on = False] by blast
  have "(replicate 16 3 :: bytes) \<noteq> replicate 16 5" by simp
  then show ?thesis using * by (auto simp: member_node_def newer_def)
qed

section \<open>Soundness\<close>

text \<open>C8: the directory is never poisoned. In every directory reached by remote input, renewals and ticks, each record is
  filed under the identifier of its key and, the own one apart, was verified against the trust
  anchors when it came in; the own record never disappears; no decoded message makes the daemon
  panic; and a record whose certificate is still valid is only ever replaced by a newer one. As long as no
  two keys whose records passed verification in the run collide in their truncated hashes, a
  mesh address resolves exactly to the record of the key it is derived from.\<close>

theorem directory_sound:
  assumes "dir_run E K m" "iter_ok E"
  shows "(\<forall>nid r. m_directory m nid = Some r \<longrightarrow>
       nid = node_id (me_b2s E) (c_member_pubkey (r_cert r)) \<and> (nid = m_own_node_id m \<or> (\<exists>t. verify_record E r t m = Some True))) \<and>
     (distinct_ids E K \<longrightarrow> (\<forall>addr i. resolve addr m = Some i \<longleftrightarrow>
       (\<exists>nid r. m_directory m nid = Some r \<and> node_addr (me_b2s E) (c_member_pubkey (r_cert r)) = addr \<and>
          i = \<lparr>mi_pubkey = c_member_pubkey (r_cert r), mi_endpoints = r_endpoints r\<rparr>))) \<and>
     m_directory m (m_own_node_id m) \<noteq> None \<and>
     (\<forall>g now. gossip_ok g \<longrightarrow> on_gossip E g now m \<noteq> None) \<and>
     (\<forall>rec now c m' nid r. framed_ok rec \<longrightarrow> ingest_record E rec now m = Some (c, m') \<longrightarrow> m_directory m nid = Some r \<longrightarrow> kept E now m nid r \<longrightarrow>
        m_directory m' nid = Some r \<or> (m_directory m' nid = Some rec \<and> r_seq r < r_seq rec))"
proof -
  have inv: "dir_ok E m" "authentic E m" "own_ok E m" "distinct_ids E K \<Longrightarrow> index_ok E K m" using dir_run_inv [OF assms(1,2)] by blast+
  have 1: "\<forall>nid r. m_directory m nid = Some r \<longrightarrow>
       nid = node_id (me_b2s E) (c_member_pubkey (r_cert r)) \<and> (nid = m_own_node_id m \<or> (\<exists>t. verify_record E r t m = Some True))"
    using inv(1,2) unfolding dir_ok_def authentic_def by blast
  have 2: "\<forall>addr i. resolve addr m = Some i \<longleftrightarrow> (\<exists>nid r. m_directory m nid = Some r \<and> node_addr (me_b2s E) (c_member_pubkey (r_cert r)) = addr \<and>
        i = \<lparr>mi_pubkey = c_member_pubkey (r_cert r), mi_endpoints = r_endpoints r\<rparr>)" if "distinct_ids E K"
    using inv(4) [OF that] unfolding resolve_def bind_eq_Some_conv index_ok_def by fastforce
  have 3: "m_directory m (m_own_node_id m) \<noteq> None" using inv(3) unfolding own_ok_def by blast
  have 4: "\<forall>g now. gossip_ok g \<longrightarrow> on_gossip E g now m \<noteq> None" using on_gossip_step [OF inv(1) assms(2)] by fastforce
  have 5: "m_directory m' nid = Some r \<or> (m_directory m' nid = Some rec \<and> r_seq r < r_seq rec)"
    if "framed_ok rec" "ingest_record E rec now m = Some (c, m')" "m_directory m nid = Some r" "kept E now m nid r" for rec now c m' nid r
    using ingest_directory [OF inv(1) assms(2) that(1,2), of nid] kept_not_expired [OF that(3,4)] that(3) by (simp split: if_splits)
  then have "\<forall>rec now c m' nid r. framed_ok rec \<longrightarrow> ingest_record E rec now m = Some (c, m') \<longrightarrow> m_directory m nid = Some r \<longrightarrow> kept E now m nid r \<longrightarrow>
        m_directory m' nid = Some r \<or> (m_directory m' nid = Some rec \<and> r_seq r < r_seq rec)" by blast
  with 1 2 3 4 show ?thesis by (intro conjI impI)
qed

theorem directory_sound_witness:
  "\<exists>out m. on_gossip (sample_mesh 8) (Records [member_record 3]) 150 (member_node [] 5) = Some (out, m) \<and>
     resolve (0xfd # replicate 15 3) m = Some \<lparr>mi_pubkey = sample_key 3, mi_endpoints = []\<rparr>"
proof -
  let ?E = "sample_mesh 8" and ?n = "member_node [] 5"
  have g: "gossip_ok (Records [member_record 3])" using member_record_ok by simp
  have n: "dir_ok ?E ?n" using dir_reach_inv [OF member_node_reach sample_iter] by blast
  obtain out m where m: "on_gossip ?E (Records [member_record 3]) 150 ?n = Some (out, m)"
    using on_gossip_step [OF n sample_iter g, of 150] by blast
  define K where "K = {c_member_pubkey (member_cert 5)} \<union> admitted_keys ?E (gossip_records (Records [member_record 3])) 150 ?n"
  have run: "dir_run ?E K m" unfolding K_def by (rule dir_run.gossip [OF member_node_run g m])
  have "K \<subseteq> {sample_key 3, sample_key 5}" by (auto simp: K_def admitted_keys_def member_record_def member_cert_def)
  moreover have "distinct_ids ?E {sample_key 3, sample_key 5}" by (auto simp: distinct_ids_def inj_on_def sample_ids)
  ultimately have dist: "distinct_ids ?E K" by (rule distinct_ids_mono [rotated])
  note sound = directory_sound [OF run sample_iter]
  obtain c m1 where i: "ingest_record ?E (member_record 3) 150 ?n = Some (c, m1)" "m1 = m"
    using m by (auto simp: bind_eq_Some_conv)
  have "verify_record ?E (member_record 3) 150 ?n = Some True"
    using sample_verify [of 3 8 "[sample_key 8]"] by (simp add: verify_record_def member_node_def trust_anchors_def) (simp add: sample_mesh_def)
  then have "m_directory m (replicate 16 3) = Some (member_record 3)"
    using ingest_directory [OF n sample_iter member_record_ok i(1), of "replicate 16 3"] unfolding i(2) by (simp add: member_node_def member_record_def)
  then have "\<exists>nid r. m_directory m nid = Some r \<and> node_addr (me_b2s ?E) (c_member_pubkey (r_cert r)) = 0xfd # replicate 15 3 \<and>
        \<lparr>mi_pubkey = sample_key 3, mi_endpoints = []\<rparr> = \<lparr>mi_pubkey = c_member_pubkey (r_cert r), mi_endpoints = r_endpoints r\<rparr>"
    by (intro exI [of _ "replicate 16 3"] exI [of _ "member_record 3"]) (simp add: member_record_def sample_ids)
  then have "resolve (0xfd # replicate 15 3) m = Some \<lparr>mi_pubkey = sample_key 3, mi_endpoints = []\<rparr>"
    using sound [THEN conjunct2, THEN conjunct1] dist by blast
  then show ?thesis using m by blast
qed

text \<open>C35: a member certified by a root key flaps. \<^verbatim>\<open>verify_record\<close> trusts the configured CA keys and the root keys, the sweep only the
  CA keys: a record certified by a root key alone is taken in, even over a valid older one, and the next record
  that arrives, whatever it is, evicts it again; meanwhile the member counts as no longer valid.\<close>

theorem root_certified_record_flaps:
  assumes "dir_reach E m" "iter_ok E" "framed_ok r" "verify_record E r now m = Some True" "\<not> cert_valid E now m r"
    and "r_node_id r \<noteq> m_own_node_id m" "\<forall>x. m_directory m (r_node_id r) = Some x \<longrightarrow> r_seq x < r_seq r"
    and "framed_ok r2" "r_node_id r2 \<noteq> r_node_id r" "\<forall>a. (c_member_pubkey (r_cert r), a) \<notin> set (rs_roots (m_roots m))"
  shows "\<exists>c m1 c2 m2. ingest_record E r now m = Some (c, m1) \<and> m_directory m1 (r_node_id r) = Some r \<and>
     member_cert_valid E (c_member_pubkey (r_cert r)) now m1 = Some False \<and>
     ingest_record E r2 now m1 = Some (c2, m2) \<and> m_directory m2 (r_node_id r) = None"
proof -
  have ok: "dir_ok E m" using dir_reach_inv [OF assms(1,2)] by blast
  obtain c m1 where m1: "ingest_record E r now m = Some (c, m1)" "dir_ok E m1" "same_config m m1" using ingest_eq [OF ok assms(2,3), of now] by blast
  have d1: "m_directory m1 (r_node_id r) = Some r" using ingest_directory [OF ok assms(2,3) m1(1), of "r_node_id r"] assms(4,7) by simp
  have nv: "\<not> cert_valid E now m1 r" using assms(5) same_config_cong(2) [OF m1(3)] by simp
  then have ex: "expired_at E now m1 (r_node_id r)" using d1 assms(6) m1(3) by (auto simp: expired_at_def same_config_def)
  obtain c2 m2 where m2: "ingest_record E r2 now m1 = Some (c2, m2)" using ingest_eq [OF m1(2) assms(2,8), of now] by blast
  have "m_directory m2 (r_node_id r) = None" using ingest_directory [OF m1(2) assms(2,8) m2, of "r_node_id r"] assms(9) ex by simp
  moreover have "member_cert_valid E (c_member_pubkey (r_cert r)) now m1 = Some False"
  proof -
    obtain v where v: "verify_cert (me_ed E) (r_cert r) (m_ca_pubkeys m1) (m_network_id m1) (c_member_pubkey (r_cert r)) now (me_skew E) = Some v"
      using verify_cert_total [OF framed_cert_ok(1) [OF assms(3)]] by blast
    moreover have "isl v" using nv v by (cases v) (simp_all add: cert_valid_def)
    moreover have "r_node_id r = node_id (me_b2s E) (c_member_pubkey (r_cert r))" using d1 m1(2) unfolding dir_ok_def by blast
    moreover have "\<not> list_ex (\<lambda>(pk, _). pk = c_member_pubkey (r_cert r)) (rs_roots (m_roots m1))"
      using assms(10) m1(3) by (auto simp: list_ex_iff same_config_def)
    ultimately show ?thesis using d1 by (simp add: member_cert_valid_def member_or_admitted_cert_valid_def member_verify_cert_def)
  qed
  ultimately show ?thesis using m1(1) d1 m2 by blast
qed

theorem root_certified_record_flaps_witness:
  "\<exists>c m1 c2 m2. ingest_record (sample_mesh 9) (member_record 3) 150 (member_node [(sample_key 9, SocketV4 [10, 0, 0, 1] 1)] 5) = Some (c, m1) \<and>
     m_directory m1 (replicate 16 3) = Some (member_record 3) \<and>
     ingest_record (sample_mesh 9) (member_record 5) 150 m1 = Some (c2, m2) \<and> m_directory m2 (replicate 16 3) = None"
proof -
  let ?E = "sample_mesh 9" and ?n = "member_node [(sample_key 9, SocketV4 [10, 0, 0, 1] 1)] 5"
  have k: "sample_key 8 \<noteq> sample_key 9" "sample_key 8 \<noteq> sample_key 4" "sample_key 3 \<noteq> sample_key 9" by (simp_all add: sample_key_def)
  have id: "r_node_id (member_record 3) = replicate 16 3" "r_node_id (member_record 5) = replicate 16 5"
    "c_member_pubkey (r_cert (member_record 3)) = sample_key 3" by (simp_all add: member_record_def)
  have "trust_anchors ?n = [sample_key 8, sample_key 9]" using k by (simp add: trust_anchors_def member_node_def)
  then have v: "verify_record ?E (member_record 3) 150 ?n = Some True"
    using sample_verify [of 3 9 "[sample_key 8, sample_key 9]"] by (simp add: verify_record_def member_node_def) (simp add: sample_mesh_def)
  have nv: "\<not> cert_valid ?E 150 ?n (member_record 3)"
    using k by (simp add: cert_valid_def member_record_def member_node_def verify_cert_def member_cert_body) (simp add: verify_any_def sample_mesh_def)
  have "r_node_id (member_record 3) \<noteq> m_own_node_id ?n" "\<forall>x. m_directory ?n (r_node_id (member_record 3)) = Some x \<longrightarrow> r_seq x < r_seq (member_record 3)"
    "r_node_id (member_record 5) \<noteq> r_node_id (member_record 3)" "\<forall>a. (c_member_pubkey (r_cert (member_record 3)), a) \<notin> set (rs_roots (m_roots ?n))"
    unfolding id using k(3) by (simp_all add: member_node_def)
  from root_certified_record_flaps [OF member_node_reach sample_iter member_record_ok v nv this(1,2) member_record_ok this(3,4)]
  show ?thesis unfolding id by blast
qed

end
