(* ===== verification/Rdv_Proto.thy ===== *)
theory Rdv_Proto
  imports Mesh_Codec "HOL-Library.Sublist"
begin

text \<open>
  The rendezvous messages of \<^verbatim>\<open>crates/yip-rendezvous/src/proto.rs\<close> and the client side of the protocol,
  \<^verbatim>\<open>bin/yipd/src/rendezvous.rs\<close>. Addresses and records have the formats of the mesh objects. A decoder of this protocol is
  lenient: most messages may be followed by further bytes, and a \<^verbatim>\<open>PeerInfo\<close> may end before its presence byte.
\<close>

section \<open>Registration codes\<close>

definition DOMAIN_REG_AUTH :: bytes where
  "DOMAIN_REG_AUTH = map (of_nat \<circ> of_char) ''yip-rendezvous-v1-reg-auth''"

definition compute_register_mac :: "(nat \<Rightarrow> bytes \<Rightarrow> bytes) \<Rightarrow> bytes \<Rightarrow> bytes \<Rightarrow> u64 \<Rightarrow> bytes" where
  "compute_register_mac b2s obf_key node counter = b2s 16 (DOMAIN_REG_AUTH @ obf_key @ node @ be64 counter)"

definition verify_register_mac :: "(nat \<Rightarrow> bytes \<Rightarrow> bytes) \<Rightarrow> bytes \<Rightarrow> bytes \<Rightarrow> u64 \<Rightarrow> bytes \<Rightarrow> bool" where
  "verify_register_mac b2s obf_key node counter mac = (compute_register_mac b2s obf_key node counter = mac)"

section \<open>Messages\<close>

datatype Message =
    Register bytes u64
  | Lookup bytes
  | PeerInfo bytes SocketAddr "Record option"
  | NotFound bytes
  | PunchHint bytes SocketAddr
  | RelaySend bytes bytes bytes
  | RelayDeliver bytes bytes
  | RegisterSigned Record
  | RegisterAuth bytes u64 bytes

definition put_record :: "Record \<Rightarrow> bytes exec" where
  "put_record rec = do { buf \<leftarrow> record_encode rec; len \<leftarrow> put_count (length buf); Some (len @ buf) }"

definition take_record :: "bytes \<Rightarrow> Record option" where
  "take_record buf = do { (len, r) \<leftarrow> take_count buf; (record_bytes, _) \<leftarrow> take_n len r; record_decode record_bytes }"

fun rdv_encode :: "Message \<Rightarrow> bytes exec" where
  "rdv_encode (Register node counter) = Some (0 # node @ be64 counter)"
| "rdv_encode (Lookup node) = Some (1 # node)"
| "rdv_encode (PeerInfo node reflexive rec) =
     (case rec of
        Some r \<Rightarrow> do { body \<leftarrow> put_record r; Some (2 # node @ put_addr reflexive @ 1 # body) }
      | None \<Rightarrow> Some (2 # node @ put_addr reflexive @ [0]))"
| "rdv_encode (NotFound node) = Some (3 # node)"
| "rdv_encode (PunchHint node reflexive) = Some (4 # node @ put_addr reflexive)"
| "rdv_encode (RelaySend src dst pl) = Some (5 # src @ dst @ pl)"
| "rdv_encode (RelayDeliver src pl) = Some (6 # src @ pl)"
| "rdv_encode (RegisterSigned rec) = do { body \<leftarrow> put_record rec; Some (7 # body) }"
| "rdv_encode (RegisterAuth node counter mac) = Some (8 # node @ be64 counter @ mac)"

text \<open>The optional record at the end of a \<^verbatim>\<open>PeerInfo\<close>.\<close>

fun take_presence :: "bytes \<Rightarrow> Record option option" where
  "take_presence [] = Some None"
| "take_presence (p # tl_bytes) =
     (if p = 0 then Some None
      else if p = 1 then do { rec \<leftarrow> take_record tl_bytes; Some (Some rec) }
      else None)"

definition rdv_decode :: "bytes \<Rightarrow> Message option" where
  "rdv_decode buf = do {
     (tag, rest) \<leftarrow> take_u8 buf;
     if tag = 0 then do { (node, r) \<leftarrow> take_n 16 rest; (counter, _) \<leftarrow> take_u64 r; Some (Register node counter) }
     else if tag = 1 then do { (node, _) \<leftarrow> take_n 16 rest; Some (Lookup node) }
     else if tag = 3 then do { (node, _) \<leftarrow> take_n 16 rest; Some (NotFound node) }
     else if tag = 2 then do {
       (node, r) \<leftarrow> take_n 16 rest;
       (reflexive, after_addr) \<leftarrow> take_addr r;
       rec \<leftarrow> take_presence after_addr;
       Some (PeerInfo node reflexive rec) }
     else if tag = 4 then do { (node, r) \<leftarrow> take_n 16 rest; (reflexive, _) \<leftarrow> take_addr r; Some (PunchHint node reflexive) }
     else if tag = 5 then do { (src, r) \<leftarrow> take_n 16 rest; (dst, pl) \<leftarrow> take_n 16 r; Some (RelaySend src dst pl) }
     else if tag = 6 then do { (src, pl) \<leftarrow> take_n 16 rest; Some (RelayDeliver src pl) }
     else if tag = 7 then do { rec \<leftarrow> take_record rest; Some (RegisterSigned rec) }
     else if tag = 8 then
       if length rest \<noteq> 40 then None
       else do { (node, r) \<leftarrow> take_n 16 rest; (counter, r1) \<leftarrow> take_u64 r; (mac, _) \<leftarrow> take_n 16 r1; Some (RegisterAuth node counter mac) }
     else None }"

fun msg_ok :: "Message \<Rightarrow> bool" where
  "msg_ok (Register node _) \<longleftrightarrow> length node = 16"
| "msg_ok (Lookup node) \<longleftrightarrow> length node = 16"
| "msg_ok (PeerInfo node a rec) \<longleftrightarrow> length node = 16 \<and> addr_ok a \<and> (case rec of None \<Rightarrow> True | Some r \<Rightarrow> framed_ok r)"
| "msg_ok (NotFound node) \<longleftrightarrow> length node = 16"
| "msg_ok (PunchHint node a) \<longleftrightarrow> length node = 16 \<and> addr_ok a"
| "msg_ok (RelaySend src dst _) \<longleftrightarrow> length src = 16 \<and> length dst = 16"
| "msg_ok (RelayDeliver src _) \<longleftrightarrow> length src = 16"
| "msg_ok (RegisterSigned rec) \<longleftrightarrow> framed_ok rec"
| "msg_ok (RegisterAuth node _ mac) \<longleftrightarrow> length node = 16 \<and> length mac = 16"

text \<open>The byte strings that stand for a message whose encoding is \<open>e\<close>.\<close>

fun tolerated :: "Message \<Rightarrow> bytes \<Rightarrow> bytes \<Rightarrow> bool" where
  "tolerated (RelaySend _ _ _) e b \<longleftrightarrow> b = e"
| "tolerated (RelayDeliver _ _) e b \<longleftrightarrow> b = e"
| "tolerated (RegisterAuth _ _ _) e b \<longleftrightarrow> b = e"
| "tolerated (PeerInfo _ _ None) e b \<longleftrightarrow> prefix e b \<or> b = butlast e"
| "tolerated _ e b \<longleftrightarrow> prefix e b"

lemma put_record_framed: "put_record rec = put_framed rec"
  by (simp add: put_record_def put_framed_def)

lemma put_record_total: "framed_ok r \<Longrightarrow> \<exists>e. put_record r = Some e"
  using record_encodes [of r] by (auto simp: put_record_def put_count_def framed_ok_def)

lemma take_record_iff: "take_record b = Some r \<longleftrightarrow> framed_ok r \<and> (\<exists>e. put_record r = Some e \<and> prefix e b)"
  by (auto simp: take_record_def put_record_def framed_ok_def prefix_def bind_eq_Some_conv parse_simps record_iff)

lemma take_presence_iff: "take_presence b = Some rec \<longleftrightarrow>
    (case rec of None \<Rightarrow> b = [] \<or> (\<exists>t. b = 0 # t) | Some r \<Rightarrow> framed_ok r \<and> (\<exists>e t. put_record r = Some e \<and> b = 1 # e @ t))"
  by (cases b) (auto simp: take_record_iff prefix_def bind_eq_Some_conv split: option.splits)

lemma rdv_decodes: "rdv_decode b = Some m \<Longrightarrow> msg_ok m \<and> (\<exists>e. rdv_encode m = Some e \<and> tolerated m e b)"
  by (cases b) (auto simp: rdv_decode_def bind_eq_Some_conv parse_simps take_record_iff take_presence_iff prefix_def butlast_append split: if_splits option.splits)

lemma take_n_append: "length x = n \<Longrightarrow> take_n n (x @ r) = Some (x, r)"
  by (simp add: take_n_iff)

lemma take_u64_append: "take_u64 (be64 w @ r) = Some (w, r)"
  by (simp add: take_u64_iff)

lemma take_addr_append: "addr_ok a \<Longrightarrow> take_addr (put_addr a @ r) = Some (a, r)"
  by (simp add: take_addr_iff)

lemma take_record_append: "framed_ok r \<Longrightarrow> put_record r = Some e \<Longrightarrow> take_record (e @ t) = Some r"
  by (auto simp: take_record_iff prefix_def)

lemmas parse_append = take_n_append take_u64_append take_addr_append take_record_append

lemmas parse_exact = take_n_append [where r = "[]", simplified] take_u64_append [where r = "[]", simplified]
  take_addr_append [where r = "[]", simplified] take_record_append [where t = "[]", simplified]

lemma rdv_accepts:
  assumes "msg_ok m" "rdv_encode m = Some e" "tolerated m e b"
  shows "rdv_decode b = Some m"
proof (cases m)
  case (PeerInfo node a rec)
  show ?thesis
  proof (cases rec)
    case None
    then show ?thesis using assms PeerInfo by (auto simp: rdv_decode_def prefix_def parse_append parse_exact butlast_append)
  next
    case (Some r)
    then obtain body where "put_record r = Some body" "e = 2 # node @ put_addr a @ 1 # body"
      using assms(2) PeerInfo by (auto simp: bind_eq_Some_conv)
    then show ?thesis using assms PeerInfo Some by (auto simp: rdv_decode_def prefix_def parse_append parse_exact)
  qed
next
  case (RegisterSigned r)
  then obtain body where "put_record r = Some body" "e = 7 # body" using assms(2) by (auto simp: bind_eq_Some_conv)
  then show ?thesis using assms RegisterSigned by (auto simp: rdv_decode_def prefix_def parse_append parse_exact)
qed (use assms in \<open>auto simp: rdv_decode_def prefix_def parse_append parse_exact codec_simps\<close>)

text \<open>The decoder accepts exactly the byte strings that stand for an admissible message.\<close>

lemma rdv_iff: "rdv_decode b = Some m \<longleftrightarrow> msg_ok m \<and> (\<exists>e. rdv_encode m = Some e \<and> tolerated m e b)"
  using rdv_decodes rdv_accepts by blast

lemma rdv_encodes: "msg_ok m \<Longrightarrow> \<exists>e. rdv_encode m = Some e"
  using put_record_total by (cases m) (fastforce split: option.splits)+

lemma rdv_roundtrip: "msg_ok m \<Longrightarrow> rdv_encode m = Some e \<Longrightarrow> rdv_decode e = Some m"
proof -
  assume "msg_ok m" "rdv_encode m = Some e"
  moreover have "tolerated m e e" by (cases "(m, e, e)" rule: tolerated.cases) simp_all
  ultimately show ?thesis by (rule rdv_accepts)
qed

interpretation rdv: roundtrip_codec msg_ok "\<lambda>m. the (rdv_encode m)" rdv_decode
  using rdv_encodes rdv_roundtrip by unfold_locales fastforce

end
