(* ===== verification/Rdv_Server.thy ===== *)
theory Rdv_Server
  imports Rdv_Proto "HOL-Library.AList"
begin

text \<open>
  The rendezvous and relay server of \<^verbatim>\<open>crates/yip-rendezvous/src/server.rs\<close>: registrations with a lifetime,
  rate limiting per source, verification of signed registrations and blind relaying. The hash maps are association
  lists with distinct keys; the shared forward counter is a 64-bit word. Ed25519 and BLAKE2s are the parameters \<open>ed\<close> and \<open>b2s\<close>.
\<close>

section \<open>State\<close>

definition REGISTRATION_SKEW_SECS :: nat where "REGISTRATION_SKEW_SECS = 300"

definition REG_TTL_MS :: nat where "REG_TTL_MS = 60000"

definition MAX_REGISTRATIONS :: nat where "MAX_REGISTRATIONS = 65536"

definition MAX_RATE_ENTRIES :: nat where "MAX_RATE_ENTRIES = 131072"

definition RATE_WINDOW_MS :: nat where "RATE_WINDOW_MS = 1000"

definition MAX_MSGS_PER_WINDOW :: nat where "MAX_MSGS_PER_WINDOW = 64"

record Reg =
  reg_addr :: SocketAddr
  reg_expiry_ms :: nat
  reg_last_counter :: u64
  reg_record :: "Record option"

record Rate =
  rate_window_start_ms :: nat
  rate_count :: nat

record TlsSeen =
  tls_last_counter :: u64
  tls_expiry_ms :: nat

record RendezvousServer =
  rv_regs :: "(bytes \<times> Reg) list"
  rv_rates :: "(SocketAddr \<times> Rate) list"
  rv_tls_seen :: "(bytes \<times> TlsSeen) list"
  rv_forwarded :: u64
  rv_roots_cfg :: "(bytes list \<times> bytes) option"

definition server_new :: RendezvousServer where
  "server_new = \<lparr>rv_regs = [], rv_rates = [], rv_tls_seen = [], rv_forwarded = 0, rv_roots_cfg = None\<rparr>"

definition new_with_roots :: "bytes list \<Rightarrow> bytes \<Rightarrow> RendezvousServer" where
  "new_with_roots ca_pubkeys network =
     \<lparr>rv_regs = [], rv_rates = [], rv_tls_seen = [], rv_forwarded = 0, rv_roots_cfg = Some (ca_pubkeys, network)\<rparr>"

definition record_relay_forward :: "RendezvousServer \<Rightarrow> RendezvousServer" where
  "record_relay_forward s = s\<lparr>rv_forwarded := rv_forwarded s + 1\<rparr>"

definition is_registered :: "bytes \<Rightarrow> nat \<Rightarrow> RendezvousServer \<Rightarrow> bool" where
  "is_registered node now_ms s = (case map_of (rv_regs s) node of Some r \<Rightarrow> reg_expiry_ms r > now_ms | None \<Rightarrow> False)"

section \<open>Verification and rates\<close>

definition verify_signed_record ::
    "(bytes \<Rightarrow> bytes \<Rightarrow> bytes \<Rightarrow> bool) \<Rightarrow> (nat \<Rightarrow> bytes \<Rightarrow> bytes) \<Rightarrow> Record \<Rightarrow> nat \<Rightarrow> RendezvousServer \<Rightarrow> bool exec" where
  "verify_signed_record ed b2s rec now_secs s =
     (case rv_roots_cfg s of
        None \<Rightarrow> Some False
      | Some (ca_pubkeys, network) \<Rightarrow> do {
          v \<leftarrow> record_verify ed b2s rec ca_pubkeys network now_secs REGISTRATION_SKEW_SECS;
          let now_wall_ms = sat_mul now_secs 1000;
          let skew_ms = sat_mul REGISTRATION_SKEW_SECS 1000;
          let min_seq = now_wall_ms - sat_add REG_TTL_MS skew_ms;
          let max_seq = sat_add now_wall_ms skew_ms;
          Some (\<not> isl v \<and> \<not> (unat (r_seq rec) < min_seq \<or> unat (r_seq rec) > max_seq)) })"

definition rate_ok :: "SocketAddr \<Rightarrow> nat \<Rightarrow> RendezvousServer \<Rightarrow> bool \<times> RendezvousServer" where
  "rate_ok src now_ms s =
     (if length (rv_rates s) \<ge> MAX_RATE_ENTRIES \<and> map_of (rv_rates s) src = None then (False, s)
      else let r = (case map_of (rv_rates s) src of Some r \<Rightarrow> r | None \<Rightarrow> \<lparr>rate_window_start_ms = now_ms, rate_count = 0\<rparr>);
               r1 = (if now_ms - rate_window_start_ms r \<ge> RATE_WINDOW_MS then \<lparr>rate_window_start_ms = now_ms, rate_count = 0\<rparr> else r)
           in if rate_count r1 \<ge> MAX_MSGS_PER_WINDOW then (False, s\<lparr>rv_rates := AList.update src r1 (rv_rates s)\<rparr>)
              else (True, s\<lparr>rv_rates := AList.update src (r1\<lparr>rate_count := rate_count r1 + 1\<rparr>) (rv_rates s)\<rparr>))"

definition server_sweep :: "nat \<Rightarrow> RendezvousServer \<Rightarrow> RendezvousServer" where
  "server_sweep now_ms s =
     s\<lparr>rv_regs := filter (\<lambda>(_, reg). reg_expiry_ms reg > now_ms) (rv_regs s),
       rv_rates := filter (\<lambda>(_, r). now_ms - rate_window_start_ms r < RATE_WINDOW_MS) (rv_rates s),
       rv_tls_seen := filter (\<lambda>(_, t). tls_expiry_ms t > now_ms) (rv_tls_seen s)\<rparr>"

section \<open>Registration\<close>

definition register_if_fresh :: "bytes \<Rightarrow> u64 \<Rightarrow> SocketAddr \<Rightarrow> nat \<Rightarrow> RendezvousServer \<Rightarrow> bool \<times> RendezvousServer" where
  "register_if_fresh node counter src now_ms s =
     (if (case map_of (rv_regs s) node of
            Some existing \<Rightarrow> reg_expiry_ms existing > now_ms \<and> counter \<le> reg_last_counter existing
          | None \<Rightarrow> False) then (False, s)
      else if length (rv_regs s) \<ge> MAX_REGISTRATIONS \<and> map_of (rv_regs s) node = None then (False, s)
      else (True, s\<lparr>rv_regs := AList.update node
              \<lparr>reg_addr = src, reg_expiry_ms = sat_add now_ms REG_TTL_MS, reg_last_counter = counter, reg_record = None\<rparr> (rv_regs s)\<rparr>))"

definition register_if_fresh_tls :: "bytes \<Rightarrow> u64 \<Rightarrow> nat \<Rightarrow> RendezvousServer \<Rightarrow> bool \<times> RendezvousServer" where
  "register_if_fresh_tls node counter now_ms s =
     (if (case map_of (rv_tls_seen s) node of
            Some seen \<Rightarrow> tls_expiry_ms seen > now_ms \<and> counter \<le> tls_last_counter seen
          | None \<Rightarrow> False) then (False, s)
      else (True, s\<lparr>rv_tls_seen := AList.update node \<lparr>tls_last_counter = counter, tls_expiry_ms = sat_add now_ms REG_TTL_MS\<rparr> (rv_tls_seen s)\<rparr>))"

definition set_record :: "bytes \<Rightarrow> Record \<Rightarrow> RendezvousServer \<Rightarrow> RendezvousServer" where
  "set_record node rec s =
     (case map_of (rv_regs s) node of
        Some reg \<Rightarrow> s\<lparr>rv_regs := AList.update node (reg\<lparr>reg_record := Some rec\<rparr>) (rv_regs s)\<rparr>
      | None \<Rightarrow> s)"

section \<open>Messages\<close>

definition handle_admitted ::
    "(bytes \<Rightarrow> bytes \<Rightarrow> bytes \<Rightarrow> bool) \<Rightarrow> (nat \<Rightarrow> bytes \<Rightarrow> bytes) \<Rightarrow> SocketAddr \<Rightarrow> Message \<Rightarrow> nat \<Rightarrow> nat \<Rightarrow> RendezvousServer \<Rightarrow>
     ((SocketAddr \<times> Message) list \<times> RendezvousServer) exec" where
  "handle_admitted ed b2s src msg now_ms now_secs s =
     (case msg of
        Register node counter \<Rightarrow>
          Some ([], if rv_roots_cfg s \<noteq> None then s else snd (register_if_fresh node counter src now_ms s))
      | RegisterSigned rec \<Rightarrow> do {
          v \<leftarrow> verify_signed_record ed b2s rec now_secs s;
          Some ([], if \<not> v then s
                    else case register_if_fresh (r_node_id rec) (r_seq rec) src now_ms s of
                           (True, s1) \<Rightarrow> set_record (r_node_id rec) rec s1
                         | (False, s1) \<Rightarrow> s1) }
      | RegisterAuth _ _ _ \<Rightarrow> Some ([], s)
      | Lookup node \<Rightarrow>
          Some (case map_of (rv_regs s) node of
                  Some reg \<Rightarrow>
                    if reg_expiry_ms reg > now_ms
                    then [(src, PeerInfo node (reg_addr reg) (reg_record reg)), (reg_addr reg, PunchHint node src)]
                    else [(src, NotFound node)]
                | None \<Rightarrow> [(src, NotFound node)], s)
      | RelaySend sender dst pl \<Rightarrow>
          Some (case map_of (rv_regs s) dst of
                  Some reg \<Rightarrow>
                    if reg_expiry_ms reg > now_ms then ([(reg_addr reg, RelayDeliver sender pl)], record_relay_forward s) else ([], s)
                | None \<Rightarrow> ([], s))
      | PeerInfo _ _ _ \<Rightarrow> Some ([], s)
      | NotFound _ \<Rightarrow> Some ([], s)
      | PunchHint _ _ \<Rightarrow> Some ([], s)
      | RelayDeliver _ _ \<Rightarrow> Some ([], s))"

definition handle ::
    "(bytes \<Rightarrow> bytes \<Rightarrow> bytes \<Rightarrow> bool) \<Rightarrow> (nat \<Rightarrow> bytes \<Rightarrow> bytes) \<Rightarrow> SocketAddr \<Rightarrow> Message \<Rightarrow> nat \<Rightarrow> nat \<Rightarrow> RendezvousServer \<Rightarrow>
     ((SocketAddr \<times> Message) list \<times> RendezvousServer) exec" where
  "handle ed b2s src msg now_ms now_secs s =
     (case rate_ok src now_ms s of
        (False, s1) \<Rightarrow> Some ([], s1)
      | (True, s1) \<Rightarrow> handle_admitted ed b2s src msg now_ms now_secs s1)"

section \<open>Invariant\<close>

definition signed_for :: "(bytes \<Rightarrow> bytes \<Rightarrow> bytes \<Rightarrow> bool) \<Rightarrow> (nat \<Rightarrow> bytes \<Rightarrow> bytes) \<Rightarrow> RendezvousServer \<Rightarrow> bytes \<Rightarrow> Reg \<Rightarrow> bool" where
  "signed_for ed b2s s node reg \<longleftrightarrow>
     (\<exists>r t. reg_record reg = Some r \<and> r_node_id r = node \<and> r_seq r = reg_last_counter reg \<and> verify_signed_record ed b2s r t s = Some True)"

definition reg_ok :: "(bytes \<Rightarrow> bytes \<Rightarrow> bytes \<Rightarrow> bool) \<Rightarrow> (nat \<Rightarrow> bytes \<Rightarrow> bytes) \<Rightarrow> RendezvousServer \<Rightarrow> bytes \<Rightarrow> Reg \<Rightarrow> bool" where
  "reg_ok ed b2s s node reg \<longleftrightarrow> length node = 16 \<and> addr_ok (reg_addr reg) \<and> (\<forall>r. reg_record reg = Some r \<longrightarrow> framed_ok r) \<and>
     (rv_roots_cfg s \<noteq> None \<longrightarrow> signed_for ed b2s s node reg)"

definition srv_inv :: "(bytes \<Rightarrow> bytes \<Rightarrow> bytes \<Rightarrow> bool) \<Rightarrow> (nat \<Rightarrow> bytes \<Rightarrow> bytes) \<Rightarrow> RendezvousServer \<Rightarrow> bool" where
  "srv_inv ed b2s s \<longleftrightarrow> length (rv_regs s) \<le> MAX_REGISTRATIONS \<and> length (rv_rates s) \<le> MAX_RATE_ENTRIES \<and>
     distinct (map fst (rv_regs s)) \<and> distinct (map fst (rv_rates s)) \<and>
     (\<forall>src r. map_of (rv_rates s) src = Some r \<longrightarrow> rate_count r \<le> MAX_MSGS_PER_WINDOW) \<and>
     (\<forall>node reg. map_of (rv_regs s) node = Some reg \<longrightarrow> reg_ok ed b2s s node reg)"

lemma length_update: "length (AList.update k v xs) = (if map_of xs k = None then Suc (length xs) else length xs)"
  by (induction xs) auto

lemma map_of_filter_vals:
  assumes "distinct (map fst xs)"
  shows "map_of (filter (\<lambda>(k, v). P v) xs) k = (case map_of xs k of Some v \<Rightarrow> if P v then Some v else None | None \<Rightarrow> None)"
  using assms
proof (induction xs)
  case (Cons x xs)
  have "fst x \<notin> fst ` set (filter (\<lambda>(k, v). P v) xs)" using Cons(2) by auto
  then have "map_of (filter (\<lambda>(k, v). P v) xs) (fst x) = None" by (simp add: map_of_eq_None_iff)
  then show ?case using Cons by (cases x) auto
qed simp

lemma distinct_filter_keys: "distinct (map fst xs) \<Longrightarrow> distinct (map fst (filter P xs))"
  by (induction xs) auto

lemma signed_for_cong: "rv_roots_cfg s' = rv_roots_cfg s \<Longrightarrow> signed_for ed b2s s' node reg = signed_for ed b2s s node reg"
  by (simp add: signed_for_def verify_signed_record_def)

lemma reg_ok_cong:
  assumes "rv_roots_cfg s' = rv_roots_cfg s"
  shows "reg_ok ed b2s s' node reg = reg_ok ed b2s s node reg"
  using signed_for_cong [OF assms, of ed b2s node reg] assms by (simp add: reg_ok_def)

text \<open>How an admitted or a refused message changes the entry of its source.\<close>

definition window :: "SocketAddr \<Rightarrow> nat \<Rightarrow> RendezvousServer \<Rightarrow> Rate" where
  "window src now s =
     (case map_of (rv_rates s) src of
        Some r \<Rightarrow> if now - rate_window_start_ms r \<ge> RATE_WINDOW_MS then \<lparr>rate_window_start_ms = now, rate_count = 0\<rparr> else r
      | None \<Rightarrow> \<lparr>rate_window_start_ms = now, rate_count = 0\<rparr>)"

lemma rate_ok_eq:
  "rate_ok src now s =
     (if length (rv_rates s) \<ge> MAX_RATE_ENTRIES \<and> map_of (rv_rates s) src = None then (False, s)
      else if rate_count (window src now s) \<ge> MAX_MSGS_PER_WINDOW then (False, s\<lparr>rv_rates := AList.update src (window src now s) (rv_rates s)\<rparr>)
      else (True, s\<lparr>rv_rates := AList.update src ((window src now s)\<lparr>rate_count := rate_count (window src now s) + 1\<rparr>) (rv_rates s)\<rparr>))"
  by (auto simp: rate_ok_def window_def Let_def split: option.splits)

lemma rate_ok_inv:
  assumes "srv_inv ed b2s s" "rate_ok src now s = (b, s')"
  shows "srv_inv ed b2s s'" "rv_regs s' = rv_regs s" "rv_roots_cfg s' = rv_roots_cfg s" "rv_forwarded s' = rv_forwarded s"
proof -
  show same: "rv_regs s' = rv_regs s" "rv_roots_cfg s' = rv_roots_cfg s" "rv_forwarded s' = rv_forwarded s"
    using assms(2) by (auto simp: rate_ok_eq split: if_splits)
  have w: "rate_count (window src now s) \<le> MAX_MSGS_PER_WINDOW" using assms(1) by (auto simp: srv_inv_def window_def split: option.splits)
  have "length (rv_rates s') \<le> MAX_RATE_ENTRIES" using assms by (auto simp: rate_ok_eq srv_inv_def length_update split: if_splits)
  moreover have "distinct (map fst (rv_rates s'))" using assms by (auto simp: rate_ok_eq srv_inv_def distinct_update split: if_splits)
  moreover have "rate_count r \<le> MAX_MSGS_PER_WINDOW" if "map_of (rv_rates s') x = Some r" for x r
    using assms w that by (auto simp: rate_ok_eq srv_inv_def update_conv' not_le split: if_splits)
  ultimately show "srv_inv ed b2s s'" using assms(1) same(1) unfolding srv_inv_def reg_ok_cong [OF same(2)] by simp
qed

text \<open>A live registration is replaced only by one with a greater counter.\<close>

definition no_rollback :: "nat \<Rightarrow> RendezvousServer \<Rightarrow> RendezvousServer \<Rightarrow> bool" where
  "no_rollback now s s' \<longleftrightarrow> (\<forall>node reg. map_of (rv_regs s) node = Some reg \<longrightarrow> reg_expiry_ms reg > now \<longrightarrow>
     (\<exists>reg'. map_of (rv_regs s') node = Some reg' \<and> (reg' = reg \<or> reg_last_counter reg < reg_last_counter reg')))"

definition refused :: "bytes \<Rightarrow> u64 \<Rightarrow> nat \<Rightarrow> RendezvousServer \<Rightarrow> bool" where
  "refused node counter now s \<longleftrightarrow>
     (\<exists>reg. map_of (rv_regs s) node = Some reg \<and> reg_expiry_ms reg > now \<and> counter \<le> reg_last_counter reg) \<or>
     (length (rv_regs s) \<ge> MAX_REGISTRATIONS \<and> map_of (rv_regs s) node = None)"

abbreviation fresh_reg :: "SocketAddr \<Rightarrow> nat \<Rightarrow> u64 \<Rightarrow> Record option \<Rightarrow> Reg" where
  "fresh_reg src now counter rec \<equiv> \<lparr>reg_addr = src, reg_expiry_ms = sat_add now REG_TTL_MS, reg_last_counter = counter, reg_record = rec\<rparr>"

lemma register_eq:
  "register_if_fresh node counter src now s =
     (if refused node counter now s then (False, s) else (True, s\<lparr>rv_regs := AList.update node (fresh_reg src now counter None) (rv_regs s)\<rparr>))"
  by (auto simp: register_if_fresh_def refused_def split: option.splits)

text \<open>A registration enters one entry.\<close>

definition entered :: "bytes \<Rightarrow> Reg \<Rightarrow> RendezvousServer \<Rightarrow> RendezvousServer \<Rightarrow> bool" where
  "entered node reg s s' \<longleftrightarrow> map_of (rv_regs s') = (map_of (rv_regs s))(node \<mapsto> reg) \<and> distinct (map fst (rv_regs s')) \<and>
     length (rv_regs s') \<le> MAX_REGISTRATIONS \<and> rv_rates s' = rv_rates s \<and> rv_roots_cfg s' = rv_roots_cfg s"

lemma entered_inv:
  assumes "srv_inv ed b2s s" "entered node reg s s'" "reg_ok ed b2s s node reg"
  shows "srv_inv ed b2s s'"
proof -
  have "rv_roots_cfg s' = rv_roots_cfg s" using assms(2) by (simp add: entered_def)
  note c = reg_ok_cong [OF this, of ed b2s]
  show ?thesis using assms unfolding srv_inv_def entered_def c by simp
qed

lemma entered_no_rollback:
  assumes "entered node reg s s'" "\<not> refused node (reg_last_counter reg) now s"
  shows "no_rollback now s s'"
  using assms by (auto simp: no_rollback_def entered_def refused_def not_le)

lemma register_entered:
  assumes "srv_inv ed b2s s" "\<not> refused node counter now s"
  shows "entered node (fresh_reg src now counter None) s (snd (register_if_fresh node counter src now s))"
    "entered node (fresh_reg src now counter (Some r)) s (set_record node r (snd (register_if_fresh node counter src now s)))"
proof -
  have "length (rv_regs s) < MAX_REGISTRATIONS \<or> map_of (rv_regs s) node \<noteq> None" "length (rv_regs s) \<le> MAX_REGISTRATIONS" "distinct (map fst (rv_regs s))"
    using assms by (auto simp: srv_inv_def refused_def)
  then show "entered node (fresh_reg src now counter None) s (snd (register_if_fresh node counter src now s))"
    "entered node (fresh_reg src now counter (Some r)) s (set_record node r (snd (register_if_fresh node counter src now s)))"
    using assms(2) by (auto simp: register_eq entered_def set_record_def update_conv' length_update distinct_update)
qed

lemma no_rollback_refl: "rv_regs s' = rv_regs s \<Longrightarrow> no_rollback now s s'"
  by (simp add: no_rollback_def)

lemma verify_signed_total:
  assumes "framed_ok rec"
  shows "verify_signed_record ed b2s rec now_secs s \<noteq> None"
proof (cases "rv_roots_cfg s")
  case (Some c)
  obtain cas net where "c = (cas, net)" by (cases c)
  moreover have "record_ok rec" using assms by (simp add: framed_ok_def)
  from record_verify_total [OF this, of ed b2s cas net now_secs REGISTRATION_SKEW_SECS] obtain v
    where "record_verify ed b2s rec cas net now_secs REGISTRATION_SKEW_SECS = Some v" by blast
  ultimately show ?thesis using Some by (simp add: verify_signed_record_def Let_def)
qed (simp add: verify_signed_record_def)

lemma handle_admitted_inv:
  assumes "srv_inv ed b2s s" "addr_ok src" "msg_ok msg"
  shows "\<exists>out s'. handle_admitted ed b2s src msg now now_secs s = Some (out, s') \<and> srv_inv ed b2s s' \<and> no_rollback now s s' \<and>
    rv_roots_cfg s' = rv_roots_cfg s \<and> (\<forall>(dst, m) \<in> set out. addr_ok dst \<and> msg_ok m)"
proof (cases msg)
  case (Register node counter)
  show ?thesis
  proof (cases "rv_roots_cfg s \<noteq> None \<or> refused node counter now s")
    case True
    then show ?thesis using assms(1) Register no_rollback_refl [of s s] by (auto simp: handle_admitted_def register_eq)
  next
    case False
    let ?s = "snd (register_if_fresh node counter src now s)"
    have e: "entered node (fresh_reg src now counter None) s ?s" using register_entered(1) [OF assms(1)] False by blast
    have "reg_ok ed b2s s node (fresh_reg src now counter None)" using assms(2,3) Register False by (simp add: reg_ok_def)
    from entered_inv [OF assms(1) e this] entered_no_rollback [OF e, of now] e False show ?thesis
      using Register by (auto simp: handle_admitted_def entered_def)
  qed
next
  case (RegisterSigned rec)
  have ok: "framed_ok rec" using assms(3) RegisterSigned by simp
  obtain v where v: "verify_signed_record ed b2s rec now_secs s = Some v"
    using verify_signed_total [OF ok] by (metis option.exhaust)
  show ?thesis
  proof (cases "\<not> v \<or> refused (r_node_id rec) (r_seq rec) now s")
    case True
    then show ?thesis using assms(1) RegisterSigned v no_rollback_refl [of s s] by (auto simp: handle_admitted_def register_eq)
  next
    case False
    let ?s = "set_record (r_node_id rec) rec (snd (register_if_fresh (r_node_id rec) (r_seq rec) src now s))"
    have e: "entered (r_node_id rec) (fresh_reg src now (r_seq rec) (Some rec)) s ?s" using register_entered(2) [OF assms(1)] False by blast
    have "reg_ok ed b2s s (r_node_id rec) (fresh_reg src now (r_seq rec) (Some rec))"
      using assms(2) ok v False by (auto simp: reg_ok_def signed_for_def framed_ok_def record_ok_def)
    from entered_inv [OF assms(1) e this] entered_no_rollback [OF e, of now] e False show ?thesis
      using RegisterSigned v by (auto simp: handle_admitted_def entered_def register_eq)
  qed
next
  case (Lookup node)
  have "reg_ok ed b2s s node reg" if "map_of (rv_regs s) node = Some reg" for reg using assms(1) that by (simp add: srv_inv_def)
  then show ?thesis using assms Lookup no_rollback_refl [of s s]
    by (auto simp: handle_admitted_def reg_ok_def split: option.splits)
next
  case (RelaySend sender dst pl)
  have "reg_ok ed b2s s dst reg" if "map_of (rv_regs s) dst = Some reg" for reg using assms(1) that by (simp add: srv_inv_def)
  moreover have "rv_roots_cfg (record_relay_forward s) = rv_roots_cfg s" by (simp add: record_relay_forward_def)
  from reg_ok_cong [OF this] have "srv_inv ed b2s (record_relay_forward s)" using assms(1)
    by (simp add: srv_inv_def) (simp add: record_relay_forward_def)
  ultimately show ?thesis using assms RelaySend no_rollback_refl [of s s] no_rollback_refl [of "record_relay_forward s" s]
    by (auto simp: handle_admitted_def reg_ok_def record_relay_forward_def split: option.splits)
qed (use assms(1) no_rollback_refl [of s s] in \<open>simp_all add: handle_admitted_def\<close>)

section \<open>Reachable servers\<close>

inductive srv_reach :: "(bytes \<Rightarrow> bytes \<Rightarrow> bytes \<Rightarrow> bool) \<Rightarrow> (nat \<Rightarrow> bytes \<Rightarrow> bytes) \<Rightarrow> RendezvousServer \<Rightarrow> bool" for ed b2s where
  rootless: "srv_reach ed b2s server_new"
| rooted: "srv_reach ed b2s (new_with_roots cas net)"
| handled: "srv_reach ed b2s s \<Longrightarrow> addr_ok src \<Longrightarrow> msg_ok msg \<Longrightarrow> handle ed b2s src msg now now_secs s = Some (out, s') \<Longrightarrow> srv_reach ed b2s s'"
| swept: "srv_reach ed b2s s \<Longrightarrow> srv_reach ed b2s (server_sweep now s)"
| tls: "srv_reach ed b2s s \<Longrightarrow> register_if_fresh_tls node counter now s = (b, s') \<Longrightarrow> srv_reach ed b2s s'"
| forwarded: "srv_reach ed b2s s \<Longrightarrow> srv_reach ed b2s (record_relay_forward s)"

lemma handle_inv:
  assumes "srv_inv ed b2s s" "addr_ok src" "msg_ok msg"
  shows "\<exists>out s'. handle ed b2s src msg now now_secs s = Some (out, s') \<and> srv_inv ed b2s s' \<and> no_rollback now s s' \<and>
    rv_roots_cfg s' = rv_roots_cfg s \<and> (\<forall>(dst, m) \<in> set out. addr_ok dst \<and> msg_ok m)"
proof -
  obtain b s1 where r: "rate_ok src now s = (b, s1)" by fastforce
  note f = rate_ok_inv [OF assms(1) r]
  have nr: "no_rollback now s1 s' \<Longrightarrow> no_rollback now s s'" for s' by (simp add: no_rollback_def f(2))
  show ?thesis
  proof (cases b)
    case True
    with handle_admitted_inv [OF f(1) assms(2,3), of now now_secs] r f(3) nr show ?thesis by (fastforce simp: handle_def)
  next
    case False
    then show ?thesis using r f nr [of s1] no_rollback_refl [of s1 s1] by (simp add: handle_def)
  qed
qed

lemma srv_inv_regs:
  assumes "srv_inv ed b2s s" "rv_regs s' = rv_regs s" "rv_rates s' = rv_rates s" "rv_roots_cfg s' = rv_roots_cfg s"
  shows "srv_inv ed b2s s'"
  using assms(1-3) unfolding srv_inv_def reg_ok_cong [OF assms(4)] by simp

lemma server_sweep_inv:
  assumes "srv_inv ed b2s s"
  shows "srv_inv ed b2s (server_sweep now s)"
proof -
  let ?s = "server_sweep now s"
  have c: "rv_roots_cfg ?s = rv_roots_cfg s" by (simp add: server_sweep_def)
  have d: "distinct (map fst (rv_regs s))" "distinct (map fst (rv_rates s))" using assms by (simp_all add: srv_inv_def)
  have len: "length (rv_regs ?s) \<le> length (rv_regs s)" "length (rv_rates ?s) \<le> length (rv_rates s)" by (simp_all add: server_sweep_def)
  have "map_of (rv_regs ?s) k = Some reg \<Longrightarrow> map_of (rv_regs s) k = Some reg" for k reg
    using map_of_filter_vals [OF d(1), of "\<lambda>reg. reg_expiry_ms reg > now" k] by (auto simp: server_sweep_def split: option.splits if_splits)
  moreover have "map_of (rv_rates ?s) k = Some r \<Longrightarrow> map_of (rv_rates s) k = Some r" for k r
    using map_of_filter_vals [OF d(2), of "\<lambda>r. now - rate_window_start_ms r < RATE_WINDOW_MS" k] by (auto simp: server_sweep_def split: option.splits if_splits)
  moreover have "distinct (map fst (rv_regs ?s))" "distinct (map fst (rv_rates ?s))" using d by (simp_all add: server_sweep_def distinct_filter_keys)
  ultimately show ?thesis using assms len unfolding srv_inv_def reg_ok_cong [OF c] by (meson order_trans)
qed

lemma srv_reach_inv: "srv_reach ed b2s s \<Longrightarrow> srv_inv ed b2s s"
proof (induction rule: srv_reach.induct)
  case rootless
  then show ?case by (simp add: srv_inv_def server_new_def)
next
  case (rooted cas net)
  then show ?case by (simp add: srv_inv_def new_with_roots_def)
next
  case (handled s src msg now now_secs out s')
  then show ?case using handle_inv [OF handled(5,2,3), of now now_secs] by auto
next
  case (swept s now)
  then show ?case by (intro server_sweep_inv)
next
  case (tls s node counter now b s')
  have "rv_regs s' = rv_regs s" "rv_rates s' = rv_rates s" "rv_roots_cfg s' = rv_roots_cfg s"
    using tls(2) unfolding register_if_fresh_tls_def by (auto split: if_splits)
  with tls(3) show ?case by (rule srv_inv_regs)
next
  case (forwarded s)
  show ?case by (rule srv_inv_regs [OF forwarded(2)]) (simp_all add: record_relay_forward_def)
qed

section \<open>Rate limit\<close>

fun admitted :: "SocketAddr \<Rightarrow> (SocketAddr \<times> nat) list \<Rightarrow> RendezvousServer \<Rightarrow> nat" where
  "admitted src [] s = 0"
| "admitted src ((a, t) # evs) s =
     (case rate_ok a t s of (b, s') \<Rightarrow> (if b \<and> a = src then 1 else 0) + admitted src evs s')"

lemma window_other: "rate_ok a t s = (b, s') \<Longrightarrow> a \<noteq> src \<Longrightarrow> map_of (rv_rates s') src = map_of (rv_rates s) src"
  by (auto simp: rate_ok_eq update_conv' split: if_splits)

lemma admitted_in_window:
  assumes "map_of (rv_rates s) src = Some r" "rate_count r \<le> MAX_MSGS_PER_WINDOW" "\<forall>(a, t) \<in> set evs. t - rate_window_start_ms r < RATE_WINDOW_MS"
  shows "admitted src evs s \<le> MAX_MSGS_PER_WINDOW - rate_count r"
  using assms
proof (induction evs arbitrary: s r)
  case (Cons e evs)
  obtain a t where e: "e = (a, t)" by (cases e)
  obtain b s' where s': "rate_ok a t s = (b, s')" by fastforce
  show ?case
  proof (cases "a = src")
    case False
    then have "map_of (rv_rates s') src = Some r" using window_other [OF s' False] Cons(2) by simp
    from Cons(1) [OF this Cons(3)] Cons(4) False show ?thesis by (simp add: e s')
  next
    case True
    have w: "window src t s = r" using Cons(2,4) e by (auto simp: window_def)
    let ?r = "if b then r\<lparr>rate_count := rate_count r + 1\<rparr> else r"
    have b: "b \<longleftrightarrow> rate_count r < MAX_MSGS_PER_WINDOW" "map_of (rv_rates s') src = Some ?r"
      using s' Cons(2,3) True w by (auto simp: rate_ok_eq update_conv' split: if_splits)
    then have "admitted src evs s' \<le> MAX_MSGS_PER_WINDOW - rate_count ?r" using Cons(1) [OF b(2)] Cons(3,4) by auto
    then show ?thesis using b(1) True s' by (auto simp: e)
  qed
qed simp

lemma admitted_bound:
  assumes "\<forall>src r. map_of (rv_rates s) src = Some r \<longrightarrow> rate_count r \<le> MAX_MSGS_PER_WINDOW"
    and "\<forall>(a, t) \<in> set evs. \<forall>(a', t') \<in> set evs. t' - t < RATE_WINDOW_MS"
  shows "admitted src evs s \<le> (MAX_MSGS_PER_WINDOW - (case map_of (rv_rates s) src of Some r \<Rightarrow> rate_count r | None \<Rightarrow> MAX_MSGS_PER_WINDOW)) + MAX_MSGS_PER_WINDOW"
  using assms
proof (induction evs arbitrary: s)
  case (Cons e evs)
  obtain a t where e: "e = (a, t)" by (cases e)
  obtain b s' where s': "rate_ok a t s = (b, s')" by fastforce
  let ?w = "window a t s"
  have w: "rate_count ?w \<le> MAX_MSGS_PER_WINDOW" using Cons(2) by (auto simp: window_def split: option.splits)
  have inv: "\<forall>x r. map_of (rv_rates s') x = Some r \<longrightarrow> rate_count r \<le> MAX_MSGS_PER_WINDOW"
    using s' Cons(2) w by (auto simp: rate_ok_eq update_conv' not_le split: if_splits)
  have IH: "admitted src evs s' \<le> (MAX_MSGS_PER_WINDOW - (case map_of (rv_rates s') src of Some r \<Rightarrow> rate_count r | None \<Rightarrow> MAX_MSGS_PER_WINDOW)) + MAX_MSGS_PER_WINDOW"
    by (rule Cons(1) [OF inv]) (use Cons(3) in force)
  show ?case
  proof (cases "a = src")
    case False
    then show ?thesis using IH window_other [OF s' False] by (simp add: e s')
  next
    case True
    have full: "s' = s" "\<not> b" if "MAX_RATE_ENTRIES \<le> length (rv_rates s)" "map_of (rv_rates s) src = None" using that s' True by (auto simp: rate_ok_eq)
    have b: "b \<longleftrightarrow> rate_count ?w < MAX_MSGS_PER_WINDOW" "map_of (rv_rates s') src = Some (if b then ?w\<lparr>rate_count := rate_count ?w + 1\<rparr> else ?w)"
      if "\<not> (MAX_RATE_ENTRIES \<le> length (rv_rates s) \<and> map_of (rv_rates s) src = None)"
      using s' True that by (auto simp: rate_ok_eq update_conv' split: if_splits)
    consider (full) "MAX_RATE_ENTRIES \<le> length (rv_rates s)" "map_of (rv_rates s) src = None"
      | (old) r where "map_of (rv_rates s) src = Some r" "?w = r" "\<not> (MAX_RATE_ENTRIES \<le> length (rv_rates s) \<and> map_of (rv_rates s) src = None)"
      | (new) "?w = \<lparr>rate_window_start_ms = t, rate_count = 0\<rparr>" "\<not> (MAX_RATE_ENTRIES \<le> length (rv_rates s) \<and> map_of (rv_rates s) src = None)"
      using True unfolding window_def by (cases "map_of (rv_rates s) src") (force split: if_splits)+
    then show ?thesis
    proof cases
      case full
      then show ?thesis using IH \<open>MAX_RATE_ENTRIES \<le> length (rv_rates s) \<Longrightarrow> map_of (rv_rates s) src = None \<Longrightarrow> s' = s\<close> s' True
        by (auto simp: e rate_ok_eq)
    next
      case (old r)
      then show ?thesis using b [OF old(3)] IH True w s' by (auto simp: e split: if_splits)
    next
      case new
      let ?r = "if b then ?w\<lparr>rate_count := rate_count ?w + 1\<rparr> else ?w"
      have bt: "b" using b(1) [OF new(2)] new(1) by (simp add: MAX_MSGS_PER_WINDOW_def)
      have "\<forall>(a', t') \<in> set evs. t' - rate_window_start_ms ?r < RATE_WINDOW_MS" using Cons(3) e new(1) by fastforce
      from admitted_in_window [OF b(2) [OF new(2)] _ this] new(1) bt have "admitted src evs s' \<le> MAX_MSGS_PER_WINDOW - 1"
        by (auto simp: MAX_MSGS_PER_WINDOW_def)
      then show ?thesis using s' True by (auto simp: e MAX_MSGS_PER_WINDOW_def)
    qed
  qed
qed simp

text \<open>The messages of a source that have an effect in a run of the server: a reply, a forwarded packet, or a change
  to anything but the rate table itself.\<close>

definition has_effect :: "(SocketAddr \<times> Message) list \<Rightarrow> RendezvousServer \<Rightarrow> RendezvousServer \<Rightarrow> bool" where
  "has_effect out s s' \<longleftrightarrow> out \<noteq> [] \<or> s'\<lparr>rv_rates := rv_rates s\<rparr> \<noteq> s"

fun worked ::
    "(bytes \<Rightarrow> bytes \<Rightarrow> bytes \<Rightarrow> bool) \<Rightarrow> (nat \<Rightarrow> bytes \<Rightarrow> bytes) \<Rightarrow> SocketAddr \<Rightarrow> (SocketAddr \<times> Message \<times> nat \<times> nat) list \<Rightarrow> RendezvousServer \<Rightarrow> nat exec" where
  "worked ed b2s src [] s = Some 0"
| "worked ed b2s src ((a, msg, t, w) # evs) s = do {
     (out, s') \<leftarrow> handle ed b2s a msg t w s;
     n \<leftarrow> worked ed b2s src evs s';
     Some ((if a = src \<and> has_effect out s s' then 1 else 0) + n) }"

lemma rate_ok_rates: "rv_rates s = rv_rates u \<Longrightarrow> fst (rate_ok a t s) = fst (rate_ok a t u) \<and> rv_rates (snd (rate_ok a t s)) = rv_rates (snd (rate_ok a t u))"
  by (simp add: rate_ok_eq window_def)

lemma admitted_cong: "rv_rates s = rv_rates u \<Longrightarrow> admitted src evs s = admitted src evs u"
proof (induction src evs s arbitrary: u rule: admitted.induct)
  case (2 src a t evs s)
  have "admitted src evs (snd (rate_ok a t s)) = admitted src evs (snd (rate_ok a t u))"
    by (rule 2(1) [OF prod.collapse]) (use rate_ok_rates [OF 2(2)] in simp)
  then show ?case using rate_ok_rates [OF 2(2), of a t] by (simp add: case_prod_beta)
qed simp

lemma handle_admitted_rates: "handle_admitted ed b2s src msg now w s = Some (out, s') \<Longrightarrow> rv_rates s' = rv_rates s"
  by (auto simp: handle_admitted_def register_eq set_record_def record_relay_forward_def bind_eq_Some_conv split: Message.splits option.splits if_splits)

lemma handle_refused:
  "handle ed b2s a msg t w s = Some (out, s') \<Longrightarrow> \<not> fst (rate_ok a t s) \<Longrightarrow> \<not> has_effect out s s'"
  by (auto simp: handle_def has_effect_def rate_ok_eq split: if_splits prod.splits bool.splits)

lemma worked_admitted:
  assumes "worked ed b2s src evs s = Some n"
  shows "n \<le> admitted src (map (\<lambda>(a, msg, t, w). (a, t)) evs) s"
  using assms
proof (induction evs arbitrary: s n)
  case (Cons e evs)
  obtain a msg t w where e: "e = (a, msg, t, w)" by (cases e)
  obtain out s' m where h: "handle ed b2s a msg t w s = Some (out, s')" "worked ed b2s src evs s' = Some m"
    "n = (if a = src \<and> has_effect out s s' then 1 else 0) + m"
    using Cons(2) by (auto simp: e bind_eq_Some_conv)
  have "rv_rates s' = rv_rates (snd (rate_ok a t s))"
    using h(1) handle_admitted_rates by (fastforce simp: handle_def split: prod.splits bool.splits)
  from Cons(1) [OF h(2)] admitted_cong [OF this] have
    m: "m \<le> admitted src (map (\<lambda>(a, msg, t, w). (a, t)) evs) (snd (rate_ok a t s))" by simp
  obtain b s1 where r: "rate_ok a t s = (b, s1)" by fastforce
  show ?case using m h(3) handle_refused [OF h(1)] by (auto simp: e r)
qed simp

lemma worked_total:
  assumes "srv_inv ed b2s s" "\<forall>(a, msg, t, w) \<in> set evs. addr_ok a \<and> msg_ok msg"
  shows "\<exists>n. worked ed b2s src evs s = Some n"
  using assms
proof (induction evs arbitrary: s)
  case (Cons e evs)
  obtain a msg t w where e: "e = (a, msg, t, w)" by (cases e)
  then have ok: "addr_ok a" "msg_ok msg" "\<forall>(a, msg, t, w) \<in> set evs. addr_ok a \<and> msg_ok msg" using Cons(3) by auto
  obtain out s' where h: "handle ed b2s a msg t w s = Some (out, s')" "srv_inv ed b2s s'"
    using handle_inv [OF Cons(2) ok(1,2), of t w] by blast
  obtain m where "worked ed b2s src evs s' = Some m" using Cons(1) [OF h(2) ok(3)] by blast
  then show ?case using h(1) by (simp add: e)
qed simp

text \<open>C13: the rate limit. However the messages of many sources interleave, and whatever they ask for, the server
  processes them without a panic, and of the messages one source sends within a second at most two windows' worth,
  128, have any effect but to be counted, a reply, a forwarded packet or a registration, and at most 64 when the
  server did not track the source before. A message is processed in full as long as the server has room to
  track its source and the source's window counts fewer than 64.\<close>

theorem rdv_rate_limit:
  assumes "srv_reach ed b2s s" "\<forall>(a, msg, t, w) \<in> set evs. addr_ok a \<and> msg_ok msg"
    and "\<forall>(a, msg, t, w) \<in> set evs. \<forall>(a', msg', t', w') \<in> set evs. t' - t < RATE_WINDOW_MS"
  shows "(\<exists>n. worked ed b2s src evs s = Some n \<and> n \<le> 2 * MAX_MSGS_PER_WINDOW \<and> (map_of (rv_rates s) src = None \<longrightarrow> n \<le> MAX_MSGS_PER_WINDOW)) \<and>
    (\<forall>msg t w. (map_of (rv_rates s) src \<noteq> None \<or> length (rv_rates s) < MAX_RATE_ENTRIES) \<longrightarrow> rate_count (window src t s) < MAX_MSGS_PER_WINDOW \<longrightarrow>
       (\<exists>rs. handle ed b2s src msg t w s = handle_admitted ed b2s src msg t w (s\<lparr>rv_rates := rs\<rparr>)))"
proof -
  let ?evs = "map (\<lambda>(a, msg, t, w). (a, t)) evs"
  have inv: "srv_inv ed b2s s" by (rule srv_reach_inv [OF assms(1)])
  obtain n where n: "worked ed b2s src evs s = Some n" using worked_total [OF inv assms(2)] by blast
  have "\<forall>(a, t) \<in> set ?evs. \<forall>(a', t') \<in> set ?evs. t' - t < RATE_WINDOW_MS" using assms(3) by fastforce
  moreover have "\<forall>src r. map_of (rv_rates s) src = Some r \<longrightarrow> rate_count r \<le> MAX_MSGS_PER_WINDOW"
    using inv by (simp add: srv_inv_def)
  ultimately have "admitted src ?evs s \<le> (MAX_MSGS_PER_WINDOW - (case map_of (rv_rates s) src of Some r \<Rightarrow> rate_count r | None \<Rightarrow> MAX_MSGS_PER_WINDOW)) + MAX_MSGS_PER_WINDOW"
    by (intro admitted_bound)
  then have "n \<le> 2 * MAX_MSGS_PER_WINDOW \<and> (map_of (rv_rates s) src = None \<longrightarrow> n \<le> MAX_MSGS_PER_WINDOW)"
    using worked_admitted [OF n] by auto
  moreover have "\<exists>rs. handle ed b2s src msg t w s = handle_admitted ed b2s src msg t w (s\<lparr>rv_rates := rs\<rparr>)"
    if "map_of (rv_rates s) src \<noteq> None \<or> length (rv_rates s) < MAX_RATE_ENTRIES" "rate_count (window src t s) < MAX_MSGS_PER_WINDOW" for msg t w
    using that by (auto simp: handle_def rate_ok_eq)
  ultimately show ?thesis using n by (intro conjI exI [of _ n] allI impI) simp_all
qed

theorem rdv_rate_limit_witness:
  "\<exists>n. worked (\<lambda>_ _ _. True) (\<lambda>_ _. []) (SocketV4 [10, 0, 0, 1] 7)
     (replicate 100 (SocketV4 [10, 0, 0, 1] 7, Lookup (replicate 16 1), 5000, 0)) server_new = Some n \<and> n \<le> 64"
  using rdv_rate_limit [OF srv_reach.rootless, of "replicate 100 (SocketV4 [10, 0, 0, 1] 7, Lookup (replicate 16 1), 5000, 0)"]
  by (fastforce simp: RATE_WINDOW_MS_def MAX_MSGS_PER_WINDOW_def server_new_def)

text \<open>C12: the server is safe. Whatever decoded messages arrive, from whatever sources, it never panics and stays within its
  tables; a live registration is replaced only by one with a greater counter; and a server with trust anchors only ever
  files a node under a record that names the node and was verified against those anchors.\<close>

theorem rdv_server_safe:
  assumes "srv_reach ed b2s s" "addr_ok src" "msg_ok msg"
  shows "\<exists>out s'. handle ed b2s src msg now now_secs s = Some (out, s') \<and>
     length (rv_regs s') \<le> MAX_REGISTRATIONS \<and> length (rv_rates s') \<le> MAX_RATE_ENTRIES \<and>
     (\<forall>node reg. map_of (rv_regs s) node = Some reg \<longrightarrow> reg_expiry_ms reg > now \<longrightarrow>
        (\<exists>reg'. map_of (rv_regs s') node = Some reg' \<and> (reg' = reg \<or> reg_last_counter reg < reg_last_counter reg'))) \<and>
     (rv_roots_cfg s \<noteq> None \<longrightarrow> (\<forall>node reg. map_of (rv_regs s') node = Some reg \<longrightarrow>
        (\<exists>r t. reg_record reg = Some r \<and> r_node_id r = node \<and> r_seq r = reg_last_counter reg \<and> verify_signed_record ed b2s r t s' = Some True))) \<and>
     (\<forall>(dst, m) \<in> set out. addr_ok dst \<and> msg_ok m)"
proof -
  from handle_inv [OF srv_reach_inv [OF assms(1)] assms(2,3), of now now_secs] obtain out s'
    where s': "handle ed b2s src msg now now_secs s = Some (out, s')" and inv: "srv_inv ed b2s s'" and nr: "no_rollback now s s'"
      and c: "rv_roots_cfg s' = rv_roots_cfg s" and out: "\<forall>(dst, m) \<in> set out. addr_ok dst \<and> msg_ok m" by blast
  have "signed_for ed b2s s' node reg" if "rv_roots_cfg s \<noteq> None" "map_of (rv_regs s') node = Some reg" for node reg
    using inv that c unfolding srv_inv_def reg_ok_def by metis
  then show ?thesis using s' inv nr out unfolding srv_inv_def no_rollback_def signed_for_def by blast
qed

theorem rdv_server_safe_witness:
  "\<exists>out s'. handle (\<lambda>_ _ _. True) (\<lambda>_ _. []) (SocketV4 [10, 0, 0, 1] 7) (Lookup (replicate 16 1)) 5000 0 (new_with_roots [] []) = Some (out, s') \<and>
     length (rv_regs s') \<le> 65536"
  using rdv_server_safe [OF srv_reach.rooted, of "SocketV4 [10, 0, 0, 1] 7" "Lookup (replicate 16 1)"]
  by (fastforce simp: MAX_REGISTRATIONS_def)

end
