(* ===== verification/Tls_Frame.thy ===== *)
theory Tls_Frame
  imports Codecs
begin

text \<open>
  The length-prefixed datagrams of the TLS transports, \<^verbatim>\<open>bin/yipd/src/tls.rs\<close>: \<^verbatim>\<open>frame_datagram\<close>, the
  \<^verbatim>\<open>FrameReader\<close> that cuts a byte stream back into datagrams, and the choice of who connects to whom. An \<^verbatim>\<open>io::Error\<close> is
  a value of the left summand.
\<close>

section \<open>Frames\<close>

definition MAX_WIRE_DATAGRAM :: nat where "MAX_WIRE_DATAGRAM = 2048"

definition TLS_FRAME_MAX :: nat where "TLS_FRAME_MAX = MAX_WIRE_DATAGRAM"

datatype IoError = InvalidInput | InvalidData

definition frame_datagram :: "bytes \<Rightarrow> bytes \<Rightarrow> IoError + bytes" where
  "frame_datagram dg out =
     (if length dg \<le> 65535 \<and> length dg \<le> TLS_FRAME_MAX then Inr (out @ be16 (of_nat (length dg)) @ dg) else Inl InvalidInput)"

record FrameReader =
  fr_buf :: bytes

definition fr_push :: "bytes \<Rightarrow> FrameReader \<Rightarrow> FrameReader" where
  "fr_push bs r = r\<lparr>fr_buf := fr_buf r @ bs\<rparr>"

definition fr_next :: "FrameReader \<Rightarrow> IoError + (bytes option \<times> FrameReader)" where
  "fr_next r =
     (if length (fr_buf r) < 2 then Inr (None, r)
      else let len = unat (un16 (take 2 (fr_buf r)))
           in if len = 0 \<or> len > TLS_FRAME_MAX then Inl InvalidData
              else if length (fr_buf r) < 2 + len then Inr (None, r)
              else Inr (Some (take len (drop 2 (fr_buf r))), r\<lparr>fr_buf := drop (2 + len) (fr_buf r)\<rparr>))"

section \<open>Roles\<close>

datatype Role = Client | Server

definition connection_role :: "bytes \<Rightarrow> bytes \<Rightarrow> IoError + Role" where
  "connection_role local_pub peer_pub =
     (if lex_less local_pub peer_pub then Inr Client else if local_pub = peer_pub then Inl InvalidInput else Inr Server)"

fun assign_peer_roles :: "bytes \<Rightarrow> (bytes \<times> 'addr) list \<Rightarrow> IoError + (bytes \<times> 'addr \<times> Role) list" where
  "assign_peer_roles local_pub [] = Inr []"
| "assign_peer_roles local_pub ((peer_pub, addr) # ps) =
     (case connection_role local_pub peer_pub of
        Inl e \<Rightarrow> Inl e
      | Inr role \<Rightarrow> (case assign_peer_roles local_pub ps of Inl e \<Rightarrow> Inl e | Inr rs \<Rightarrow> Inr ((peer_pub, addr, role) # rs)))"

section \<open>Streams\<close>

text \<open>What a connection does with a chunk: it is pushed, and datagrams are popped until none is complete.\<close>

function pull :: "FrameReader \<Rightarrow> IoError + (bytes list \<times> FrameReader)" where
  "pull r =
     (case fr_next r of
        Inl e \<Rightarrow> Inl e
      | Inr (None, r') \<Rightarrow> Inr ([], r')
      | Inr (Some dg, r') \<Rightarrow> (case pull r' of Inl e \<Rightarrow> Inl e | Inr (dgs, r'') \<Rightarrow> Inr (dg # dgs, r'')))"
  by auto
termination
  by (relation "measure (\<lambda>r. length (fr_buf r))") (auto simp: fr_next_def Let_def split: if_splits)

fun feed :: "bytes list \<Rightarrow> FrameReader \<Rightarrow> IoError + (bytes list \<times> FrameReader)" where
  "feed [] r = Inr ([], r)"
| "feed (c # cs) r =
     (case pull (fr_push c r) of
        Inl e \<Rightarrow> Inl e
      | Inr (dgs, r') \<Rightarrow> (case feed cs r' of Inl e \<Rightarrow> Inl e | Inr (more_dgs, r'') \<Rightarrow> Inr (dgs @ more_dgs, r'')))"

declare pull.simps [simp del]

definition framed_dg :: "bytes \<Rightarrow> bytes" where
  "framed_dg dg = be16 (of_nat (length dg)) @ dg"

definition frameable :: "bytes \<Rightarrow> bool" where
  "frameable dg \<longleftrightarrow> 0 < length dg \<and> length dg \<le> TLS_FRAME_MAX"

lemma frame_len: "frameable dg \<Longrightarrow> unat (of_nat (length dg) :: u16) = length dg"
  by (simp add: frameable_def TLS_FRAME_MAX_def MAX_WIRE_DATAGRAM_def unat_of_nat)

lemma frame_datagram_eq: "frameable dg \<Longrightarrow> frame_datagram dg out = Inr (out @ framed_dg dg)"
  by (simp add: frame_datagram_def frameable_def framed_dg_def TLS_FRAME_MAX_def MAX_WIRE_DATAGRAM_def)

lemma pull_frame:
  assumes "frameable dg"
  shows "pull \<lparr>fr_buf = framed_dg dg @ rest\<rparr> = (case pull \<lparr>fr_buf = rest\<rparr> of Inl e \<Rightarrow> Inl e | Inr (dgs, r) \<Rightarrow> Inr (dg # dgs, r))"
  using assms frame_len [OF assms] by (subst pull.simps) (simp add: fr_next_def framed_dg_def Let_def codec_simps frameable_def)

lemma append_splits:
  assumes "x @ y = p @ q" "length x \<le> length p"
  obtains r where "p = x @ r" "y = r @ q"
  using assms by (auto simp: append_eq_append_conv_if intro!: that [of "drop (length x) p"]) (metis append_take_drop_id)

text \<open>A proper prefix of a frame yields nothing and no error.\<close>

lemma pull_partial:
  assumes "frameable dg" "framed_dg dg = p @ q" "q \<noteq> []"
  shows "pull \<lparr>fr_buf = p\<rparr> = Inr ([], \<lparr>fr_buf = p\<rparr>)"
proof (cases "length p < 2")
  case False
  then obtain p' where p: "p = be16 (of_nat (length dg)) @ p'" "dg = p' @ q"
    using append_splits [of "be16 (of_nat (length dg))" dg p q] assms(2) by (auto simp: framed_dg_def codec_simps)
  then show ?thesis using frame_len [OF assms(1)] assms(1,3)
    by (subst pull.simps) (simp add: fr_next_def Let_def codec_simps frameable_def)
qed (simp add: pull.simps fr_next_def)

text \<open>A prefix of a stream of frames ends between two frames or inside one.\<close>

lemma prefix_frames:
  assumes "\<forall>dg \<in> set dgs. frameable dg" "p @ q = concat (map framed_dg dgs)"
  shows "\<exists>n r. n \<le> length dgs \<and> p = concat (map framed_dg (take n dgs)) @ r \<and> r @ q = concat (map framed_dg (drop n dgs)) \<and>
    pull \<lparr>fr_buf = r\<rparr> = Inr ([], \<lparr>fr_buf = r\<rparr>)"
  using assms
proof (induction dgs arbitrary: p)
  case Nil
  then show ?case by (simp add: pull.simps fr_next_def)
next
  case (Cons dg dgs)
  show ?case
  proof (cases "length (framed_dg dg) \<le> length p")
    case True
    then obtain p' where p: "p = framed_dg dg @ p'" "p' @ q = concat (map framed_dg dgs)"
      using append_splits [of "framed_dg dg" "concat (map framed_dg dgs)" p q] Cons(3) by (metis concat.simps(2) list.simps(9))
    from Cons(1) [OF _ p(2)] Cons(2) obtain n r where n: "n \<le> length dgs" "p' = concat (map framed_dg (take n dgs)) @ r"
      "r @ q = concat (map framed_dg (drop n dgs))" "pull \<lparr>fr_buf = r\<rparr> = Inr ([], \<lparr>fr_buf = r\<rparr>)" by auto
    have "p = concat (map framed_dg (take (Suc n) (dg # dgs))) @ r" unfolding p(1) n(2) by simp
    moreover have "r @ q = concat (map framed_dg (drop (Suc n) (dg # dgs)))" using n(3) by (simp only: drop_Suc_Cons)
    moreover have "Suc n \<le> length (dg # dgs)" using n(1) by simp
    ultimately show ?thesis using n(4) by blast
  next
    case False
    then obtain q' where q: "framed_dg dg = p @ q'" "q' \<noteq> []"
      using append_splits [of p q "framed_dg dg" "concat (map framed_dg dgs)"] Cons(3) by (metis append.right_neutral concat.simps(2) list.simps(9) nat_le_linear order_refl)
    have "frameable dg" using Cons(2) by simp
    from pull_partial [OF this q] have "pull \<lparr>fr_buf = p\<rparr> = Inr ([], \<lparr>fr_buf = p\<rparr>)" .
    moreover have "p = concat (map framed_dg (take 0 (dg # dgs))) @ p" "p @ q = concat (map framed_dg (drop 0 (dg # dgs)))"
      using Cons(3) by (simp_all only: take_0 drop_0 list.map concat.simps append.simps)
    ultimately show ?thesis by blast
  qed
qed

lemma pull_frames:
  assumes "\<forall>dg \<in> set dgs. frameable dg" "pull \<lparr>fr_buf = r\<rparr> = Inr ([], \<lparr>fr_buf = r\<rparr>)"
  shows "pull \<lparr>fr_buf = concat (map framed_dg dgs) @ r\<rparr> = Inr (dgs, \<lparr>fr_buf = r\<rparr>)"
  using assms by (induction dgs) (simp_all add: pull_frame)

text \<open>C25: however the transport cuts the stream into chunks, the reader returns exactly the datagrams that were framed, in
  order, keeps nothing and reports no error; and framing them succeeds.\<close>

theorem stream_reassembles:
  assumes "\<forall>dg \<in> set dgs. 0 < length dg \<and> length dg \<le> TLS_FRAME_MAX"
  shows "\<exists>stream. foldl (\<lambda>acc dg. case acc of Inl e \<Rightarrow> Inl e | Inr out \<Rightarrow> frame_datagram dg out) (Inr []) dgs = Inr stream \<and>
     (\<forall>chunks. concat chunks = stream \<longrightarrow> feed chunks \<lparr>fr_buf = []\<rparr> = Inr (dgs, \<lparr>fr_buf = []\<rparr>))"
proof -
  have ok: "\<forall>dg \<in> set dgs. frameable dg" using assms by (simp add: frameable_def)
  have "foldl (\<lambda>acc dg. case acc of Inl e \<Rightarrow> Inl e | Inr out \<Rightarrow> frame_datagram dg out) (Inr out) dgs = Inr (out @ concat (map framed_dg dgs))" for out
    using ok by (induction dgs arbitrary: out) (simp_all add: frame_datagram_eq)
  note framed = this [of "[]", simplified]
  have "feed chunks \<lparr>fr_buf = r\<rparr> = Inr (ds, \<lparr>fr_buf = []\<rparr>)"
    if "\<forall>dg \<in> set ds. frameable dg" "r @ concat chunks = concat (map framed_dg ds)" "pull \<lparr>fr_buf = r\<rparr> = Inr ([], \<lparr>fr_buf = r\<rparr>)" for r ds chunks
    using that
  proof (induction chunks arbitrary: r ds)
    case Nil
    have "pull \<lparr>fr_buf = concat (map framed_dg ds) @ []\<rparr> = Inr (ds, \<lparr>fr_buf = []\<rparr>)"
      by (rule pull_frames) (use Nil(1) in \<open>simp_all add: pull.simps fr_next_def\<close>)
    then show ?case using Nil(2,3) by simp
  next
    case (Cons c cs)
    obtain n t where n: "r @ c = concat (map framed_dg (take n ds)) @ t" "t @ concat cs = concat (map framed_dg (drop n ds))"
      "pull \<lparr>fr_buf = t\<rparr> = Inr ([], \<lparr>fr_buf = t\<rparr>)"
      using prefix_frames [OF Cons(2), of "r @ c" "concat cs"] Cons(3) by auto
    have sub: "\<forall>dg \<in> set (take n ds). frameable dg" "\<forall>dg \<in> set (drop n ds). frameable dg"
      using Cons(2) by (auto dest: in_set_takeD in_set_dropD)
    from pull_frames [OF sub(1) n(3)] Cons(1) [OF sub(2) n(2,3)] show ?case by (simp add: fr_push_def n(1))
  qed
  from this [OF ok, of "[]"] framed show ?thesis by (simp add: pull.simps fr_next_def)
qed

theorem stream_reassembles_witness:
  "feed [[0], [2, 7], [8, 0, 1], [], [9]] \<lparr>fr_buf = []\<rparr> = Inr ([[7, 8], [9]], \<lparr>fr_buf = []\<rparr>)"
proof -
  have "be16 2 = [0, 2]" "be16 1 = [0, 1]" by code_simp+
  then have "concat chunks = [0, 2, 7, 8, 0, 1, 9] \<longrightarrow> feed chunks \<lparr>fr_buf = []\<rparr> = Inr ([[7, 8], [9]], \<lparr>fr_buf = []\<rparr>)" for chunks
    using stream_reassembles [of "[[7, 8], [9]]"] by (simp add: frame_datagram_def TLS_FRAME_MAX_def MAX_WIRE_DATAGRAM_def)
  from this [of "[[0], [2, 7], [8, 0, 1], [], [9]]"] show ?thesis by (simp del: feed.simps)
qed

text \<open>The two ends of a connection never choose the same role.\<close>

lemma connection_roles_differ:
  assumes "length a = length b" "a \<noteq> b"
  shows "connection_role a b = Inr Client \<and> connection_role b a = Inr Server \<or> connection_role a b = Inr Server \<and> connection_role b a = Inr Client"
  using assms lex_less_asym lex_less_total [OF assms] by (auto simp: connection_role_def)

end
