(* ===== verification/Rdv_Front.thy ===== *)
theory Rdv_Front
  imports Rdv_Server Obf Tls_Frame Daemon_Base
begin

text \<open>
  The two fronts of the rendezvous binary around the server: the datagrams of the UDP task (\<^verbatim>\<open>run_udp\<close> of
  \<^verbatim>\<open>bin/yip-rendezvous/src/main.rs\<close>) and the first frame of a TLS connection (\<^verbatim>\<open>conn.rs\<close>); and the frames a daemon
  registers with over TLS (\<^verbatim>\<open>bin/yipd/src/relay_client.rs\<close>). SipHash is the parameter \<open>sip\<close>; nonces and padding
  draws come from the operating system and are arguments. \<open>None\<close> is a panic.
\<close>

section \<open>Datagrams\<close>

definition OBF_PAD_MAX :: nat where "OBF_PAD_MAX = 64"

definition random_pad :: "nat \<Rightarrow> nat \<Rightarrow> nat" where
  "random_pad v max_pad = (if max_pad = 0 then 0 else v mod sat_add max_pad 1)"

definition decode_inbound :: "(bytes \<Rightarrow> bytes \<Rightarrow> u64) \<Rightarrow> bytes option \<Rightarrow> bytes \<Rightarrow> Message option" where
  "decode_inbound sip obf_key dg =
     (case obf_key of
        Some k \<Rightarrow> do { (pt, body) \<leftarrow> deobfuscate sip k dg; if pt = RDV_TYPE then rdv_decode body else None }
      | None \<Rightarrow> rdv_decode dg)"

definition wrap_reply :: "(bytes \<Rightarrow> bytes \<Rightarrow> u64) \<Rightarrow> bytes \<times> nat \<Rightarrow> bytes option \<Rightarrow> Message \<Rightarrow> bytes exec" where
  "wrap_reply sip rnd obf_key reply = do {
     out \<leftarrow> rdv_encode reply;
     (case obf_key of
        Some k \<Rightarrow> obfuscate sip (fst rnd) k RDV_TYPE out (random_pad (snd rnd) OBF_PAD_MAX)
      | None \<Rightarrow> Some out) }"

text \<open>The receive arm of the loop of \<^verbatim>\<open>run_udp\<close>: what is sent, and the server afterwards. The receive buffer cuts a longer
  datagram. The \<open>i\<close>-th reply draws \<open>rnd i\<close>.\<close>

definition UDP_RX_LEN :: nat where "UDP_RX_LEN = 2048"

fun wrap_replies :: "(bytes \<Rightarrow> bytes \<Rightarrow> u64) \<Rightarrow> (nat \<Rightarrow> bytes \<times> nat) \<Rightarrow> bytes option \<Rightarrow> nat \<Rightarrow> (SocketAddr \<times> Message) list \<Rightarrow> (SocketAddr \<times> bytes) list exec" where
  "wrap_replies sip rnd obf_key i [] = Some []"
| "wrap_replies sip rnd obf_key i ((dst, reply) # rs) = do {
     wire \<leftarrow> wrap_reply sip (rnd i) obf_key reply;
     ws \<leftarrow> wrap_replies sip rnd obf_key (Suc i) rs;
     Some ((dst, wire) # ws) }"

definition udp_datagram ::
    "(bytes \<Rightarrow> bytes \<Rightarrow> u64) \<Rightarrow> (bytes \<Rightarrow> bytes \<Rightarrow> bytes \<Rightarrow> bool) \<Rightarrow> (nat \<Rightarrow> bytes \<Rightarrow> bytes) \<Rightarrow> (nat \<Rightarrow> bytes \<times> nat) \<Rightarrow> bytes option \<Rightarrow>
     SocketAddr \<Rightarrow> bytes \<Rightarrow> nat \<Rightarrow> nat \<Rightarrow> RendezvousServer \<Rightarrow> ((SocketAddr \<times> bytes) list \<times> RendezvousServer) exec" where
  "udp_datagram sip ed b2s rnd obf_key src dg now_ms now_secs s =
     (case decode_inbound sip obf_key (take UDP_RX_LEN dg) of
        None \<Rightarrow> Some ([], s)
      | Some msg \<Rightarrow> do {
          (replies, s') \<leftarrow> handle ed b2s src msg now_ms now_secs s;
          wires \<leftarrow> wrap_replies sip rnd obf_key 0 replies;
          Some (wires, s') })"

section \<open>The first frame of a connection\<close>

definition TLS_FRAME_CAP :: nat where "TLS_FRAME_CAP = 2048"

definition frame_obf :: "(bytes \<Rightarrow> bytes \<Rightarrow> u64) \<Rightarrow> bytes \<times> nat \<Rightarrow> bytes \<Rightarrow> Message \<Rightarrow> bytes exec" where
  "frame_obf sip rnd obf_key msg = do {
     plain \<leftarrow> rdv_encode msg;
     env \<leftarrow> obfuscate sip (fst rnd) obf_key RDV_TYPE plain (random_pad (snd rnd) OBF_PAD_MAX);
     Some (be16 (if length env \<le> 65535 then of_nat (length env) else 65535) @ env) }"

datatype Classify = Upgrade bytes bytes | Decoy

definition first_message :: "(bytes \<Rightarrow> bytes \<Rightarrow> u64) \<Rightarrow> bytes \<Rightarrow> bytes \<Rightarrow> Message option" where
  "first_message sip obf_key buf =
     (if length buf < 2 then None
      else let len = unat (un16 (take 2 buf))
           in if len = 0 \<or> len > TLS_FRAME_CAP then None
              else if length buf < 2 + len then None
              else do { (ptype, body) \<leftarrow> deobfuscate sip obf_key (take len (drop 2 buf)); if ptype \<noteq> RDV_TYPE then None else rdv_decode body })"

definition classify_first_frame_at ::
    "(bytes \<Rightarrow> bytes \<Rightarrow> u64) \<Rightarrow> (bytes \<Rightarrow> bytes \<Rightarrow> bytes \<Rightarrow> bool) \<Rightarrow> (nat \<Rightarrow> bytes \<Rightarrow> bytes) \<Rightarrow> bytes \<times> nat \<Rightarrow>
     bytes \<Rightarrow> bytes \<Rightarrow> RendezvousServer \<Rightarrow> nat \<Rightarrow> nat \<Rightarrow> (Classify \<times> RendezvousServer) exec" where
  "classify_first_frame_at sip ed b2s rnd buf obf_key s now_ms now_secs =
     (case first_message sip obf_key buf of
        None \<Rightarrow> Some (Decoy, s)
      | Some msg \<Rightarrow>
          if rv_roots_cfg s \<noteq> None
          then (case msg of
                  RegisterSigned rec \<Rightarrow> do {
                    v \<leftarrow> verify_signed_record ed b2s rec now_secs s;
                    if \<not> v then Some (Decoy, s)
                    else case register_if_fresh_tls (r_node_id rec) (r_seq rec) now_ms s of
                           (False, s') \<Rightarrow> Some (Decoy, s')
                         | (True, s') \<Rightarrow> do { reply \<leftarrow> frame_obf sip rnd obf_key (RegisterSigned rec); Some (Upgrade (r_node_id rec) reply, s') } }
                | _ \<Rightarrow> Some (Decoy, s))
          else (case msg of
                  RegisterAuth node counter mac \<Rightarrow>
                    if \<not> verify_register_mac b2s obf_key node counter mac then Some (Decoy, s)
                    else (case register_if_fresh_tls node counter now_ms s of
                            (False, s') \<Rightarrow> Some (Decoy, s')
                          | (True, s') \<Rightarrow> do { reply \<leftarrow> frame_obf sip rnd obf_key (RegisterAuth node counter mac); Some (Upgrade node reply, s') })
                | _ \<Rightarrow> Some (Decoy, s)))"

section \<open>Registering over TLS\<close>

text \<open>The counter of registrations, with the wall clock as an argument.\<close>

definition counter_next :: "nat \<Rightarrow> nat \<Rightarrow> nat" where
  "counter_next now c = sat_add (max c now) 1"

definition build_register :: "(bytes \<Rightarrow> bytes \<Rightarrow> u64) \<Rightarrow> (nat \<Rightarrow> bytes \<Rightarrow> bytes) \<Rightarrow> bytes \<Rightarrow> bytes \<Rightarrow> bytes \<Rightarrow> u64 \<Rightarrow> bytes exec" where
  "build_register sip b2s nonce obf_key node counter = do {
     let mac = compute_register_mac b2s obf_key node counter;
     plain \<leftarrow> rdv_encode (RegisterAuth node counter mac);
     env \<leftarrow> obfuscate sip nonce obf_key RDV_TYPE plain 0;
     (case frame_datagram env [] of Inl _ \<Rightarrow> None | Inr out \<Rightarrow> Some out) }"

definition build_register_signed :: "(bytes \<Rightarrow> bytes \<Rightarrow> u64) \<Rightarrow> bytes \<Rightarrow> bytes \<Rightarrow> Record \<Rightarrow> bytes exec" where
  "build_register_signed sip nonce obf_key rec = do {
     plain \<leftarrow> rdv_encode (RegisterSigned rec);
     env \<leftarrow> obfuscate sip nonce obf_key RDV_TYPE plain 0;
     (case frame_datagram env [] of Inl _ \<Rightarrow> None | Inr out \<Rightarrow> Some out) }"

section \<open>Sizes\<close>

lemma slice_length: "slice b i j = Some x \<Longrightarrow> length x \<le> length b"
  by (auto simp: slice_def split: if_splits)

lemma deobfuscate_shorter: "deobfuscate sip k dg = Some (pt, body) \<Longrightarrow> length body \<le> length dg"
  by (auto simp: deobfuscate_def Let_def bind_eq_Some_conv dest!: slice_length split: if_splits)

lemma decode_inbound_sound:
  assumes "decode_inbound sip obf_key dg = Some msg"
  obtains b where "rdv_decode b = Some msg" "length b \<le> length dg"
  using assms deobfuscate_shorter by (fastforce simp: decode_inbound_def bind_eq_Some_conv split: option.splits if_splits)

definition small_record :: "Record \<Rightarrow> bool" where
  "small_record r \<longleftrightarrow> length (the (record_encode r)) \<le> 2048"

fun small :: "Message \<Rightarrow> bool" where
  "small (RegisterSigned r) \<longleftrightarrow> small_record r"
| "small (PeerInfo _ _ (Some r)) \<longleftrightarrow> small_record r"
| "small (RelaySend _ _ pl) \<longleftrightarrow> length pl \<le> 2048"
| "small (RelayDeliver _ pl) \<longleftrightarrow> length pl \<le> 2048"
| "small _ \<longleftrightarrow> True"

lemma put_addr_length: "addr_ok a \<Longrightarrow> length (put_addr a) \<le> 19"
  by (cases a) (simp_all add: codec_simps)

lemma put_record_length: "put_record r = Some e \<Longrightarrow> length e = 2 + length (the (record_encode r))"
  by (auto simp: put_record_def bind_eq_Some_conv put_count_iff codec_simps)

lemma decoded_small:
  assumes "rdv_decode b = Some msg" "length b \<le> 2048"
  shows "small msg"
proof -
  obtain e where e: "rdv_encode msg = Some e" "tolerated msg e b" using rdv_decodes [OF assms(1)] by blast
  then have "length e \<le> Suc (length b)" by (cases "(msg, e, b)" rule: tolerated.cases) (auto dest: prefix_length_le)
  then show ?thesis using e(1) assms(2)
    by (cases msg rule: small.cases) (auto simp: bind_eq_Some_conv small_record_def dest!: put_record_length)
qed

lemma encoded_length:
  assumes "msg_ok m" "small m" "rdv_encode m = Some e"
  shows "length e \<le> 2200"
  using assms put_addr_length put_record_length
  by (cases m rule: small.cases) (fastforce simp: bind_eq_Some_conv small_record_def codec_simps)+

lemma opens_own:
  assumes "msg_ok m" "small m" "length nonce = 8" "rdv_encode m = Some e"
  shows "\<exists>env. obfuscate sip nonce k RDV_TYPE e pad = Some env \<and> length env = 11 + length e + pad \<and> deobfuscate sip k env = Some (RDV_TYPE, e)"
  using obfuscate_opens [OF assms(3), of e sip k RDV_TYPE pad] encoded_length [OF assms(1,2,4)] by auto

lemma random_pad_le: "random_pad v OBF_PAD_MAX \<le> 64"
  by (simp add: random_pad_def OBF_PAD_MAX_def sat_add_def u64_max_def less_Suc_eq_le [symmetric])

lemma wrap_reply_opens:
  assumes "msg_ok m" "small m" "length (fst rnd) = 8"
  shows "\<exists>w. wrap_reply sip rnd obf_key m = Some w \<and> decode_inbound sip obf_key w = Some m \<and> length w \<le> 75 + length (the (rdv_encode m))"
proof -
  obtain e where e: "rdv_encode m = Some e" using rdv_encodes [OF assms(1)] by blast
  have d: "rdv_decode e = Some m" using rdv_roundtrip [OF assms(1) e] .
  show ?thesis
  proof (cases obf_key)
    case (Some k)
    with opens_own [OF assms e, of sip k "random_pad (snd rnd) OBF_PAD_MAX"] e d show ?thesis
      using random_pad_le [of "snd rnd"] by (auto simp: wrap_reply_def decode_inbound_def)
  qed (use e d in \<open>simp add: wrap_reply_def decode_inbound_def\<close>)
qed

lemma wrap_replies_open:
  assumes "\<forall>(dst, m) \<in> set rs. msg_ok m \<and> small m" "\<forall>i. length (fst (rnd i)) = 8"
  shows "\<exists>ws. wrap_replies sip rnd obf_key i rs = Some ws \<and> list_all2 (\<lambda>(dst, w) (dst', m). dst = dst' \<and> decode_inbound sip obf_key w = Some m \<and> length w \<le> 75 + length (the (rdv_encode m))) ws rs"
  using assms(1)
proof (induction rs arbitrary: i)
  case (Cons r rs)
  obtain dst m where r: "r = (dst, m)" by (cases r)
  obtain w where "wrap_reply sip (rnd i) obf_key m = Some w" "decode_inbound sip obf_key w = Some m" "length w \<le> 75 + length (the (rdv_encode m))"
    using wrap_reply_opens [of m "rnd i" sip obf_key] Cons(2) assms(2) r by auto
  moreover obtain ws where "wrap_replies sip rnd obf_key (Suc i) rs = Some ws"
    "list_all2 (\<lambda>(dst, w) (dst', m). dst = dst' \<and> decode_inbound sip obf_key w = Some m \<and> length w \<le> 75 + length (the (rdv_encode m))) ws rs"
    using Cons(1) [of "Suc i"] Cons(2) by auto
  ultimately show ?case by (simp add: r)
qed simp

section \<open>Servers behind the fronts\<close>

definition small_regs :: "RendezvousServer \<Rightarrow> bool" where
  "small_regs s \<longleftrightarrow> (\<forall>node reg r. map_of (rv_regs s) node = Some reg \<longrightarrow> reg_record reg = Some r \<longrightarrow> small_record r)"

lemma small_regs_cong: "rv_regs s' = rv_regs s \<Longrightarrow> small_regs s' = small_regs s"
  by (simp add: small_regs_def)

lemma small_regs_entered: "small_regs s \<Longrightarrow> entered node reg s s' \<Longrightarrow> (\<And>r. reg_record reg = Some r \<Longrightarrow> small_record r) \<Longrightarrow> small_regs s'"
  by (auto simp: small_regs_def entered_def)

lemma small_regs_sweep:
  assumes "srv_inv ed b2s s" "small_regs s"
  shows "small_regs (server_sweep now s)"
proof -
  have d: "distinct (map fst (rv_regs s))" using assms(1) by (simp add: srv_inv_def)
  have "map_of (rv_regs (server_sweep now s)) k = Some reg \<Longrightarrow> map_of (rv_regs s) k = Some reg" for k reg
    using map_of_filter_vals [OF d, of "\<lambda>reg. reg_expiry_ms reg > now" k] by (auto simp: server_sweep_def split: option.splits if_splits)
  then show ?thesis using assms(2) unfolding small_regs_def by blast
qed

lemma handle_admitted_small:
  assumes "srv_inv ed b2s s" "small_regs s" "small msg" "handle_admitted ed b2s src msg now w s = Some (out, s')"
  shows "small_regs s' \<and> (\<forall>(dst, m) \<in> set out. small m)"
proof (cases msg)
  case (Register node counter)
  show ?thesis
  proof (cases "rv_roots_cfg s \<noteq> None \<or> refused node counter now s")
    case False
    with small_regs_entered [OF assms(2) register_entered(1) [OF assms(1), of node counter now src]] assms(4) Register show ?thesis
      by (auto simp: handle_admitted_def)
  qed (use assms(2,4) Register in \<open>auto simp: handle_admitted_def register_eq\<close>)
next
  case (RegisterSigned r)
  obtain v where v: "verify_signed_record ed b2s r w s = Some v" using assms(4) RegisterSigned by (auto simp: handle_admitted_def bind_eq_Some_conv)
  show ?thesis
  proof (cases "\<not> v \<or> refused (r_node_id r) (r_seq r) now s")
    case False
    let ?s = "set_record (r_node_id r) r (snd (register_if_fresh (r_node_id r) (r_seq r) src now s))"
    have "small_regs ?s" by (rule small_regs_entered [OF assms(2) register_entered(2) [OF assms(1)]]) (use assms(3) RegisterSigned False in auto)
    then show ?thesis using assms(4) RegisterSigned v False by (auto simp: handle_admitted_def register_eq)
  qed (use assms(2,4) RegisterSigned v in \<open>auto simp: handle_admitted_def register_eq\<close>)
next
  case (Lookup node)
  have "small (PeerInfo node (reg_addr reg) (reg_record reg))" if "map_of (rv_regs s) node = Some reg" for reg
    using assms(2) that by (cases "reg_record reg") (auto simp: small_regs_def)
  then show ?thesis using assms(2,4) Lookup by (auto simp: handle_admitted_def split: option.splits if_splits)
next
  case (RelaySend sender dst pl)
  have "rv_regs (record_relay_forward s) = rv_regs s" by (simp add: record_relay_forward_def)
  from small_regs_cong [OF this] show ?thesis using assms(2-4) RelaySend by (auto simp: handle_admitted_def split: option.splits if_splits)
qed (use assms(2,4) in \<open>auto simp: handle_admitted_def\<close>)

inductive front_reach ::
    "(bytes \<Rightarrow> bytes \<Rightarrow> u64) \<Rightarrow> (bytes \<Rightarrow> bytes \<Rightarrow> bytes \<Rightarrow> bool) \<Rightarrow> (nat \<Rightarrow> bytes \<Rightarrow> bytes) \<Rightarrow> bytes option \<Rightarrow> RendezvousServer \<Rightarrow> bool" for sip ed b2s obf_key where
  rootless: "front_reach sip ed b2s obf_key server_new"
| rooted: "front_reach sip ed b2s obf_key (new_with_roots cas net)"
| datagram: "front_reach sip ed b2s obf_key s \<Longrightarrow> addr_ok src \<Longrightarrow>
    udp_datagram sip ed b2s rnd obf_key src dg now now_secs s = Some (out, s') \<Longrightarrow> front_reach sip ed b2s obf_key s'"
| first_frame: "front_reach sip ed b2s obf_key s \<Longrightarrow>
    classify_first_frame_at sip ed b2s rnd1 buf k s now now_secs = Some (c, s') \<Longrightarrow> front_reach sip ed b2s obf_key s'"
| swept: "front_reach sip ed b2s obf_key s \<Longrightarrow> front_reach sip ed b2s obf_key (server_sweep now s)"
| forwarded: "front_reach sip ed b2s obf_key s \<Longrightarrow> front_reach sip ed b2s obf_key (record_relay_forward s)"

lemma udp_datagram_cases:
  assumes "udp_datagram sip ed b2s rnd obf_key src dg now w s = Some (out, s')"
  obtains "s' = s" | msg replies where "decode_inbound sip obf_key (take UDP_RX_LEN dg) = Some msg" "handle ed b2s src msg now w s = Some (replies, s')"
  using assms by (auto simp: udp_datagram_def bind_eq_Some_conv split: option.splits)

lemma classify_cases:
  assumes "classify_first_frame_at sip ed b2s rnd buf k s now w = Some (c, s')"
  obtains "s' = s" | node counter b where "register_if_fresh_tls node counter now s = (b, s')"
  using assms unfolding classify_first_frame_at_def
  by (auto simp: bind_eq_Some_conv split: option.splits if_splits Message.splits prod.splits bool.splits)

lemma register_tls_regs: "register_if_fresh_tls node counter now s = (b, s') \<Longrightarrow> rv_regs s' = rv_regs s"
  unfolding register_if_fresh_tls_def by (auto split: if_splits)

lemma handle_small:
  assumes "srv_inv ed b2s s" "small_regs s" "small msg" "handle ed b2s src msg now w s = Some (out, s')"
  shows "small_regs s' \<and> (\<forall>(dst, m) \<in> set out. small m)"
proof -
  obtain b s1 where r: "rate_ok src now s = (b, s1)" by fastforce
  note f = rate_ok_inv [OF assms(1) r]
  have "small_regs s1" using assms(2) small_regs_cong [OF f(2)] by blast
  from handle_admitted_small [OF f(1) this assms(3), of src now w out s'] this show ?thesis
    using assms(4) r by (cases b) (auto simp: handle_def)
qed

lemma front_inv: "front_reach sip ed b2s obf_key s \<Longrightarrow> srv_reach ed b2s s \<and> small_regs s"
proof (induction rule: front_reach.induct)
  case (datagram s src dg rnd now now_secs out s')
  from datagram(3) show ?case
  proof (cases rule: udp_datagram_cases)
    case (2 msg replies)
    obtain b where b: "rdv_decode b = Some msg" "length b \<le> 2048" using decode_inbound_sound [OF 2(1)] by (auto simp: UDP_RX_LEN_def)
    have "msg_ok msg" using rdv_decodes [OF b(1)] by blast
    moreover have "small msg" using decoded_small [OF b(1)] b(2) by simp
    ultimately show ?thesis using datagram(2,4) 2(2) srv_reach.handled handle_small [OF srv_reach_inv] by blast
  qed (use datagram(4) in simp)
next
  case (first_frame s rnd1 buf k now now_secs c s')
  from first_frame(2) show ?case
  proof (cases rule: classify_cases)
    case (2 node counter b)
    then show ?thesis using first_frame(3) srv_reach.tls small_regs_cong [OF register_tls_regs [OF 2]] by blast
  qed (use first_frame(3) in simp)
next
  case (swept s now)
  then show ?case using srv_reach.swept small_regs_sweep [OF srv_reach_inv] by blast
next
  case (forwarded s)
  have "rv_regs (record_relay_forward s) = rv_regs s" by (simp add: record_relay_forward_def)
  from small_regs_cong [OF this] forwarded(2) srv_reach.forwarded show ?case by blast
qed (use srv_reach.rootless srv_reach.rooted in \<open>auto simp: small_regs_def server_new_def new_with_roots_def\<close>)

text \<open>C14: the UDP front never panics. On every datagram, cut to the receive buffer, from every source and whatever came before over UDP
  and TLS, the task decodes, handles and answers without a panic, neither in the server nor in wrapping a reply, and every
  datagram it sends opens, under the same key, to a well-formed message.\<close>

theorem udp_front_total:
  assumes "front_reach sip ed b2s obf_key s" "addr_ok src" "\<forall>i. length (fst (rnd i)) = 8"
  shows "\<exists>out s'. udp_datagram sip ed b2s rnd obf_key src dg now now_secs s = Some (out, s') \<and>
    (\<forall>(dst, w) \<in> set out. addr_ok dst \<and> (\<exists>m. msg_ok m \<and> decode_inbound sip obf_key w = Some m))"
proof (cases "decode_inbound sip obf_key (take UDP_RX_LEN dg)")
  case None
  then show ?thesis by (simp add: udp_datagram_def)
next
  case (Some msg)
  obtain b where b: "rdv_decode b = Some msg" "length b \<le> 2048" using decode_inbound_sound [OF Some] by (auto simp: UDP_RX_LEN_def)
  have inv: "srv_inv ed b2s s" "small_regs s" using front_inv [OF assms(1)] srv_reach_inv by blast+
  have m: "msg_ok msg" "small msg" using rdv_decodes [OF b(1)] decoded_small [OF b(1)] b(2) by auto
  obtain out s' where h: "handle ed b2s src msg now now_secs s = Some (out, s')" "\<forall>(dst, m) \<in> set out. addr_ok dst \<and> msg_ok m"
    using handle_inv [OF inv(1) assms(2) m(1), of now now_secs] by blast
  have "\<forall>(dst, m) \<in> set out. msg_ok m \<and> small m" using h(2) handle_small [OF inv m(2) h(1)] by fast
  from wrap_replies_open [OF this assms(3)] obtain ws where ws: "wrap_replies sip rnd obf_key 0 out = Some ws"
    "list_all2 (\<lambda>(dst, w) (dst', m). dst = dst' \<and> decode_inbound sip obf_key w = Some m \<and> length w \<le> 75 + length (the (rdv_encode m))) ws out" by blast
  have "addr_ok dst \<and> (\<exists>m. msg_ok m \<and> decode_inbound sip obf_key w = Some m)" if mem: "(dst, w) \<in> set ws" for dst w
  proof -
    obtain m where "(dst, m) \<in> set out" "decode_inbound sip obf_key w = Some m" using ws(2) mem by (fastforce simp: list_all2_conv_all_nth in_set_conv_nth)
    then show ?thesis using h(2) by blast
  qed
  then show ?thesis using Some h(1) ws(1) by (auto simp: udp_datagram_def)
qed

theorem udp_front_total_witness:
  "\<exists>out s'. udp_datagram (\<lambda>_ _. 7) (\<lambda>_ _ _. True) (\<lambda>_ _. []) (\<lambda>_. (replicate 8 1, 5)) (Some [3]) (SocketV4 [10, 0, 0, 1] 7) (replicate 60 9) 5000 0 (new_with_roots [] []) = Some (out, s')"
  using udp_front_total [OF front_reach.rooted, of "SocketV4 [10, 0, 0, 1] 7" "\<lambda>_. (replicate 8 1, 5)"] by fastforce

section \<open>The TLS front\<close>

lemma unat_of_nat_u16: "n \<le> 65535 \<Longrightarrow> unat (of_nat n :: u16) = n"
  by (simp add: unat_of_nat)

lemma first_message_frame:
  assumes "msg_ok m" "length nonce = 8" "rdv_encode m = Some e" "11 + length e + pad \<le> TLS_FRAME_CAP"
    and "obfuscate sip nonce k RDV_TYPE e pad = Some env"
  shows "first_message sip k (be16 (of_nat (length env)) @ env @ rest) = Some m" "length env = 11 + length e + pad"
proof -
  have len: "length env = 11 + length e + pad" "deobfuscate sip k env = Some (RDV_TYPE, e)"
    using obfuscate_opens [OF assms(2), of e sip k RDV_TYPE pad] assms(4,5) by (simp_all add: TLS_FRAME_CAP_def)
  then have "unat (of_nat (length env) :: u16) = length env" "0 < length env" "length env \<le> TLS_FRAME_CAP"
    using assms(4) unat_of_nat_u16 [of "length env"] by (auto simp: TLS_FRAME_CAP_def)
  then show "first_message sip k (be16 (of_nat (length env)) @ env @ rest) = Some m" "length env = 11 + length e + pad"
    using len rdv_roundtrip [OF assms(1,3)] by (simp_all add: first_message_def Let_def codec_simps)
qed

lemma frame_obf_auth:
  assumes "length node = 16" "length mac = 16" "length (fst rnd) = 8"
  shows "\<exists>reply. frame_obf sip rnd k (RegisterAuth node counter mac) = Some reply \<and> first_message sip k reply = Some (RegisterAuth node counter mac)"
proof -
  let ?m = "RegisterAuth node counter mac" and ?e = "8 # node @ be64 counter @ mac" and ?p = "random_pad (snd rnd) OBF_PAD_MAX"
  have fit: "11 + length ?e + ?p \<le> TLS_FRAME_CAP" using assms random_pad_le [of "snd rnd"] by (simp add: TLS_FRAME_CAP_def codec_simps)
  obtain env where env: "obfuscate sip (fst rnd) k RDV_TYPE ?e ?p = Some env"
    using opens_own [of ?m "fst rnd" ?e sip k ?p] assms by auto
  have ok: "msg_ok ?m" "rdv_encode ?m = Some ?e" using assms by simp_all
  from first_message_frame(1) [OF ok(1) assms(3) ok(2) fit env, of "[]"] first_message_frame(2) [OF ok(1) assms(3) ok(2) fit env]
  have "first_message sip k (be16 (of_nat (length env)) @ env) = Some ?m" "length env = 11 + length ?e + ?p" by (simp_all only: append_Nil2)
  then show ?thesis using env fit by (simp add: frame_obf_def TLS_FRAME_CAP_def)
qed

text \<open>A registration code that is not newer than the live one of its node changes nothing.\<close>

definition tls_stale :: "bytes \<Rightarrow> u64 \<Rightarrow> nat \<Rightarrow> RendezvousServer \<Rightarrow> bool" where
  "tls_stale node counter now s \<longleftrightarrow> (\<exists>t. map_of (rv_tls_seen s) node = Some t \<and> tls_expiry_ms t > now \<and> counter \<le> tls_last_counter t)"

lemma register_tls_eq:
  "register_if_fresh_tls node counter now s =
     (if tls_stale node counter now s then (False, s)
      else (True, s\<lparr>rv_tls_seen := AList.update node \<lparr>tls_last_counter = counter, tls_expiry_ms = sat_add now REG_TTL_MS\<rparr> (rv_tls_seen s)\<rparr>))"
  by (auto simp: register_if_fresh_tls_def tls_stale_def split: option.splits)

text \<open>C15: the TLS front of a server without trust anchors. A daemon's registration frame, whatever follows it in the stream, turns a
  connection into a tunnel when its counter is new, and the answer is a frame that opens to the same registration;
  the registrations served over UDP are untouched. For the next minute every registration of the node with that
  counter or an older one, the recorded frame itself included, only meets the decoy. And a
  connection never becomes a tunnel unless its first frame carries a valid code for the node it is upgraded to.\<close>

theorem tls_front_upgrades:
  assumes "rv_roots_cfg s = None" "length node = 16" "length nonce = 8" "length (fst rnd) = 8" "\<forall>m. length (b2s 16 m) = 16"
    and "\<not> tls_stale node counter now s" "now + REG_TTL_MS \<le> u64_max"
  shows "(\<exists>frame reply s'. build_register sip b2s nonce k node counter = Some frame \<and>
      (\<forall>rest. classify_first_frame_at sip ed b2s rnd (frame @ rest) k s now w = Some (Upgrade node reply, s')) \<and>
      first_message sip k reply = Some (RegisterAuth node counter (compute_register_mac b2s k node counter)) \<and> rv_regs s' = rv_regs s \<and>
      (\<forall>buf c mac now' w'. first_message sip k buf = Some (RegisterAuth node c mac) \<and> c \<le> counter \<and> now' < now + REG_TTL_MS \<longrightarrow>
         classify_first_frame_at sip ed b2s rnd buf k s' now' w' = Some (Decoy, s'))) \<and>
    (\<forall>buf n r s''. classify_first_frame_at sip ed b2s rnd buf k s now w = Some (Upgrade n r, s'') \<longrightarrow>
      (\<exists>c. first_message sip k buf = Some (RegisterAuth n c (compute_register_mac b2s k n c)) \<and> \<not> tls_stale n c now s))"
proof -
  let ?mac = "compute_register_mac b2s k node counter"
  let ?m = "RegisterAuth node counter ?mac" and ?e = "8 # node @ be64 counter @ ?mac"
  let ?s = "s\<lparr>rv_tls_seen := AList.update node \<lparr>tls_last_counter = counter, tls_expiry_ms = sat_add now REG_TTL_MS\<rparr> (rv_tls_seen s)\<rparr>"
  have mac: "length ?mac = 16" using assms(5) by (simp add: compute_register_mac_def)
  have fit: "11 + length ?e + 0 \<le> TLS_FRAME_CAP" using assms(2) mac by (simp add: TLS_FRAME_CAP_def codec_simps)
  obtain env where env: "obfuscate sip nonce k RDV_TYPE ?e 0 = Some env"
    using opens_own [of ?m nonce ?e sip k 0] assms(2,3) mac by auto
  have ok: "msg_ok ?m" "rdv_encode ?m = Some ?e" using assms(2) mac by simp_all
  note fm = first_message_frame [OF ok(1) assms(3) ok(2) fit env]
  have build: "build_register sip b2s nonce k node counter = Some (be16 (of_nat (length env)) @ env)"
    using env fm(2) fit by (simp add: build_register_def frame_datagram_def TLS_FRAME_MAX_def MAX_WIRE_DATAGRAM_def TLS_FRAME_CAP_def)
  obtain reply where reply: "frame_obf sip rnd k ?m = Some reply" "first_message sip k reply = Some ?m"
    using frame_obf_auth [OF assms(2) mac assms(4)] by blast
  have up: "classify_first_frame_at sip ed b2s rnd ((be16 (of_nat (length env)) @ env) @ rest) k s now w = Some (Upgrade node reply, ?s)" for rest
    using fm(1) [of rest] assms(1,6) reply(1) by (simp add: classify_first_frame_at_def verify_register_mac_def register_tls_eq)
  have "tls_stale node c now' ?s" if "c \<le> counter" "now' < now + REG_TTL_MS" for c now'
    using that assms(7) by (simp add: tls_stale_def update_conv' sat_add_def)
  then have "classify_first_frame_at sip ed b2s rnd buf k ?s now' w' = Some (Decoy, ?s)"
    if "first_message sip k buf = Some (RegisterAuth node c m)" "c \<le> counter" "now' < now + REG_TTL_MS" for buf c m now' w'
    using that assms(1) by (simp add: classify_first_frame_at_def register_tls_eq)
  moreover have "\<exists>c. first_message sip k buf = Some (RegisterAuth n c (compute_register_mac b2s k n c)) \<and> \<not> tls_stale n c now s"
    if "classify_first_frame_at sip ed b2s rnd buf k s now w = Some (Upgrade n r, s'')" for buf n r s''
    using that assms(1)
    by (auto simp: classify_first_frame_at_def verify_register_mac_def register_tls_eq bind_eq_Some_conv split: option.splits Message.splits if_splits)
  ultimately show ?thesis using build up reply(2) by (intro conjI exI [of _ "be16 (of_nat (length env)) @ env"] exI [of _ reply] exI [of _ ?s]) auto
qed

theorem tls_front_upgrades_witness:
  "\<exists>frame reply s'. build_register (\<lambda>_ _. 7) (\<lambda>n _. replicate n 4) (replicate 8 1) [3] (replicate 16 2) 5 = Some frame \<and>
     classify_first_frame_at (\<lambda>_ _. 7) (\<lambda>_ _ _. True) (\<lambda>n _. replicate n 4) (replicate 8 1, 5) frame [3] server_new 1000 0 = Some (Upgrade (replicate 16 2) reply, s')"
proof -
  have "rv_roots_cfg server_new = None" "\<not> tls_stale (replicate 16 2) 5 1000 server_new" by (simp_all add: server_new_def tls_stale_def)
  from tls_front_upgrades [OF this(1) _ _ _ _ this(2), of "replicate 8 1" "(replicate 8 1, 5)" "\<lambda>n _. replicate n 4" "\<lambda>_ _. 7" "[3]" "\<lambda>_ _ _. True" 0]
  show ?thesis by (simp add: REG_TTL_MS_def u64_max_def) (metis append_Nil2)
qed

end
