(* ===== verification/Rdv_Client.thy ===== *)
theory Rdv_Client
  imports Rdv_Front Handshake_Msg
begin

text \<open>
  The daemon's side of the rendezvous protocol, \<^verbatim>\<open>bin/yipd/src/rendezvous.rs\<close>, and its way through the obfuscation layer of
  \<^verbatim>\<open>bin/yipd/src/peer_manager\<close>. The trait \<^verbatim>\<open>Rendezvous\<close> is a locale with an interpretation for each of the two
  implementations; the properties join clients and server over the bytes on the wire.
\<close>

section \<open>Clients\<close>

datatype RdvEvent =
    PeerCandidate bytes SocketAddr "Record option"
  | PunchTo bytes SocketAddr
  | Relayed bytes bytes
  | PeerNotFound bytes
  | Ignored

record ConfiguredServerRendezvous =
  csr_server :: SocketAddr

definition csr_to_server :: "ConfiguredServerRendezvous \<Rightarrow> Message \<Rightarrow> SocketAddr EgressDatagram exec" where
  "csr_to_server c msg = do { bs \<leftarrow> rdv_encode msg; Some \<lparr>ed_fate = 0, ed_dst = csr_server c, ed_bytes = bs\<rparr> }"

definition csr_register :: "ConfiguredServerRendezvous \<Rightarrow> bytes \<Rightarrow> Record option \<Rightarrow> SocketAddr EgressDatagram option exec" where
  "csr_register c node signed_rec =
     (case signed_rec of
        Some rec \<Rightarrow> do { dg \<leftarrow> csr_to_server c (RegisterSigned rec); Some (Some dg) }
      | None \<Rightarrow> do { dg \<leftarrow> csr_to_server c (Register node 0); Some (Some dg) })"

definition csr_lookup :: "ConfiguredServerRendezvous \<Rightarrow> bytes \<Rightarrow> SocketAddr EgressDatagram exec" where
  "csr_lookup c node = csr_to_server c (Lookup node)"

definition csr_relay :: "ConfiguredServerRendezvous \<Rightarrow> bytes \<Rightarrow> bytes \<Rightarrow> bytes \<Rightarrow> SocketAddr EgressDatagram exec" where
  "csr_relay c src dst pl = csr_to_server c (RelaySend src dst pl)"

definition csr_parse :: "ConfiguredServerRendezvous \<Rightarrow> bytes \<Rightarrow> RdvEvent" where
  "csr_parse c dg =
     (case rdv_decode dg of
        Some (PeerInfo node reflexive rec) \<Rightarrow> PeerCandidate node reflexive rec
      | Some (PunchHint node reflexive) \<Rightarrow> PunchTo node reflexive
      | Some (RelayDeliver src pl) \<Rightarrow> Relayed src pl
      | Some (NotFound node) \<Rightarrow> PeerNotFound node
      | _ \<Rightarrow> Ignored)"

record TlsRelayRendezvous =
  trr_relay_addr :: SocketAddr

definition trr_to_server :: "TlsRelayRendezvous \<Rightarrow> Message \<Rightarrow> SocketAddr EgressDatagram exec" where
  "trr_to_server c msg = do { bs \<leftarrow> rdv_encode msg; Some \<lparr>ed_fate = 0, ed_dst = trr_relay_addr c, ed_bytes = bs\<rparr> }"

definition trr_register :: "TlsRelayRendezvous \<Rightarrow> bytes \<Rightarrow> Record option \<Rightarrow> SocketAddr EgressDatagram option exec" where
  "trr_register c node signed_rec = Some None"

definition trr_lookup :: "TlsRelayRendezvous \<Rightarrow> bytes \<Rightarrow> SocketAddr EgressDatagram exec" where
  "trr_lookup c node = trr_to_server c (Lookup (replicate 16 0))"

definition trr_relay :: "TlsRelayRendezvous \<Rightarrow> bytes \<Rightarrow> bytes \<Rightarrow> bytes \<Rightarrow> SocketAddr EgressDatagram exec" where
  "trr_relay c src dst pl = trr_to_server c (RelaySend src dst pl)"

definition trr_parse :: "TlsRelayRendezvous \<Rightarrow> bytes \<Rightarrow> RdvEvent" where
  "trr_parse c dg = csr_parse \<lparr>csr_server = trr_relay_addr c\<rparr> dg"

section \<open>Obfuscation on the way\<close>

definition OBF_MTU_BUDGET :: nat where "OBF_MTU_BUDGET = 1200"

definition OBF_DATA_PAD_MAX :: nat where "OBF_DATA_PAD_MAX = 64"

definition obf_pad_max :: "u8 \<Rightarrow> nat \<Rightarrow> nat" where
  "obf_pad_max ptype dg_len =
     (let body_len = dg_len - 1;
          room = OBF_MTU_BUDGET - (body_len + MIN_ENVELOPE)
      in if ptype = packet_type HandshakeInit \<or> ptype = packet_type HandshakeResp then room else min room OBF_DATA_PAD_MAX)"

text \<open>What becomes of a datagram for the server: \<open>None\<close> when it is dropped.\<close>

definition server_egress ::
    "(bytes \<Rightarrow> bytes \<Rightarrow> u64) \<Rightarrow> bytes \<times> nat \<Rightarrow> bytes option \<Rightarrow> bool \<Rightarrow> nat list \<Rightarrow> SocketAddr EgressDatagram \<Rightarrow> SocketAddr EgressDatagram option" where
  "server_egress sip rnd obf_key defense_active buckets d =
     (if ed_bytes d = [] then Some d
      else case obf_key of
        None \<Rightarrow> Some d
      | Some k \<Rightarrow>
          let raw_wire = MIN_ENVELOPE + length (ed_bytes d);
              pad = (if defense_active then round_to_bucket raw_wire buckets (max 1420 OBF_MTU_BUDGET) - raw_wire
                     else random_pad (snd rnd) (obf_pad_max RDV_TYPE (length (ed_bytes d) + 1)))
          in case obfuscate_into sip (fst rnd) k RDV_TYPE (ed_bytes d) pad of
               (True, out) \<Rightarrow> Some (d\<lparr>ed_bytes := out\<rparr>)
             | (False, _) \<Rightarrow> None)"

text \<open>The bytes of a datagram from the server that reach \<^verbatim>\<open>on_rdv\<close>; and the same from the wire, where the receive buffers of the
  event loop cut a longer datagram.\<close>

definition server_ingress :: "(bytes \<Rightarrow> bytes \<Rightarrow> u64) \<Rightarrow> bytes option \<Rightarrow> bytes \<Rightarrow> bytes option" where
  "server_ingress sip obf_key dg =
     (if dg = [] then None
      else case obf_key of
        None \<Rightarrow> Some dg
      | Some k \<Rightarrow> (case deobfuscate sip k dg of
                   None \<Rightarrow> None
                 | Some (ptype, body) \<Rightarrow> if ptype \<noteq> RDV_TYPE then None else Some body))"

definition server_receive :: "(bytes \<Rightarrow> bytes \<Rightarrow> u64) \<Rightarrow> bytes option \<Rightarrow> bytes \<Rightarrow> bytes option" where
  "server_receive sip obf_key dg = server_ingress sip obf_key (take MAX_WIRE_DATAGRAM dg)"

section \<open>The trait\<close>

locale rendezvous_client =
  fixes server_addr :: "'c \<Rightarrow> SocketAddr"
    and relay :: "'c \<Rightarrow> bytes \<Rightarrow> bytes \<Rightarrow> bytes \<Rightarrow> SocketAddr EgressDatagram exec"
    and parse :: "'c \<Rightarrow> bytes \<Rightarrow> RdvEvent"
  assumes relay_sends: "\<exists>e. rdv_encode (RelaySend a b pl) = Some e \<and> relay c a b pl = Some \<lparr>ed_fate = 0, ed_dst = server_addr c, ed_bytes = e\<rparr>"
    and parse_relayed: "parse c e = Relayed a pl \<longleftrightarrow> rdv_decode e = Some (RelayDeliver a pl)"
begin

text \<open>What one client hands to the relay is what another one takes out of the delivery.\<close>

lemma relay_parse:
  assumes "length a = 16" "length b = 16"
  shows "\<exists>dg e. relay c a b pl = Some dg \<and> rdv_decode (ed_bytes dg) = Some (RelaySend a b pl) \<and>
    rdv_encode (RelayDeliver a pl) = Some e \<and> parse c' e = Relayed a pl"
proof -
  obtain e where e: "rdv_encode (RelaySend a b pl) = Some e" "relay c a b pl = Some \<lparr>ed_fate = 0, ed_dst = server_addr c, ed_bytes = e\<rparr>"
    using relay_sends by blast
  have "rdv_decode e = Some (RelaySend a b pl)" using rdv_roundtrip [OF _ e(1)] assms by simp
  moreover have "rdv_decode (6 # a @ pl) = Some (RelayDeliver a pl)" using rdv_roundtrip [of "RelayDeliver a pl"] assms by simp
  ultimately show ?thesis using e(2) parse_relayed by simp
qed

end

lemma csr_parse_relayed: "csr_parse c e = Relayed a pl \<longleftrightarrow> rdv_decode e = Some (RelayDeliver a pl)"
  by (auto simp: csr_parse_def split: option.splits Message.splits)

interpretation csr: rendezvous_client csr_server csr_relay csr_parse
  by unfold_locales (simp_all add: csr_relay_def csr_to_server_def csr_parse_relayed)

interpretation trr: rendezvous_client trr_relay_addr trr_relay trr_parse
  by unfold_locales (simp_all add: trr_relay_def trr_to_server_def trr_parse_def csr_parse_relayed)

section \<open>Finding and relaying\<close>

text \<open>A message that fits the receive buffers on both sides, whatever the padding.\<close>

definition fits :: "Message \<Rightarrow> bool" where
  "fits m \<longleftrightarrow> msg_ok m \<and> small m \<and> 75 + length (the (rdv_encode m)) \<le> 2048"

lemma round_to_bucket_le: "round_to_bucket raw buckets budget \<le> max raw budget"
proof -
  have "scan_buckets raw budget bs \<le> max raw budget" for bs by (induction bs) auto
  then show ?thesis by (simp add: round_to_bucket_def)
qed

lemma egress_pad_le:
  "MIN_ENVELOPE + n + (if defense then round_to_bucket (MIN_ENVELOPE + n) buckets (max 1420 OBF_MTU_BUDGET) - (MIN_ENVELOPE + n)
      else random_pad v (obf_pad_max RDV_TYPE (n + 1))) \<le> max 1420 (75 + n)"
proof -
  have "v mod min (Suc k) u64_max < min (Suc k) u64_max" for k by (rule mod_less_divisor) (simp add: u64_max_def)
  then have "random_pad v k \<le> k" for k using less_Suc_eq_le by (auto simp: random_pad_def sat_add_def)
  moreover have "obf_pad_max RDV_TYPE (n + 1) \<le> 64" by (simp add: obf_pad_max_def OBF_DATA_PAD_MAX_def Let_def RDV_TYPE_def)
  ultimately have "random_pad v (obf_pad_max RDV_TYPE (n + 1)) \<le> 64" using order_trans by blast
  then show ?thesis using round_to_bucket_le [of "MIN_ENVELOPE + n" buckets "max 1420 OBF_MTU_BUDGET"]
    by (auto simp: MIN_ENVELOPE_def NONCE_LEN_def OBF_MTU_BUDGET_def)
qed

lemma server_egress_opens:
  assumes "msg_ok m" "small m" "length (fst rnd) = 8" "csr_to_server c m = Some dg"
  shows "\<exists>d. server_egress sip rnd obf_key defense buckets dg = Some d \<and> ed_dst d = csr_server c \<and> decode_inbound sip obf_key (ed_bytes d) = Some m \<and>
    length (ed_bytes d) \<le> max 1420 (75 + length (the (rdv_encode m)))"
proof -
  obtain e where e: "rdv_encode m = Some e" "dg = \<lparr>ed_fate = 0, ed_dst = csr_server c, ed_bytes = e\<rparr>"
    using assms(4) by (auto simp: csr_to_server_def bind_eq_Some_conv)
  have d: "rdv_decode e = Some m" using rdv_roundtrip [OF assms(1) e(1)] .
  then have ne: "e \<noteq> []" by (auto simp: rdv_decode_def)
  show ?thesis
  proof (cases obf_key)
    case (Some k)
    let ?pad = "if defense then round_to_bucket (MIN_ENVELOPE + length e) buckets (max 1420 OBF_MTU_BUDGET) - (MIN_ENVELOPE + length e)
      else random_pad (snd rnd) (obf_pad_max RDV_TYPE (length e + 1))"
    obtain out where "obfuscate_into sip (fst rnd) k RDV_TYPE e ?pad = (True, out)" "deobfuscate sip k out = Some (RDV_TYPE, e)" "length out = 11 + length e + ?pad"
      using opens_own [OF assms(1-3) e(1), of sip k ?pad] unfolding obfuscate_def by (auto split: if_splits prod.splits)
    moreover from this(1) have "server_egress sip rnd obf_key defense buckets dg = Some (dg\<lparr>ed_bytes := out\<rparr>)"
      using Some e(2) ne by (cases defense) (simp_all add: server_egress_def Let_def)
    moreover have "11 + length e + ?pad \<le> max 1420 (75 + length e)"
      using egress_pad_le [of "length e" defense buckets "snd rnd"] by (simp add: MIN_ENVELOPE_def NONCE_LEN_def)
    ultimately show ?thesis using Some e d by (simp add: decode_inbound_def)
  qed (use e ne d in \<open>simp add: server_egress_def decode_inbound_def\<close>)
qed

lemma client_sends:
  assumes "msg_ok m" "small m" "length (fst rnd) = 8"
  shows "\<exists>dg d. csr_to_server c m = Some dg \<and> server_egress sip rnd obf_key defense buckets dg = Some d \<and> ed_dst d = csr_server c \<and>
    decode_inbound sip obf_key (ed_bytes d) = Some m \<and> length (ed_bytes d) \<le> max 1420 (75 + length (the (rdv_encode m)))"
proof -
  obtain dg where "csr_to_server c m = Some dg" using rdv_encodes [OF assms(1)] by (auto simp: csr_to_server_def)
  with server_egress_opens [OF assms this, of sip obf_key defense buckets] show ?thesis by blast
qed

lemma ingress_decodes:
  assumes "decode_inbound sip obf_key w = Some m"
  shows "\<exists>b. server_ingress sip obf_key w = Some b \<and> rdv_decode b = Some m"
proof -
  have "w \<noteq> []" using assms by (auto simp: decode_inbound_def rdv_decode_def deobfuscate_def MIN_ENVELOPE_def NONCE_LEN_def split: option.splits)
  then show ?thesis using assms by (auto simp: decode_inbound_def server_ingress_def bind_eq_Some_conv split: option.splits if_splits)
qed

text \<open>The registration a client sends, and whether the server takes it.\<close>

definition registration :: "bytes \<Rightarrow> Record option \<Rightarrow> Message" where
  "registration node signed_rec = (case signed_rec of Some r \<Rightarrow> RegisterSigned r | None \<Rightarrow> Register node 0)"

definition takes :: "(bytes \<Rightarrow> bytes \<Rightarrow> bytes \<Rightarrow> bool) \<Rightarrow> (nat \<Rightarrow> bytes \<Rightarrow> bytes) \<Rightarrow> bytes \<Rightarrow> Record option \<Rightarrow> nat \<Rightarrow> nat \<Rightarrow> RendezvousServer \<Rightarrow> bool" where
  "takes ed b2s node signed_rec now now_secs s \<longleftrightarrow>
     (case signed_rec of
        Some r \<Rightarrow> framed_ok r \<and> small_record r \<and> r_node_id r = node \<and> verify_signed_record ed b2s r now_secs s = Some True \<and> \<not> refused node (r_seq r) now s
      | None \<Rightarrow> rv_roots_cfg s = None \<and> \<not> refused node 0 now s)"

lemma csr_register_eq: "csr_register c node signed_rec = do { dg \<leftarrow> csr_to_server c (registration node signed_rec); Some (Some dg) }"
  by (simp add: csr_register_def registration_def split: option.splits)

lemma rate_ok_same: "rv_regs (snd (rate_ok src now s)) = rv_regs s" "rv_roots_cfg (snd (rate_ok src now s)) = rv_roots_cfg s"
  by (simp_all add: rate_ok_eq)

lemma handle_served: "fst (rate_ok src now s) \<Longrightarrow> handle ed b2s src msg now w s = handle_admitted ed b2s src msg now w (snd (rate_ok src now s))"
  by (cases "rate_ok src now s") (simp add: handle_def)

lemma takes_cong: "rv_regs u = rv_regs s \<Longrightarrow> rv_roots_cfg u = rv_roots_cfg s \<Longrightarrow> takes ed b2s node signed_rec now w u = takes ed b2s node signed_rec now w s"
  by (simp add: takes_def refused_def verify_signed_record_def split: option.splits)

lemma registers:
  assumes "takes ed b2s node signed_rec now w s" "fst (rate_ok src now s)"
  shows "\<exists>s' c. handle ed b2s src (registration node signed_rec) now w s = Some ([], s') \<and> map_of (rv_regs s') node = Some (fresh_reg src now c signed_rec) \<and>
    rv_rates s' = rv_rates (snd (rate_ok src now s))"
proof -
  let ?u = "snd (rate_ok src now s)"
  have t: "takes ed b2s node signed_rec now w ?u" using assms(1) takes_cong [OF rate_ok_same] by blast
  show ?thesis
  proof (cases signed_rec)
    case None
    then show ?thesis using t handle_served [OF assms(2)]
      by (auto simp: registration_def takes_def handle_admitted_def register_eq update_conv')
  next
    case (Some r)
    then show ?thesis using t handle_served [OF assms(2)]
      by (auto simp: registration_def takes_def handle_admitted_def register_eq update_conv' set_record_def)
  qed
qed

lemma lookup_served:
  assumes "map_of (rv_regs s) node = Some reg" "reg_expiry_ms reg > now" "fst (rate_ok src now s)"
  shows "handle ed b2s src (Lookup node) now w s =
    Some ([(src, PeerInfo node (reg_addr reg) (reg_record reg)), (reg_addr reg, PunchHint node src)], snd (rate_ok src now s))"
  using assms handle_served [OF assms(3)] by (simp add: handle_admitted_def rate_ok_same)

lemma relay_served:
  assumes "map_of (rv_regs s) dst = Some reg" "reg_expiry_ms reg > now" "fst (rate_ok src now s)"
  shows "handle ed b2s src (RelaySend sender dst pl) now w s =
    Some ([(reg_addr reg, RelayDeliver sender pl)], record_relay_forward (snd (rate_ok src now s)))"
  using assms handle_served [OF assms(3)] by (simp add: handle_admitted_def rate_ok_same)

text \<open>A client's message through the front.\<close>

lemma through_front:
  assumes "fits m" "\<forall>i. length (fst (rnd i)) = 8" "handle ed b2s src m now w s = Some (replies, s')" "\<forall>(dst, r) \<in> set replies. fits r"
  shows "\<exists>dg d ws. csr_to_server c m = Some dg \<and> server_egress sip (rnd 0) obf_key defense buckets dg = Some d \<and>
    udp_datagram sip ed b2s rnd obf_key src (ed_bytes d) now w s = Some (ws, s') \<and>
    list_all2 (\<lambda>(dst, wire) (dst', r). dst = dst' \<and> (\<exists>b. server_receive sip obf_key wire = Some b \<and> rdv_decode b = Some r)) ws replies"
proof -
  have m: "msg_ok m" "small m" "75 + length (the (rdv_encode m)) \<le> 2048" using assms(1) by (simp_all add: fits_def)
  have r: "\<forall>(dst, r) \<in> set replies. msg_ok r \<and> small r" using assms(4) by (auto simp: fits_def)
  obtain dg d where d: "csr_to_server c m = Some dg" "server_egress sip (rnd 0) obf_key defense buckets dg = Some d"
    "decode_inbound sip obf_key (ed_bytes d) = Some m" "length (ed_bytes d) \<le> 2048"
    using client_sends [OF m(1,2), of "rnd 0" c sip obf_key defense buckets] assms(2) m(3) by fastforce
  obtain ws where ws: "wrap_replies sip rnd obf_key 0 replies = Some ws"
    "list_all2 (\<lambda>(dst, w) (dst', m). dst = dst' \<and> decode_inbound sip obf_key w = Some m \<and> length w \<le> 75 + length (the (rdv_encode m))) ws replies"
    using wrap_replies_open [OF r assms(2)] by blast
  have rcv: "\<exists>b. server_receive sip obf_key wire = Some b \<and> rdv_decode b = Some r"
    if "decode_inbound sip obf_key wire = Some r" "length wire \<le> 75 + length (the (rdv_encode r))" "fits r" for wire r
    using ingress_decodes [OF that(1)] that(2,3) by (simp add: server_receive_def MAX_WIRE_DATAGRAM_def fits_def)
  have "list_all2 (\<lambda>(dst, wire) (dst', r). dst = dst' \<and> (\<exists>b. server_receive sip obf_key wire = Some b \<and> rdv_decode b = Some r)) ws replies"
    using ws(2) by (rule list.rel_mono_strong) (use assms(4) rcv in auto)
  then show ?thesis using d ws(1) assms(3) by (auto simp: udp_datagram_def UDP_RX_LEN_def)
qed

lemma rdv_fits:
  assumes "length a = 16" "length b = 16" "addr_ok x" "length pl \<le> 1900" "\<forall>r. signed_rec = Some r \<longrightarrow> length (the (record_encode r)) \<le> 1900"
    and "takes ed b2s a signed_rec t w s"
  shows "fits (registration a signed_rec)" "fits (Lookup a)" "fits (PeerInfo a x signed_rec)" "fits (PunchHint a x)" "fits (RelaySend b a pl)" "fits (RelayDeliver b pl)"
proof -
  have r: "framed_ok r \<and> small_record r \<and> (\<exists>e. put_record r = Some e \<and> length e \<le> 1902)" if "signed_rec = Some r" for r
  proof -
    have f: "framed_ok r" "small_record r" using assms(6) that by (simp_all add: takes_def)
    then obtain e where "rdv_encode (RegisterSigned r) = Some e" using rdv_encodes [of "RegisterSigned r"] by auto
    then obtain e' where e': "put_record r = Some e'" by (auto simp: bind_eq_Some_conv)
    show ?thesis using f e' put_record_length [OF e'] assms(5) that by auto
  qed
  show "fits (registration a signed_rec)" using assms(1) r by (cases signed_rec) (auto simp: registration_def fits_def codec_simps)
  show "fits (Lookup a)" "fits (RelaySend b a pl)" "fits (RelayDeliver b pl)" using assms(1,2,4) by (simp_all add: fits_def)
  show "fits (PunchHint a x)" using assms(1,3) put_addr_length [OF assms(3)] by (simp add: fits_def)
  show "fits (PeerInfo a x signed_rec)"
    using assms(1,3) put_addr_length [OF assms(3)] r by (cases signed_rec) (auto simp: fits_def)
qed

text \<open>C9: rendezvous works over the wire, with and without obfuscation. After a registration the server takes, signed or not, a
  lookup by another daemon tells it the address and the record of the first, tells the first the address
  of the second, and what the second hands to the relay within a minute of the registration arrives at the first, as
  from the second, and is counted once. The hint that reaches the first daemon carries that daemon's own identifier.
  Records and relayed packets are of at most 1900 bytes, so that with their headers and padding the
  receive buffers of 2048 bytes of server and daemons hold them; the rate limit admits the three datagrams.\<close>

theorem rdv_flow:
  assumes "length a = 16" "length b = 16" "addr_ok x" "addr_ok y" "length pl \<le> 1900" "\<forall>r. signed_rec = Some r \<longrightarrow> length (the (record_encode r)) \<le> 1900"
    and "\<forall>i. length (fst (rnd i)) = 8"
    and "takes ed b2s a signed_rec t1 w s" "t2 < t1 + REG_TTL_MS" "t3 < t1 + REG_TTL_MS" "t1 + REG_TTL_MS \<le> u64_max"
    and "fst (rate_ok x t1 s)" "fst (rate_ok y t2 (snd (rate_ok x t1 s)))" "fst (rate_ok y t3 (snd (rate_ok y t2 (snd (rate_ok x t1 s)))))"
  shows "\<exists>dg1 d1 s1 dg2 d2 w1 w2 s2 dg3 d3 w3 s3.
    csr_register A a signed_rec = Some (Some dg1) \<and> server_egress sip (rnd 0) obf_key defense buckets dg1 = Some d1 \<and>
    udp_datagram sip ed b2s rnd obf_key x (ed_bytes d1) t1 w s = Some ([], s1) \<and>
    csr_lookup B a = Some dg2 \<and> server_egress sip (rnd 0) obf_key defense buckets dg2 = Some d2 \<and>
    udp_datagram sip ed b2s rnd obf_key y (ed_bytes d2) t2 w s1 = Some ([(y, w1), (x, w2)], s2) \<and>
    map_option (csr_parse B) (server_receive sip obf_key w1) = Some (PeerCandidate a x signed_rec) \<and>
    map_option (csr_parse A) (server_receive sip obf_key w2) = Some (PunchTo a y) \<and>
    csr_relay B b a pl = Some dg3 \<and> server_egress sip (rnd 0) obf_key defense buckets dg3 = Some d3 \<and>
    udp_datagram sip ed b2s rnd obf_key y (ed_bytes d3) t3 w s2 = Some ([(x, w3)], s3) \<and> rv_forwarded s3 = rv_forwarded s2 + 1 \<and>
    map_option (csr_parse A) (server_receive sip obf_key w3) = Some (Relayed b pl)"
proof -
  note fit = rdv_fits [OF assms(1,2,3,5,6,8)] and hint = rdv_fits(4) [OF assms(1,2,4,5,6,8)]
  obtain s1 c where h1: "handle ed b2s x (registration a signed_rec) t1 w s = Some ([], s1)"
    "map_of (rv_regs s1) a = Some (fresh_reg x t1 c signed_rec)" "rv_rates s1 = rv_rates (snd (rate_ok x t1 s))"
    using registers [OF assms(8,12)] by blast
  have live: "reg_expiry_ms (fresh_reg x t1 c signed_rec) > t" if "t < t1 + REG_TTL_MS" for t using that assms(11) by (simp add: sat_add_def)
  have r2: "fst (rate_ok y t2 s1)" "rv_rates (snd (rate_ok y t2 s1)) = rv_rates (snd (rate_ok y t2 (snd (rate_ok x t1 s))))"
    using rate_ok_rates [OF h1(3), of y t2] assms(13) by simp_all
  let ?s2 = "snd (rate_ok y t2 s1)"
  have r3: "fst (rate_ok y t3 ?s2)" using rate_ok_rates [OF r2(2), of y t3] assms(14) by simp
  have h2: "handle ed b2s y (Lookup a) t2 w s1 = Some ([(y, PeerInfo a x signed_rec), (x, PunchHint a y)], ?s2)"
    using lookup_served [OF h1(2) live [OF assms(9)] r2(1)] by simp
  have h3: "handle ed b2s y (RelaySend b a pl) t3 w ?s2 = Some ([(x, RelayDeliver b pl)], record_relay_forward (snd (rate_ok y t3 ?s2)))"
    using relay_served [OF _ live [OF assms(10)] r3] h1(2) by (simp add: rate_ok_same)
  obtain dg1 d1 where 1: "csr_to_server A (registration a signed_rec) = Some dg1" "server_egress sip (rnd 0) obf_key defense buckets dg1 = Some d1"
    "udp_datagram sip ed b2s rnd obf_key x (ed_bytes d1) t1 w s = Some ([], s1)"
    using through_front [OF fit(1) assms(7) h1(1)] by fastforce
  have ok2: "\<forall>(dst, r) \<in> set [(y, PeerInfo a x signed_rec), (x, PunchHint a y)]. fits r" using fit(3) hint by simp
  obtain dg2 d2 w1 w2 b1 b2 where 2: "csr_to_server B (Lookup a) = Some dg2" "server_egress sip (rnd 0) obf_key defense buckets dg2 = Some d2"
    "udp_datagram sip ed b2s rnd obf_key y (ed_bytes d2) t2 w s1 = Some ([(y, w1), (x, w2)], ?s2)"
    "server_receive sip obf_key w1 = Some b1" "rdv_decode b1 = Some (PeerInfo a x signed_rec)"
    "server_receive sip obf_key w2 = Some b2" "rdv_decode b2 = Some (PunchHint a y)"
    using through_front [OF fit(2) assms(7) h2 ok2, of B sip obf_key defense buckets] by (auto simp: list_all2_Cons2)
  have ok3: "\<forall>(dst, r) \<in> set [(x, RelayDeliver b pl)]. fits r" using fit(6) by simp
  obtain dg3 d3 w3 b3 where 3: "csr_to_server B (RelaySend b a pl) = Some dg3" "server_egress sip (rnd 0) obf_key defense buckets dg3 = Some d3"
    "udp_datagram sip ed b2s rnd obf_key y (ed_bytes d3) t3 w ?s2 = Some ([(x, w3)], record_relay_forward (snd (rate_ok y t3 ?s2)))"
    "server_receive sip obf_key w3 = Some b3" "rdv_decode b3 = Some (RelayDeliver b pl)"
    using through_front [OF fit(5) assms(7) h3 ok3, of B sip obf_key defense buckets] by (auto simp: list_all2_Cons2)
  have fwd: "rv_forwarded (record_relay_forward (snd (rate_ok y t3 ?s2))) = rv_forwarded ?s2 + 1"
    by (simp add: record_relay_forward_def rate_ok_eq)
  have "map_option (csr_parse B) (server_receive sip obf_key w1) = Some (PeerCandidate a x signed_rec)"
    "map_option (csr_parse A) (server_receive sip obf_key w2) = Some (PunchTo a y)"
    using 2(4-7) by (simp_all add: csr_parse_def)
  moreover have "map_option (csr_parse A) (server_receive sip obf_key w3) = Some (Relayed b pl)"
    using 3(4,5) csr.parse_relayed by simp
  moreover have "csr_register A a signed_rec = Some (Some dg1)" "csr_lookup B a = Some dg2" "csr_relay B b a pl = Some dg3"
    using 1(1) 2(1) 3(1) by (simp_all add: csr_register_eq csr_lookup_def csr_relay_def)
  ultimately show ?thesis using 1(2,3) 2(2,3) 3(2,3) fwd by blast
qed

theorem rdv_flow_witness:
  "\<exists>dg1 d1 s1 dg2 d2 w1 w2 s2 dg3 d3 w3 s3.
     csr_register \<lparr>csr_server = SocketV4 [10, 0, 0, 9] 1\<rparr> (replicate 16 1) None = Some (Some dg1) \<and>
     server_egress (\<lambda>_ _. 7) (replicate 8 1, 5) (Some [3]) False [] dg1 = Some d1 \<and>
     udp_datagram (\<lambda>_ _. 7) (\<lambda>_ _ _. True) (\<lambda>_ _. []) (\<lambda>_. (replicate 8 1, 5)) (Some [3]) (SocketV4 [10, 0, 0, 1] 7) (ed_bytes d1) 1000 0 server_new = Some ([], s1) \<and>
     csr_lookup \<lparr>csr_server = SocketV4 [10, 0, 0, 9] 1\<rparr> (replicate 16 1) = Some dg2 \<and>
     server_egress (\<lambda>_ _. 7) (replicate 8 1, 5) (Some [3]) False [] dg2 = Some d2 \<and>
     udp_datagram (\<lambda>_ _. 7) (\<lambda>_ _ _. True) (\<lambda>_ _. []) (\<lambda>_. (replicate 8 1, 5)) (Some [3]) (SocketV4 [10, 0, 0, 2] 7) (ed_bytes d2) 2000 0 s1 =
       Some ([(SocketV4 [10, 0, 0, 2] 7, w1), (SocketV4 [10, 0, 0, 1] 7, w2)], s2) \<and>
     csr_relay \<lparr>csr_server = SocketV4 [10, 0, 0, 9] 1\<rparr> (replicate 16 2) (replicate 16 1) [4, 5, 6] = Some dg3 \<and>
     server_egress (\<lambda>_ _. 7) (replicate 8 1, 5) (Some [3]) False [] dg3 = Some d3 \<and>
     udp_datagram (\<lambda>_ _. 7) (\<lambda>_ _ _. True) (\<lambda>_ _. []) (\<lambda>_. (replicate 8 1, 5)) (Some [3]) (SocketV4 [10, 0, 0, 2] 7) (ed_bytes d3) 3000 0 s2 =
       Some ([(SocketV4 [10, 0, 0, 1] 7, w3)], s3) \<and>
     map_option (csr_parse \<lparr>csr_server = SocketV4 [10, 0, 0, 9] 1\<rparr>) (server_receive (\<lambda>_ _. 7) (Some [3]) w3) = Some (Relayed (replicate 16 2) [4, 5, 6])"
proof -
  let ?x = "SocketV4 [10, 0, 0, 1] 7" and ?y = "SocketV4 [10, 0, 0, 2] 7" and ?c = "\<lparr>csr_server = SocketV4 [10, 0, 0, 9] 1\<rparr>"
  have ok: "length (replicate 16 (1 :: u8)) = 16" "length (replicate 16 (2 :: u8)) = 16" "addr_ok ?x" "addr_ok ?y" "length [4 :: u8, 5, 6] \<le> 1900"
    "\<forall>r. None = Some r \<longrightarrow> length (the (record_encode r)) \<le> 1900" "\<forall>i :: nat. length (fst (replicate 8 (1 :: u8), 5 :: nat)) = 8" by simp_all
  have t: "takes (\<lambda>_ _ _. True) (\<lambda>_ _. []) (replicate 16 1) None 1000 0 server_new"
    by (simp add: takes_def server_new_def refused_def MAX_REGISTRATIONS_def)
  have times: "2000 < 1000 + REG_TTL_MS" "3000 < 1000 + REG_TTL_MS" "1000 + REG_TTL_MS \<le> u64_max" by (simp_all add: REG_TTL_MS_def u64_max_def)
  have rate: "fst (rate_ok ?x 1000 server_new)" "fst (rate_ok ?y 2000 (snd (rate_ok ?x 1000 server_new)))"
    "fst (rate_ok ?y 3000 (snd (rate_ok ?y 2000 (snd (rate_ok ?x 1000 server_new)))))"
    by (simp_all add: rate_ok_eq window_def server_new_def MAX_RATE_ENTRIES_def MAX_MSGS_PER_WINDOW_def RATE_WINDOW_MS_def)
  from rdv_flow [OF ok t times rate, of ?c "\<lambda>_ _. 7" "Some [3]" False "[]" ?c] show ?thesis
    by (elim exE conjE, intro exI conjI) assumption+
qed

section \<open>Refreshing\<close>

lemma refresh_refused:
  assumes "map_of (rv_regs s) a = Some reg" "reg_expiry_ms reg > t"
  shows "\<exists>s'. handle ed b2s src (Register a 0) t w s = Some ([], s') \<and> map_of (rv_regs s') a = Some reg \<and> rv_roots_cfg s' = rv_roots_cfg s"
proof -
  have "refused a 0 t (snd (rate_ok src t s))" using assms by (auto simp: refused_def rate_ok_same)
  then show ?thesis using assms(1) rate_ok_same [of src t s]
    by (cases "rate_ok src t s") (auto simp: handle_def handle_admitted_def register_eq split: bool.splits)
qed

fun refreshes ::
    "(bytes \<Rightarrow> bytes \<Rightarrow> bytes \<Rightarrow> bool) \<Rightarrow> (nat \<Rightarrow> bytes \<Rightarrow> bytes) \<Rightarrow> bytes \<Rightarrow> (SocketAddr \<times> nat) list \<Rightarrow> RendezvousServer \<Rightarrow> RendezvousServer exec" where
  "refreshes ed b2s a [] s = Some s"
| "refreshes ed b2s a ((src, t) # ts) s = do { (_, s') \<leftarrow> handle ed b2s src (registration a None) t 0 s; refreshes ed b2s a ts s' }"

text \<open>C36: a daemon without a mesh identity cannot refresh its registration. It always registers with counter 0, and the server takes
  only greater counters while a registration lives: however often the daemon registers again within the minute,
  and from whatever address, the first registration keeps its address and its end of life, and from then on until the
  next registration after it a lookup answers that the daemon is not registered.\<close>

theorem unsigned_refresh_refused:
  assumes "takes ed b2s a None t0 w s" "fst (rate_ok x t0 s)" "t0 + REG_TTL_MS \<le> u64_max" "\<forall>(src, t) \<in> set ts. t < t0 + REG_TTL_MS"
  shows "\<exists>s1 s2 reg. handle ed b2s x (registration a None) t0 w s = Some ([], s1) \<and> refreshes ed b2s a ts s1 = Some s2 \<and>
    map_of (rv_regs s2) a = Some reg \<and> reg_addr reg = x \<and> reg_expiry_ms reg = t0 + REG_TTL_MS \<and>
    (\<forall>t y. t0 + REG_TTL_MS \<le> t \<and> fst (rate_ok y t s2) \<longrightarrow>
       handle ed b2s y (Lookup a) t w s2 = Some ([(y, NotFound a)], snd (rate_ok y t s2)))"
proof -
  obtain s1 c where s1: "handle ed b2s x (registration a None) t0 w s = Some ([], s1)" "map_of (rv_regs s1) a = Some (fresh_reg x t0 c None)"
    using registers [OF assms(1,2)] by blast
  have e: "sat_add t0 REG_TTL_MS = t0 + REG_TTL_MS" using assms(3) by (simp add: sat_add_def)
  have "\<exists>s2. refreshes ed b2s a ts u = Some s2 \<and> map_of (rv_regs s2) a = Some (fresh_reg x t0 c None)"
    if "map_of (rv_regs u) a = Some (fresh_reg x t0 c None)" for u
    using that assms(4)
  proof (induction ts arbitrary: u)
    case (Cons st ts)
    obtain src t where st: "st = (src, t)" by (cases st)
    obtain u' where "handle ed b2s src (Register a 0) t 0 u = Some ([], u')" "map_of (rv_regs u') a = Some (fresh_reg x t0 c None)"
      using refresh_refused [OF Cons(2), of t ed b2s src 0] Cons(3) st e by auto
    then show ?case using Cons(1) [of u'] Cons(3) st by (simp add: registration_def)
  qed simp
  then obtain s2 where s2: "refreshes ed b2s a ts s1 = Some s2" "map_of (rv_regs s2) a = Some (fresh_reg x t0 c None)" using s1(2) by blast
  have "handle ed b2s y (Lookup a) t w s2 = Some ([(y, NotFound a)], snd (rate_ok y t s2))" if "t0 + REG_TTL_MS \<le> t" "fst (rate_ok y t s2)" for t y
    using that s2(2) handle_served [OF that(2), of ed b2s "Lookup a" w] e by (simp add: handle_admitted_def rate_ok_same)
  then show ?thesis using s1(1) s2 e by auto
qed

theorem unsigned_refresh_refused_witness:
  "\<exists>s1 s2 reg. handle (\<lambda>_ _ _. True) (\<lambda>_ _. []) (SocketV4 [10, 0, 0, 1] 7) (registration (replicate 16 1) None) 1000 0 server_new = Some ([], s1) \<and>
     refreshes (\<lambda>_ _ _. True) (\<lambda>_ _. []) (replicate 16 1) [(SocketV4 [10, 0, 0, 1] 7, 21000), (SocketV4 [10, 0, 0, 2] 7, 41000), (SocketV4 [10, 0, 0, 2] 7, 60999)] s1 = Some s2 \<and>
     map_of (rv_regs s2) (replicate 16 1) = Some reg \<and> reg_addr reg = SocketV4 [10, 0, 0, 1] 7 \<and> reg_expiry_ms reg = 61000"
proof -
  let ?x = "SocketV4 [10, 0, 0, 1] 7" and ?y = "SocketV4 [10, 0, 0, 2] 7"
  have "takes (\<lambda>_ _ _. True) (\<lambda>_ _. []) (replicate 16 1) None 1000 0 server_new" "fst (rate_ok ?x 1000 server_new)"
    by (simp_all add: takes_def server_new_def refused_def MAX_REGISTRATIONS_def rate_ok_eq window_def MAX_RATE_ENTRIES_def MAX_MSGS_PER_WINDOW_def)
  from unsigned_refresh_refused [OF this, of "[(?x, 21000), (?y, 41000), (?y, 60999)]"] show ?thesis
    by (simp add: REG_TTL_MS_def u64_max_def del: refreshes.simps) blast
qed

end
