(* ===== verification/Reality.thy ===== *)
theory Reality
  imports Prelude
begin

unbundle bit_operations_syntax

text \<open>
  The authentication of disguised TLS connections: the seal in the session identifier of a hello
  (\<^verbatim>\<open>crates/yip-utls/src/auth.rs\<close>), the time-bucketed guard against replays
  (\<^verbatim>\<open>bin/yip-rendezvous/src/reality_replay.rs\<close>) and the decision of the front (\<^verbatim>\<open>tls_front.rs\<close>). X25519, the key
  derivation and ChaCha20-Poly1305 are parameters. The hash set of a bucket is a list without repetitions.
\<close>

section \<open>Seals\<close>

record reality_env =
  re_dh :: "bytes \<Rightarrow> bytes \<Rightarrow> bytes"
  re_hkdf :: "bytes \<Rightarrow> bytes \<Rightarrow> bytes"
  re_encrypt :: "bytes \<Rightarrow> bytes \<Rightarrow> bytes \<Rightarrow> bytes"
  re_decrypt :: "bytes \<Rightarrow> bytes \<Rightarrow> bytes \<Rightarrow> bytes option"

definition HKDF_INFO :: bytes where
  "HKDF_INFO = map (of_nat \<circ> of_char) ''yip-reality-v1''"

definition derive_aead_key :: "reality_env \<Rightarrow> bytes \<Rightarrow> bytes" where
  "derive_aead_key E shared = re_hkdf E shared HKDF_INFO"

definition SESSION_ID_LEN :: nat where "SESSION_ID_LEN = 32"

definition PLAINTEXT_LEN :: nat where "PLAINTEXT_LEN = 16"

definition reality_seal :: "reality_env \<Rightarrow> bytes \<Rightarrow> bytes \<Rightarrow> bytes \<Rightarrow> bytes \<Rightarrow> u64 \<Rightarrow> bytes exec" where
  "reality_seal E server_reality_pub eph_priv client_random short_id ts_min =
     (let shared = re_dh E eph_priv server_reality_pub;
          aead_key = derive_aead_key E shared;
          plaintext = short_id @ rev (be64 ts_min);
          sealed = re_encrypt E aead_key (take 12 client_random) plaintext
      in if length sealed = SESSION_ID_LEN then Some sealed else None)"

definition abs_diff :: "nat \<Rightarrow> nat \<Rightarrow> nat" where
  "abs_diff a b = (if a < b then b - a else a - b)"

definition open_recover_shared ::
    "reality_env \<Rightarrow> bytes \<Rightarrow> bytes \<Rightarrow> bytes \<Rightarrow> bytes \<Rightarrow> bytes list \<Rightarrow> nat \<Rightarrow> nat \<Rightarrow> (bytes \<times> nat \<times> bytes) option" where
  "open_recover_shared E reality_priv eph_pub client_random session_id short_ids now_min skew_min =
     (if length session_id \<noteq> SESSION_ID_LEN then None
      else let shared = re_dh E reality_priv eph_pub;
               aead_key = derive_aead_key E shared
           in do {
             nonce \<leftarrow> slice client_random 0 12;
             plaintext \<leftarrow> re_decrypt E aead_key nonce session_id;
             if length plaintext \<noteq> PLAINTEXT_LEN then None
             else do {
               short_id \<leftarrow> slice plaintext 0 8;
               ts_bytes \<leftarrow> slice plaintext 8 16;
               let ts_min = unat (un64 (rev ts_bytes));
               if short_id \<notin> set short_ids then None
               else if abs_diff ts_min now_min > skew_min then None
               else Some (short_id, ts_min, shared) } })"

definition open_recover :: "reality_env \<Rightarrow> bytes \<Rightarrow> bytes \<Rightarrow> bytes \<Rightarrow> bytes \<Rightarrow> bytes list \<Rightarrow> nat \<Rightarrow> nat \<Rightarrow> (bytes \<times> nat) option" where
  "open_recover E reality_priv eph_pub client_random session_id short_ids now_min skew_min =
     map_option (\<lambda>(short_id, ts_min, _). (short_id, ts_min)) (open_recover_shared E reality_priv eph_pub client_random session_id short_ids now_min skew_min)"

section \<open>The guard\<close>

definition WINDOW :: nat where "WINDOW = 20"

definition RING :: nat where "RING = 21"

definition SHARDS :: nat where "SHARDS = 16"

datatype Verdict = Fresh | Replayed

record Bucket =
  bk_minute :: nat
  bk_seals :: "bytes list"

record Shard =
  sh_ring :: "Bucket list"

record ReplayGuard =
  rg_shards :: "Shard list"
  rg_start_min :: nat
  rg_max_bucket :: nat
  rg_overflow :: u64

definition guard_new :: "nat \<Rightarrow> nat \<Rightarrow> ReplayGuard" where
  "guard_new start_min max_bucket =
     \<lparr>rg_shards = replicate SHARDS \<lparr>sh_ring = replicate RING \<lparr>bk_minute = u64_max, bk_seals = []\<rparr>\<rparr>,
      rg_start_min = start_min, rg_max_bucket = max_bucket, rg_overflow = 0\<rparr>"

definition rotate_bucket :: "nat \<Rightarrow> Bucket \<Rightarrow> Bucket" where
  "rotate_bucket now_min b = (if bk_minute b \<noteq> now_min then \<lparr>bk_minute = now_min, bk_seals = []\<rparr> else b)"

definition remembers :: "bytes \<Rightarrow> nat \<Rightarrow> Bucket \<Rightarrow> bool" where
  "remembers sealed now_min b \<longleftrightarrow> bk_minute b \<noteq> u64_max \<and> now_min - bk_minute b \<le> WINDOW \<and> sealed \<in> set (bk_seals b)"

definition guard_check :: "bytes \<Rightarrow> nat \<Rightarrow> nat \<Rightarrow> ReplayGuard \<Rightarrow> (Verdict \<times> ReplayGuard) exec" where
  "guard_check sealed ts_min now_min g =
     (if ts_min < rg_start_min g then Some (Replayed, g)
      else do {
        b0 \<leftarrow> byte_at sealed 0;
        let shard_idx = unat b0 AND (SHARDS - 1);
        let slot = now_min mod RING;
        shard \<leftarrow> byte_at (rg_shards g) shard_idx;
        b \<leftarrow> byte_at (sh_ring shard) slot;
        let ring = (sh_ring shard)[slot := rotate_bucket now_min b];
        if list_ex (remembers sealed now_min) ring
        then Some (Replayed, g\<lparr>rg_shards := (rg_shards g)[shard_idx := shard\<lparr>sh_ring := ring\<rparr>]\<rparr>)
        else let bucket = rotate_bucket now_min b
             in if length (bk_seals bucket) \<ge> rg_max_bucket g
                then Some (Replayed, g\<lparr>rg_shards := (rg_shards g)[shard_idx := shard\<lparr>sh_ring := ring\<rparr>], rg_overflow := rg_overflow g + 1\<rparr>)
                else Some (Fresh, g\<lparr>rg_shards := (rg_shards g)[shard_idx :=
                       shard\<lparr>sh_ring := ring[slot := bucket\<lparr>bk_seals := List.insert sealed (bk_seals bucket)\<rparr>]\<rparr>]\<rparr>) })"

section \<open>The decision\<close>

definition REALITY_SKEW_MIN :: nat where "REALITY_SKEW_MIN = 10"

datatype Decision = Accept | Splice

definition decide_authed :: "bytes \<Rightarrow> nat \<Rightarrow> nat \<Rightarrow> bool \<Rightarrow> ReplayGuard \<Rightarrow> (Decision \<times> ReplayGuard) exec" where
  "decide_authed sealed ts_min now_min sni_has_acceptor g =
     (if \<not> sni_has_acceptor then Some (Splice, g)
      else do { (v, g') \<leftarrow> guard_check sealed ts_min now_min g; Some (case v of Fresh \<Rightarrow> Accept | Replayed \<Rightarrow> Splice, g') })"

text \<open>A hello, as far as its authentication reads it, and what the front decides about it: \<open>sni_ok\<close> tells whether its server
  name is allowed and has a certificate.\<close>

record Hello =
  ch_eph_pub :: bytes
  ch_random :: bytes
  ch_session_id :: bytes

definition reality_decide :: "reality_env \<Rightarrow> bytes \<Rightarrow> bytes list \<Rightarrow> bool \<Rightarrow> Hello \<Rightarrow> nat \<Rightarrow> ReplayGuard \<Rightarrow> (Decision \<times> ReplayGuard) exec" where
  "reality_decide E priv_key short_ids sni_ok h now_min g =
     (if \<not> sni_ok then Some (Splice, g)
      else case open_recover_shared E priv_key (ch_eph_pub h) (ch_random h) (ch_session_id h) short_ids now_min REALITY_SKEW_MIN of
        None \<Rightarrow> Some (Splice, g)
      | Some (_, ts_min, _) \<Rightarrow> decide_authed (ch_session_id h) ts_min now_min True g)"

section \<open>What the guard remembers\<close>

definition shard_of :: "bytes \<Rightarrow> nat" where
  "shard_of sealed = unat (sealed ! 0) mod 16"

abbreviation bucket :: "ReplayGuard \<Rightarrow> nat \<Rightarrow> nat \<Rightarrow> Bucket" where
  "bucket g k j \<equiv> sh_ring (rg_shards g ! k) ! j"

text \<open>A bucket of shard \<open>k\<close> at slot \<open>j\<close> holds the seals that were accepted in its minute; \<open>hist\<close> are the accepted seals with
  their minutes.\<close>

definition bucket_ok :: "(bytes \<times> nat) list \<Rightarrow> nat \<Rightarrow> nat \<Rightarrow> nat \<Rightarrow> Bucket \<Rightarrow> bool" where
  "bucket_ok hist latest k j b \<longleftrightarrow> distinct (bk_seals b) \<and>
     (if bk_minute b = u64_max then bk_seals b = []
      else bk_minute b \<le> latest \<and> bk_minute b mod 21 = j \<and> set (bk_seals b) = {x. (x, bk_minute b) \<in> set hist \<and> shard_of x = k})"

definition guard_inv :: "(bytes \<times> nat) list \<Rightarrow> nat \<Rightarrow> ReplayGuard \<Rightarrow> bool" where
  "guard_inv hist latest g \<longleftrightarrow> length (rg_shards g) = 16 \<and> (\<forall>k < 16. length (sh_ring (rg_shards g ! k)) = 21) \<and>
     (\<forall>k < 16. \<forall>j < 21. bucket_ok hist latest k j (bucket g k j)) \<and>
     (\<forall>(x, m) \<in> set hist. m \<le> latest \<and> bk_minute (bucket g (shard_of x) (m mod 21)) \<noteq> u64_max \<and> m \<le> bk_minute (bucket g (shard_of x) (m mod 21)))"

lemma and_15: "unat (b :: u8) AND (SHARDS - 1) = unat b mod 16"
  using take_bit_eq_mask [of 4 "unat b"] by (simp add: SHARDS_def take_bit_eq_mod mask_eq_exp_minus_1)

lemma shard_of_less [simp]: "shard_of x < 16"
  by (simp add: shard_of_def)

lemma guard_new_inv: "guard_inv [] 0 (guard_new start_min max_bucket)"
  by (simp add: guard_inv_def guard_new_def SHARDS_def RING_def bucket_ok_def)

text \<open>The part of a check that looks at one shard, over the bucket it has rotated.\<close>

abbreviation put_ring :: "ReplayGuard \<Rightarrow> nat \<Rightarrow> nat \<Rightarrow> Bucket \<Rightarrow> Shard list" where
  "put_ring g k j b \<equiv> (rg_shards g)[k := (rg_shards g ! k)\<lparr>sh_ring := (sh_ring (rg_shards g ! k))[j := b]\<rparr>]"

lemma guard_check_eq:
  assumes "guard_inv hist latest g" "length sealed = 32" "rg_start_min g \<le> ts_min"
  shows "guard_check sealed ts_min now g =
    (let k = shard_of sealed; j = now mod 21; b = rotate_bucket now (bucket g k j)
     in if list_ex (remembers sealed now) ((sh_ring (rg_shards g ! k))[j := b]) then Some (Replayed, g\<lparr>rg_shards := put_ring g k j b\<rparr>)
        else if length (bk_seals b) \<ge> rg_max_bucket g then Some (Replayed, g\<lparr>rg_shards := put_ring g k j b, rg_overflow := rg_overflow g + 1\<rparr>)
        else Some (Fresh, g\<lparr>rg_shards := put_ring g k j (b\<lparr>bk_seals := List.insert sealed (bk_seals b)\<rparr>)\<rparr>))"
proof -
  have "byte_at sealed 0 = Some (sealed ! 0)" "byte_at (rg_shards g) (shard_of sealed) = Some (rg_shards g ! shard_of sealed)"
    "byte_at (sh_ring (rg_shards g ! shard_of sealed)) (now mod 21) = Some (bucket g (shard_of sealed) (now mod 21))"
    using assms(1,2) by (simp_all add: byte_at_def guard_inv_def)
  then show ?thesis using assms(3) unfolding guard_check_def and_15 RING_def shard_of_def [symmetric] by (simp add: Let_def and_15 flip: shard_of_def)
qed

lemma bucket_ok_later: "bucket_ok hist latest k j b \<Longrightarrow> latest \<le> now \<Longrightarrow> bucket_ok hist now k j b"
  by (auto simp: bucket_ok_def split: if_splits)

lemma rotate_ok:
  assumes "guard_inv hist latest g" "latest \<le> now" "now < u64_max" "k < 16"
  shows "bucket_ok hist now k (now mod 21) (rotate_bucket now (bucket g k (now mod 21)))" "bk_minute (rotate_bucket now (bucket g k (now mod 21))) = now"
proof -
  let ?b = "bucket g k (now mod 21)"
  have ok: "bucket_ok hist latest k (now mod 21) ?b" using assms(1,4) by (simp add: guard_inv_def)
  show "bk_minute (rotate_bucket now ?b) = now" by (simp add: rotate_bucket_def)
  show "bucket_ok hist now k (now mod 21) (rotate_bucket now ?b)"
  proof (cases "bk_minute ?b = now")
    case True
    then show ?thesis using bucket_ok_later [OF ok assms(2)] by (simp add: rotate_bucket_def)
  next
    case False
    have "False" if "(x, now) \<in> set hist" "shard_of x = k" for x
    proof -
      have "now \<le> latest" "bk_minute ?b \<noteq> u64_max" "now \<le> bk_minute ?b" using assms(1) that by (auto simp: guard_inv_def)
      moreover from this(2) have "bk_minute ?b \<le> latest" using ok by (simp add: bucket_ok_def)
      ultimately show False using False assms(2) by simp
    qed
    then show ?thesis using False assms(3) by (auto simp: rotate_bucket_def bucket_ok_def)
  qed
qed

lemma put_bucket:
  assumes "k < 16" "j < 21" "guard_inv hist latest g" "k' < 16" "j' < 21" "rg_shards g' = put_ring g k j b"
  shows "bucket g' k' j' = (if k' = k \<and> j' = j then b else bucket g k' j')"
  using assms by (auto simp: guard_inv_def nth_list_update)

lemma put_inv:
  assumes "guard_inv hist latest g" "latest \<le> now" "k < 16" "bucket_ok hist' now k (now mod 21) b" "bk_minute b = now" "now < u64_max"
    and "hist' = hist \<or> (\<exists>x. hist' = (x, now) # hist \<and> shard_of x = k)" "rg_shards g' = put_ring g k (now mod 21) b"
  shows "guard_inv hist' now g'"
proof -
  note put = put_bucket [OF assms(3) _ assms(1) _ _ assms(8)]
  have shape: "length (rg_shards g') = 16" "\<forall>k < 16. length (sh_ring (rg_shards g' ! k)) = 21"
    using assms(1,3,8) by (auto simp: guard_inv_def nth_list_update)
  have "bucket_ok hist' now k' j' (bucket g' k' j')" if kj: "k' < 16" "j' < 21" for k' j'
  proof (cases "k' = k \<and> j' = now mod 21")
    case False
    have "bucket_ok hist latest k' j' (bucket g k' j')" using assms(1) kj by (simp add: guard_inv_def)
    note old = bucket_ok_later [OF this assms(2)]
    have "bk_minute (bucket g k' j') = now \<Longrightarrow> k' \<noteq> k" using old False assms(6) by (auto simp: bucket_ok_def)
    moreover have "bucket g' k' j' = bucket g k' j'" using put [of k' j'] kj False by simp
    ultimately show ?thesis using old assms(7) by (auto simp: bucket_ok_def)
  qed (use assms(4) put [of k' j'] kj in simp)
  moreover have "m \<le> now \<and> bk_minute (bucket g' (shard_of x) (m mod 21)) \<noteq> u64_max \<and> m \<le> bk_minute (bucket g' (shard_of x) (m mod 21))"
    if "(x, m) \<in> set hist'" for x m
  proof -
    have "(x, m) \<in> set hist \<or> m = now \<and> shard_of x = k" using that assms(7) by auto
    moreover have "(x, m) \<in> set hist \<Longrightarrow> m \<le> latest \<and> bk_minute (bucket g (shard_of x) (m mod 21)) \<noteq> u64_max \<and> m \<le> bk_minute (bucket g (shard_of x) (m mod 21))"
      using assms(1) by (auto simp: guard_inv_def)
    ultimately show ?thesis using put [of "shard_of x" "m mod 21"] assms(2,5,6) by auto
  qed
  ultimately show ?thesis using shape by (auto simp: guard_inv_def)
qed

lemma remembers_iff:
  assumes "guard_inv hist now g" "now < u64_max"
  shows "list_ex (remembers sealed now) (sh_ring (rg_shards g ! shard_of sealed)) \<longleftrightarrow> (\<exists>m. (sealed, m) \<in> set hist \<and> now - m \<le> WINDOW)"
proof
  let ?k = "shard_of sealed"
  assume "list_ex (remembers sealed now) (sh_ring (rg_shards g ! ?k))"
  then obtain j where j: "j < 21" "remembers sealed now (bucket g ?k j)" using assms(1) by (auto simp: list_ex_length guard_inv_def)
  have "bucket_ok hist now ?k j (bucket g ?k j)" using assms(1) j(1) by (simp add: guard_inv_def)
  then show "\<exists>m. (sealed, m) \<in> set hist \<and> now - m \<le> WINDOW" using j(2) by (auto simp: remembers_def bucket_ok_def)
next
  let ?k = "shard_of sealed"
  assume "\<exists>m. (sealed, m) \<in> set hist \<and> now - m \<le> WINDOW"
  then obtain m where m: "(sealed, m) \<in> set hist" "now - m \<le> WINDOW" by blast
  let ?b = "bucket g ?k (m mod 21)"
  have b: "m \<le> now" "bk_minute ?b \<noteq> u64_max" "m \<le> bk_minute ?b" "bucket_ok hist now ?k (m mod 21) ?b" using assms(1) m(1) by (auto simp: guard_inv_def)
  have "bk_minute ?b mod 21 = m mod 21" "bk_minute ?b \<le> now" using b(2,4) by (auto simp: bucket_ok_def)
  moreover from this(2) have "bk_minute ?b < m + 21" using m(2) by (simp add: WINDOW_def)
  ultimately have "bk_minute ?b = m" using mod_near [of "bk_minute ?b" 21 m] b(3) by simp
  then have "remembers sealed now ?b" using b(2,4) m by (simp add: remembers_def bucket_ok_def)
  then show "list_ex (remembers sealed now) (sh_ring (rg_shards g ! ?k))"
    using assms(1) by (auto simp: list_ex_length guard_inv_def intro!: exI [of _ "m mod 21"])
qed

lemma guard_inv_later: "guard_inv hist latest g \<Longrightarrow> latest \<le> now \<Longrightarrow> guard_inv hist now g"
  using bucket_ok_later unfolding guard_inv_def by (fastforce intro: order_trans)

lemma guard_check_exact:
  assumes "guard_inv hist latest g" "latest \<le> now" "now < u64_max" "length sealed = 32"
  shows "\<exists>v g'. guard_check sealed ts now g = Some (v, g') \<and> guard_inv (if v = Fresh then (sealed, now) # hist else hist) now g' \<and>
    rg_start_min g' = rg_start_min g \<and> rg_max_bucket g' = rg_max_bucket g \<and>
    (v = Fresh \<longleftrightarrow> rg_start_min g \<le> ts \<and> (\<forall>m. (sealed, m) \<in> set hist \<longrightarrow> WINDOW < now - m) \<and>
       card {x. (x, now) \<in> set hist \<and> shard_of x = shard_of sealed} < rg_max_bucket g)"
proof (cases "rg_start_min g \<le> ts")
  case False
  then show ?thesis using guard_inv_later [OF assms(1,2)] by (simp add: guard_check_def)
next
  case True
  let ?k = "shard_of sealed" and ?j = "now mod 21"
  let ?b = "rotate_bucket now (bucket g ?k ?j)"
  let ?g = "g\<lparr>rg_shards := put_ring g ?k ?j ?b\<rparr>" and ?b' = "?b\<lparr>bk_seals := List.insert sealed (bk_seals ?b)\<rparr>"
  note rot = rotate_ok [OF assms(1-3) shard_of_less [of sealed]]
  have inv: "guard_inv hist now g'" if "rg_shards g' = put_ring g ?k ?j ?b" for g'
    by (rule put_inv [OF assms(1,2) shard_of_less rot assms(3) _ that]) simp
  have seen: "list_ex (remembers sealed now) ((sh_ring (rg_shards g ! ?k))[?j := ?b]) \<longleftrightarrow> (\<exists>m. (sealed, m) \<in> set hist \<and> now - m \<le> WINDOW)"
    using remembers_iff [OF inv [of ?g] assms(3), of sealed] assms(1) by (simp add: guard_inv_def)
  have seals: "set (bk_seals ?b) = {x. (x, now) \<in> set hist \<and> shard_of x = ?k}" "distinct (bk_seals ?b)"
    using rot assms(3) by (auto simp: bucket_ok_def)
  then have load: "length (bk_seals ?b) = card {x. (x, now) \<in> set hist \<and> shard_of x = ?k}" using distinct_card by metis
  have "bucket_ok ((sealed, now) # hist) now ?k ?j ?b'" using rot seals assms(3) by (auto simp: bucket_ok_def)
  then have inv': "guard_inv ((sealed, now) # hist) now (g\<lparr>rg_shards := put_ring g ?k ?j ?b'\<rparr>)"
    by (rule put_inv [OF assms(1,2) shard_of_less _ _ assms(3)]) (use rot(2) in auto)
  show ?thesis using guard_check_eq [OF assms(1,4) True, of now] seen load inv inv' True
    by (auto simp: Let_def not_le)
qed

section \<open>No hello is accepted twice\<close>

fun decide_run :: "reality_env \<Rightarrow> bytes \<Rightarrow> bytes list \<Rightarrow> (bool \<times> Hello \<times> nat) list \<Rightarrow> ReplayGuard \<Rightarrow> Decision list exec" where
  "decide_run E priv_key short_ids [] g = Some []"
| "decide_run E priv_key short_ids ((sni_ok, h, now) # evs) g = do {
     (d, g') \<leftarrow> reality_decide E priv_key short_ids sni_ok h now g;
     ds \<leftarrow> decide_run E priv_key short_ids evs g';
     Some (d # ds) }"

abbreviation recovers :: "reality_env \<Rightarrow> bytes \<Rightarrow> bytes list \<Rightarrow> Hello \<Rightarrow> nat \<Rightarrow> (bytes \<times> nat \<times> bytes) option" where
  "recovers E priv_key short_ids h now \<equiv>
     open_recover_shared E priv_key (ch_eph_pub h) (ch_random h) (ch_session_id h) short_ids now REALITY_SKEW_MIN"

lemma recovers_near:
  assumes "recovers E priv_key short_ids h now = Some r" "recovers E priv_key short_ids h m = Some r'"
  shows "now - m \<le> WINDOW"
  using assms by (auto simp: open_recover_shared_def Let_def bind_eq_Some_conv abs_diff_def REALITY_SKEW_MIN_def WINDOW_def split: if_splits)

lemma recovers_length: "recovers E priv_key short_ids h now = Some r \<Longrightarrow> length (ch_session_id h) = 32"
  by (auto simp: open_recover_shared_def SESSION_ID_LEN_def split: if_splits)

text \<open>A decision, and what it adds to the history.\<close>

definition spent :: "reality_env \<Rightarrow> bytes \<Rightarrow> bytes list \<Rightarrow> (bytes \<times> nat) list \<Rightarrow> Hello \<Rightarrow> bool" where
  "spent E priv_key short_ids hist h \<longleftrightarrow> (\<exists>m. (ch_session_id h, m) \<in> set hist \<and> recovers E priv_key short_ids h m \<noteq> None)"

lemma decide_exact:
  assumes "guard_inv hist latest g" "latest \<le> now" "now < u64_max"
  shows "\<exists>d g' hist'. reality_decide E priv_key short_ids sni_ok h now g = Some (d, g') \<and> guard_inv hist' now g' \<and> set hist \<subseteq> set hist' \<and>
    (d = Accept \<longrightarrow> spent E priv_key short_ids hist' h \<and> \<not> spent E priv_key short_ids hist h) \<and>
    (d = Accept \<longleftrightarrow> sni_ok \<and> (\<exists>a ts b. recovers E priv_key short_ids h now = Some (a, ts, b) \<and> rg_start_min g \<le> ts \<and>
       (\<forall>m. (ch_session_id h, m) \<in> set hist \<longrightarrow> WINDOW < now - m) \<and>
       card {x. (x, now) \<in> set hist \<and> shard_of x = shard_of (ch_session_id h)} < rg_max_bucket g))"
proof (cases "sni_ok \<and> recovers E priv_key short_ids h now \<noteq> None")
  case False
  then have "reality_decide E priv_key short_ids sni_ok h now g = Some (Splice, g)" by (auto simp: reality_decide_def split: option.splits)
  then show ?thesis using guard_inv_later [OF assms(1,2)] False by (intro exI [of _ Splice] exI [of _ g] exI [of _ hist]) auto
next
  case True
  then obtain a ts b where r: "recovers E priv_key short_ids h now = Some (a, ts, b)" by auto
  obtain v g' where c: "guard_check (ch_session_id h) ts now g = Some (v, g')"
    "guard_inv (if v = Fresh then (ch_session_id h, now) # hist else hist) now g'"
    "v = Fresh \<longleftrightarrow> rg_start_min g \<le> ts \<and> (\<forall>m. (ch_session_id h, m) \<in> set hist \<longrightarrow> WINDOW < now - m) \<and>
       card {x. (x, now) \<in> set hist \<and> shard_of x = shard_of (ch_session_id h)} < rg_max_bucket g"
    using guard_check_exact [OF assms recovers_length [OF r], of ts] by blast
  have "\<not> spent E priv_key short_ids hist h" if "v = Fresh"
    using that c(3) recovers_near [OF r] by (auto simp: spent_def not_le [symmetric])
  moreover have "spent E priv_key short_ids ((ch_session_id h, now) # hist) h" using r by (auto simp: spent_def)
  moreover have "reality_decide E priv_key short_ids sni_ok h now g = Some (case v of Fresh \<Rightarrow> Accept | Replayed \<Rightarrow> Splice, g')"
    using True r c(1) by (simp add: reality_decide_def decide_authed_def)
  ultimately show ?thesis using c(2,3) r True
    by (intro exI [of _ "case v of Fresh \<Rightarrow> Accept | Replayed \<Rightarrow> Splice"] exI [of _ g'] exI [of _ "if v = Fresh then (ch_session_id h, now) # hist else hist"])
      (cases v; auto)
qed

lemma spent_mono: "spent E priv_key short_ids hist h \<Longrightarrow> set hist \<subseteq> set hist' \<Longrightarrow> spent E priv_key short_ids hist' h"
  by (auto simp: spent_def)

lemma decide_run_once:
  assumes "guard_inv hist latest g" "sorted (map (snd \<circ> snd) evs)" "\<forall>(ok, h, now) \<in> set evs. latest \<le> now \<and> now < u64_max"
  shows "\<exists>ds. decide_run E priv_key short_ids evs g = Some ds \<and> length ds = length evs \<and>
    (\<forall>j < length evs. spent E priv_key short_ids hist (fst (snd (evs ! j))) \<longrightarrow> ds ! j = Splice) \<and>
    (\<forall>i j. i < j \<longrightarrow> j < length evs \<longrightarrow> ds ! i = Accept \<longrightarrow> fst (snd (evs ! i)) = fst (snd (evs ! j)) \<longrightarrow> ds ! j = Splice)"
  using assms
proof (induction evs arbitrary: hist latest g)
  case (Cons ev evs)
  obtain ok h now where ev: "ev = (ok, h, now)" by (cases ev)
  have now: "latest \<le> now" "now < u64_max" using Cons(4) ev by auto
  obtain d g' hist' where d: "reality_decide E priv_key short_ids ok h now g = Some (d, g')" "guard_inv hist' now g'" "set hist \<subseteq> set hist'"
    "d = Accept \<longrightarrow> spent E priv_key short_ids hist' h \<and> \<not> spent E priv_key short_ids hist h"
    using decide_exact [OF Cons(2) now, of E priv_key short_ids ok h] by blast
  have "\<forall>(ok, h, t) \<in> set evs. now \<le> t \<and> t < u64_max" using Cons(3,4) ev by fastforce
  from Cons(1) [OF d(2) _ this] Cons(3) obtain ds where ds: "decide_run E priv_key short_ids evs g' = Some ds" "length ds = length evs"
    "\<forall>j < length evs. spent E priv_key short_ids hist' (fst (snd (evs ! j))) \<longrightarrow> ds ! j = Splice"
    "\<forall>i j. i < j \<longrightarrow> j < length evs \<longrightarrow> ds ! i = Accept \<longrightarrow> fst (snd (evs ! i)) = fst (snd (evs ! j)) \<longrightarrow> ds ! j = Splice"
    by auto
  have 1: "(d # ds) ! j = Splice" if "j < length (ev # evs)" "spent E priv_key short_ids hist (fst (snd ((ev # evs) ! j)))" for j
    using that d(4) ds(3) spent_mono [OF _ d(3)] ev by (cases j) (auto intro: Decision.exhaust [of d])
  have 2: "(d # ds) ! j = Splice" if "i < j" "j < length (ev # evs)" "(d # ds) ! i = Accept" "fst (snd ((ev # evs) ! i)) = fst (snd ((ev # evs) ! j))" for i j
  proof (cases i)
    case 0
    then show ?thesis using that d(4) ds(3) ev by (cases j) auto
  next
    case (Suc i')
    then show ?thesis using that ds(4) by (cases j) auto
  qed
  show ?case using ev d(1) ds(1,2) 1 2 by (intro exI [of _ "d # ds"]) (simp del: nth_Cons_Suc nth_Cons_0)
qed simp

text \<open>C10: a recorded hello never works twice. However many hellos arrive, of whatever clients, as long as the relay's clock does not run
  backwards, every one is decided without a panic, and a hello with the same key share, random and session
  identifier as one that was accepted is spliced to the cover site, at any later time: within the memory of the
  guard by the guard, and after it by the timestamp under the seal.\<close>

theorem reality_no_replay:
  assumes "sorted (map (snd \<circ> snd) evs)" "\<forall>(sni_ok, h, now) \<in> set evs. now < u64_max"
  shows "\<exists>ds. decide_run E priv_key short_ids evs (guard_new start_min max_bucket) = Some ds \<and> length ds = length evs \<and>
    (\<forall>i j. i < j \<and> j < length evs \<and> ds ! i = Accept \<and> fst (snd (evs ! i)) = fst (snd (evs ! j)) \<longrightarrow> ds ! j = Splice)"
proof -
  have "\<forall>(ok, h, now) \<in> set evs. 0 \<le> now \<and> now < u64_max" using assms(2) by simp
  from decide_run_once [OF guard_new_inv assms(1) this, of E priv_key short_ids start_min max_bucket] show ?thesis by blast
qed

definition sample_reality :: reality_env where
  "sample_reality = \<lparr>re_dh = \<lambda>_ _. [], re_hkdf = \<lambda>_ _. [], re_encrypt = \<lambda>_ _ p. p @ replicate 16 0, re_decrypt = \<lambda>_ _ c. Some (take (length c - 16) c)\<rparr>"

definition sample_hello :: Hello where
  "sample_hello = \<lparr>ch_eph_pub = [], ch_random = replicate 32 0, ch_session_id = replicate 8 1 @ rev (be64 100) @ replicate 16 0\<rparr>"

theorem reality_no_replay_witness:
  "\<exists>ds. decide_run sample_reality [] [replicate 8 1] [(True, sample_hello, 95), (True, sample_hello, 110)] (guard_new 0 4) = Some ds \<and>
     (ds ! 0 = Accept \<longrightarrow> ds ! 1 = Splice)"
proof -
  have "\<exists>ds. decide_run sample_reality [] [replicate 8 1] [(True, sample_hello, 95), (True, sample_hello, 110)] (guard_new 0 4) = Some ds \<and>
     length ds = length [(True, sample_hello, 95 :: nat), (True, sample_hello, 110)] \<and>
    (\<forall>i j. i < j \<and> j < length [(True, sample_hello, 95 :: nat), (True, sample_hello, 110)] \<and> ds ! i = Accept \<and>
       fst (snd ([(True, sample_hello, 95 :: nat), (True, sample_hello, 110)] ! i)) = fst (snd ([(True, sample_hello, 95 :: nat), (True, sample_hello, 110)] ! j)) \<longrightarrow> ds ! j = Splice)"
    by (rule reality_no_replay) (simp_all add: u64_max_def)
  then obtain ds where ds: "decide_run sample_reality [] [replicate 8 1] [(True, sample_hello, 95), (True, sample_hello, 110)] (guard_new 0 4) = Some ds"
    "\<forall>i j. i < j \<and> j < length [(True, sample_hello, 95 :: nat), (True, sample_hello, 110)] \<and> ds ! i = Accept \<and>
       fst (snd ([(True, sample_hello, 95 :: nat), (True, sample_hello, 110)] ! i)) = fst (snd ([(True, sample_hello, 95 :: nat), (True, sample_hello, 110)] ! j)) \<longrightarrow> ds ! j = Splice"
    by blast
  from ds(2) [THEN spec [of _ 0], THEN spec [of _ 1]] ds(1) show ?thesis by simp
qed

section \<open>Genuine clients\<close>

inductive guarded :: "nat \<Rightarrow> nat \<Rightarrow> (bytes \<times> nat) list \<Rightarrow> nat \<Rightarrow> ReplayGuard \<Rightarrow> bool" for start_min max_bucket where
  new: "guarded start_min max_bucket [] 0 (guard_new start_min max_bucket)"
| checked: "guarded start_min max_bucket hist latest g \<Longrightarrow> latest \<le> now \<Longrightarrow> now < u64_max \<Longrightarrow> length sealed = 32 \<Longrightarrow>
    guard_check sealed ts now g = Some (v, g') \<Longrightarrow> guarded start_min max_bucket (if v = Fresh then (sealed, now) # hist else hist) now g'"

lemma guarded_inv: "guarded start_min max_bucket hist latest g \<Longrightarrow> guard_inv hist latest g \<and> rg_start_min g = start_min \<and> rg_max_bucket g = max_bucket"
proof (induction rule: guarded.induct)
  case new
  show ?case using guard_new_inv by (simp add: guard_new_def)
next
  case (checked hist latest g now sealed ts v g')
  then show ?case using guard_check_exact [of hist latest g now sealed ts] by auto
qed

text \<open>C17: a genuine client gets in. With a key exchange on which both sides agree and an authenticated cipher that opens what it
  sealed, the seal of a client that knows the relay's key and a configured short identifier, and whose clock is
  within ten minutes of the relay's, is accepted by every reachable guard that has not seen it and has room,
  unless it was minted before the relay started.\<close>

theorem reality_genuine_accepted:
  assumes "guarded start_min max_bucket hist latest g" "latest \<le> now" "now < u64_max"
    and "re_dh E eph_priv server_pub = re_dh E priv_key eph_pub"
    and "\<forall>k n p. re_decrypt E k n (re_encrypt E k n p) = Some p" "\<forall>k n p. length (re_encrypt E k n p) = length p + 16"
    and "short_id \<in> set short_ids" "length short_id = 8" "length random = 32"
    and "start_min \<le> unat ts_min" "abs_diff (unat ts_min) now \<le> REALITY_SKEW_MIN" "card {x. (x, now) \<in> set hist} < max_bucket"
  shows "\<exists>sealed. reality_seal E server_pub eph_priv random short_id ts_min = Some sealed \<and>
    ((\<forall>m. (sealed, m) \<notin> set hist) \<longrightarrow>
      (\<exists>g'. reality_decide E priv_key short_ids True \<lparr>ch_eph_pub = eph_pub, ch_random = random, ch_session_id = sealed\<rparr> now g = Some (Accept, g')))"
proof -
  let ?p = "short_id @ rev (be64 ts_min)"
  let ?k = "derive_aead_key E (re_dh E eph_priv server_pub)"
  let ?c = "re_encrypt E ?k (take 12 random) ?p"
  let ?h = "\<lparr>ch_eph_pub = eph_pub, ch_random = random, ch_session_id = ?c\<rparr>"
  have len: "length ?p = 16" "length ?c = 32" using assms(6,8) by (simp_all add: codec_simps)
  have "slice random 0 12 = Some (take 12 random)" "slice ?p 0 8 = Some short_id" "slice ?p 8 16 = Some (rev (be64 ts_min))"
    using assms(8,9) by (simp_all add: slice_def codec_simps)
  then have r: "recovers E priv_key short_ids ?h now = Some (short_id, unat ts_min, re_dh E priv_key eph_pub)"
    using assms(4,5,7,11) len by (simp add: open_recover_shared_def SESSION_ID_LEN_def PLAINTEXT_LEN_def Let_def codec_simps)
  have inv: "guard_inv hist latest g" "rg_start_min g = start_min" "rg_max_bucket g = max_bucket" using guarded_inv [OF assms(1)] by auto
  have fin: "finite {x. (x, now) \<in> set hist}" by (rule finite_subset [of _ "fst ` set hist"]) force+
  have room: "card {x. (x, now) \<in> set hist \<and> shard_of x = shard_of ?c} < max_bucket"
    by (rule le_less_trans [OF card_mono [OF fin] assms(12)]) blast
  have "\<exists>g'. reality_decide E priv_key short_ids True ?h now g = Some (Accept, g')" if "\<forall>m. (?c, m) \<notin> set hist"
    using decide_exact [OF inv(1) assms(2,3), of E priv_key short_ids True ?h] r that inv(2,3) room assms(10) by auto
  then show ?thesis using len by (simp add: reality_seal_def SESSION_ID_LEN_def Let_def)
qed

theorem reality_genuine_accepted_witness:
  "\<exists>sealed. reality_seal sample_reality [] [] (replicate 32 0) (replicate 8 1) 100 = Some sealed \<and>
     (\<exists>g'. reality_decide sample_reality [] [replicate 8 1] True \<lparr>ch_eph_pub = [], ch_random = replicate 32 0, ch_session_id = sealed\<rparr> 95 (guard_new 0 4) = Some (Accept, g'))"
  using reality_genuine_accepted [OF guarded.new, of 95 sample_reality "[]" "[]" "[]" "[]" "replicate 8 1" "[replicate 8 1]" "replicate 32 0" 0 100 4]
  by (simp add: u64_max_def abs_diff_def REALITY_SKEW_MIN_def) (simp add: sample_reality_def)

end
