(* ===== verification/Path.thy ===== *)
theory Path
  imports Prelude
begin

text \<open>
  The state machine that escalates a peer's path from direct probes over hole punching to the relay,
  \<^verbatim>\<open>bin/yipd/src/path.rs\<close>. Addresses are of any type.
\<close>

section \<open>State machine\<close>

definition DIRECT_MS :: nat where "DIRECT_MS = 3000"

definition PUNCH_MS :: nat where "PUNCH_MS = 5000"

datatype PathStage = StageDirect | StagePunching | StageRelaying | StageFailed

datatype 'addr PathAction = Idle | NeedLookup | Probe 'addr | Relay | NoPath

record 'addr PathState =
  ps_stage :: PathStage
  ps_has_rendezvous :: bool
  ps_direct :: "'addr option"
  ps_candidate :: "'addr option"
  ps_stage_started_ms :: nat
  ps_committed :: bool
  ps_looked_up :: bool
  ps_relay_only :: bool

definition path_new :: "bool \<Rightarrow> bool \<Rightarrow> nat \<Rightarrow> 'addr PathState" where
  "path_new has_direct has_rendezvous now_ms =
     \<lparr>ps_stage = (if has_direct then StageDirect else if has_rendezvous then StagePunching else StageFailed),
      ps_has_rendezvous = has_rendezvous, ps_direct = None, ps_candidate = None, ps_stage_started_ms = now_ms,
      ps_committed = False, ps_looked_up = False, ps_relay_only = False\<rparr>"

definition enter_stage :: "PathStage \<Rightarrow> nat \<Rightarrow> 'addr PathState \<Rightarrow> 'addr PathState" where
  "enter_stage st now_ms p = p\<lparr>ps_stage := st, ps_stage_started_ms := now_ms\<rparr>"

definition relay_only :: "nat \<Rightarrow> 'addr PathState" where
  "relay_only now_ms = (enter_stage StageRelaying now_ms (path_new False True now_ms))\<lparr>ps_relay_only := True\<rparr>"

definition path_candidate :: "'addr PathState \<Rightarrow> 'addr option" where
  "path_candidate p = (case ps_stage p of StageDirect \<Rightarrow> ps_direct p | StagePunching \<Rightarrow> ps_candidate p | _ \<Rightarrow> None)"

definition on_direct_addr :: "'addr \<Rightarrow> 'addr PathState \<Rightarrow> 'addr PathState" where
  "on_direct_addr addr p = p\<lparr>ps_direct := Some addr\<rparr>"

definition on_peer_candidate :: "'addr \<Rightarrow> nat \<Rightarrow> 'addr PathState \<Rightarrow> 'addr PathState" where
  "on_peer_candidate addr now_ms p0 =
     (let p = p0\<lparr>ps_candidate := Some addr\<rparr>
      in if ps_stage p = StageDirect \<or> ps_stage p = StagePunching
         then (if ps_stage p \<noteq> StagePunching then p\<lparr>ps_stage_started_ms := now_ms\<rparr> else p)\<lparr>ps_stage := StagePunching\<rparr>
         else p)"

definition punch_action :: "'addr PathState \<Rightarrow> 'addr PathAction \<times> 'addr PathState" where
  "punch_action p =
     (case ps_candidate p of
        Some addr \<Rightarrow> (Probe addr, p)
      | None \<Rightarrow> (NeedLookup, if \<not> ps_looked_up p then p\<lparr>ps_looked_up := True\<rparr> else p))"

definition path_advance :: "nat \<Rightarrow> 'addr PathState \<Rightarrow> 'addr PathAction \<times> 'addr PathState" where
  "path_advance now_ms p =
     (if ps_relay_only p then (Relay, p)
      else if ps_committed p then (Idle, p)
      else let elapsed = now_ms - ps_stage_started_ms p
           in case ps_stage p of
                StageDirect \<Rightarrow>
                  (case ps_direct p of
                     Some addr \<Rightarrow>
                       if elapsed < DIRECT_MS then (Probe addr, p)
                       else if ps_has_rendezvous p then punch_action (enter_stage StagePunching now_ms p)
                       else (NoPath, enter_stage StageFailed now_ms p)
                   | None \<Rightarrow>
                       if ps_has_rendezvous p then punch_action (enter_stage StagePunching now_ms p)
                       else (NoPath, enter_stage StageFailed now_ms p))
              | StagePunching \<Rightarrow> if elapsed \<ge> PUNCH_MS then (Relay, enter_stage StageRelaying now_ms p) else punch_action p
              | StageRelaying \<Rightarrow> (Relay, p)
              | StageFailed \<Rightarrow> (NoPath, p))"

definition path_committed :: "'addr PathState \<Rightarrow> 'addr PathState" where
  "path_committed p = p\<lparr>ps_committed := True\<rparr>"

definition path_reset :: "nat \<Rightarrow> 'addr PathState \<Rightarrow> 'addr PathState" where
  "path_reset now_ms p =
     p\<lparr>ps_committed := False, ps_candidate := None, ps_looked_up := False,
       ps_stage := (if ps_direct p \<noteq> None then StageDirect else if ps_has_rendezvous p then StagePunching else StageFailed),
       ps_stage_started_ms := now_ms\<rparr>"

section \<open>Runs\<close>

datatype 'addr path_event = Tick nat | Candidate 'addr nat | DirectAddr 'addr

fun path_step :: "'addr path_event \<Rightarrow> 'addr PathState \<Rightarrow> 'addr PathAction list \<times> 'addr PathState" where
  "path_step (Tick t) p = (case path_advance t p of (a, p') \<Rightarrow> ([a], p'))"
| "path_step (Candidate addr t) p = ([], on_peer_candidate addr t p)"
| "path_step (DirectAddr addr) p = ([], on_direct_addr addr p)"

fun path_run :: "'addr path_event list \<Rightarrow> 'addr PathState \<Rightarrow> 'addr PathAction list \<times> 'addr PathState" where
  "path_run [] p = ([], p)"
| "path_run (e # es) p = (case path_step e p of (acts, p') \<Rightarrow> case path_run es p' of (acts', p'') \<Rightarrow> (acts @ acts', p''))"

fun event_time :: "'addr path_event \<Rightarrow> nat" where
  "event_time (Tick t) = t"
| "event_time (Candidate _ t) = t"
| "event_time (DirectAddr _) = 0"

lemma path_run_append:
  "path_run (es @ fs) p = (case path_run es p of (acts, p') \<Rightarrow> case path_run fs p' of (acts', p'') \<Rightarrow> (acts @ acts', p''))"
  by (induction es arbitrary: p) (auto split: prod.splits)

text \<open>How far a path has come: nothing before \<open>d\<close> leaves the direct stage, and the punch stage began by \<open>u\<close>.\<close>

definition undecided :: "'addr PathState \<Rightarrow> bool" where
  "undecided p \<longleftrightarrow> \<not> ps_committed p \<and> \<not> ps_relay_only p"

definition path_by :: "nat \<Rightarrow> nat \<Rightarrow> 'addr PathState \<Rightarrow> bool" where
  "path_by d u p \<longleftrightarrow> undecided p \<and>
     (case ps_stage p of StageDirect \<Rightarrow> ps_stage_started_ms p \<le> d | StagePunching \<Rightarrow> ps_stage_started_ms p \<le> u | _ \<Rightarrow> True)"

definition settled :: "'addr PathState \<Rightarrow> bool" where
  "settled p \<longleftrightarrow> undecided p \<and> (ps_stage p = StageRelaying \<or> ps_stage p = StageFailed)"

lemmas path_defs = path_by_def settled_def undecided_def path_advance_def on_peer_candidate_def on_direct_addr_def punch_action_def enter_stage_def Let_def

lemma step_by: "path_by d u p \<Longrightarrow> event_time e \<le> u \<Longrightarrow> path_by d u (snd (path_step e p))"
  by (cases e; cases "ps_stage p") (auto simp: path_defs split: option.splits)

lemma run_by: "path_by d u p \<Longrightarrow> \<forall>e \<in> set es. event_time e \<le> u \<Longrightarrow> path_by d u (snd (path_run es p))"
proof (induction es arbitrary: p)
  case (Cons e es)
  have "path_by d u (snd (path_step e p))" using step_by Cons(2,3) by (meson list.set_intros(1))
  from Cons(1) [OF this] Cons(3) show ?case by (simp add: case_prod_beta)
qed simp

text \<open>Once the direct window is over the first tick leaves it; after that only the punch stage is left, with its start fixed.\<close>

definition past_direct :: "nat \<Rightarrow> 'addr PathState \<Rightarrow> bool" where
  "past_direct u p \<longleftrightarrow> path_by 0 u p \<and> ps_stage p \<noteq> StageDirect"

lemma tick_past_direct:
  assumes "path_by d t p" "t \<ge> d + DIRECT_MS"
  shows "past_direct t (snd (path_advance t p))"
  using assms by (cases "ps_stage p") (auto simp: past_direct_def path_defs DIRECT_MS_def split: option.splits)

lemma step_past_direct: "past_direct u p \<Longrightarrow> past_direct u (snd (path_step e p))"
  by (cases e; cases "ps_stage p") (auto simp: past_direct_def path_defs split: option.splits)

lemma run_past_direct: "past_direct u p \<Longrightarrow> past_direct u (snd (path_run es p))"
  by (induction es arbitrary: p) (simp_all add: case_prod_beta step_past_direct)

lemma tick_settles: "past_direct u p \<Longrightarrow> u + PUNCH_MS \<le> t \<Longrightarrow> settled (snd (path_advance t p))"
  by (cases "ps_stage p") (auto simp: past_direct_def path_defs split: option.splits)

lemma run_settled: "settled p \<Longrightarrow> settled (snd (path_run es p))"
proof (induction es arbitrary: p)
  case (Cons e es)
  have "settled (snd (path_step e p))" using Cons(2) by (cases e; cases "ps_stage p") (auto simp: path_defs)
  from Cons(1) [OF this] show ?case by (simp add: case_prod_beta)
qed simp

lemma settled_action: "settled p \<Longrightarrow> fst (path_advance t p) = (if ps_stage p = StageRelaying then Relay else NoPath)"
  by (auto simp: path_defs)

text \<open>With a rendezvous server a path never fails.\<close>

lemma run_rendezvous:
  "ps_has_rendezvous p \<and> ps_stage p \<noteq> StageFailed \<Longrightarrow> ps_has_rendezvous (snd (path_run es p)) \<and> ps_stage (snd (path_run es p)) \<noteq> StageFailed"
proof (induction es arbitrary: p)
  case (Cons e es)
  have "ps_has_rendezvous (snd (path_step e p)) \<and> ps_stage (snd (path_step e p)) \<noteq> StageFailed"
    using Cons(2) by (cases e; cases "ps_stage p") (auto simp: path_defs split: option.splits)
  from Cons(1) [OF this] show ?case by (simp add: case_prod_beta)
qed simp

text \<open>The addresses a path knows.\<close>

definition knows :: "'addr set \<Rightarrow> 'addr PathState \<Rightarrow> bool" where
  "knows A p \<longleftrightarrow> set_option (ps_direct p) \<union> set_option (ps_candidate p) \<subseteq> A"

fun fed :: "'addr path_event \<Rightarrow> 'addr set" where
  "fed (Tick _) = {}"
| "fed (Candidate addr _) = {addr}"
| "fed (DirectAddr addr) = {addr}"

lemma step_knows:
  "knows A p \<Longrightarrow> fed e \<subseteq> A \<Longrightarrow> knows A (snd (path_step e p)) \<and> (\<forall>addr. Probe addr \<in> set (fst (path_step e p)) \<longrightarrow> addr \<in> A)"
  by (cases e; cases "ps_stage p") (auto simp: knows_def path_defs split: option.splits)

lemma run_knows:
  "knows A p \<Longrightarrow> \<forall>e \<in> set es. fed e \<subseteq> A \<Longrightarrow> \<forall>addr. Probe addr \<in> set (fst (path_run es p)) \<longrightarrow> addr \<in> A"
proof (induction es arbitrary: p)
  case (Cons e es)
  have "knows A (snd (path_step e p)) \<and> (\<forall>addr. Probe addr \<in> set (fst (path_step e p)) \<longrightarrow> addr \<in> A)"
    by (rule step_knows) (use Cons(2,3) in auto)
  with Cons(1) [of "snd (path_step e p)"] Cons(3) show ?case by (auto simp: case_prod_beta)
qed simp

text \<open>C16: a path that is not committed always escalates. Whatever candidates arrive in between, a tick three seconds after the start
  and another one five seconds after that are enough: from then on every tick relays when there is a rendezvous server,
  and relays or reports that there is no path when there is none. And only addresses the path was given are ever probed.\<close>

theorem path_escalates:
  assumes "t1 \<ge> t0 + DIRECT_MS" "t2 \<ge> t1 + PUNCH_MS" "\<forall>e \<in> set es. event_time e \<le> t1"
  shows "(let run = path_run (es @ [Tick t1] @ fs @ [Tick t2] @ gs @ [Tick t]) (path_new has_direct has_rdv t0 :: 'addr PathState)
          in last (fst run) \<in> {Relay, NoPath} \<and> (has_rdv \<longrightarrow> last (fst run) = Relay) \<and>
             (\<forall>addr. Probe addr \<in> set (fst run) \<longrightarrow> addr \<in> (\<Union>e \<in> set (es @ fs @ gs). fed e)))"
proof -
  let ?p0 = "path_new has_direct has_rdv t0 :: 'addr PathState"
  let ?p1 = "snd (path_run es ?p0)"
  let ?p2 = "snd (path_run fs (snd (path_advance t1 ?p1)))"
  let ?p3 = "snd (path_run gs (snd (path_advance t2 ?p2)))"
  let ?es = "es @ [Tick t1] @ fs @ [Tick t2] @ gs @ [Tick t]"
  have "path_by t0 t1 ?p0" using assms(1) by (simp add: path_by_def undecided_def path_new_def)
  from run_by [OF this assms(3)] have "path_by t0 t1 ?p1" .
  from tick_past_direct [OF this assms(1)] have "past_direct t1 ?p2" by (rule run_past_direct)
  from tick_settles [OF this assms(2)] have s: "settled ?p3" by (rule run_settled)
  have act: "last (fst (path_run ?es ?p0)) = fst (path_advance t ?p3)"
    by (simp add: path_run_append case_prod_beta)
  then have "last (fst (path_run ?es ?p0)) \<in> {Relay, NoPath}" using settled_action [OF s, of t] by simp
  moreover have "fst (path_advance t ?p3) = Relay" if has_rdv
  proof -
    have "?p3 = snd (path_run (es @ [Tick t1] @ fs @ [Tick t2] @ gs) ?p0)" by (simp add: path_run_append case_prod_beta)
    moreover have "ps_has_rendezvous ?p0 \<and> ps_stage ?p0 \<noteq> StageFailed" using that by (simp add: path_new_def)
    ultimately have "ps_stage ?p3 \<noteq> StageFailed" using run_rendezvous [of ?p0] by metis
    then show ?thesis using s settled_action [OF s, of t] by (auto simp: settled_def)
  qed
  moreover have "knows (\<Union>e \<in> set (es @ fs @ gs). fed e) ?p0" by (simp add: knows_def path_new_def)
  then have "\<forall>addr. Probe addr \<in> set (fst (path_run ?es ?p0)) \<longrightarrow> addr \<in> (\<Union>e \<in> set (es @ fs @ gs). fed e)"
    by (rule run_knows) auto
  ultimately show ?thesis unfolding Let_def act by blast
qed

theorem path_escalates_witness:
  "last (fst (path_run ([DirectAddr (1::nat), Tick 0, Candidate 2 1000] @ [Tick 3000] @ [Candidate 3 4000] @ [Tick 8000] @ [] @ [Tick 8001]) (path_new True True 0))) = Relay"
  using path_escalates [of 0 3000 8000 "[DirectAddr (1::nat), Tick 0, Candidate 2 1000]" "[Candidate 3 4000]" "[]" 8001 True True]
  by (simp only: Let_def DIRECT_MS_def PUNCH_MS_def) simp

end
