(* ===== verification/Epoch.thy ===== *)
theory Epoch
  imports Data_Plane_Inv
begin

text \<open>
  The session epochs of a peer, \<^verbatim>\<open>bin/yipd/src/epoch.rs\<close>: the data plane in use, the one a responder has derived from a rekey
  but not yet seen used, and the previous one, kept for datagrams in flight. The state of a rekey handshake is of any type.
\<close>

section \<open>State\<close>

definition REKEY_INTERVAL_MS :: nat where "REKEY_INTERVAL_MS = 120000"

definition PREVIOUS_EPOCH_GRACE_MS :: nat where "PREVIOUS_EPOCH_GRACE_MS = 15000"

record ('hs, 'addr) RekeyInFlight =
  rk_hs :: 'hs
  rk_init_pkt :: bytes
  rk_started_ms :: nat
  rk_last_sent_ms :: nat
  rk_retry_ms :: nat
  rk_target :: 'addr

datatype 'addr EpochInbound =
    EpochNone
  | EpochTun bytes
  | EpochSend "'addr EgressDatagram list"
  | EpochTunThenSend bytes "'addr EgressDatagram list"

record ('f, 'g, 'addr) NextEpoch =
  ne_dp :: "('f, 'g, 'addr) DataPlane"
  ne_init_eph :: bytes
  ne_cached_resp :: bytes

record ('f, 'g, 'addr, 'hs) EpochSet =
  ep_current :: "('f, 'g, 'addr) DataPlane"
  ep_current_created_ms :: nat
  ep_next :: "('f, 'g, 'addr) NextEpoch option"
  ep_previous :: "('f, 'g, 'addr) DataPlane option"
  ep_previous_retire_ms :: nat
  ep_rekey :: "('hs, 'addr) RekeyInFlight option"
  ep_epoch :: nat

definition epoch_new :: "('f, 'g, 'addr) DataPlane \<Rightarrow> nat \<Rightarrow> ('f, 'g, 'addr, 'hs) EpochSet" where
  "epoch_new current now_ms =
     \<lparr>ep_current = current, ep_current_created_ms = now_ms, ep_next = None, ep_previous = None, ep_previous_retire_ms = 0, ep_rekey = None, ep_epoch = 1\<rparr>"

section \<open>Operations\<close>

definition ep_set_fec_repair_ratio :: "('f, 'g) dp_env \<Rightarrow> 'f \<Rightarrow> ('f, 'g, 'addr, 'hs) EpochSet \<Rightarrow> ('f, 'g, 'addr, 'hs) EpochSet" where
  "ep_set_fec_repair_ratio E r es =
     es\<lparr>ep_current := dp_set_fec_repair_ratio E r (ep_current es),
        ep_next := map_option (\<lambda>n. n\<lparr>ne_dp := dp_set_fec_repair_ratio E r (ne_dp n)\<rparr>) (ep_next es)\<rparr>"

definition candidate_obf_keys :: "('f, 'g, 'addr, 'hs) EpochSet \<Rightarrow> bytes list" where
  "candidate_obf_keys es =
     (let keys = (case dp_obf_key (ep_current es) of Some k \<Rightarrow> [k] | None \<Rightarrow> []);
          keys1 = (case ep_next es of
                     Some n \<Rightarrow> (case dp_obf_key (ne_dp n) of Some k \<Rightarrow> if k \<in> set keys then keys else keys @ [k] | None \<Rightarrow> keys)
                   | None \<Rightarrow> keys)
      in case ep_previous es of
           Some p \<Rightarrow> (case dp_obf_key p of Some k \<Rightarrow> if k \<in> set keys1 then keys1 else keys1 @ [k] | None \<Rightarrow> keys1)
         | None \<Rightarrow> keys1)"

definition ep_set_peer_addr :: "'addr \<Rightarrow> ('f, 'g, 'addr, 'hs) EpochSet \<Rightarrow> ('f, 'g, 'addr, 'hs) EpochSet" where
  "ep_set_peer_addr addr es =
     es\<lparr>ep_current := set_peer_addr addr (ep_current es),
        ep_next := map_option (\<lambda>n. n\<lparr>ne_dp := set_peer_addr addr (ne_dp n)\<rparr>) (ep_next es),
        ep_previous := map_option (set_peer_addr addr) (ep_previous es),
        ep_rekey := map_option (\<lambda>rk. rk\<lparr>rk_target := addr\<rparr>) (ep_rekey es)\<rparr>"

fun own :: "'addr Outcome \<Rightarrow> 'addr EpochInbound" where
  "own NoOutcome = EpochNone"
| "own (TunWrite b) = EpochTun b"
| "own (Send pkts) = EpochSend pkts"
| "own (TunWriteThenSend b pkts) = EpochTunThenSend b pkts"

definition previous_open ::
    "('f, 'g) dp_env \<Rightarrow> bytes \<Rightarrow> nat \<Rightarrow> ('f, 'g, 'addr, 'hs) EpochSet \<Rightarrow> ('addr EpochInbound \<times> ('f, 'g, 'addr, 'hs) EpochSet) exec" where
  "previous_open E dg now_ms es =
     (case ep_previous es of
        Some prev \<Rightarrow> do { (o3, prev') \<leftarrow> on_udp_datagram E dg now_ms prev; Some (own o3, es\<lparr>ep_previous := Some prev'\<rparr>) }
      | None \<Rightarrow> Some (EpochNone, es))"

definition inbound_open ::
    "('f, 'g) dp_env \<Rightarrow> bytes \<Rightarrow> nat \<Rightarrow> ('f, 'g, 'addr, 'hs) EpochSet \<Rightarrow> ('addr EpochInbound \<times> ('f, 'g, 'addr, 'hs) EpochSet) exec" where
  "inbound_open E dg now_ms es = do {
     (o1, cur) \<leftarrow> on_udp_datagram E dg now_ms (ep_current es);
     let es1 = es\<lparr>ep_current := cur\<rparr>;
     if own o1 \<noteq> EpochNone then Some (own o1, es1)
     else case ep_next es1 of
       None \<Rightarrow> previous_open E dg now_ms es1
     | Some n \<Rightarrow> do {
         (o2, ndp) \<leftarrow> on_udp_datagram E dg now_ms (ne_dp n);
         if own o2 \<noteq> EpochNone
         then Some (own o2, es1\<lparr>ep_next := None, ep_current := ndp, ep_current_created_ms := now_ms, ep_previous := Some cur,
                              ep_previous_retire_ms := sat_add now_ms PREVIOUS_EPOCH_GRACE_MS, ep_epoch := sat_add (ep_epoch es1) 1\<rparr>)
         else previous_open E dg now_ms (es1\<lparr>ep_next := Some (n\<lparr>ne_dp := ndp\<rparr>)\<rparr>) } }"

definition promote_from_rekey :: "('f, 'g, 'addr) DataPlane \<Rightarrow> nat \<Rightarrow> ('f, 'g, 'addr, 'hs) EpochSet \<Rightarrow> ('f, 'g, 'addr, 'hs) EpochSet" where
  "promote_from_rekey new_dp now_ms es =
     es\<lparr>ep_current := new_dp, ep_current_created_ms := now_ms, ep_previous := Some (ep_current es),
        ep_previous_retire_ms := sat_add now_ms PREVIOUS_EPOCH_GRACE_MS, ep_rekey := None, ep_epoch := sat_add (ep_epoch es) 1\<rparr>"

definition install_next :: "('f, 'g, 'addr) DataPlane \<Rightarrow> bytes \<Rightarrow> bytes \<Rightarrow> ('f, 'g, 'addr, 'hs) EpochSet \<Rightarrow> ('f, 'g, 'addr, 'hs) EpochSet" where
  "install_next new_dp init_eph cached_resp es = es\<lparr>ep_next := Some \<lparr>ne_dp = new_dp, ne_init_eph = init_eph, ne_cached_resp = cached_resp\<rparr>\<rparr>"

definition next_cached_resp_for :: "bytes \<Rightarrow> ('f, 'g, 'addr, 'hs) EpochSet \<Rightarrow> bytes option" where
  "next_cached_resp_for init_eph es =
     (case ep_next es of Some n \<Rightarrow> if ne_init_eph n = init_eph then Some (ne_cached_resp n) else None | None \<Rightarrow> None)"

definition retire_previous_if_due :: "nat \<Rightarrow> ('f, 'g, 'addr, 'hs) EpochSet \<Rightarrow> ('f, 'g, 'addr, 'hs) EpochSet" where
  "retire_previous_if_due now_ms es = (if ep_previous es \<noteq> None \<and> now_ms \<ge> ep_previous_retire_ms es then es\<lparr>ep_previous := None\<rparr> else es)"

definition needs_rekey :: "nat \<Rightarrow> bool \<Rightarrow> nat \<Rightarrow> ('f, 'g, 'addr, 'hs) EpochSet \<Rightarrow> bool" where
  "needs_rekey now_ms is_glare_winner interval_ms es =
     (if ep_rekey es \<noteq> None then False
      else let age = now_ms - ep_current_created_ms es
           in if is_glare_winner then age \<ge> interval_ms else age \<ge> sat_mul interval_ms 2)"

section \<open>Reachable epochs\<close>

inductive epoch_reach :: "('f, 'g) dp_env \<Rightarrow> ('f, 'g, 'addr, 'hs) EpochSet \<Rightarrow> bool" for E where
  start: "dp_reach E dp \<Longrightarrow> epoch_reach E (epoch_new dp now)"
| inbound: "epoch_reach E es \<Longrightarrow> inbound_open E dg now es = Some (out, es') \<Longrightarrow> epoch_reach E es'"
| tun: "epoch_reach E es \<Longrightarrow> length inner \<le> 65535 \<Longrightarrow> on_tun_packet E inner now (ep_current es) = Some (sent, dp') \<Longrightarrow> epoch_reach E (es\<lparr>ep_current := dp'\<rparr>)"
| tick: "epoch_reach E es \<Longrightarrow> set (e_iter E (mt_index (dp_mac_table (ep_current es)))) = dom (mt_index (dp_mac_table (ep_current es))) \<Longrightarrow>
    dp_tick E v now (ep_current es) = Some (sent', dp') \<Longrightarrow> epoch_reach E (es\<lparr>ep_current := dp'\<rparr>)"
| install: "epoch_reach E es \<Longrightarrow> dp_reach E dp \<Longrightarrow> epoch_reach E (install_next dp eph resp es)"
| rekeying: "epoch_reach E es \<Longrightarrow> epoch_reach E (es\<lparr>ep_rekey := rk\<rparr>)"
| promote: "epoch_reach E es \<Longrightarrow> dp_reach E dp \<Longrightarrow> epoch_reach E (promote_from_rekey dp now es)"
| roam: "epoch_reach E es \<Longrightarrow> epoch_reach E (ep_set_peer_addr addr es)"
| ratio: "epoch_reach E es \<Longrightarrow> epoch_reach E (ep_set_fec_repair_ratio E r es)"
| retire: "epoch_reach E es \<Longrightarrow> epoch_reach E (retire_previous_if_due now es)"

text \<open>The data planes that still open datagrams.\<close>

definition live :: "('f, 'g, 'addr, 'hs) EpochSet \<Rightarrow> ('f, 'g, 'addr) DataPlane set" where
  "live es = {ep_current es} \<union> ne_dp ` set_option (ep_next es) \<union> set_option (ep_previous es)"

lemma live_iff: "(\<forall>dp \<in> live es. P dp) \<longleftrightarrow> P (ep_current es) \<and> (\<forall>n. ep_next es = Some n \<longrightarrow> P (ne_dp n)) \<and> (\<forall>p. ep_previous es = Some p \<longrightarrow> P p)"
  by (auto simp: live_def)

lemma own_none [simp]: "own out = EpochNone \<longleftrightarrow> out = NoOutcome"
  by (cases out) simp_all

lemma udp_steps:
  assumes "dp_reach E dp" "aead_ok (e_aead E)"
  obtains out dp' where "on_udp_datagram E dg now dp = Some (out, dp')" "dp_reach E dp'"
  using on_udp_total [OF dp_reach_inv [OF assms], of E dg now] dp_reach.udp [OF assms(1)] by blast

lemma previous_open_eq:
  assumes "\<forall>dp \<in> live es. dp_reach E dp" "aead_ok (e_aead E)"
  shows "\<exists>out es'. previous_open E dg now es = Some (out, es') \<and> (\<forall>dp \<in> live es'. dp_reach E dp) \<and> ep_next es' = ep_next es \<and> ep_epoch es' = ep_epoch es \<and> ep_current es' = ep_current es \<and>
    (out = EpochNone \<longleftrightarrow> (\<forall>p. ep_previous es = Some p \<longrightarrow> map_option fst (on_udp_datagram E dg now p) = Some NoOutcome))"
proof (cases "ep_previous es")
  case (Some p)
  then have "dp_reach E p" using assms(1) by (simp add: live_iff)
  then obtain out p' where "on_udp_datagram E dg now p = Some (out, p')" "dp_reach E p'" using assms(2) by (rule udp_steps)
  then show ?thesis using Some assms(1) by (auto simp: previous_open_def live_iff)
qed (use assms(1) in \<open>simp add: previous_open_def\<close>)

text \<open>A datagram through the epochs: which one switches, and that none that accepts it is passed over.\<close>

definition switched :: "nat \<Rightarrow> 'addr EpochInbound \<Rightarrow> ('f, 'g, 'addr) DataPlane \<Rightarrow> 'addr Outcome \<Rightarrow> ('f, 'g, 'addr) DataPlane \<Rightarrow>
    ('f, 'g, 'addr, 'hs) EpochSet \<Rightarrow> ('f, 'g, 'addr, 'hs) EpochSet \<Rightarrow> bool" where
  "switched now out cur o2 ndp es es' \<longleftrightarrow> ep_next es' = None \<and> ep_current es' = ndp \<and> out = own o2 \<and> ep_previous es' = Some cur \<and>
     ep_epoch es' = sat_add (ep_epoch es) 1 \<and> ep_current_created_ms es' = now \<and> ep_previous_retire_ms es' = sat_add now PREVIOUS_EPOCH_GRACE_MS"

definition stayed :: "('f, 'g, 'addr) DataPlane \<Rightarrow> ('f, 'g, 'addr, 'hs) EpochSet \<Rightarrow> ('f, 'g, 'addr, 'hs) EpochSet \<Rightarrow> bool" where
  "stayed cur es es' \<longleftrightarrow> ep_current es' = cur \<and> ep_epoch es' = ep_epoch es \<and>
     (\<forall>eph. next_cached_resp_for eph es' = next_cached_resp_for eph es) \<and> (ep_next es' = None \<longleftrightarrow> ep_next es = None)"

definition inbound_ok :: "('f, 'g) dp_env \<Rightarrow> bytes \<Rightarrow> nat \<Rightarrow> 'addr EpochInbound \<Rightarrow> ('f, 'g, 'addr, 'hs) EpochSet \<Rightarrow> ('f, 'g, 'addr, 'hs) EpochSet \<Rightarrow> bool" where
  "inbound_ok E dg now out es es' \<longleftrightarrow>
     (out = EpochNone \<longleftrightarrow> (\<forall>dp \<in> live es. map_option fst (on_udp_datagram E dg now dp) = Some NoOutcome)) \<and>
     (\<exists>o1 cur. on_udp_datagram E dg now (ep_current es) = Some (o1, cur) \<and> (o1 \<noteq> NoOutcome \<longrightarrow> out = own o1) \<and>
        (case ep_next es of
           None \<Rightarrow> stayed cur es es'
         | Some n \<Rightarrow> \<exists>o2 ndp. on_udp_datagram E dg now (ne_dp n) = Some (o2, ndp) \<and>
             (if o1 = NoOutcome \<and> o2 \<noteq> NoOutcome then switched now out cur o2 ndp es es' else stayed cur es es')))"

lemma inbound_exact:
  assumes "\<forall>dp \<in> live es. dp_reach E dp" "aead_ok (e_aead E)"
  shows "\<exists>out es'. inbound_open E dg now es = Some (out, es') \<and> (\<forall>dp \<in> live es'. dp_reach E dp) \<and> inbound_ok E dg now out es es'"
proof -
  have "dp_reach E (ep_current es)" using assms(1) by (simp add: live_iff)
  then obtain o1 cur where c: "on_udp_datagram E dg now (ep_current es) = Some (o1, cur)" "dp_reach E cur" using assms(2) by (rule udp_steps)
  let ?es1 = "es\<lparr>ep_current := cur\<rparr>"
  have live1: "\<forall>dp \<in> live ?es1. dp_reach E dp" using assms(1) c(2) by (simp add: live_iff)
  show ?thesis
  proof (cases "o1 = NoOutcome")
    case False
    have n_total: "\<exists>o2 ndp. on_udp_datagram E dg now (ne_dp n) = Some (o2, ndp)" if "ep_next es = Some n" for n
      using udp_steps [OF _ assms(2), of "ne_dp n" dg now] that assms(1) by (metis live_iff)
    have "inbound_ok E dg now (own o1) es ?es1"
      using False c(1) n_total by (auto simp: inbound_ok_def live_iff stayed_def next_cached_resp_for_def split: option.splits)
    then show ?thesis using False c(1) live1 by (simp add: inbound_open_def)
  next
    case o1: True
    show ?thesis
    proof (cases "ep_next es")
      case None
      obtain out es' where p: "previous_open E dg now ?es1 = Some (out, es')" "\<forall>dp \<in> live es'. dp_reach E dp" "ep_next es' = None" "ep_epoch es' = ep_epoch es" "ep_current es' = cur"
        "out = EpochNone \<longleftrightarrow> (\<forall>p. ep_previous es = Some p \<longrightarrow> map_option fst (on_udp_datagram E dg now p) = Some NoOutcome)"
        using previous_open_eq [OF live1 assms(2), of dg now] None by auto
      then have "inbound_ok E dg now out es es'" using c(1) o1 None by (simp add: inbound_ok_def live_iff stayed_def next_cached_resp_for_def)
      then show ?thesis using p(1,2) c(1) o1 None by (simp add: inbound_open_def)
    next
      case (Some n)
      then have "dp_reach E (ne_dp n)" using assms(1) by (simp add: live_iff)
      then obtain o2 ndp where n: "on_udp_datagram E dg now (ne_dp n) = Some (o2, ndp)" "dp_reach E ndp" using assms(2) by (rule udp_steps)
      show ?thesis
      proof (cases "o2 = NoOutcome")
        case False
        let ?es = "?es1\<lparr>ep_next := None, ep_current := ndp, ep_current_created_ms := now, ep_previous := Some cur,
          ep_previous_retire_ms := sat_add now PREVIOUS_EPOCH_GRACE_MS, ep_epoch := sat_add (ep_epoch es) 1\<rparr>"
        have "inbound_ok E dg now (own o2) es ?es" using c(1) o1 Some n(1) False by (auto simp: inbound_ok_def live_iff switched_def)
        moreover have "\<forall>dp \<in> live ?es. dp_reach E dp" using c(2) n(2) by (simp add: live_iff)
        ultimately show ?thesis using False c(1) o1 Some n(1) by (simp add: inbound_open_def)
      next
        case True
        let ?es2 = "?es1\<lparr>ep_next := Some (n\<lparr>ne_dp := ndp\<rparr>)\<rparr>"
        have "\<forall>dp \<in> live ?es2. dp_reach E dp" using live1 n(2) by (simp add: live_iff)
        from previous_open_eq [OF this assms(2), of dg now] obtain out es' where p: "previous_open E dg now ?es2 = Some (out, es')"
          "\<forall>dp \<in> live es'. dp_reach E dp" "ep_next es' = Some (n\<lparr>ne_dp := ndp\<rparr>)" "ep_epoch es' = ep_epoch es" "ep_current es' = cur"
          "out = EpochNone \<longleftrightarrow> (\<forall>p. ep_previous es = Some p \<longrightarrow> map_option fst (on_udp_datagram E dg now p) = Some NoOutcome)" by auto
        then have "inbound_ok E dg now out es es'" using c(1) o1 Some n(1) True by (simp add: inbound_ok_def live_iff stayed_def next_cached_resp_for_def)
        then show ?thesis using p(1,2) c(1) o1 Some n(1) True by (simp add: inbound_open_def)
      qed
    qed
  qed
qed

lemma epoch_reach_live: "epoch_reach E es \<Longrightarrow> aead_ok (e_aead E) \<Longrightarrow> \<forall>dp \<in> live es. dp_reach E dp"
proof (induction rule: epoch_reach.induct)
  case (inbound es dg now out es')
  then show ?case using inbound_exact [of es E dg now] by auto
next
  case (tun es inner now sent dp')
  have "dp_reach E dp'" by (rule dp_reach.tun [OF _ tun(2,3)]) (use tun(4,5) in \<open>simp add: live_iff\<close>)
  then show ?case using tun(4,5) by (simp add: live_iff)
next
  case (tick es v now sent' dp')
  have "dp_reach E dp'" by (rule dp_reach.tick [OF _ tick(2,3)]) (use tick(4,5) in \<open>simp add: live_iff\<close>)
  then show ?case using tick(4,5) by (simp add: live_iff)
qed (auto simp: live_iff epoch_new_def install_next_def promote_from_rekey_def ep_set_peer_addr_def ep_set_fec_repair_ratio_def retire_previous_if_due_def
    intro: dp_reach.roam dp_reach.ratio)

lemma candidate_keys: "set (candidate_obf_keys es) = (\<Union>dp \<in> live es. set_option (dp_obf_key dp))" "distinct (candidate_obf_keys es)"
  by (auto simp: candidate_obf_keys_def live_def Let_def split: option.splits)

text \<open>C11: a rekey loses nothing. In every reachable set of epochs a datagram is processed without a panic, and it yields nothing only when
  the current, the next and the previous data plane all yield nothing. The responder switches exactly when the next plane,
  and not the current one, yields something: the result is then the next plane's, it becomes the current one under the next
  epoch number, and the old plane stays open for fifteen seconds and not longer. Otherwise the current plane stays in
  use and a repeated request of the pending round finds the same answer. The keys tried on disguised datagrams are those
  of all open planes.\<close>

theorem epochs_lossless:
  fixes E :: "('f, 'g) dp_env" and es :: "('f, 'g, 'addr, 'hs) EpochSet"
  assumes "epoch_reach E es" "aead_ok (e_aead E)"
  shows "(\<exists>out es' o1 cur. inbound_open E dg now es = Some (out, es') \<and>
      (out = EpochNone \<longleftrightarrow> (\<forall>dp \<in> live es. map_option fst (on_udp_datagram E dg now dp) = Some NoOutcome)) \<and>
      on_udp_datagram E dg now (ep_current es) = Some (o1, cur) \<and> (o1 \<noteq> NoOutcome \<longrightarrow> out = own o1) \<and>
      (case ep_next es of
         None \<Rightarrow> ep_next es' = None \<and> ep_current es' = cur \<and> ep_epoch es' = ep_epoch es
       | Some n \<Rightarrow> \<exists>o2 ndp. on_udp_datagram E dg now (ne_dp n) = Some (o2, ndp) \<and>
           (if o1 = NoOutcome \<and> o2 \<noteq> NoOutcome
            then ep_next es' = None \<and> ep_current es' = ndp \<and> out = own o2 \<and> ep_epoch es' = sat_add (ep_epoch es) 1 \<and> ep_current_created_ms es' = now \<and>
              (\<forall>t. ep_previous (retire_previous_if_due t es') = (if t < sat_add now 15000 then Some cur else None))
            else ep_current es' = cur \<and> ep_epoch es' = ep_epoch es \<and> next_cached_resp_for (ne_init_eph n) es' = Some (ne_cached_resp n)))) \<and>
    set (candidate_obf_keys es) = (\<Union>dp \<in> live es. set_option (dp_obf_key dp))"
proof -
  obtain out es' where *: "inbound_open E dg now es = Some (out, es')" "inbound_ok E dg now out es es'"
    using inbound_exact [OF epoch_reach_live [OF assms] assms(2), of dg now] by blast
  then obtain o1 cur where c: "on_udp_datagram E dg now (ep_current es) = Some (o1, cur)" "o1 \<noteq> NoOutcome \<longrightarrow> out = own o1"
    and n: "case ep_next es of None \<Rightarrow> stayed cur es es'
      | Some n \<Rightarrow> \<exists>o2 ndp. on_udp_datagram E dg now (ne_dp n) = Some (o2, ndp) \<and>
          (if o1 = NoOutcome \<and> o2 \<noteq> NoOutcome then switched now out cur o2 ndp es es' else stayed cur es es')"
    unfolding inbound_ok_def by blast
  have sw: "ep_next es' = None \<and> ep_current es' = ndp \<and> out = own o2 \<and> ep_epoch es' = sat_add (ep_epoch es) 1 \<and> ep_current_created_ms es' = now \<and>
      (\<forall>t. ep_previous (retire_previous_if_due t es') = (if t < sat_add now 15000 then Some cur else None))" if "switched now out cur o2 ndp es es'" for o2 ndp
    using that by (auto simp: switched_def retire_previous_if_due_def PREVIOUS_EPOCH_GRACE_MS_def)
  have st: "next_cached_resp_for (ne_init_eph n) es' = Some (ne_cached_resp n)" if "stayed cur es es'" "ep_next es = Some n" for n
    using that by (simp add: stayed_def) (simp add: next_cached_resp_for_def)
  have "case ep_next es of
      None \<Rightarrow> ep_next es' = None \<and> ep_current es' = cur \<and> ep_epoch es' = ep_epoch es
    | Some n \<Rightarrow> \<exists>o2 ndp. on_udp_datagram E dg now (ne_dp n) = Some (o2, ndp) \<and>
        (if o1 = NoOutcome \<and> o2 \<noteq> NoOutcome
         then ep_next es' = None \<and> ep_current es' = ndp \<and> out = own o2 \<and> ep_epoch es' = sat_add (ep_epoch es) 1 \<and> ep_current_created_ms es' = now \<and>
           (\<forall>t. ep_previous (retire_previous_if_due t es') = (if t < sat_add now 15000 then Some cur else None))
         else ep_current es' = cur \<and> ep_epoch es' = ep_epoch es \<and> next_cached_resp_for (ne_init_eph n) es' = Some (ne_cached_resp n))"
  proof (cases "ep_next es")
    case None
    then show ?thesis using n by (simp add: stayed_def)
  next
    case (Some nx)
    then obtain o2 ndp where o2: "on_udp_datagram E dg now (ne_dp nx) = Some (o2, ndp)"
      "if o1 = NoOutcome \<and> o2 \<noteq> NoOutcome then switched now out cur o2 ndp es es' else stayed cur es es'" using n by auto
    show ?thesis
    proof (cases "o1 = NoOutcome \<and> o2 \<noteq> NoOutcome")
      case True
      then show ?thesis using o2 Some sw by simp
    next
      case False
      then have "stayed cur es es'" using o2(2) by (simp only: if_False)
      then show ?thesis using False o2(1) Some st by (auto simp: stayed_def)
    qed
  qed
  moreover have "out = EpochNone \<longleftrightarrow> (\<forall>dp \<in> live es. map_option fst (on_udp_datagram E dg now dp) = Some NoOutcome)" using *(2) unfolding inbound_ok_def by blast
  ultimately show ?thesis using *(1) c candidate_keys(1) [of es] by blast
qed

text \<open>A cipher whose tag is half of the key, so that a data plane refuses what is sealed under another key, and a path probe sealed
  under the key of the next plane.\<close>

definition keyed_aead :: aead where
  "keyed_aead = \<lparr>aead_seal = (\<lambda>k n p. if length k = 32 then Some (p, take 16 k) else None),
     aead_open = (\<lambda>k n b. (if 16 \<le> length b \<and> drop (length b - 16) b = take 16 k then Some (length b - 16) else None, b))\<rparr>"

lemma keyed_aead_ok: "aead_ok keyed_aead"
  by (auto simp: aead_ok_def keyed_aead_def)

abbreviation keyed_env :: "(f32, nat) dp_env" where
  "keyed_env \<equiv> sample_env\<lparr>e_aead := keyed_aead\<rparr>"

definition keyed_plane :: "u8 \<Rightarrow> u8 \<Rightarrow> (f32, nat, unit) DataPlane" where
  "keyed_plane a b = dataplane_new keyed_env (sample_end a b) 7 L2Tap () True 1200"

definition keyed_probe :: "u8 \<Rightarrow> bytes" where
  "keyed_probe k = packet_type Control # be64 0 @ control_encode (MtuProbe 1 8 [0, 0]) @ replicate 16 k"

lemma keyed_plane_probe:
  "\<exists>dp'. on_udp_datagram keyed_env (keyed_probe k) 5 (keyed_plane a b) =
     Some (if k = b then Send [control_packet () \<lparr>sd_counter = 0, sd_ciphertext = control_encode (MtuProbeAck 1 8) @ replicate 16 a\<rparr>] else NoOutcome, dp')"
proof -
  have dec: "control_decode (control_encode (MtuProbe 1 8 [0, 0])) = Some (MtuProbe 1 8 [0, 0])" unfolding control_roundtrip by simp
  have len: "length (control_encode (MtuProbe 1 8 [0, 0])) = 8" by simp
  have c: "unat (un64 (take 8 (be64 0))) = 0" by (simp add: un64_be64)
  have ses: "dp_session (keyed_plane a b) = es_session (sample_end a b)" by (simp add: keyed_plane_def dataplane_new_def)
  have chk: "replay_check replay_new 0" by (simp add: replay_check_def replay_new_def new_with_profile_def)
  have addr: "dp_peer_addr (keyed_plane a b) = ()" by simp
  show ?thesis
    using dec len c chk
    by (auto simp: on_udp_datagram_def keyed_probe_def on_control_def Let_def ses sample_end_def open_session_def keyed_aead_def
        on_control_frame_def seal_def bump_def checked_add_def u64_max_def)
qed

theorem epochs_lossless_witness:
  "\<exists>es'. inbound_open keyed_env (keyed_probe 4) 5
     (install_next (keyed_plane 3 4) [9] [8] (epoch_new (keyed_plane 1 2) 0 :: (f32, nat, unit, unit) EpochSet)) =
       Some (EpochSend [control_packet () \<lparr>sd_counter = 0, sd_ciphertext = control_encode (MtuProbeAck 1 8) @ replicate 16 3\<rparr>], es') \<and>
     ep_next es' = None \<and> ep_epoch es' = 2 \<and> ep_previous (retire_previous_if_due 15004 es') \<noteq> None \<and> ep_previous (retire_previous_if_due 15005 es') = None"
proof -
  let ?es = "install_next (keyed_plane 3 4) [9] [8] (epoch_new (keyed_plane 1 2) 0 :: (f32, nat, unit, unit) EpochSet)"
  have reach: "epoch_reach keyed_env ?es"
    unfolding keyed_plane_def by (intro epoch_reach.install epoch_reach.start sample_reach) simp_all
  have ok: "aead_ok (e_aead keyed_env)" by (simp add: keyed_aead_ok)
  have es: "ep_current ?es = keyed_plane 1 2" "ep_next ?es = Some \<lparr>ne_dp = keyed_plane 3 4, ne_init_eph = [9], ne_cached_resp = [8]\<rparr>" "ep_epoch ?es = 1"
    by (simp_all add: install_next_def epoch_new_def)
  obtain d1 where d1: "on_udp_datagram keyed_env (keyed_probe 4) 5 (keyed_plane 1 2) = Some (NoOutcome, d1)"
    using keyed_plane_probe [of 4 1 2] by auto
  obtain d2 where d2: "on_udp_datagram keyed_env (keyed_probe 4) 5 (keyed_plane 3 4) =
      Some (Send [control_packet () \<lparr>sd_counter = 0, sd_ciphertext = control_encode (MtuProbeAck 1 8) @ replicate 16 3\<rparr>], d2)"
    using keyed_plane_probe [of 4 3 4] by auto
  from epochs_lossless [OF reach ok, of "keyed_probe 4" 5] show ?thesis
    unfolding es option.case NextEpoch.simps d1 d2 by (auto simp: sat_add_def u64_max_def)
qed

end
