(* ===== verification/Spec2Isabelle.thy ===== *)
theory Spec2Isabelle
  imports Fec_Mismatch Delivery Noise Rlnc Spsc Mesh_Gossip Rdv_Client Reality Path Epoch
begin

text \<open>
  A verification development for \<^verbatim>\<open>yip\<close>, a mesh VPN written in Rust. A daemon (\<^verbatim>\<open>bin/yipd\<close>) takes packets
  from a tunnel device, seals them under the keys of a hybrid post-quantum handshake, protects the sealed
  objects by forward error correction over \<open>GF(2^8)\<close>, and sends the symbols as authenticated datagrams with
  masked headers. The receiver drops replays and forgeries, reassembles objects, reports losses, and hands
  packets to its device. Daemons know each other through signed records spread by gossip, and meet
  through a rendezvous server (\<^verbatim>\<open>bin/yip-rendezvous\<close>) that also relays, over UDP or over disguised TLS connections.

  \<^bold>\<open>Conventions.\<close> An operation that may panic returns an option, with \<^term>\<open>None\<close> for the panic; an error the source
  returns is the left side of a sum, and an early return a branch. Integers are words where bits or
  wrap-around matter, and naturals with the saturating and checked operations written out for sizes,
  times and counters. Mutable structs are records passed and returned. Clocks, random
  bytes and iteration orders of hash maps are arguments. Cryptography the sources only call (SipHash, BLAKE2s,
  ChaCha20-Poly1305, snow, ML-KEM, Ed25519, X25519, HKDF) is a parameter; the documented behaviour a
  theorem relies on is a named hypothesis (\<^verbatim>\<open>aead_ok\<close>, \<^verbatim>\<open>aead_total\<close>, \<^verbatim>\<open>snow_ok\<close>, \<^verbatim>\<open>kem_ok\<close> and the like), and its witness
  instantiates it by a concrete function. Floating-point operations are a parameter as well; what is claimed of the redundancy
  controller is proved for single precision with its rounding.

  \<^bold>\<open>Foundations.\<close>
  \<^item> \<^verbatim>\<open>Prelude\<close>: integer types, byte encodings, bounds-checked slices, the lexicographic order of byte strings,
    and the collections of rewrite rules of the other theories. \<^verbatim>\<open>Codecs\<close>: locales for wire formats, with round
    trip, uniqueness of the encoding and prefixes; every format is an interpretation.
  \<^item> \<^verbatim>\<open>Fifo_Cache\<close>: the bounded map with an arrival queue behind the flow table and the retransmit buffer.
    \<^verbatim>\<open>Daemon_Base\<close>: the datagram types of \<^verbatim>\<open>crates/yip-io/src/poll.rs\<close> that the parts of the daemon share.

  \<^bold>\<open>Error correction\<close> (\<^verbatim>\<open>crates/yip-transport/src\<close>).
  \<^item> \<^verbatim>\<open>Gf256\<close> (\<^verbatim>\<open>gf256.rs\<close>): the tables compute multiplication modulo \<^verbatim>\<open>0x11D\<close>, and bytes are a field. \<^verbatim>\<open>Simd\<close> (\<^verbatim>\<open>rs_simd.rs\<close>): every vector
    kernel, over a byte-lane semantics of the intrinsics, equals the scalar one.
  \<^item> \<^verbatim>\<open>Linear_Code\<close>: the linear algebra of Cauchy and power systems over any field. \<^verbatim>\<open>Gauss\<close>: \<^verbatim>\<open>invert\<close> of \<^verbatim>\<open>rs.rs\<close> returns the
    inverse or detects a singular matrix. \<^verbatim>\<open>Rs\<close>, \<^verbatim>\<open>Rs_Decode\<close> (\<^verbatim>\<open>rs.rs\<close>): any \<open>K\<close> shards of a codeword decode to the source.
  \<^item> \<^verbatim>\<open>Object_Table\<close>, \<^verbatim>\<open>Fec\<close>, \<^verbatim>\<open>Fec_Correct\<close>, \<^verbatim>\<open>Fec_Roundtrip\<close>, \<^verbatim>\<open>Fec_Mismatch\<close> (\<^verbatim>\<open>fec.rs\<close>): the open-addressing table refines a finite map;
    the reassembler never panics, is bounded, returns a frame exactly once on the \<open>K\<close>-th
    distinct symbol, and starves when the two ends disagree on the symbol size.
  \<^item> \<^verbatim>\<open>Rlnc\<close> (\<^verbatim>\<open>rlnc.rs\<close>): random linear network coding recovers the window exactly at full rank.

  \<^bold>\<open>Transport control\<close> (\<^verbatim>\<open>crates/yip-transport/src\<close>).
  \<^item> \<^verbatim>\<open>Feedback\<close> (\<^verbatim>\<open>feedback.rs\<close>), \<^verbatim>\<open>Plpmtu\<close> (\<^verbatim>\<open>plpmtu.rs\<close>), \<^verbatim>\<open>Loss_Detect\<close> (\<^verbatim>\<open>lossdetect.rs\<close>): control frames, the path-MTU search and its
    convergence, the exact accounts of missing counters.
  \<^item> \<^verbatim>\<open>Flow\<close> (\<^verbatim>\<open>classify.rs\<close>, \<^verbatim>\<open>flow.rs\<close>), \<^verbatim>\<open>Retx\<close> (\<^verbatim>\<open>retxbuf.rs\<close>), \<^verbatim>\<open>Controller\<close> (\<^verbatim>\<open>control.rs\<close>), \<^verbatim>\<open>Transport\<close> (\<^verbatim>\<open>lib.rs\<close>): classes of flows, retransmission,
    the repair ratio, and their composition with one reassembler per class. \<^verbatim>\<open>Float32\<close>: binary floating-point values as rationals,
    rounding to nearest with its monotonicity and error bound, and the operations of \<^verbatim>\<open>f32\<close>.

  \<^bold>\<open>Datagrams and sessions.\<close>
  \<^item> \<^verbatim>\<open>Wire\<close> (\<^verbatim>\<open>crates/yip-wire\<close>), \<^verbatim>\<open>Wire_Glue\<close> (\<^verbatim>\<open>bin/yipd/src/wire_glue.rs\<close>), \<^verbatim>\<open>Obf\<close> (\<^verbatim>\<open>crates/yip-obf\<close>): framing under header protection and a tag,
    its keys, and the envelope that hides the rest.
  \<^item> \<^verbatim>\<open>Replay\<close>, \<^verbatim>\<open>Session\<close> (\<^verbatim>\<open>crates/yip-crypto\<close>): the replay window with its exact verdicts, and sealing and opening; a frame opens
    once while the window remembers it, and nonces are unique, also between sharded workers.
  \<^item> \<^verbatim>\<open>Handshake_Msg\<close>, \<^verbatim>\<open>Noise\<close> (\<^verbatim>\<open>crates/yip-crypto\<close>, \<^verbatim>\<open>bin/yipd/src/handshake.rs\<close>): the hybrid handshake pairs the keys of the peers.

  \<^bold>\<open>Daemon\<close> (\<^verbatim>\<open>bin/yipd/src\<close>).
  \<^item> \<^verbatim>\<open>Mac_Table\<close> (\<^verbatim>\<open>mac_table.rs\<close>): the slab with an intrusive list refines a recency list.
  \<^item> \<^verbatim>\<open>Sent_Log\<close>, \<^verbatim>\<open>Data_Plane\<close>, \<^verbatim>\<open>Data_Plane_Inv\<close>, \<^verbatim>\<open>Delivery\<close> (\<^verbatim>\<open>dataplane.rs\<close>): the state \<^verbatim>\<open>DataPlane\<close> with every handler and the tick; the
    inductive relation \<^verbatim>\<open>dp_reach\<close> and the invariant every event keeps; delivery between two data planes.
  \<^item> \<^verbatim>\<open>Epoch\<close> (\<^verbatim>\<open>epoch.rs\<close>), \<^verbatim>\<open>Path\<close> (\<^verbatim>\<open>path.rs\<close>): the change of session keys loses nothing the open planes accept, and an
    uncommitted path escalates to the relay.
  \<^item> \<^verbatim>\<open>Spsc\<close> (\<^verbatim>\<open>crates/yip-io/src/spsc.rs\<close>): the ring between workers, cut into its accesses to shared memory with
    loads that may lag, refines a bounded queue under every interleaving.

  \<^bold>\<open>Mesh and rendezvous.\<close>
  \<^item> \<^verbatim>\<open>Mesh_Codec\<close> (\<^verbatim>\<open>crates/yip-membership\<close>), \<^verbatim>\<open>Mesh_Directory\<close>, \<^verbatim>\<open>Mesh_Gossip\<close> (\<^verbatim>\<open>bin/yipd/src/membership.rs\<close>): unique encodings of signed objects, the
    directory and its index, anti-entropy as a join.
  \<^item> \<^verbatim>\<open>Rdv_Proto\<close>, \<^verbatim>\<open>Rdv_Server\<close> (\<^verbatim>\<open>crates/yip-rendezvous\<close>): messages, registrations, rate limits, bounded tables.
  \<^item> \<^verbatim>\<open>Tls_Frame\<close> (\<^verbatim>\<open>bin/yipd/src/tls.rs\<close>), \<^verbatim>\<open>Rdv_Front\<close> (\<^verbatim>\<open>bin/yip-rendezvous/src/main.rs\<close>, \<^verbatim>\<open>conn.rs\<close>), \<^verbatim>\<open>Rdv_Client\<close> (\<^verbatim>\<open>bin/yipd/src/rendezvous.rs\<close>): frames on a stream,
    the fronts around the server, and the two clients as interpretations of one locale; together, two
    daemons find each other over the bytes on the wire.
  \<^item> \<^verbatim>\<open>Reality\<close> (\<^verbatim>\<open>crates/yip-utls/src/auth.rs\<close>, \<^verbatim>\<open>bin/yip-rendezvous/src/reality_replay.rs\<close>, \<^verbatim>\<open>tls_front.rs\<close>): the authentication of disguised connections; an
    accepted hello is never accepted again.

  This theory composes the handshake with the data planes built on it.

  \<^bold>\<open>Termination and fuel.\<close> The probing and shifting loops of the reassembly table have the number of slots as fuel: a
  loop that has visited every slot without stopping never stops, so running out is the value \<^term>\<open>None\<close>, and
  the invariant, which keeps a slot empty, shows that it does not occur. Dropping the ring's consumer is a partial
  function into options. Every other recursion is total.

  \<^bold>\<open>Not modelled.\<close> Sockets, devices, threads and event loops (\<^verbatim>\<open>crates/yip-io\<close> apart from the ring,
  \<^verbatim>\<open>crates/yip-device\<close>, \<^verbatim>\<open>tunnel.rs\<close>, \<^verbatim>\<open>main.rs\<close>), the control socket, configuration and metrics, which are I/O; the multi-peer
  dispatcher \<^verbatim>\<open>peer_manager\<close>, beyond the datagrams it exchanges with the rendezvous server; the QUIC transport, which pumps
  a third-party state machine; the imitation of a browser's TLS handshake in \<^verbatim>\<open>crates/yip-utls\<close> beyond its
  authentication; the certificate authority \<^verbatim>\<open>bin/yip-ca\<close>, a tool around files, network calls and
  a third-party threshold scheme. Timing, constant-time comparison and memory layout are outside the model.
\<close>

section \<open>From the handshake to the tunnel\<close>

text \<open>Sealing under a 32-byte key and a 12-byte nonce succeeds.\<close>

definition aead_total :: "aead \<Rightarrow> bool" where
  "aead_total A \<longleftrightarrow> (\<forall>k n p. length k = 32 \<longrightarrow> length n = 12 \<longrightarrow> aead_seal A k n p \<noteq> None)"

text \<open>The data plane a peer builds on an established session.\<close>

definition peer_plane :: "('f, 'g) dp_env \<Rightarrow> Established \<Rightarrow> TunnelMode \<Rightarrow> 'addr \<Rightarrow> bool \<Rightarrow> u16 \<Rightarrow> ('f, 'g, 'addr) DataPlane" where
  "peer_plane E est mode addr obf ssize =
     dataplane_new E est (conn_tag_from_keys (es_auth_key est) (es_hp_key est)) mode addr obf ssize"

lemma peer_plane_reach: "fresh_session (es_session est) \<Longrightarrow> ssize \<noteq> 0 \<Longrightarrow> dp_reach E (peer_plane E est mode addr obf ssize)"
  unfolding peer_plane_def by (rule dp_reach.start) (simp_all add: fresh_session_def u64_max_def replay_new_def)

lemma fresh_seal:
  assumes "aead_total A" "fresh_session s"
  shows "\<exists>sd s'. seal A s p = (Inr sd, s') \<and> sd_counter sd = 0"
proof -
  obtain ct tag where "aead_seal A (s_send_key s) (noise_nonce 0) p = Some (ct, tag)"
    using assms by (fastforce simp: aead_total_def fresh_session_def noise_nonce_def)
  then show ?thesis using assms(2) by (simp add: seal_def bump_def checked_add_def fresh_session_def u64_max_def)
qed

text \<open>C1: after a handshake the tunnel works. For Noise, ML-KEM and AEAD implementations that behave as documented, a
  handshake between two peers completes, and the data planes they build on it, with the same non-zero
  symbol size, carry a packet: the initiator turns its first packet into at least \<open>K\<close> datagrams; whichever
  of them arrive at the responder within the deadline, in any order and any number of times, the arrival
  that completes \<open>K\<close> distinct ones hands exactly this packet to the tunnel device, and every
  other arrival hands over nothing.\<close>

theorem handshake_then_delivery:
  fixes N :: "('h, 'r) snow" and M :: "('dk, 'r) kem" and E F :: "('f, 'g) dp_env" and addr addr' :: 'addr
  assumes "snow_ok N pub" "kem_ok M" "length a = 32" "length b = 32" "length pl + 900 \<le> 4096" "length q + 100 \<le> 4096"
    and "aead_ok (e_aead E)" "aead_total (e_aead E)" "e_sip F = e_sip E" "e_aead F = e_aead E"
    and "ssize \<noteq> 0" "length inner \<le> 65535" "length inner + 16 \<le> 254 * unat ssize"
    and "k = div_ceil (length inner + 16) (unat ssize)"
  shows "\<exists>hs pkt est_r resp est_i c out dp'.
    start_initiator N M rnd a (pub b) pl = Inr (hs, pkt) \<and> start_responder N M b2s rnd' b pkt q = Inr (est_r, resp, pub a, pl) \<and>
    read_response N M b2s rnd'' resp hs = Inr (est_i, q) \<and>
    on_tun_packet E inner now (peer_plane E est_i mode addr obf ssize) = Some (out, dp') \<and> k \<le> length out \<and>
    (\<forall>arr. (\<forall>(i, t) \<in> set arr. i < length out \<and> t \<le> sat_add (snd (hd arr)) (deadline_ms (params c))) \<longrightarrow>
       (\<exists>b'. dp_feed F (peer_plane F est_r mode' addr' obf' ssize) (map (\<lambda>(i, t). (ed_bytes (out ! i), t)) arr) =
               Some (map outcome_of (deliveries k inner {} (map fst arr)), b') \<and>
             length (filter (\<lambda>x. x \<noteq> None) (deliveries k inner {} (map fst arr))) = (if k \<le> card (fst ` set arr) then 1 else 0)))"
proof -
  obtain hs pkt est_r resp est_i where h: "start_initiator N M rnd a (pub b) pl = Inr (hs, pkt)"
    "start_responder N M b2s rnd' b pkt q = Inr (est_r, resp, pub a, pl)" "read_response N M b2s rnd'' resp hs = Inr (est_i, q)"
    "paired est_i est_r" "fresh_session (es_session est_i)" "fresh_session (es_session est_r)"
    using handshake_flow [OF assms(1-6)] by blast
  let ?a = "peer_plane E est_i mode addr obf ssize" and ?b = "peer_plane F est_r mode' addr' obf' ssize"
  have dp: "dp_session ?a = es_session est_i" "dp_session ?b = es_session est_r" "dp_codec ?b = dp_codec ?a"
    "tr_symbol_size (dp_transport ?a) = ssize" "tr_symbol_size (dp_transport ?b) = ssize"
    using h(4) by (simp_all add: peer_plane_def dataplane_new_def paired_def)
  obtain sd s' where s: "seal (e_aead E) (dp_session ?a) inner = (Inr sd, s')" "sd_counter sd = 0"
    using fresh_seal [OF assms(8) h(5)] dp(1) by metis
  have keys: "s_recv_key (dp_session ?b) = s_send_key (dp_session ?a)" using h(4) dp by (simp add: paired_def)
  have chk: "check_replay (dp_session ?b) (sd_counter sd)"
    using h(6) dp(2) by (simp add: check_replay_def fresh_session_def replay_new_def replay_check_def new_with_profile_def)
  have fresh: "unheard (of_nat (sd_counter sd)) ?b" by (simp add: unheard_def peer_plane_def dataplane_new_def transport_new_def)
  have sz: "tr_symbol_size (dp_transport ?b) = tr_symbol_size (dp_transport ?a)" using dp by simp
  have len: "length inner + 16 \<le> 254 * unat (tr_symbol_size (dp_transport ?a))"
    "k = div_ceil (length inner + 16) (unat (tr_symbol_size (dp_transport ?a)))" using assms(13,14) dp(4) by simp_all
  from delivery [OF assms(7,9,10) peer_plane_reach [OF h(5) assms(11)] peer_plane_reach [OF h(6) assms(11)] dp(3) keys sz s(1) chk fresh
      assms(12) len, of now] h(1-3)
  show ?thesis by blast
qed

theorem handshake_then_delivery_witness:
  "\<exists>hs pkt est_r resp est_i out dp'.
    start_initiator null_snow null_kem () (replicate 32 5) (replicate 32 6) [1] = Inr (hs, pkt) \<and>
    start_responder null_snow null_kem (\<lambda>_. replicate 32 0) () (replicate 32 6) pkt [2] = Inr (est_r, resp, replicate 32 5, [1]) \<and>
    read_response null_snow null_kem (\<lambda>_. replicate 32 0) () resp hs = Inr (est_i, [2]) \<and>
    on_tun_packet sample_env [9, 8, 7] 5 (peer_plane sample_env est_i L3Tun () False 4) = Some (out, dp') \<and> 5 \<le> length out \<and>
    (\<exists>b'. dp_feed sample_env (peer_plane sample_env est_r L3Tun () False 4)
       (map (\<lambda>(i, t). (ed_bytes (out ! i), t)) [(3, 10), (1, 11), (1, 11), (0, 12), (2, 12), (4, 13), (0, 14)]) =
       Some ([NoOutcome, NoOutcome, NoOutcome, NoOutcome, NoOutcome, TunWrite [9, 8, 7], NoOutcome], b'))"
proof -
  let ?arr = "[(3 :: nat, 10 :: nat), (1, 11), (1, 11), (0, 12), (2, 12), (4, 13), (0, 14)]"
  have len: "length (replicate 32 (5 :: u8)) = 32" "length (replicate 32 (6 :: u8)) = 32" "length [1 :: u8] + 900 \<le> 4096" "length [2 :: u8] + 100 \<le> 4096"
    by simp_all
  have tot: "aead_total (e_aead sample_env)" by (simp add: aead_total_def sample_env_def null_aead_def)
  have sz: "(4 :: u16) \<noteq> 0" "length [9 :: u8, 8, 7] \<le> 65535" "length [9 :: u8, 8, 7] + 16 \<le> 254 * unat (4 :: u16)"
    "5 = div_ceil (length [9 :: u8, 8, 7] + 16) (unat (4 :: u16))" by (simp_all add: div_ceil_def)
  obtain hs pkt est_r resp est_i c out dp' where o:
    "start_initiator null_snow null_kem () (replicate 32 5) (replicate 32 6) [1] = Inr (hs, pkt)"
    "start_responder null_snow null_kem (\<lambda>_. replicate 32 0) () (replicate 32 6) pkt [2] = Inr (est_r, resp, replicate 32 5, [1])"
    "read_response null_snow null_kem (\<lambda>_. replicate 32 0) () resp hs = Inr (est_i, [2])"
    "on_tun_packet sample_env [9, 8, 7] 5 (peer_plane sample_env est_i L3Tun () False 4) = Some (out, dp')" "5 \<le> length out"
    "\<And>arr. \<forall>(i, t) \<in> set arr. i < length out \<and> t \<le> sat_add (snd (hd arr)) (deadline_ms (params c)) \<Longrightarrow>
       \<exists>b'. dp_feed sample_env (peer_plane sample_env est_r L3Tun () False 4) (map (\<lambda>(i, t). (ed_bytes (out ! i), t)) arr) =
              Some (map outcome_of (deliveries 5 [9, 8, 7] {} (map fst arr)), b')"
    using handshake_then_delivery [OF null_snow_ok null_kem_ok len sample_env_aead tot refl refl sz,
        of "()" "\<lambda>_. replicate 32 0" "()" "()" 5 L3Tun "()" False L3Tun "()" False, unfolded id_apply]
    by (elim exE conjE) (rule that, assumption+, blast)
  have "10 \<le> deadline_ms (params c)" by (cases c) simp_all
  then have "\<forall>(i, t) \<in> set ?arr. i < length out \<and> t \<le> sat_add (snd (hd ?arr)) (deadline_ms (params c))"
    using o(5) by (auto simp: sat_add_def u64_max_def)
  from o(6) [OF this] have "\<exists>b'. dp_feed sample_env (peer_plane sample_env est_r L3Tun () False 4) (map (\<lambda>(i, t). (ed_bytes (out ! i), t)) ?arr) =
      Some ([NoOutcome, NoOutcome, NoOutcome, NoOutcome, NoOutcome, TunWrite [9, 8, 7], NoOutcome], b')"
    by (simp add: outcome_of_def del: dp_feed.simps)
  with o(1-5) show ?thesis by blast
qed

end
